(* ===== verification/Prelude.thy ===== *)
theory Prelude
  imports Main "HOL-Library.Word"
begin

text \<open>
  Shared vocabulary of the development: the result type of a Rust function body (a value, an
  \<open>Err\<close>, a panic, or no answer at all), checked slice and index accesses, and little and big
  endian readers and writers of machine integers. Every other theory builds on this one.

  Unsigned machine integers that are read from bytes are natural numbers in the range their width
  allows; signed ones are integers obtained by \<open>signed_of\<close>; a cast back to an unsigned type is
  \<open>wrap\<close>, which writes the reduction modulo the width out.
\<close>

section \<open>Bytes\<close>

type_synonym byte = "8 word"
type_synonym bytes = "byte list"

section \<open>Outcomes of a function body\<close>

text \<open>
  The errors are those the sources build with \<open>bail!\<close>, \<open>anyhow!\<close> or
  \<open>io::Error\<close>; the text of a message is reduced to the constructor and its arguments.
\<close>

datatype error =
    FileTooSmall
  | InvalidPageSize nat
  | NotFirebird nat
  | UnsupportedOds nat
  | MissingPointerPage nat
  | TableNotFound "nat list"
  | NoFormats nat
  | FormatNotFound nat nat
  | BlobTooShort
  | BlobNotFound
  | StreamBlobTruncated
  | BlobPageType nat
  | BlobPageBounds nat
  | NoFields nat
  | NoPrimaryKey "nat list"
  | NoSegments "nat list"
  | PkIndexMissing
  | UnexpectedEof
  | InvalidData string
  | SinkError "nat list"
  | PgError "nat list"

datatype 'a run = Val 'a | Err error | Panic | Hang

primrec rbind :: "'a run \<Rightarrow> ('a \<Rightarrow> 'b run) \<Rightarrow> 'b run" where
  "rbind (Val x) f = f x"
| "rbind (Err e) f = Err e"
| "rbind Panic f = Panic"
| "rbind Hang f = Hang"

lemma rbind_cong [fundef_cong]:
  "m = m' \<Longrightarrow> (\<And>x. m' = Val x \<Longrightarrow> f x = g x) \<Longrightarrow> rbind m f = rbind m' g"
  by (cases m') auto

lemma rbind_Val_iff: "rbind m f = Val y \<longleftrightarrow> (\<exists>x. m = Val x \<and> f x = Val y)"
  by (cases m) auto

lemma rbind_ValE:
  assumes "rbind m f = Val y"
  obtains x where "m = Val x" and "f x = Val y"
  using assms by (auto simp: rbind_Val_iff)

lemma rbind_assoc: "rbind (rbind m f) g = rbind m (\<lambda>x. rbind (f x) g)"
  by (cases m) auto

lemma rbind_Val_right [simp]: "rbind m Val = m"
  by (cases m) auto

lemma rbind_eq_Hang: "rbind m f = Hang \<longleftrightarrow> m = Hang \<or> (\<exists>x. m = Val x \<and> f x = Hang)"
  by (cases m) auto

lemma rbind_eq_Panic: "rbind m f = Panic \<longleftrightarrow> m = Panic \<or> (\<exists>x. m = Val x \<and> f x = Panic)"
  by (cases m) auto

lemma rbind_eq_Err: "rbind m f = Err e \<longleftrightarrow> m = Err e \<or> (\<exists>x. m = Val x \<and> f x = Err e)"
  by (cases m) auto

lemma rbind_if: "rbind (if b then m else n) f = (if b then rbind m f else rbind n f)"
  by simp

text \<open>A run that gives a value and one that neither panics nor hangs.\<close>

fun returns :: "'a run \<Rightarrow> bool" where
  "returns (Val x) \<longleftrightarrow> True"
| "returns _ \<longleftrightarrow> False"

fun safe :: "'a run \<Rightarrow> bool" where
  "safe (Val x) \<longleftrightarrow> True"
| "safe (Err e) \<longleftrightarrow> True"
| "safe _ \<longleftrightarrow> False"

lemma safe_rbind: "safe m \<Longrightarrow> (\<And>x. m = Val x \<Longrightarrow> safe (f x)) \<Longrightarrow> safe (rbind m f)"
  by (cases m) auto

lemma safe_iff: "safe m \<longleftrightarrow> m \<noteq> Panic \<and> m \<noteq> Hang"
  by (cases m) auto

lemma returns_iff: "returns m \<longleftrightarrow> (\<exists>x. m = Val x)"
  by (cases m) auto

text \<open>A \<open>for\<close> loop over a list whose body threads a state and may stop the function.\<close>

fun rfold :: "('a \<Rightarrow> 's \<Rightarrow> 's run) \<Rightarrow> 'a list \<Rightarrow> 's \<Rightarrow> 's run" where
  "rfold f [] s = Val s"
| "rfold f (x # xs) s = rbind (f x s) (rfold f xs)"

lemma rfold_append: "rfold f (xs @ ys) s = rbind (rfold f xs s) (rfold f ys)"
proof (induction xs arbitrary: s)
  case Nil
  then show ?case by simp
next
  case (Cons x xs)
  have "rfold f (xs @ ys) = (\<lambda>t. rbind (rfold f xs t) (rfold f ys))"
    using Cons.IH by auto
  then show ?case by (simp add: rbind_assoc)
qed

lemma rfold_invariant:
  "rfold f xs s = Val s' \<Longrightarrow> P s \<Longrightarrow>
   (\<And>x t t'. x \<in> set xs \<Longrightarrow> P t \<Longrightarrow> f x t = Val t' \<Longrightarrow> P t') \<Longrightarrow> P s'"
proof (induction xs arbitrary: s)
  case Nil
  then show ?case by simp
next
  case (Cons x xs)
  from Cons.prems(1) obtain t where t: "f x s = Val t" "rfold f xs t = Val s'"
    by (auto elim: rbind_ValE)
  have "P t" using Cons.prems(2,3) t(1) by (meson list.set_intros(1))
  then show ?case using Cons.IH [OF t(2)] Cons.prems(3) by (meson list.set_intros(2))
qed

lemma safe_rfold:
  "P s \<Longrightarrow> (\<And>x t. x \<in> set xs \<Longrightarrow> P t \<Longrightarrow> safe (f x t)) \<Longrightarrow>
   (\<And>x t t'. x \<in> set xs \<Longrightarrow> P t \<Longrightarrow> f x t = Val t' \<Longrightarrow> P t') \<Longrightarrow> safe (rfold f xs s)"
proof (induction xs arbitrary: s)
  case Nil
  then show ?case by simp
next
  case (Cons x xs)
  have "safe (rfold f xs t)" if "f x s = Val t" for t
    using that Cons.prems Cons.IH by (meson list.set_intros)
  then show ?case using Cons.prems(1,2) by (auto intro!: safe_rbind)
qed

text \<open>A loop that never stops early, seen through an abstraction of its state.\<close>

lemma rfold_refines_fold:
  "I a \<Longrightarrow> (\<And>x b. x \<in> set xs \<Longrightarrow> I b \<Longrightarrow> f x (conc b) = Val (conc (g x b)) \<and> I (g x b)) \<Longrightarrow>
   rfold f xs (conc a) = Val (conc (fold g xs a)) \<and> I (fold g xs a)"
proof (induction xs arbitrary: a)
  case Nil
  then show ?case by simp
next
  case (Cons x xs)
  from Cons.prems have "f x (conc a) = Val (conc (g x a)) \<and> I (g x a)" by simp
  with Cons.IH [of "g x a"] Cons.prems(2) show ?case by simp
qed

text \<open>
  A loop that gives a value has visited every element: what each turn establishes for its element
  holds at the end when later turns keep it.
\<close>

lemma rfold_visits:
  assumes "rfold f xs s = Val s'" and "P s"
    and "\<And>x t t'. x \<in> set xs \<Longrightarrow> P t \<Longrightarrow> f x t = Val t' \<Longrightarrow> P t' \<and> le t t' \<and> Q x t'"
    and "\<And>x t t'. le t t' \<Longrightarrow> Q x t \<Longrightarrow> Q x t'" and "\<And>t. le t t" and "\<And>t u v. le t u \<Longrightarrow> le u v \<Longrightarrow> le t v"
  shows "le s s' \<and> (\<forall>x \<in> set xs. Q x s')"
  using assms(1-3)
proof (induction xs arbitrary: s)
  case Nil
  then show ?case using assms(5) by simp
next
  case (Cons x xs)
  from Cons.prems(1) obtain t where t: "f x s = Val t" "rfold f xs t = Val s'"
    by (auto elim: rbind_ValE)
  have "P t \<and> le s t \<and> Q x t" using Cons.prems(3) [OF _ Cons.prems(2) t(1)] by simp
  moreover from this have "le t s' \<and> (\<forall>x \<in> set xs. Q x s')"
    by (intro Cons.IH [OF t(2)] Cons.prems(3)) auto
  ultimately show ?case using assms(4) [of t s' x] assms(6) [of s t s'] by auto
qed

text \<open>The output of a loop, collected along its list.\<close>

lemma rfold_collects:
  assumes "rfold f xs s = Val s'" and "R [] s"
    and "\<And>x t t' acc. x \<in> set xs \<Longrightarrow> R acc t \<Longrightarrow> f x t = Val t' \<Longrightarrow> R (acc @ g x) t'"
  shows "R (concat (map g xs)) s'"
proof -
  have "R (acc @ concat (map g xs)) s'" if "rfold f xs s = Val s'" "R acc s"
    "\<And>x t t' acc. x \<in> set xs \<Longrightarrow> R acc t \<Longrightarrow> f x t = Val t' \<Longrightarrow> R (acc @ g x) t'" for xs acc s
    using that
  proof (induction xs arbitrary: acc s)
    case (Cons x xs)
    from Cons.prems(1) obtain t where t: "f x s = Val t" "rfold f xs t = Val s'"
      by (auto elim: rbind_ValE)
    have "R (acc @ g x) t" using Cons.prems(3) [OF _ Cons.prems(2) t(1)] by simp
    from Cons.IH [OF t(2) this] Cons.prems(3) show ?case by simp
  qed simp
  from this [of xs s "[]"] assms show ?thesis by simp
qed

text \<open>A loop whose turns all give a value.\<close>

lemma rfold_runs:
  assumes "P s" and "\<And>x t. x \<in> set xs \<Longrightarrow> P t \<Longrightarrow> \<exists>t'. f x t = Val t' \<and> P t'"
  shows "\<exists>s'. rfold f xs s = Val s' \<and> P s'"
  using assms
proof (induction xs arbitrary: s)
  case (Cons x xs)
  then obtain t where "f x s = Val t" "P t" by (meson list.set_intros(1))
  with Cons.IH [of t] Cons.prems(2) show ?case by auto
qed simp

text \<open>A \<open>for\<close> loop whose body may also leave the function with a result (\<open>Inl\<close>).\<close>

fun efold :: "('a \<Rightarrow> 's \<Rightarrow> ('r + 's) run) \<Rightarrow> 'a list \<Rightarrow> 's \<Rightarrow> ('r + 's) run" where
  "efold f [] s = Val (Inr s)"
| "efold f (x # xs) s = rbind (f x s) (\<lambda>r. case r of Inl v \<Rightarrow> Val (Inl v) | Inr s' \<Rightarrow> efold f xs s')"

lemma efold_append:
  "efold f (xs @ ys) s =
     rbind (efold f xs s) (\<lambda>r. case r of Inl v \<Rightarrow> Val (Inl v) | Inr s' \<Rightarrow> efold f ys s')"
proof (induction xs arbitrary: s)
  case Nil
  then show ?case by simp
next
  case (Cons x xs)
  then show ?case by (cases "f x s") (auto split: sum.split)
qed

lemma safe_efold:
  "P s \<Longrightarrow> (\<And>x t. x \<in> set xs \<Longrightarrow> P t \<Longrightarrow> safe (f x t)) \<Longrightarrow>
   (\<And>x t t'. x \<in> set xs \<Longrightarrow> P t \<Longrightarrow> f x t = Val (Inr t') \<Longrightarrow> P t') \<Longrightarrow> safe (efold f xs s)"
proof (induction xs arbitrary: s)
  case Nil
  then show ?case by simp
next
  case (Cons x xs)
  have "safe (efold f xs t)" if "f x s = Val (Inr t)" for t
    using that Cons.prems Cons.IH by (meson list.set_intros)
  then show ?case using Cons.prems(1,2) by (auto intro!: safe_rbind split: sum.split)
qed

lemma efold_Inr_invariant:
  "efold f xs s = Val (Inr s') \<Longrightarrow> P s \<Longrightarrow>
   (\<And>x t t'. x \<in> set xs \<Longrightarrow> P t \<Longrightarrow> f x t = Val (Inr t') \<Longrightarrow> P t') \<Longrightarrow> P s'"
proof (induction xs arbitrary: s)
  case Nil
  then show ?case by simp
next
  case (Cons x xs)
  from Cons.prems(1) obtain t where t: "f x s = Val (Inr t)" "efold f xs t = Val (Inr s')"
    by (auto elim!: rbind_ValE split: sum.splits)
  have "P t" using Cons.prems(2,3) t(1) by (meson list.set_intros(1))
  then show ?case using Cons.IH [OF t(2)] Cons.prems(3) by (meson list.set_intros(2))
qed

lemma efold_Inl_invariant:
  "efold f xs s = Val (Inl v) \<Longrightarrow> P s \<Longrightarrow>
   (\<And>x t t'. x \<in> set xs \<Longrightarrow> P t \<Longrightarrow> f x t = Val (Inr t') \<Longrightarrow> P t') \<Longrightarrow>
   \<exists>x t. x \<in> set xs \<and> P t \<and> f x t = Val (Inl v)"
proof (induction xs arbitrary: s)
  case Nil
  then show ?case by simp
next
  case (Cons x xs)
  from Cons.prems(1) consider "f x s = Val (Inl v)"
    | t where "f x s = Val (Inr t)" "efold f xs t = Val (Inl v)"
    by (auto elim!: rbind_ValE split: sum.splits)
  then show ?case
  proof cases
    case 1
    then show ?thesis using Cons.prems(2) by auto
  next
    case 2
    have "P t" using Cons.prems(2,3) 2(1) by (meson list.set_intros(1))
    then show ?thesis using Cons.IH [OF 2(2)] Cons.prems(3) by (meson list.set_intros(2))
  qed
qed

lemma rfold_cong [fundef_cong]:
  "xs = ys \<Longrightarrow> s = t \<Longrightarrow> (\<And>x u. x \<in> set ys \<Longrightarrow> f x u = g x u) \<Longrightarrow> rfold f xs s = rfold g ys t"
proof (induction ys arbitrary: xs s t)
  case Nil
  then show ?case by simp
next
  case (Cons y ys)
  have "rfold f ys u = rfold g ys u" for u
    using Cons.IH [of ys u u] Cons.prems(3) by simp
  then show ?case using Cons.prems by (auto intro!: rbind_cong)
qed

section \<open>Checked accesses\<close>

text \<open>
  \<open>b[i]\<close> and \<open>b[i..j]\<close> panic out of range; \<open>byte_at\<close> and
  \<open>slice\<close> say so.
\<close>

definition byte_at :: "'a list \<Rightarrow> nat \<Rightarrow> 'a run" where
  "byte_at b i = (if i < length b then Val (b ! i) else Panic)"

definition slice :: "'a list \<Rightarrow> nat \<Rightarrow> nat \<Rightarrow> 'a list run" where
  "slice b i j = (if i \<le> j \<and> j \<le> length b then Val (take (j - i) (drop i b)) else Panic)"

lemma byte_at_Val [simp]: "i < length b \<Longrightarrow> byte_at b i = Val (b ! i)"
  by (simp add: byte_at_def)

lemma byte_at_Panic: "length b \<le> i \<Longrightarrow> byte_at b i = Panic"
  by (simp add: byte_at_def)

lemma slice_Val: "i \<le> j \<Longrightarrow> j \<le> length b \<Longrightarrow> slice b i j = Val (take (j - i) (drop i b))"
  by (simp add: slice_def)

lemma slice_full [simp]: "slice b 0 (length b) = Val b"
  by (simp add: slice_def)

lemma slice_ValE:
  assumes "slice b i j = Val s"
  obtains "i \<le> j" and "j \<le> length b" and "s = take (j - i) (drop i b)" and "length s = j - i"
  using assms by (auto simp: slice_def split: if_splits)

section \<open>Machine integers in bytes\<close>

primrec le_nat :: "bytes \<Rightarrow> nat" where
  "le_nat [] = 0"
| "le_nat (b # bs) = unat b + 256 * le_nat bs"

primrec le_bytes :: "nat \<Rightarrow> nat \<Rightarrow> bytes" where
  "le_bytes 0 v = []"
| "le_bytes (Suc n) v = of_nat v # le_bytes n (v div 256)"

definition be_nat :: "bytes \<Rightarrow> nat" where
  "be_nat bs = le_nat (rev bs)"

definition be_bytes :: "nat \<Rightarrow> nat \<Rightarrow> bytes" where
  "be_bytes n v = rev (le_bytes n v)"

text \<open>Two's complement: reading a \<open>w\<close>-bit value as signed, and the cast back.\<close>

definition signed_of :: "nat \<Rightarrow> nat \<Rightarrow> int" where
  "signed_of w n = (if n < 2 ^ (w - 1) then int n else int n - 2 ^ w)"

definition wrap :: "nat \<Rightarrow> int \<Rightarrow> nat" where
  "wrap w i = nat (i mod 2 ^ w)"

lemma unat_byte_less [simp]: "unat (b :: byte) < 256"
  using unsigned_less [of b] by simp

lemma unat_byte_le [simp]: "unat (b :: byte) \<le> 255"
  using unat_byte_less [of b] by linarith

lemma byte_eq_iff: "(b :: byte) = c \<longleftrightarrow> unat b = unat c"
  by (rule word_unat_eq_iff)

lemma unat_of_nat_byte [simp]: "unat (of_nat n :: byte) = n mod 256"
  by (simp add: unat_of_nat)

lemma of_nat_unat_mod_byte [simp]: "(of_nat (unat (b :: byte) + 256 * n) :: byte) = b"
proof -
  have "(of_nat 256 :: byte) = 0" by simp
  then show ?thesis by (simp only: of_nat_add of_nat_mult of_nat_unat ucast_id) simp
qed

lemma length_le_bytes [simp]: "length (le_bytes n v) = n"
  by (induction n arbitrary: v) auto

lemma length_be_bytes [simp]: "length (be_bytes n v) = n"
  by (simp add: be_bytes_def)

lemma le_bytes_2: "le_bytes 2 v = [of_nat v, of_nat (v div 256)]"
  by (simp add: numeral_2_eq_2)

lemma le_bytes_4:
  "le_bytes 4 v = [of_nat v, of_nat (v div 256), of_nat (v div 65536), of_nat (v div 16777216)]"
proof -
  have "le_bytes (Suc (Suc (Suc (Suc 0)))) v =
      [of_nat v, of_nat (v div 256), of_nat (v div 65536), of_nat (v div 16777216)]"
    by (simp add: div_mult2_eq [symmetric])
  moreover have "Suc (Suc (Suc (Suc 0))) = 4" by simp
  ultimately show ?thesis by (simp only:)
qed

lemma be_bytes_4:
  "be_bytes 4 v = [of_nat (v div 16777216), of_nat (v div 65536), of_nat (v div 256), of_nat v]"
  by (simp add: be_bytes_def le_bytes_4)

lemma le_nat_bound: "le_nat bs < 256 ^ length bs"
proof (induction bs)
  case Nil
  then show ?case by simp
next
  case (Cons b bs)
  have "unat b + 256 * le_nat bs < 256 * (le_nat bs + 1)"
    using unat_byte_less [of b] by (simp only: distrib_left mult_1_right)
  also have "\<dots> \<le> 256 * 256 ^ length bs"
    using Cons by (intro mult_le_mono2) simp
  finally show ?case by simp
qed

lemma le_nat_append: "le_nat (xs @ ys) = le_nat xs + 256 ^ length xs * le_nat ys"
  by (induction xs) (auto simp: algebra_simps)

lemma le_nat_zeros [simp]: "le_nat (replicate n 0) = 0"
  by (induction n) auto

lemma le_nat_le_bytes: "le_nat (le_bytes n v) = v mod 256 ^ n"
proof (induction n arbitrary: v)
  case 0
  then show ?case by simp
next
  case (Suc n)
  then show ?case by (simp add: mod_mult2_eq)
qed

lemma le_nat_le_bytes_id: "v < 256 ^ n \<Longrightarrow> le_nat (le_bytes n v) = v"
  by (simp add: le_nat_le_bytes)

lemma le_bytes_le_nat: "length bs = n \<Longrightarrow> le_bytes n (le_nat bs) = bs"
proof (induction bs arbitrary: n)
  case Nil
  then show ?case by simp
next
  case (Cons b bs)
  then show ?case using of_nat_unat_mod_byte [of b "le_nat bs"] by auto
qed

lemma le_nat_inject: "length xs = length ys \<Longrightarrow> le_nat xs = le_nat ys \<longleftrightarrow> xs = ys"
  by (metis le_bytes_le_nat)

lemma be_nat_be_bytes_id: "v < 256 ^ n \<Longrightarrow> be_nat (be_bytes n v) = v"
  by (simp add: be_nat_def be_bytes_def le_nat_le_bytes)

lemma be_bytes_be_nat: "length bs = n \<Longrightarrow> be_bytes n (be_nat bs) = bs"
  by (simp add: be_nat_def be_bytes_def le_bytes_le_nat)

lemma be_nat_bound: "be_nat bs < 256 ^ length bs"
  using le_nat_bound [of "rev bs"] by (simp add: be_nat_def)

lemma wrap_bound: "wrap w i < 2 ^ w"
  by (simp add: wrap_def nat_less_iff)

lemma wrap_signed: "n < 2 ^ w \<Longrightarrow> wrap w (signed_of w n) = n"
  by (simp add: wrap_def signed_of_def nat_mod_as_int)

lemma signed_wrap:
  assumes "0 < w" and "- (2 ^ (w - 1)) \<le> v" and "v < 2 ^ (w - 1)"
  shows "signed_of w (wrap w v) = v"
proof -
  have p: "(2 :: int) ^ w = 2 * 2 ^ (w - 1)"
    using assms(1) by (metis Suc_diff_1 power_Suc)
  have i: "int (wrap w v) = v mod 2 ^ w" by (simp add: wrap_def)
  have less: "wrap w v < 2 ^ (w - 1) \<longleftrightarrow> v mod 2 ^ w < 2 ^ (w - 1)"
    by (simp flip: i)
  show ?thesis
  proof (cases "v < 0")
    case True
    then have "v mod 2 ^ w = v + 2 ^ w"
      using assms(2) p mod_pos_pos_trivial [of "v + 2 ^ w" "2 ^ w"] by simp
    then show ?thesis using True assms p less i by (simp add: signed_of_def)
  next
    case False
    then have "v mod 2 ^ w = v" using assms p by (intro mod_pos_pos_trivial) auto
    then show ?thesis using False assms less i by (simp add: signed_of_def)
  qed
qed

text \<open>Little endian reads at an offset, which panic when the bytes are not there.\<close>

definition u16_at :: "bytes \<Rightarrow> nat \<Rightarrow> nat run" where
  "u16_at b i = rbind (slice b i (i + 2)) (\<lambda>s. Val (le_nat s))"

definition u32_at :: "bytes \<Rightarrow> nat \<Rightarrow> nat run" where
  "u32_at b i = rbind (slice b i (i + 4)) (\<lambda>s. Val (le_nat s))"

definition u64_at :: "bytes \<Rightarrow> nat \<Rightarrow> nat run" where
  "u64_at b i = rbind (slice b i (i + 8)) (\<lambda>s. Val (le_nat s))"

text \<open>The value of the \<open>n\<close> bytes at an offset that is in range.\<close>

abbreviation le_at :: "nat \<Rightarrow> bytes \<Rightarrow> nat \<Rightarrow> nat" where
  "le_at n b i \<equiv> le_nat (take n (drop i b))"

lemma u16_at_Val [simp]: "i + 2 \<le> length b \<Longrightarrow> u16_at b i = Val (le_at 2 b i)"
  by (simp add: u16_at_def slice_def)

lemma u32_at_Val [simp]: "i + 4 \<le> length b \<Longrightarrow> u32_at b i = Val (le_at 4 b i)"
  by (simp add: u32_at_def slice_def)

lemma u64_at_Val [simp]: "i + 8 \<le> length b \<Longrightarrow> u64_at b i = Val (le_at 8 b i)"
  by (simp add: u64_at_def slice_def)

lemma u16_at_Panic [simp]: "length b < i + 2 \<Longrightarrow> u16_at b i = Panic"
  by (simp add: u16_at_def slice_def)

lemma u32_at_Panic [simp]: "length b < i + 4 \<Longrightarrow> u32_at b i = Panic"
  by (simp add: u32_at_def slice_def)

text \<open>An access gives a value or panics, nothing else.\<close>

lemma access_not_Hang [simp]:
  "byte_at b i \<noteq> Hang" "slice b i j \<noteq> Hang" "u16_at c i \<noteq> Hang" "u32_at c i \<noteq> Hang" "u64_at c i \<noteq> Hang"
  by (simp_all add: byte_at_def slice_def u16_at_def u32_at_def u64_at_def)

lemma access_not_Err [simp]:
  "byte_at b i \<noteq> Err e" "slice b i j \<noteq> Err e" "u16_at c i \<noteq> Err e" "u32_at c i \<noteq> Err e" "u64_at c i \<noteq> Err e"
  by (simp_all add: byte_at_def slice_def u16_at_def u32_at_def u64_at_def)

lemma le_at_bound: "le_at n b i < 256 ^ n"
proof -
  have "le_at n b i < 256 ^ length (take n (drop i b))" by (rule le_nat_bound)
  also have "\<dots> \<le> 256 ^ n" by (rule power_increasing) auto
  finally show ?thesis .
qed

text \<open>A value below the lowest bit of another is added by \<open>or\<close>.\<close>

lemma or_push_bit_add: "x < 2 ^ k \<Longrightarrow> or (push_bit k m) x = 2 ^ k * m + (x :: nat)"
  by (metis add.commute disjunctive_add bit_push_bit_iff bit_take_bit_iff mult.commute not_less
      push_bit_eq_mult take_bit_nat_eq_self)

text \<open>Flag words: the tests \<open>flags & mask != 0\<close> of the sources.\<close>

definition has_flag :: "nat \<Rightarrow> nat \<Rightarrow> bool" where
  "has_flag fl m \<longleftrightarrow> and fl m \<noteq> 0"

lemma has_flag_or: "has_flag fl (or m n) \<longleftrightarrow> has_flag fl m \<or> has_flag fl n"
  by (simp add: has_flag_def bit_eq_iff bit_simps) blast

end
