(* ===== verification/Sqz.thy ===== *)
theory Sqz
  imports Prelude
begin

text \<open>
  The record decompressor, \<open>src/src/sqz.rs\<close>. A compressed record is a sequence of
  runs, each led by a signed control byte: a literal run, a short repeat, or a repeat with a
  16 or 32 bit count. \<open>decompress_impl\<close> is the source's loop over the index
  \<open>i\<close>; \<open>parse_runs\<close> and \<open>expand\<close> are the format as the
  module's documentation states it.
\<close>

section \<open>The decompressor\<close>

definition MAX_RECORD_SIZE :: nat where
  "MAX_RECORD_SIZE = 256 * 1024"

text \<open>
  The body of the loop is left with \<open>Stop\<close> (the early \<open>return false\<close>)
  or goes on with the next index and output.
\<close>

datatype turn = Stop bytes | Next nat bytes

text \<open>The repeat count of a negative control byte and the index behind it.\<close>

definition sqz_count :: "bytes \<Rightarrow> nat \<Rightarrow> int \<Rightarrow> (nat \<times> nat) option run" where
  "sqz_count input i ctrl =
     (if ctrl = -1 then
        (if i + 2 > length input then Val None
         else rbind (u16_at input i) (\<lambda>c. Val (Some (c, i + 2))))
      else if ctrl = -2 then
        (if i + 4 > length input then Val None
         else rbind (u32_at input i) (\<lambda>c.
           if c > MAX_RECORD_SIZE then Val None else Val (Some (c, i + 4))))
      else Val (Some (nat (- ctrl), i)))"

text \<open>The two arms of the body, and the size check at its end.\<close>

definition sqz_literal :: "bytes \<Rightarrow> nat \<Rightarrow> nat \<Rightarrow> bytes \<Rightarrow> turn run" where
  "sqz_literal input i n out =
     (if i + n > length input then Val (Stop out)
      else rbind (slice input i (i + n)) (\<lambda>s. Val (Next (i + n) (out @ s))))"

definition sqz_repeat :: "bytes \<Rightarrow> nat \<Rightarrow> int \<Rightarrow> bytes \<Rightarrow> turn run" where
  "sqz_repeat input i ctrl out =
     rbind (sqz_count input i ctrl) (\<lambda>r. case r of
       None \<Rightarrow> Val (Stop out)
     | Some (count, i) \<Rightarrow>
         if i \<ge> length input then Val (Stop out)
         else rbind (byte_at input i) (\<lambda>byte.
           if length out + count > MAX_RECORD_SIZE then Val (Stop out)
           else Val (Next (i + 1) (out @ replicate count byte))))"

fun sqz_check :: "turn \<Rightarrow> turn" where
  "sqz_check (Stop out) = Stop out"
| "sqz_check (Next i out) = (if length out > MAX_RECORD_SIZE then Stop out else Next i out)"

definition sqz_step :: "bytes \<Rightarrow> nat \<Rightarrow> bytes \<Rightarrow> turn run" where
  "sqz_step input i out =
     rbind (byte_at input i) (\<lambda>b.
     rbind (if sint b \<ge> 0 then sqz_literal input (i + 1) (nat (sint b)) out
            else sqz_repeat input (i + 1) (sint b) out)
       (\<lambda>t. Val (sqz_check t)))"

lemma sqz_step_progress: "sqz_step input i out = Val (Next j out') \<Longrightarrow> i < j"
  by (auto simp: sqz_step_def sqz_literal_def sqz_repeat_def sqz_count_def rbind_Val_iff
      elim!: sqz_check.elims [OF sym] split: if_splits option.splits prod.splits)

function sqz_loop :: "bytes \<Rightarrow> nat \<Rightarrow> bytes \<Rightarrow> (bool \<times> bytes) run" where
  "sqz_loop input i out =
     (if i < length input then
        rbind (sqz_step input i out) (\<lambda>t. case t of
          Stop out' \<Rightarrow> Val (False, out')
        | Next j out' \<Rightarrow> sqz_loop input j out')
      else Val (True, out))"
  by pat_completeness auto
termination
  by (relation "measure (\<lambda>(input, i, out). length input - i)")
    (auto dest: sqz_step_progress)

declare sqz_loop.simps [simp del]

definition decompress_impl :: "bytes \<Rightarrow> bytes \<Rightarrow> (bool \<times> bytes) run" where
  "decompress_impl input out = sqz_loop input 0 out"

definition decompress_into :: "bytes \<Rightarrow> bytes \<Rightarrow> (bool \<times> bytes) run" where
  "decompress_into input out = decompress_impl input []"

definition decompress :: "bytes \<Rightarrow> bytes option run" where
  "decompress input =
     rbind (decompress_impl input []) (\<lambda>(ok, out). Val (if ok then Some out else None))"

section \<open>The format\<close>

datatype sqz_run = Lit bytes | Rep nat byte

fun expand_run :: "sqz_run \<Rightarrow> bytes" where
  "expand_run (Lit bs) = bs"
| "expand_run (Rep n b) = replicate n b"

definition expand :: "sqz_run list \<Rightarrow> bytes" where
  "expand rs = concat (map expand_run rs)"

text \<open>The run that starts a non-empty stream, and what is left behind it.\<close>

definition parse_run :: "byte \<Rightarrow> bytes \<Rightarrow> (sqz_run \<times> bytes) option" where
  "parse_run c bs =
     (if unat c < 128 then
        (if unat c \<le> length bs then Some (Lit (take (unat c) bs), drop (unat c) bs) else None)
      else if c = 255 then
        (if 3 \<le> length bs then Some (Rep (le_nat (take 2 bs)) (bs ! 2), drop 3 bs) else None)
      else if c = 254 then
        (if 5 \<le> length bs then Some (Rep (le_nat (take 4 bs)) (bs ! 4), drop 5 bs) else None)
      else (case bs of [] \<Rightarrow> None | b # rest \<Rightarrow> Some (Rep (256 - unat c) b, rest)))"

lemma parse_run_shorter: "parse_run c bs = Some (r, rest) \<Longrightarrow> length rest \<le> length bs"
  by (auto simp: parse_run_def split: if_splits list.splits)

function parse_runs :: "bytes \<Rightarrow> sqz_run list option" where
  "parse_runs [] = Some []"
| "parse_runs (c # bs) =
     (case parse_run c bs of
        None \<Rightarrow> None
      | Some (r, rest) \<Rightarrow> map_option (Cons r) (parse_runs rest))"
  by pat_completeness auto
termination
  by (relation "measure length") (auto dest: parse_run_shorter)

text \<open>What a stream says of an output that has \<open>n\<close> bytes already.\<close>

definition sqz_meaning :: "bytes \<Rightarrow> nat \<Rightarrow> bytes option" where
  "sqz_meaning bs n =
     (case parse_runs bs of
        None \<Rightarrow> None
      | Some rs \<Rightarrow> if n + length (expand rs) \<le> MAX_RECORD_SIZE then Some (expand rs) else None)"

section \<open>The loop computes the meaning of the stream\<close>

lemma sint_byte: "sint (b :: byte) = (if unat b < 128 then int (unat b) else int (unat b) - 256)"
proof -
  have s: "sint b = (uint b + 128) mod 256 - 128"
    by (simp add: sint_uint signed_take_bit_eq_take_bit_shift take_bit_eq_mod)
  obtain n where n: "unat b = n" and u: "uint b = int n" and "n < 256"
    using unat_byte_less [of b] by (metis uint_nat)
  show ?thesis
  proof (cases "n < 128")
    case True
    then show ?thesis unfolding s u n by simp
  next
    case False
    then have "(int n + 128) mod 256 = (int n - 128 + 256) mod 256" by (simp add: add.commute)
    also have "\<dots> = int n - 128"
      using False \<open>n < 256\<close> by (subst mod_add_self2) (rule mod_pos_pos_trivial; simp)
    finally have "(int n + 128) mod 256 = int n - 128" .
    with False show ?thesis unfolding s u n by simp
  qed
qed

text \<open>One turn agrees with one run of the stream.\<close>

definition turn_ok :: "turn \<Rightarrow> bytes \<Rightarrow> bytes \<Rightarrow> (sqz_run \<times> bytes) option \<Rightarrow> bool" where
  "turn_ok t input out p =
     (case p of
        None \<Rightarrow> (\<exists>out'. t = Stop out')
      | Some (r, rest) \<Rightarrow>
          if length out + length (expand_run r) \<le> MAX_RECORD_SIZE
          then (\<exists>j. t = Next j (out @ expand_run r) \<and> j \<le> length input \<and> drop j input = rest)
          else (\<exists>out'. t = Stop out'))"

lemma sqz_literal_val:
  "sqz_literal input i n out =
     Val (if i + n \<le> length input then Next (i + n) (out @ take n (drop i input)) else Stop out)"
  by (simp add: sqz_literal_def slice_def)

lemma sqz_count_val:
  "sqz_count input i ctrl =
     Val (if ctrl = -1 then (if i + 2 \<le> length input then Some (le_at 2 input i, i + 2) else None)
          else if ctrl = -2 then
            (if i + 4 \<le> length input \<and> le_at 4 input i \<le> MAX_RECORD_SIZE
             then Some (le_at 4 input i, i + 4) else None)
          else Some (nat (- ctrl), i))"
  by (simp add: sqz_count_def)

lemma sqz_repeat_val:
  "sqz_repeat input i ctrl out =
     (case sqz_count input i ctrl of
        Val (Some (count, j)) \<Rightarrow>
          Val (if j < length input \<and> length out + count \<le> MAX_RECORD_SIZE
               then Next (j + 1) (out @ replicate count (input ! j)) else Stop out)
      | _ \<Rightarrow> Val (Stop out))"
  by (simp add: sqz_repeat_def sqz_count_val)

lemma sqz_step_literal:
  assumes "i < length input" and "unat (input ! i) < 128"
  shows "\<exists>t. sqz_step input i out = Val t \<and>
           turn_ok t input out (parse_run (input ! i) (drop (Suc i) input))"
  using assms
  by (auto simp: sqz_step_def sqz_literal_val turn_ok_def parse_run_def sint_byte add.commute)

text \<open>The three repeat forms differ in how many bytes carry the count.\<close>

lemma sqz_step_counted:
  assumes "i < length input" and "sint (input ! i) < 0"
    and "sqz_count input (Suc i) (sint (input ! i)) =
           Val (if Suc i + k \<le> length input \<and> n \<le> m then Some (n, Suc i + k) else None)"
    and "m < MAX_RECORD_SIZE \<Longrightarrow> n \<le> m"
    and "parse_run (input ! i) (drop (Suc i) input) =
           (if k < length (drop (Suc i) input)
            then Some (Rep n (drop (Suc i) input ! k), drop (Suc k) (drop (Suc i) input)) else None)"
  shows "\<exists>t. sqz_step input i out = Val t \<and>
           turn_ok t input out (parse_run (input ! i) (drop (Suc i) input))"
proof -
  have "sqz_step input i out =
          rbind (sqz_repeat input (Suc i) (sint (input ! i)) out) (\<lambda>t. Val (sqz_check t))"
    using assms(1,2) by (simp add: sqz_step_def)
  then show ?thesis
    using assms(4) unfolding assms(5) sqz_repeat_val assms(3)
    by (auto simp: turn_ok_def add.commute [of k])
qed

lemma sqz_count_short:
  fixes b :: byte
  assumes "\<not> unat b < 128" and "b \<noteq> 255" and "b \<noteq> 254"
  shows "sqz_count input i (sint b) = Val (Some (256 - unat b, i))"
proof -
  obtain n where n: "unat b = n" and "n < 256" using unat_byte_less [of b] by blast
  have s: "sint b = int n - 256" using assms(1) n sint_byte [of b] by auto
  have "n \<noteq> 255" and "n \<noteq> 254" using assms(2,3) n by (auto simp: byte_eq_iff)
  then show ?thesis using \<open>n < 256\<close> unfolding sqz_count_val s n by (simp add: nat_diff_distrib)
qed

lemma sqz_step_run:
  assumes i: "i < length input"
  shows "\<exists>t. sqz_step input i out = Val t \<and>
           turn_ok t input out (parse_run (input ! i) (drop (Suc i) input))"
proof (cases "unat (input ! i) < 128")
  case True
  with i show ?thesis by (rule sqz_step_literal)
next
  case False
  let ?c = "input ! i"
  have neg: "sint ?c < 0"
    using False uint_lt2p [of ?c] by (simp add: sint_byte)
  consider "?c = 255" | "?c = 254" | "?c \<noteq> 255" "?c \<noteq> 254" by blast
  then show ?thesis
  proof cases
    case 1
    show ?thesis
      by (rule sqz_step_counted [OF i neg, where k = 2 and n = "le_at 2 input (Suc i)" and
            m = "le_at 2 input (Suc i)"])
        (auto simp: 1 sqz_count_val parse_run_def)
  next
    case 2
    show ?thesis
      by (rule sqz_step_counted [OF i neg, where k = 4 and n = "le_at 4 input (Suc i)" and
            m = MAX_RECORD_SIZE])
        (auto simp: 2 sqz_count_val parse_run_def)
  next
    case 3
    have d: "Suc i < length input \<Longrightarrow>
        drop (Suc i) input = input ! Suc i # drop (Suc (Suc i)) input"
      by (simp add: Cons_nth_drop_Suc)
    show ?thesis
      by (rule sqz_step_counted [OF i neg, where k = 0 and n = "256 - unat ?c" and
            m = "256 - unat ?c"])
        (use 3 False i in \<open>auto simp: sqz_count_short parse_run_def d\<close>)
  qed
qed

lemma parse_runs_Cons_meaning:
  "sqz_meaning (c # bs) n =
     (case parse_run c bs of
        None \<Rightarrow> None
      | Some (r, rest) \<Rightarrow>
          if n + length (expand_run r) \<le> MAX_RECORD_SIZE
          then map_option (\<lambda>out. expand_run r @ out) (sqz_meaning rest (n + length (expand_run r)))
          else None)"
  by (auto simp: sqz_meaning_def expand_def split: option.splits)

lemma sqz_meaning_Nil [simp]: "sqz_meaning [] n = (if n \<le> MAX_RECORD_SIZE then Some [] else None)"
  by (simp add: sqz_meaning_def expand_def)

lemma sqz_loop_meaning:
  "i \<le> length input \<Longrightarrow> length out \<le> MAX_RECORD_SIZE \<Longrightarrow>
   \<exists>junk. sqz_loop input i out =
     Val (case sqz_meaning (drop i input) (length out) of
            Some more \<Rightarrow> (True, out @ more) | None \<Rightarrow> (False, junk))"
proof (induction input i out rule: sqz_loop.induct)
  case (1 input i out)
  show ?case
  proof (cases "i < length input")
    case False
    with "1.prems" show ?thesis by (simp add: sqz_loop.simps)
  next
    case True
    let ?p = "parse_run (input ! i) (drop (Suc i) input)"
    have d: "drop i input = input ! i # drop (Suc i) input"
      using True by (simp add: Cons_nth_drop_Suc)
    obtain t where t: "sqz_step input i out = Val t" and ok: "turn_ok t input out ?p"
      using sqz_step_run [OF True] by blast
    show ?thesis
    proof (cases t)
      case (Stop out')
      with ok have "sqz_meaning (drop i input) (length out) = None"
        by (auto simp: d parse_runs_Cons_meaning turn_ok_def split: option.splits if_splits)
      then show ?thesis using True t Stop by (simp add: sqz_loop.simps)
    next
      case (Next j out')
      with ok obtain r rest where p: "?p = Some (r, rest)" and j: "j \<le> length input"
          and rest: "drop j input = rest" and out': "out' = out @ expand_run r"
          and le: "length out' \<le> MAX_RECORD_SIZE"
        by (auto simp: turn_ok_def split: option.splits if_splits)
      from "1.IH" [OF True t] Next j le obtain junk where
        "sqz_loop input j out' =
           Val (case sqz_meaning rest (length out') of
                  Some more \<Rightarrow> (True, out' @ more) | None \<Rightarrow> (False, junk))"
        using rest by auto
      with True t Next show ?thesis
        using le by (auto simp: sqz_loop.simps [of input i] d parse_runs_Cons_meaning p out'
            split: option.splits)
    qed
  qed
qed

lemma decompress_meaning: "decompress input = Val (sqz_meaning input 0)"
proof -
  obtain junk where "sqz_loop input 0 [] =
     Val (case sqz_meaning input 0 of Some more \<Rightarrow> (True, [] @ more) | None \<Rightarrow> (False, junk))"
    using sqz_loop_meaning [of 0 input "[]"] by auto
  then show ?thesis
    by (auto simp: decompress_def decompress_impl_def split: option.splits)
qed

lemma decompress_into_meaning:
  "\<exists>junk. decompress_into input out =
     Val (case sqz_meaning input 0 of Some more \<Rightarrow> (True, more) | None \<Rightarrow> (False, junk))"
  using sqz_loop_meaning [of 0 input "[]"]
  by (simp add: decompress_into_def decompress_impl_def cong: option.case_cong)

section \<open>An encoder for the format\<close>

text \<open>
  The runs written back as the module's documentation describes them: a literal of at most 127
  bytes behind its length (the \<open>sqz_literal\<close> of the unit tests), a repeat in the
  shortest form that can hold its count.
\<close>

fun encode_run :: "sqz_run \<Rightarrow> bytes" where
  "encode_run (Lit bs) = of_nat (length bs) # bs"
| "encode_run (Rep n b) =
     (if 3 \<le> n \<and> n \<le> 128 then [of_nat (256 - n), b]
      else if n < 2 ^ 16 then 255 # le_bytes 2 n @ [b]
      else 254 # le_bytes 4 n @ [b])"

fun encodable :: "sqz_run \<Rightarrow> bool" where
  "encodable (Lit bs) \<longleftrightarrow> length bs \<le> 127"
| "encodable (Rep n b) \<longleftrightarrow> n < 2 ^ 32"

definition encode_runs :: "sqz_run list \<Rightarrow> bytes" where
  "encode_runs rs = concat (map encode_run rs)"

lemma parse_encode_run:
  assumes "encodable r"
  shows "parse_runs (encode_run r @ rest) = map_option (Cons r) (parse_runs rest)"
proof (cases r)
  case (Lit bs)
  with assms show ?thesis by (simp add: parse_run_def)
next
  case (Rep n b)
  consider "3 \<le> n" "n \<le> 128" | "\<not> (3 \<le> n \<and> n \<le> 128)" "n < 2 ^ 16"
    | "\<not> (3 \<le> n \<and> n \<le> 128)" "\<not> n < 2 ^ 16" by blast
  then show ?thesis
  proof cases
    case 1
    have u: "unat (of_nat (256 - n) :: byte) = 256 - n"
      unfolding unat_of_nat_byte using 1 by simp
    obtain c :: byte where c: "of_nat (256 - n) = c" by blast
    have "encode_run r = [c, b]" using 1 unfolding Rep c [symmetric] by simp
    moreover have "\<not> unat c < 128" and "c \<noteq> 255" and "c \<noteq> 254" and "256 - unat c = n"
      using u [unfolded c] 1 by (auto simp: byte_eq_iff)
    then have "parse_run c (b # rest) = Some (Rep n b, rest)" by (simp add: parse_run_def)
    ultimately show ?thesis by (simp add: Rep)
  next
    case 2
    then have "le_nat (le_bytes 2 n) = n" by (intro le_nat_le_bytes_id) simp
    with 2 show ?thesis by (auto simp: Rep parse_run_def nth_append)
  next
    case 3
    then have "le_nat (le_bytes 4 n) = n" using assms Rep by (intro le_nat_le_bytes_id) simp
    with 3 show ?thesis by (auto simp: Rep parse_run_def nth_append)
  qed
qed

lemma parse_encode_runs: "list_all encodable rs \<Longrightarrow> parse_runs (encode_runs rs) = Some rs"
  by (induction rs) (auto simp: encode_runs_def parse_encode_run)

section \<open>Properties\<close>

text \<open>
  C22. The decompressor computes the documented format on every input, malformed ones included:
  it never panics, always ends, gives \<open>None\<close> exactly when the stream is not a
  sequence of complete runs or their output exceeds \<open>MAX_RECORD_SIZE\<close>, and
  otherwise the concatenation of the runs' expansions.
\<close>

theorem decompress_correct:
  "decompress input =
     Val (case parse_runs input of
            None \<Rightarrow> None
          | Some rs \<Rightarrow> if length (expand rs) \<le> MAX_RECORD_SIZE then Some (expand rs) else None)"
  by (simp add: decompress_meaning sqz_meaning_def split: option.split)

text \<open>
  The buffer-reusing entry point agrees with the allocating one: whatever the caller's buffer
  held before, \<open>decompress_into\<close> returns true exactly when \<open>decompress\<close>
  returns a record, and the buffer then holds that record.
\<close>

theorem decompress_into_agrees:
  "\<exists>ok buf. decompress_into input out = Val (ok, buf) \<and>
     decompress input = Val (if ok then Some buf else None)"
  using decompress_into_meaning [of input out] by (auto simp: decompress_meaning split: option.splits)

text \<open>
  Every sequence of runs that the format can express, in all three repeat forms and with
  literals of at most 127 bytes, decompresses to its expansion, as long as that fits into a
  record.
\<close>

theorem decompress_encode_runs:
  assumes "list_all encodable rs" and "length (expand rs) \<le> MAX_RECORD_SIZE"
  shows "decompress (encode_runs rs) = Val (Some (expand rs))"
  using assms by (simp add: decompress_meaning sqz_meaning_def parse_encode_runs)

theorem decompress_encode_runs_witness:
  "decompress [3, 7, 20, 48, 135, 42, 0, 1, 65] =
     Val (Some ([7, 20, 48] @ replicate 121 42 @ [65]))"
proof -
  have "list_all encodable [Lit [7, 20, 48], Rep 121 42, Lit [], Lit [65]]" by simp
  moreover have "length (expand [Lit [7, 20, 48], Rep 121 42, Lit [], Lit [65]]) \<le> MAX_RECORD_SIZE"
    by (simp add: expand_def MAX_RECORD_SIZE_def)
  ultimately have "decompress (encode_runs [Lit [7, 20, 48], Rep 121 42, Lit [], Lit [65]]) =
      Val (Some (expand [Lit [7, 20, 48], Rep 121 42, Lit [], Lit [65]]))"
    by (rule decompress_encode_runs)
  then show ?thesis by (simp add: encode_runs_def expand_def)
qed

end
