(* ===== verification/Rust_Str.thy ===== *)
theory Rust_Str
  imports Prelude "HOL-Library.List_Lexorder"
begin

text \<open>
  What the sources use of Rust's string library. A \<open>str\<close> is the list of its code
  points; \<open>utf8_encode\<close> gives its bytes and \<open>utf8_decode\<close> is
  \<open>str::from_utf8\<close>. The Unicode case tables are not spelled out: case conversion is
  exact on ASCII and takes the rest of the table as a parameter.
\<close>

type_synonym str = "nat list"

definition lit :: "string \<Rightarrow> str" where
  "lit s = map of_char s"

section \<open>UTF-8\<close>

text \<open>A Unicode scalar value: what a Rust \<open>char\<close> can be.\<close>

definition scalar :: "nat \<Rightarrow> bool" where
  "scalar c \<longleftrightarrow> c < 0x110000 \<and> \<not> (0xD800 \<le> c \<and> c < 0xE000)"

definition utf8_char :: "nat \<Rightarrow> bytes" where
  "utf8_char c =
     (if c < 0x80 then [of_nat c]
      else if c < 0x800 then [of_nat (0xC0 + c div 64), of_nat (0x80 + c mod 64)]
      else if c < 0x10000 then
        [of_nat (0xE0 + c div 4096), of_nat (0x80 + c div 64 mod 64), of_nat (0x80 + c mod 64)]
      else
        [of_nat (0xF0 + c div 262144), of_nat (0x80 + c div 4096 mod 64),
         of_nat (0x80 + c div 64 mod 64), of_nat (0x80 + c mod 64)])"

definition utf8_encode :: "str \<Rightarrow> bytes" where
  "utf8_encode s = concat (map utf8_char s)"

text \<open>The six payload bits of a continuation byte.\<close>

definition cont :: "byte \<Rightarrow> nat option" where
  "cont b = (if 0x80 \<le> unat b \<and> unat b < 0xC0 then Some (unat b - 0x80) else None)"

definition checked :: "nat \<Rightarrow> nat \<Rightarrow> str option \<Rightarrow> str option" where
  "checked low c rest = (if low \<le> c \<and> scalar c then map_option (Cons c) rest else None)"

text \<open>
  \<open>str::from_utf8\<close>: well-formed sequences only, no overlong forms, no surrogates,
  nothing above \<open>U+10FFFF\<close>.
\<close>

fun utf8_decode :: "bytes \<Rightarrow> str option" where
  "utf8_decode [] = Some []"
| "utf8_decode (b # bs) =
     (let n = unat b in
      if n < 0x80 then checked 0 n (utf8_decode bs)
      else if n < 0xC0 then None
      else if n < 0xE0 then
        (case bs of
           b1 # bs1 \<Rightarrow>
             (case cont b1 of
                Some c1 \<Rightarrow> checked 0x80 ((n - 0xC0) * 64 + c1) (utf8_decode bs1)
              | _ \<Rightarrow> None)
         | _ \<Rightarrow> None)
      else if n < 0xF0 then
        (case bs of
           b1 # b2 # bs2 \<Rightarrow>
             (case (cont b1, cont b2) of
                (Some c1, Some c2) \<Rightarrow>
                  checked 0x800 ((n - 0xE0) * 4096 + c1 * 64 + c2) (utf8_decode bs2)
              | _ \<Rightarrow> None)
         | _ \<Rightarrow> None)
      else if n < 0xF8 then
        (case bs of
           b1 # b2 # b3 # bs3 \<Rightarrow>
             (case (cont b1, cont b2, cont b3) of
                (Some c1, Some c2, Some c3) \<Rightarrow>
                  checked 0x10000 ((n - 0xF0) * 262144 + c1 * 4096 + c2 * 64 + c3) (utf8_decode bs3)
              | _ \<Rightarrow> None)
         | _ \<Rightarrow> None)
      else None)"

lemma cont_of_nat: "x < 64 \<Longrightarrow> cont (of_nat (0x80 + x)) = Some x"
  unfolding cont_def unat_of_nat_byte by simp

lemma base64_digits:
  fixes c :: nat
  shows "c div 4096 * 4096 + c div 64 mod 64 * 64 + c mod 64 = c"
    and "c div 262144 * 262144 + c div 4096 mod 64 * 4096 + c div 64 mod 64 * 64 + c mod 64 = c"
proof -
  define q r q2 r2 q3 r3 where "q = c div 64" and "r = c mod 64" and "q2 = q div 64"
    and "r2 = q mod 64" and "q3 = q2 div 64" and "r3 = q2 mod 64"
  have d: "c = q * 64 + r" "q = q2 * 64 + r2" "q2 = q3 * 64 + r3"
    by (simp_all add: q_def r_def q2_def r2_def q3_def r3_def)
  have e: "c div 4096 = q2" "c div 262144 = q3" "c mod 64 = r" "c div 64 mod 64 = r2"
    by (simp_all add: q_def q2_def q3_def r_def r2_def div_mult2_eq [symmetric])
  have r3: "q2 mod 64 = r3" by (simp add: r3_def)
  show "c div 4096 * 4096 + c div 64 mod 64 * 64 + c mod 64 = c"
    unfolding e using d(1,2) by linarith
  show "c div 262144 * 262144 + c div 4096 mod 64 * 4096 + c div 64 mod 64 * 64 + c mod 64 = c"
    unfolding e r3 using d by linarith
qed

lemma utf8_decode_char:
  assumes "scalar c"
  shows "utf8_decode (utf8_char c @ bs) = map_option (Cons c) (utf8_decode bs)"
proof -
  consider "c < 0x80" | "0x80 \<le> c" "c < 0x800" | "0x800 \<le> c" "c < 0x10000"
    | "0x10000 \<le> c" "c < 0x110000"
    using assms by (metis not_le scalar_def)
  then show ?thesis
  proof cases
    case 1
    with assms show ?thesis by (simp add: utf8_char_def checked_def)
  next
    case 2
    obtain b b1 :: byte where b: "of_nat (0xC0 + c div 64) = b" "of_nat (0x80 + c mod 64) = b1"
      by blast
    have "unat b = 0xC0 + c div 64" unfolding b [symmetric] unat_of_nat_byte using 2 by auto
    moreover have "cont b1 = Some (c mod 64)"
      unfolding b [symmetric] by (rule cont_of_nat) simp
    moreover have "c div 64 * 64 + c mod 64 = c" and "c div 64 < 32" using 2 by auto
    ultimately show ?thesis using 2 assms unfolding utf8_char_def b
      by (simp add: checked_def Let_def)
  next
    case 3
    obtain b b1 b2 :: byte where b: "of_nat (0xE0 + c div 4096) = b"
        "of_nat (0x80 + c div 64 mod 64) = b1" "of_nat (0x80 + c mod 64) = b2"
      by blast
    have "unat b = 0xE0 + c div 4096" unfolding b [symmetric] unat_of_nat_byte using 3 by auto
    moreover have "cont b1 = Some (c div 64 mod 64)" "cont b2 = Some (c mod 64)"
      unfolding b [symmetric] by (simp_all add: cont_of_nat del: of_nat_add)
    moreover have "c div 4096 < 16" using 3 by auto
    moreover note base64_digits(1) [of c]
    ultimately show ?thesis using 3 assms unfolding utf8_char_def b
      by (simp add: checked_def Let_def)
  next
    case 4
    obtain b b1 b2 b3 :: byte where b: "of_nat (0xF0 + c div 262144) = b"
        "of_nat (0x80 + c div 4096 mod 64) = b1"
        "of_nat (0x80 + c div 64 mod 64) = b2" "of_nat (0x80 + c mod 64) = b3"
      by blast
    have "unat b = 0xF0 + c div 262144" unfolding b [symmetric] unat_of_nat_byte using 4 by auto
    moreover have "cont b1 = Some (c div 4096 mod 64)" "cont b2 = Some (c div 64 mod 64)"
        "cont b3 = Some (c mod 64)"
      unfolding b [symmetric] by (simp_all add: cont_of_nat del: of_nat_add)
    moreover have "c div 262144 < 8" using 4 by auto
    moreover note base64_digits(2) [of c]
    ultimately show ?thesis using 4 assms unfolding utf8_char_def b
      by (simp add: checked_def Let_def)
  qed
qed

lemma utf8_decode_encode_append:
  "list_all scalar s \<Longrightarrow> utf8_decode (utf8_encode s @ bs) = map_option ((@) s) (utf8_decode bs)"
proof (induction s)
  case Nil
  then show ?case by (simp add: utf8_encode_def option.map_ident)
next
  case (Cons c s)
  then have "utf8_decode (utf8_encode (c # s) @ bs) =
      map_option (Cons c) (map_option ((@) s) (utf8_decode bs))"
    by (simp add: utf8_encode_def utf8_decode_char)
  then show ?case by (simp add: option.map_comp comp_def)
qed

lemma utf8_decode_encode: "list_all scalar s \<Longrightarrow> utf8_decode (utf8_encode s) = Some s"
  using utf8_decode_encode_append [of s "[]"] by simp

section \<open>Case and trimming\<close>

definition ascii_upper :: "nat \<Rightarrow> nat" where
  "ascii_upper c = (if 97 \<le> c \<and> c \<le> 122 then c - 32 else c)"

definition ascii_lower :: "nat \<Rightarrow> nat" where
  "ascii_lower c = (if 65 \<le> c \<and> c \<le> 90 then c + 32 else c)"

text \<open>
  \<open>str::to_uppercase\<close> maps each character on its own, one character may give several;
  \<open>uc\<close> is the table outside ASCII. \<open>str::to_lowercase\<close> looks at the context of
  a character for one letter, so \<open>lc\<close> sees the whole string.
\<close>

definition to_uppercase :: "(nat \<Rightarrow> str) \<Rightarrow> str \<Rightarrow> str" where
  "to_uppercase uc s = concat (map (\<lambda>c. if c < 128 then [ascii_upper c] else uc c) s)"

definition to_lowercase :: "(str \<Rightarrow> str) \<Rightarrow> str \<Rightarrow> str" where
  "to_lowercase lc s = (if list_all (\<lambda>c. c < 128) s then map ascii_lower s else lc s)"

definition eq_ignore_ascii_case :: "str \<Rightarrow> str \<Rightarrow> bool" where
  "eq_ignore_ascii_case s t \<longleftrightarrow> map ascii_lower s = map ascii_lower t"

text \<open>The characters with the Unicode property \<open>White_Space\<close>.\<close>

definition white_space :: "nat \<Rightarrow> bool" where
  "white_space c \<longleftrightarrow> (9 \<le> c \<and> c \<le> 13) \<or> c = 32 \<or> c = 0x85 \<or> c = 0xA0 \<or> c = 0x1680 \<or>
     (0x2000 \<le> c \<and> c \<le> 0x200A) \<or> c = 0x2028 \<or> c = 0x2029 \<or> c = 0x202F \<or> c = 0x205F \<or> c = 0x3000"

definition trim_end_matches :: "(nat \<Rightarrow> bool) \<Rightarrow> str \<Rightarrow> str" where
  "trim_end_matches p s = rev (dropWhile p (rev s))"

definition trim_end :: "str \<Rightarrow> str" where
  "trim_end = trim_end_matches white_space"

definition trim_str :: "str \<Rightarrow> str" where
  "trim_str s = trim_end (dropWhile white_space s)"

text \<open>\<open>from_utf8(b).unwrap_or("")\<close>.\<close>

definition text_of :: "bytes \<Rightarrow> str" where
  "text_of b = (case utf8_decode b of Some s \<Rightarrow> s | None \<Rightarrow> [])"

end
