(* ===== verification/Win1252.thy ===== *)
theory Win1252
  imports Rust_Str
begin

text \<open>
  Text transcoding, \<open>win1252_to_utf8\<close> of \<open>src/src/extract.rs\<close>: bytes of
  Windows-1252 text become UTF-8, NUL bytes are dropped. The index of the source's loop is the
  suffix that is left to read.
\<close>

definition WIN1252_EXTRA :: "nat list" where
  "WIN1252_EXTRA =
    [0x20AC, 0x0081, 0x201A, 0x0192, 0x201E, 0x2026, 0x2020, 0x2021,
     0x02C6, 0x2030, 0x0160, 0x2039, 0x0152, 0x008D, 0x017D, 0x008F,
     0x0090, 0x2018, 0x2019, 0x201C, 0x201D, 0x2022, 0x2013, 0x2014,
     0x02DC, 0x2122, 0x0161, 0x203A, 0x0153, 0x009D, 0x017E, 0x0178]"

definition plain :: "byte \<Rightarrow> bool" where
  "plain b \<longleftrightarrow> unat b < 0x80 \<and> b \<noteq> 0"

text \<open>The code point of a byte from \<open>0x80\<close> on, and the two and three byte forms pushed for it.\<close>

definition win_cp :: "byte \<Rightarrow> nat run" where
  "win_cp b = (if unat b < 0xA0 then byte_at WIN1252_EXTRA (unat b - 0x80) else Val (unat b))"

definition push_cp :: "nat \<Rightarrow> bytes" where
  "push_cp cp =
     (if cp < 0x800 then
        [or 0xC0 (of_nat (drop_bit 6 cp)), of_nat (or 0x80 (and cp 0x3F))]
      else
        [or 0xE0 (of_nat (drop_bit 12 cp)), of_nat (or 0x80 (and (drop_bit 6 cp) 0x3F)),
         of_nat (or 0x80 (and cp 0x3F))])"

function win_loop :: "bytes \<Rightarrow> bytes \<Rightarrow> bytes run" where
  "win_loop [] out = Val out"
| "win_loop (b # bs) out =
     (if b = 0 then win_loop bs out
      else if unat b < 0x80 then
        win_loop (dropWhile plain (b # bs)) (out @ takeWhile plain (b # bs))
      else rbind (win_cp b) (\<lambda>cp. win_loop bs (out @ push_cp cp)))"
  by pat_completeness auto
termination
  by (relation "measure (\<lambda>(bs, out). length bs)")
    (auto simp: plain_def length_dropWhile_le le_imp_less_Suc)

definition win1252_to_utf8 :: "bytes \<Rightarrow> bytes run" where
  "win1252_to_utf8 bs =
     (if list_all plain bs then Val bs
      else win_loop (dropWhile plain bs) (takeWhile plain bs))"

section \<open>The characters of Windows-1252 text\<close>

definition cp1252 :: "byte \<Rightarrow> nat" where
  "cp1252 b = (if unat b < 0x80 then unat b
               else if unat b < 0xA0 then WIN1252_EXTRA ! (unat b - 0x80) else unat b)"

definition win_text :: "bytes \<Rightarrow> str" where
  "win_text bs = map cp1252 (filter (\<lambda>b. b \<noteq> 0) bs)"

lemma length_WIN1252_EXTRA [simp]: "length WIN1252_EXTRA = 32"
  by (simp add: WIN1252_EXTRA_def)

lemma win_extra_table: "list_all (\<lambda>c. 0x80 \<le> c \<and> c < 0x3000) WIN1252_EXTRA"
  by (simp add: WIN1252_EXTRA_def)

lemma win_cp_val: "\<not> unat b < 0x80 \<Longrightarrow> win_cp b = Val (cp1252 b)"
  by (simp add: win_cp_def cp1252_def)

lemma cp1252_bounds:
  "cp1252 b < 0x3000 \<and> (unat b < 0x80 \<longrightarrow> cp1252 b = unat b) \<and> (\<not> unat b < 0x80 \<longrightarrow> 0x80 \<le> cp1252 b)"
proof (cases "0x80 \<le> unat b \<and> unat b < 0xA0")
  case True
  then have "cp1252 b \<in> set WIN1252_EXTRA" by (auto simp: cp1252_def intro!: nth_mem)
  with win_extra_table True show ?thesis by (auto simp: list_all_iff)
next
  case False
  moreover have "unat b < 0x3000" using unat_byte_less [of b] by linarith
  ultimately show ?thesis by (auto simp: cp1252_def)
qed

lemma or_80: "or 0x80 (and cp 0x3F) = 0x80 + cp mod (64 :: nat)"
proof -
  have "and cp 0x3F = cp mod 64"
    using take_bit_eq_mask [of 6 cp] by (simp add: take_bit_eq_mod mask_eq_exp_minus_1)
  then show ?thesis using or_push_bit_add [of "cp mod 64" 6 2] by simp
qed

lemma push_cp_utf8: "0x80 \<le> cp \<Longrightarrow> cp < 0x10000 \<Longrightarrow> push_cp cp = utf8_char cp"
proof -
  assume cp: "0x80 \<le> cp" "cp < 0x10000"
  have "or 0xC0 (of_nat (cp div 64)) = (of_nat (0xC0 + cp div 64) :: byte)" if "cp < 0x800"
  proof -
    have "or 0xC0 (cp div 64) = 0xC0 + cp div 64"
      using or_push_bit_add [of "cp div 64" 6 3] that by simp
    then show ?thesis by (metis of_nat_numeral of_nat_or_eq)
  qed
  moreover have "or 0xE0 (of_nat (cp div 4096)) = (of_nat (0xE0 + cp div 4096) :: byte)"
  proof -
    have "or 0xE0 (cp div 4096) = 0xE0 + cp div 4096"
      using or_push_bit_add [of "cp div 4096" 5 7] cp by simp
    then show ?thesis by (metis of_nat_numeral of_nat_or_eq)
  qed
  ultimately show ?thesis
    using cp by (simp add: push_cp_def utf8_char_def or_80 drop_bit_eq_div del: of_nat_add)
qed

lemma scalar_cp1252: "scalar (cp1252 b)"
  using cp1252_bounds [of b] by (simp add: scalar_def)

lemma utf8_plain: "list_all plain bs \<Longrightarrow> utf8_encode (win_text bs) = bs"
  by (induction bs) (auto simp: plain_def win_text_def utf8_encode_def utf8_char_def cp1252_def)

lemma win_text_append: "win_text (xs @ ys) = win_text xs @ win_text ys"
  by (simp add: win_text_def)

lemma utf8_encode_append: "utf8_encode (s @ t) = utf8_encode s @ utf8_encode t"
  by (simp add: utf8_encode_def)

lemma plain_takeWhile: "list_all plain (takeWhile plain bs)"
  by (auto simp: list_all_iff dest: set_takeWhileD)

lemma win_loop_utf8: "win_loop bs out = Val (out @ utf8_encode (win_text bs))"
proof (induction bs out rule: win_loop.induct)
  case (1 out)
  then show ?case by (simp add: win_text_def utf8_encode_def)
next
  case (2 b bs out)
  consider "b = 0" | "b \<noteq> 0" "unat b < 0x80" | "b \<noteq> 0" "\<not> unat b < 0x80" by blast
  then show ?case
  proof cases
    case 1
    then show ?thesis using "2.IH"(1) by (simp add: win_text_def)
  next
    case 2
    let ?run = "takeWhile plain (b # bs)" and ?rest = "dropWhile plain (b # bs)"
    have "win_loop (b # bs) out = Val ((out @ ?run) @ utf8_encode (win_text ?rest))"
      using "2.IH"(2) [OF 2] 2 by simp
    also have "?run = utf8_encode (win_text ?run)" by (simp only: utf8_plain plain_takeWhile)
    also have "(out @ utf8_encode (win_text ?run)) @ utf8_encode (win_text ?rest) =
        out @ utf8_encode (win_text (?run @ ?rest))"
      by (simp only: win_text_append utf8_encode_append append_assoc)
    finally show ?thesis by (simp only: takeWhile_dropWhile_id)
  next
    case 3
    then have "win_loop (b # bs) out = Val ((out @ push_cp (cp1252 b)) @ utf8_encode (win_text bs))"
      using "2.IH"(3) by (simp add: win_cp_val)
    then show ?thesis using 3 using cp1252_bounds [of b]
      by (simp add: push_cp_utf8 win_text_def utf8_encode_def)
  qed
qed

lemma win1252_to_utf8_val: "win1252_to_utf8 bs = Val (utf8_encode (win_text bs))"
proof -
  have "takeWhile plain bs @ utf8_encode (win_text (dropWhile plain bs)) =
      utf8_encode (win_text (takeWhile plain bs @ dropWhile plain bs))"
    by (simp only: win_text_append utf8_encode_append utf8_plain plain_takeWhile)
  then show ?thesis
    by (simp add: win1252_to_utf8_def win_loop_utf8 utf8_plain)
qed

lemma scalar_win_text: "list_all scalar (win_text bs)"
  by (auto simp: win_text_def list_all_iff scalar_cp1252)

section \<open>Properties\<close>

lemma utf8_char_no_NUL: "0 < c \<Longrightarrow> scalar c \<Longrightarrow> 0 \<notin> set (utf8_char c)"
  by (auto simp: utf8_char_def scalar_def byte_eq_iff simp del: of_nat_add)

lemma cp1252_nonzero: "b \<noteq> 0 \<Longrightarrow> 0 < cp1252 b"
  using cp1252_bounds [of b] by (auto simp: byte_eq_iff)

lemma win_text_no_NUL: "0 \<notin> set (utf8_encode (win_text bs))"
  using cp1252_nonzero scalar_cp1252 utf8_char_no_NUL
  by (fastforce simp: win_text_def utf8_encode_def)

text \<open>
  C30. The transcoder always produces well-formed UTF-8 without a panic: decoding it gives the
  Windows-1252 characters of the input in order, with exactly the NUL bytes left out, and the
  output holds no NUL byte, which PostgreSQL text cannot store.
\<close>

theorem win1252_to_utf8_correct:
  "\<exists>out. win1252_to_utf8 bs = Val out \<and>
     utf8_decode out = Some (map cp1252 (filter (\<lambda>b. b \<noteq> 0) bs)) \<and> 0 \<notin> set out"
  using utf8_decode_encode [OF scalar_win_text [of bs]] win_text_no_NUL [of bs]
  by (simp add: win1252_to_utf8_val win_text_def)

end
