(* ===== verification/Float64.thy ===== *)
theory Float64
  imports Complex_Main Prelude
begin

text \<open>
  The one floating point computation of the sources, \<open>v as f64 / SCALE_DIV[k]\<close> in
  \<open>write_field_binary\<close> of \<open>src/src/extract.rs\<close>: an integer is converted to
  binary64 and divided by a power of ten, each with IEEE 754 rounding to nearest, ties to even.
  Every intermediate value here is a normal number or zero (the integers have at most 64 bits, the
  divisors are at most \<open>10 ^ 18\<close>), so subnormal numbers, infinities and NaN do not occur.
\<close>

section \<open>Rounding a positive fraction\<close>

fun bit_len :: "nat \<Rightarrow> nat" where
  "bit_len n = (if n = 0 then 0 else Suc (bit_len (n div 2)))"

declare bit_len.simps [simp del]

text \<open>The fraction \<open>p / q / 2 ^ e\<close> as a numerator and a denominator.\<close>

definition scaled_num :: "nat \<Rightarrow> int \<Rightarrow> nat" where
  "scaled_num p e = p * 2 ^ nat (- e)"

definition scaled_den :: "nat \<Rightarrow> int \<Rightarrow> nat" where
  "scaled_den q e = q * 2 ^ nat e"

text \<open>The exponent for which the integer part of \<open>p / q / 2 ^ e\<close> has 53 bits.\<close>

definition f64_exp :: "nat \<Rightarrow> nat \<Rightarrow> int" where
  "f64_exp p q =
     (let e = int (bit_len p) - int (bit_len q) - 53
      in if scaled_num p e div scaled_den q e \<ge> 2 ^ 53 then e + 1 else e)"

definition round_even :: "nat \<Rightarrow> nat \<Rightarrow> nat" where
  "round_even n d =
     (let m = n div d; r = n mod d
      in if 2 * r < d \<or> 2 * r = d \<and> even m then m else m + 1)"

text \<open>The rounded fraction as \<open>m * 2 ^ e\<close> with a 53-bit \<open>m\<close>.\<close>

definition f64_round :: "nat \<Rightarrow> nat \<Rightarrow> nat \<times> int" where
  "f64_round p q =
     (let e = f64_exp p q; m = round_even (scaled_num p e) (scaled_den q e)
      in if m = 2 ^ 53 then (2 ^ 52, e + 1) else (m, e))"

definition f64_bits :: "bool \<Rightarrow> nat \<times> int \<Rightarrow> nat" where
  "f64_bits neg me =
     (if neg then 2 ^ 63 else 0) + nat (snd me + 1075) * 2 ^ 52 + (fst me - 2 ^ 52)"

text \<open>
  The bits of \<open>(v as f64) / 10^k\<close>: the conversion rounds \<open>\<bar>v\<bar>\<close>, the division
  rounds the quotient of the result and \<open>10 ^ k\<close>, which is exact in binary64.
\<close>

definition int_to_f64 :: "nat \<Rightarrow> nat \<times> int" where
  "int_to_f64 a = f64_round a 1"

definition f64_div :: "nat \<times> int \<Rightarrow> nat \<Rightarrow> nat \<times> int" where
  "f64_div x d = f64_round (fst x * 2 ^ nat (snd x)) (d * 2 ^ nat (- snd x))"

definition scaled_f64 :: "int \<Rightarrow> nat \<Rightarrow> nat" where
  "scaled_f64 v k =
     (if v = 0 then 0 else f64_bits (v < 0) (f64_div (int_to_f64 (nat \<bar>v\<bar>)) (10 ^ k)))"

section \<open>The rounding is to nearest\<close>

lemma bit_len_bounds: "0 < n \<Longrightarrow> 2 ^ (bit_len n - 1) \<le> n \<and> n < 2 ^ bit_len n \<and> 0 < bit_len n"
proof (induction n rule: bit_len.induct)
  case (1 n)
  show ?case
  proof (cases "n = 1")
    case True
    have "bit_len 0 = 0" and "bit_len 1 = Suc (bit_len 0)"
      by (simp_all add: bit_len.simps [of 0] bit_len.simps [of "Suc 0"])
    with True show ?thesis by simp
  next
    case False
    with "1.prems" have "0 < n div 2" by auto
    with 1 have IH: "2 ^ (bit_len (n div 2) - 1) \<le> n div 2" "n div 2 < 2 ^ bit_len (n div 2)"
        "0 < bit_len (n div 2)"
      by auto
    have b: "bit_len n = Suc (bit_len (n div 2))" using "1.prems" by (simp add: bit_len.simps [of n])
    have "2 * 2 ^ (bit_len (n div 2) - 1) = (2 :: nat) ^ bit_len (n div 2)"
      using IH(3) by (metis power_eq_if neq0_conv)
    moreover have "2 * (n div 2) \<le> n" and "n < 2 * (n div 2) + 2" by auto
    ultimately show ?thesis using IH unfolding b power_Suc diff_Suc_1 by linarith
  qed
qed

text \<open>The value of \<open>(m, e)\<close>, and of a bit pattern that encodes a normal number.\<close>

definition fval :: "nat \<times> int \<Rightarrow> real" where
  "fval me = real (fst me) * 2 powi (snd me)"

lemma scaled_quotient: "real (scaled_num p e) / real (scaled_den q e) = real p / real q / 2 powi e"
proof (cases "0 \<le> e")
  case True
  then show ?thesis by (simp add: scaled_num_def scaled_den_def power_int_def)
next
  case False
  then show ?thesis by (simp add: scaled_num_def scaled_den_def power_int_def field_simps)
qed

lemma scaled_den_pos: "0 < q \<Longrightarrow> 0 < scaled_den q e"
  by (simp add: scaled_den_def)

lemma nat_div_real_bounds:
  assumes "0 < d"
  shows "real (n div d) \<le> real n / real d" and "real n / real d < real (n div d) + 1"
proof -
  have "real n = real (n div d) * real d + real (n mod d)"
    by (metis div_mult_mod_eq of_nat_add of_nat_mult)
  moreover have "real (n mod d) < real d" using assms by simp
  ultimately show "real (n div d) \<le> real n / real d" "real n / real d < real (n div d) + 1"
    using assms by (simp_all add: field_simps)
qed

lemma round_even_nearest:
  assumes "0 < d"
  shows "\<bar>real n / real d - real (round_even n d)\<bar> \<le> 1 / 2"
proof -
  let ?m = "n div d" and ?r = "n mod d"
  have n: "real n / real d = real ?m + real ?r / real d"
    using assms by (metis add_divide_distrib div_mult_mod_eq nonzero_mult_div_cancel_right of_nat_0_less_iff
        of_nat_add of_nat_mult order_less_irrefl)
  have r: "0 \<le> real ?r / real d" "real ?r / real d < 1" using assms by simp_all
  have "2 * ?r \<le> d \<longleftrightarrow> real ?r / real d \<le> 1 / 2"
    using assms by (simp add: field_simps) (metis of_nat_le_iff of_nat_mult of_nat_numeral mult.commute)
  then show ?thesis using r assms unfolding n by (auto simp: round_even_def Let_def)
qed

lemma round_even_bounds: "0 < d \<Longrightarrow> n div d \<le> round_even n d \<and> round_even n d \<le> n div d + 1"
  by (simp add: round_even_def Let_def)

text \<open>The bit length bounds, as powers with integer exponents.\<close>

lemma bit_len_powi:
  assumes "0 < n"
  shows "2 powi (int (bit_len n) - 1) \<le> real n" and "real n < 2 powi (int (bit_len n))"
proof -
  have b: "2 ^ (bit_len n - 1) \<le> n" "n < 2 ^ bit_len n" "0 < bit_len n"
    using bit_len_bounds [OF assms] by blast+
  have "2 powi (int (bit_len n) - 1) = (2 :: real) powi int (bit_len n - 1)"
    using b(3) by (simp add: of_nat_diff)
  also have "\<dots> = real (2 ^ (bit_len n - 1))" by simp
  also have "\<dots> \<le> real n" using b(1) by (simp only: of_nat_le_iff)
  finally show "2 powi (int (bit_len n) - 1) \<le> real n" .
  have "real n < real (2 ^ bit_len n)" using b(2) by (simp only: of_nat_less_iff)
  then show "real n < 2 powi (int (bit_len n))" by simp
qed

lemma quotient_range:
  fixes x y :: real
  assumes "2 powi (a - 1) \<le> x" "x < 2 powi a" "2 powi (b - 1) \<le> y" "y < 2 powi b"
  shows "2 powi 52 \<le> x / y / 2 powi (a - b - 53) \<and> x / y / 2 powi (a - b - 53) < 2 powi 54"
proof -
  have y: "0 < y" using assms(3) by (meson less_le_trans zero_less_numeral zero_less_power_int)
  let ?e = "2 powi (a - b - 53) :: real"
  have e: "0 < ?e" by simp
  have "2 powi 52 * (2 powi b * ?e) = (2 :: real) powi (52 + (b + (a - b - 53)))"
    by (simp only: power_int_add zero_neq_numeral [symmetric] simp_thms)
  also have "52 + (b + (a - b - 53)) = a - 1" by simp
  finally have lo: "2 powi 52 * (2 powi b * ?e) \<le> x" using assms(1) by simp
  have "2 powi 54 * (2 powi (b - 1) * ?e) = (2 :: real) powi (54 + ((b - 1) + (a - b - 53)))"
    by (simp only: power_int_add zero_neq_numeral [symmetric] simp_thms)
  also have "54 + ((b - 1) + (a - b - 53)) = a" by simp
  finally have hi: "x < 2 powi 54 * (2 powi (b - 1) * ?e)" using assms(2) by simp
  have "2 powi 52 * (y * ?e) \<le> 2 powi 52 * (2 powi b * ?e)"
    using assms(4) e by (intro mult_left_mono mult_right_mono) auto
  with lo have 1: "2 powi 52 * (y * ?e) \<le> x" by linarith
  have "2 powi 54 * (2 powi (b - 1) * ?e) \<le> 2 powi 54 * (y * ?e)"
    using assms(3) e by (intro mult_left_mono mult_right_mono) auto
  with hi have 2: "x < 2 powi 54 * (y * ?e)" by linarith
  have "0 < y * ?e" using y e by simp
  with 1 2 show ?thesis by (simp add: pos_le_divide_eq pos_divide_less_eq)
qed

lemma f64_exp_range:
  assumes "0 < p" and "0 < q"
  shows "2 ^ 52 \<le> real p / real q / 2 powi (f64_exp p q) \<and>
         real p / real q / 2 powi (f64_exp p q) < 2 ^ 53"
proof -
  define e where "e = int (bit_len p) - int (bit_len q) - 53"
  define n d where "n = scaled_num p e" and "d = scaled_den q e"
  let ?y = "real p / real q / 2 powi e"
  have y: "2 ^ 52 \<le> ?y" "?y < 2 ^ 54"
    using quotient_range [OF bit_len_powi [OF assms(1)] bit_len_powi [OF assms(2)]]
    by (simp_all add: e_def)
  have nd: "real n / real d = ?y" by (simp add: n_def d_def scaled_quotient)
  have d: "0 < d" using assms by (simp add: d_def scaled_den_pos)
  have fe: "f64_exp p q = (if 2 ^ 53 \<le> n div d then e + 1 else e)"
    by (simp add: f64_exp_def e_def n_def d_def Let_def)
  show ?thesis
  proof (cases "2 ^ 53 \<le> n div d")
    case True
    then have "real (2 ^ 53) \<le> real (n div d)" by (simp only: of_nat_le_iff)
    then have "2 ^ 53 \<le> ?y" using nat_div_real_bounds(1) [OF d, of n] nd by simp
    have pw: "(2 :: real) powi (e + 1) = 2 powi e * 2" by (rule power_int_add_1) simp
    have h: "real p / real q / 2 powi (e + 1) = ?y / 2" unfolding pw by simp
    have fe': "f64_exp p q = e + 1" using fe True by simp
    have halve: "2 ^ 52 \<le> Y / 2 \<and> Y / 2 < 2 ^ 53" if "2 ^ 53 \<le> Y" "Y < 2 ^ 54" for Y :: real
      using that by simp
    show ?thesis unfolding fe' h using \<open>2 ^ 53 \<le> ?y\<close> y(2) by (rule halve)
  next
    case False
    then have "n div d + 1 \<le> 2 ^ 53" by simp
    then have "real (n div d + 1) \<le> real (2 ^ 53)" by (simp only: of_nat_le_iff)
    then have "?y < 2 ^ 53" using nat_div_real_bounds(2) [OF d, of n] nd by simp
    with y False show ?thesis by (simp add: fe)
  qed
qed

text \<open>
  The result has a 53-bit significand and lies within half a unit in the last place of the
  fraction, so its relative error is at most \<open>2 ^ -53\<close>.
\<close>

lemma f64_round_nearest:
  assumes "0 < p" and "0 < q" and "f64_round p q = (m, e)"
  shows "2 ^ 52 \<le> m \<and> m < 2 ^ 53 \<and> (e = f64_exp p q \<or> e = f64_exp p q + 1) \<and>
         \<bar>real p / real q - fval (m, e)\<bar> \<le> 2 powi (f64_exp p q) / 2"
proof -
  define e0 where "e0 = f64_exp p q"
  define n d where "n = scaled_num p e0" and "d = scaled_den q e0"
  define k where "k = round_even n d"
  have d: "0 < d" using assms by (simp add: d_def scaled_den_pos)
  have nd: "real n / real d = real p / real q / 2 powi e0"
    by (simp add: n_def d_def scaled_quotient)
  have range: "2 ^ 52 \<le> real n / real d" "real n / real d < 2 ^ 53"
    using f64_exp_range [OF assms(1,2)] unfolding nd e0_def by blast+
  have lo: "2 ^ 52 \<le> n div d"
  proof -
    have "real (2 ^ 52) < real (n div d) + 1" using range(1) nat_div_real_bounds(2) [OF d, of n] by simp
    then have "real (2 ^ 52) < real (n div d + 1)" by simp
    then have "2 ^ 52 < n div d + 1" by (simp only: of_nat_less_iff)
    then show ?thesis by simp
  qed
  have hi: "n div d < 2 ^ 53"
  proof -
    have "real (n div d) < real (2 ^ 53)" using range(2) nat_div_real_bounds(1) [OF d, of n] by simp
    then show ?thesis by (simp only: of_nat_less_iff)
  qed
  have k: "2 ^ 52 \<le> k" "k \<le> 2 ^ 53"
    using round_even_bounds [OF d, of n] lo hi by (auto simp: k_def)
  have near: "\<bar>real n / real d - real k\<bar> \<le> 1 / 2"
    unfolding k_def using d by (rule round_even_nearest)
  have pos: "0 < (2 :: real) powi e0" by simp
  have x: "real p / real q = real n / real d * 2 powi e0" by (simp add: nd)
  have "\<bar>real p / real q - real k * 2 powi e0\<bar> = \<bar>real n / real d - real k\<bar> * 2 powi e0"
    unfolding x by (simp only: left_diff_distrib [symmetric] abs_mult abs_of_pos [OF pos])
  also have "\<dots> \<le> 1 / 2 * 2 powi e0" using near pos by (intro mult_right_mono) auto
  finally have err: "\<bar>real p / real q - real k * 2 powi e0\<bar> \<le> 2 powi e0 / 2" by simp
  have me: "(m, e) = (if k = 2 ^ 53 then (2 ^ 52, e0 + 1) else (k, e0))"
    unfolding assms(3) [symmetric] f64_round_def Let_def e0_def n_def d_def k_def ..
  show ?thesis
  proof (cases "k = 2 ^ 53")
    case True
    with me have "m = 2 ^ 52" "e = e0 + 1" by simp_all
    moreover have "fval (2 ^ 52, e0 + 1) = real k * 2 powi e0"
      by (simp add: fval_def True power_int_add)
    ultimately show ?thesis using err by (simp add: e0_def)
  next
    case False
    with me k err show ?thesis by (simp add: fval_def e0_def)
  qed
qed

lemma f64_round_relative:
  assumes "0 < p" and "0 < q"
  shows "\<bar>real p / real q - fval (f64_round p q)\<bar> \<le> real p / real q / 2 ^ 53"
proof -
  let ?x = "real p / real q" and ?u = "2 powi (f64_exp p q) :: real"
  obtain m e where me: "f64_round p q = (m, e)" by (cases "f64_round p q")
  have u: "0 < ?u" by simp
  have "2 ^ 52 \<le> ?x / ?u" using f64_exp_range [OF assms] by blast
  then have "2 ^ 52 * ?u \<le> ?x" by (simp only: pos_le_divide_eq [OF u])
  then have "?u / 2 \<le> ?x / 2 ^ 53" by simp
  moreover have "\<bar>?x - fval (m, e)\<bar> \<le> ?u / 2" using f64_round_nearest [OF assms me] by blast
  ultimately show ?thesis unfolding me by linarith
qed

text \<open>An integer below \<open>2 ^ 53\<close> converts exactly.\<close>

lemma f64_exp_nonpos:
  assumes "0 < a" and "a < 2 ^ 53"
  shows "f64_exp a 1 \<le> 0"
proof (rule ccontr)
  define e where "e = f64_exp a 1"
  assume "\<not> f64_exp a 1 \<le> 0"
  then have "(2 :: real) powi 1 \<le> 2 powi e" by (intro power_int_increasing) (auto simp: e_def)
  moreover have "2 ^ 52 \<le> real a / 2 powi e" using f64_exp_range [OF assms(1), of 1] by (simp add: e_def)
  then have "2 ^ 52 * 2 powi e \<le> real a" by (simp add: pos_le_divide_eq)
  moreover have "real a < real (2 ^ 53)" using assms(2) by (simp only: of_nat_less_iff)
  ultimately show False by simp
qed

lemma int_to_f64_exact:
  assumes "0 < a" and "a < 2 ^ 53"
  shows "fval (int_to_f64 a) = real a"
proof -
  define e where "e = f64_exp a 1"
  have e: "e \<le> 0" using f64_exp_nonpos [OF assms] by (simp add: e_def)
  let ?k = "a * 2 ^ nat (- e)"
  have num: "scaled_num a e = ?k" "scaled_den 1 e = 1"
    using e by (simp_all add: scaled_num_def scaled_den_def)
  have k: "real ?k = real a / 2 powi e" using e by (simp add: power_int_def divide_simps)
  also have "\<dots> < 2 ^ 53" using f64_exp_range [OF assms(1), of 1] by (simp add: e_def)
  finally have "real ?k < real (2 ^ 53)" by simp
  then have "?k \<noteq> 2 ^ 53" by (simp only: of_nat_less_iff)
  moreover have "round_even ?k 1 = ?k" by (simp add: round_even_def)
  ultimately have "int_to_f64 a = (?k, e)"
    unfolding int_to_f64_def f64_round_def Let_def e_def [symmetric] num by simp
  with k show ?thesis by (simp add: fval_def)
qed

text \<open>The division: its operand is the converted integer.\<close>

lemma f64_div_relative:
  assumes "0 < fst x" and "0 < d"
  shows "\<bar>fval x / real d - fval (f64_div x d)\<bar> \<le> fval x / real d / 2 ^ 53"
proof -
  let ?p = "fst x * 2 ^ nat (snd x)" and ?q = "d * 2 ^ nat (- snd x)"
  have "real ?p / real ?q = fval x / real d"
    by (simp add: fval_def power_int_def divide_simps)
  then show ?thesis
    using f64_round_relative [of ?p ?q] assms by (simp add: f64_div_def)
qed

section \<open>Bit patterns\<close>

text \<open>The number a binary64 bit pattern stands for (normal numbers and zero).\<close>

definition f64_value :: "nat \<Rightarrow> real" where
  "f64_value b =
     (let ex = b div 2 ^ 52 mod 2 ^ 11; fr = b mod 2 ^ 52; sg = (if b div 2 ^ 63 mod 2 = 1 then -1 else 1)
      in if ex = 0 then 0 else sg * (2 ^ 52 + real fr) * 2 powi (int ex - 1075))"

lemma bit_fields:
  fixes s ex fr :: nat
  assumes "s < 2" and "ex < 2 ^ 11" and "fr < 2 ^ 52"
  defines "x \<equiv> s * 2 ^ 63 + ex * 2 ^ 52 + fr"
  shows "x mod 2 ^ 52 = fr" "x div 2 ^ 52 mod 2 ^ 11 = ex" "x div 2 ^ 63 mod 2 = s" "x < 2 ^ 64"
proof -
  have x: "x = fr + (ex + s * 2 ^ 11) * 2 ^ 52" by (simp add: x_def)
  show "x mod 2 ^ 52 = fr" using assms(3) unfolding x by (simp only: mod_mult_self1 mod_less)
  have q: "x div 2 ^ 52 = ex + s * 2 ^ 11" using assms(3) unfolding x by simp
  then show "x div 2 ^ 52 mod 2 ^ 11 = ex"
    using assms(2) by (simp only: mod_mult_self1 mod_less)
  have "x div 2 ^ 63 = x div 2 ^ 52 div 2 ^ 11" by (simp add: div_mult2_eq [symmetric])
  also have "\<dots> = s" using assms(2) unfolding q by simp
  finally show "x div 2 ^ 63 mod 2 = s" using assms(1) by simp
  show "x < 2 ^ 64" using assms(1-3) by (auto simp: x_def less_2_cases_iff)
qed

lemma f64_value_bits:
  assumes "2 ^ 52 \<le> m" and "m < 2 ^ 53" and "0 < e + 1075" and "e + 1075 < 2 ^ 11"
  shows "f64_value (f64_bits neg (m, e)) = (if neg then -1 else 1) * fval (m, e)"
    and "f64_bits neg (m, e) < 2 ^ 64"
proof -
  define ex fr where "ex = nat (e + 1075)" and "fr = m - 2 ^ 52"
  define s :: nat where "s = (if neg then 1 else 0)"
  have ex: "0 < ex" "ex < 2 ^ 11" and fr: "fr < 2 ^ 52" using assms by (auto simp: ex_def fr_def)
  have b: "f64_bits neg (m, e) = s * 2 ^ 63 + ex * 2 ^ 52 + fr"
    by (simp add: f64_bits_def ex_def fr_def s_def)
  have "s < 2" by (simp add: s_def)
  note bit_fields [OF this ex(2) fr]
  moreover have "2 ^ 52 + real fr = real m" using assms(1) by (simp add: fr_def of_nat_diff)
  moreover have "int ex - 1075 = e" using assms(3) by (simp add: ex_def)
  ultimately show "f64_value (f64_bits neg (m, e)) = (if neg then -1 else 1) * fval (m, e)"
    and "f64_bits neg (m, e) < 2 ^ 64"
    using ex unfolding b f64_value_def Let_def by (simp_all add: fval_def s_def)
qed

lemma powi2_less: "(2 :: real) powi a < 2 powi b \<Longrightarrow> a < b"
  using power_int_increasing [of b a "2 :: real"] by (cases "b \<le> a") auto

lemma f64_exp_bounds:
  assumes "0 < p" and "0 < q" and "2 powi a \<le> real p / real q" and "real p / real q < 2 powi b"
  shows "a - 53 < f64_exp p q \<and> f64_exp p q < b - 52"
proof -
  let ?e = "f64_exp p q" and ?x = "real p / real q"
  have u: "(0 :: real) < 2 powi ?e" by simp
  have r: "2 ^ 52 * 2 powi ?e \<le> ?x" "?x < 2 ^ 53 * 2 powi ?e"
    using f64_exp_range [OF assms(1,2)] by (simp_all only: pos_le_divide_eq [OF u] pos_divide_less_eq [OF u])
  have "(2 :: real) powi (52 + ?e) < 2 powi b"
    using r(1) assms(4) by (simp add: power_int_add)
  then have "52 + ?e < b" by (rule powi2_less)
  moreover have "(2 :: real) powi a < 2 powi (53 + ?e)"
    using r(2) assms(3) by (simp add: power_int_add)
  then have "a < 53 + ?e" by (rule powi2_less)
  ultimately show ?thesis by linarith
qed

text \<open>
  Scaling an integer below \<open>2 ^ 53\<close> by a power of ten is a single rounding: the result
  is a normal number within relative error \<open>2 ^ -53\<close> of the exact decimal.
\<close>

lemma scaled_f64_value:
  assumes v: "0 < \<bar>v\<bar>" "\<bar>v\<bar> < 2 ^ 53" and k: "k \<le> 18"
  shows "\<bar>f64_value (scaled_f64 v k) - real_of_int v / 10 ^ k\<bar> \<le> \<bar>real_of_int v\<bar> / 10 ^ k / 2 ^ 53"
    and "scaled_f64 v k < 2 ^ 64"
proof -
  define a where "a = nat \<bar>v\<bar>"
  have a: "0 < a" "a < 2 ^ 53" and av: "real a = \<bar>real_of_int v\<bar>"
    using v by (simp_all add: a_def nat_less_iff)
  define x where "x = int_to_f64 a"
  have fx: "fval x = real a" unfolding x_def using a by (rule int_to_f64_exact)
  then have m0: "0 < fst x" using a by (cases "fst x") (auto simp: fval_def)
  let ?p = "fst x * 2 ^ nat (snd x)" and ?q = "10 ^ k * 2 ^ nat (- snd x) :: nat"
  have pq: "0 < ?p" "0 < ?q" using m0 by simp_all
  have quo: "real ?p / real ?q = real a / 10 ^ k"
    unfolding fx [symmetric] by (simp add: fval_def power_int_def divide_simps)
  obtain m e where me: "f64_div x (10 ^ k) = (m, e)" by (cases "f64_div x (10 ^ k)")
  then have me': "f64_round ?p ?q = (m, e)" by (simp add: f64_div_def)
  have "(1 :: real) \<le> real a" using a by simp
  then have "(1 :: real) / 10 ^ 18 \<le> real a / 10 ^ k"
    using k by (intro frac_le power_increasing) auto
  moreover have "(2 :: real) powi (-60) \<le> 1 / 10 ^ 18" by (simp add: power_int_minus)
  ultimately have "2 powi (-60) \<le> real a / 10 ^ k" by linarith
  moreover have "real a < real (2 ^ 53)" using a by (simp only: of_nat_less_iff)
  moreover have "real a / 10 ^ k \<le> real a / 1" by (intro divide_left_mono) simp_all
  ultimately have "2 powi (-60) \<le> real a / 10 ^ k" and "real a / 10 ^ k < 2 powi 53"
    by simp_all
  then have "-60 - 53 < f64_exp ?p ?q \<and> f64_exp ?p ?q < 53 - 52"
    by (intro f64_exp_bounds pq) (simp_all only: quo)
  then have e: "0 < e + 1075" "e + 1075 < 2 ^ 11" and m: "2 ^ 52 \<le> m" "m < 2 ^ 53"
    using f64_round_nearest [OF pq me'] by auto
  have s: "scaled_f64 v k = f64_bits (v < 0) (m, e)"
    using v me by (auto simp: scaled_f64_def a_def x_def)
  have near: "\<bar>real a / 10 ^ k - fval (m, e)\<bar> \<le> real a / 10 ^ k / 2 ^ 53"
    using f64_div_relative [OF m0, of "10 ^ k"] by (simp add: me fx)
  show "scaled_f64 v k < 2 ^ 64" unfolding s using m e by (intro f64_value_bits)
  have fv: "f64_value (scaled_f64 v k) = (if v < 0 then -1 else 1) * fval (m, e)"
    unfolding s using m e by (intro f64_value_bits)
  show "\<bar>f64_value (scaled_f64 v k) - real_of_int v / 10 ^ k\<bar> \<le> \<bar>real_of_int v\<bar> / 10 ^ k / 2 ^ 53"
  proof (cases "v < 0")
    case True
    then have "real_of_int v = - real a" using av by simp
    with near True show ?thesis unfolding fv by (simp add: abs_if)
  next
    case False
    then have "real_of_int v = real a" using av by simp
    with near False show ?thesis unfolding fv by (simp add: abs_minus_commute)
  qed
qed

section \<open>Properties\<close>

text \<open>
  C31. The conversion of a scaled integer is accurate: for every stored value below
  \<open>2 ^ 53\<close> in size and every scale the type allows, the 64 bits that are sent stand for
  the exact decimal up to a relative error of \<open>2 ^ -53\<close>, although the code rounds twice.
\<close>

theorem scaled_f64_accurate:
  assumes "\<bar>v\<bar> < 2 ^ 53" and "k \<le> 18"
  shows "\<bar>f64_value (scaled_f64 v k) - real_of_int v / 10 ^ k\<bar> \<le> \<bar>real_of_int v\<bar> / 10 ^ k / 2 ^ 53 \<and>
         scaled_f64 v k < 2 ^ 64"
proof (cases "v = 0")
  case True
  then show ?thesis by (simp add: scaled_f64_def f64_value_def)
next
  case False
  with assms show ?thesis using scaled_f64_value by simp
qed

theorem scaled_f64_accurate_witness:
  "\<bar>f64_value (scaled_f64 (-12345) 2) - -12345 / 100\<bar> \<le> 12345 / 100 / 2 ^ 53"
  using scaled_f64_accurate [of "-12345" 2] by simp

text \<open>
  A scaled decimal of at most 15 significant digits survives the conversion to double
  precision: two different stored integers with the same scale never give the same bit pattern, so
  the number PostgreSQL receives identifies the decimal.
\<close>

theorem scaled_f64_injective:
  assumes "\<bar>v\<bar> < 10 ^ 15" and "\<bar>w\<bar> < 10 ^ 15" and "k \<le> 18" and "scaled_f64 v k = scaled_f64 w k"
  shows "v = w"
proof -
  have rel: "\<bar>f64_value (scaled_f64 u k) - real_of_int u / 10 ^ k\<bar> \<le> 10 ^ 15 / 10 ^ k / 2 ^ 53"
    if "\<bar>u\<bar> < 10 ^ 15" for u
  proof (cases "u = 0")
    case True
    then show ?thesis by (simp add: scaled_f64_def f64_value_def)
  next
    case False
    have "\<bar>u\<bar> < 2 ^ 53" using that by simp
    then have "\<bar>f64_value (scaled_f64 u k) - real_of_int u / 10 ^ k\<bar> \<le> \<bar>real_of_int u\<bar> / 10 ^ k / 2 ^ 53"
      using False assms(3) by (intro scaled_f64_value) auto
    also have "real_of_int \<bar>u\<bar> < real_of_int (10 ^ 15)" using that by (simp only: of_int_less_iff)
    then have "\<bar>real_of_int u\<bar> / 10 ^ k / 2 ^ 53 \<le> 10 ^ 15 / 10 ^ k / 2 ^ 53"
      by (intro divide_right_mono) simp_all
    finally show ?thesis .
  qed
  let ?f = "f64_value (scaled_f64 v k)" and ?t = "(10 :: real) ^ k"
  have t: "0 < ?t" by simp
  have "\<bar>real_of_int v / ?t - real_of_int w / ?t\<bar> \<le> 2 * (10 ^ 15 / ?t / 2 ^ 53)"
    using rel [OF assms(1)] rel [OF assms(2)] assms(4) by (simp only:)
  also have "\<dots> < 1 / ?t" using t by (simp add: divide_simps)
  also have "real_of_int v / ?t - real_of_int w / ?t = real_of_int (v - w) / ?t"
    by (simp add: diff_divide_distrib)
  finally have "real_of_int \<bar>v - w\<bar> < 1" using t by (simp add: divide_less_cancel)
  then show "v = w" by linarith
qed

theorem scaled_f64_injective_witness: "scaled_f64 12345 2 \<noteq> scaled_f64 12346 2"
proof
  assume "scaled_f64 12345 2 = scaled_f64 12346 2"
  then have "(12345 :: int) = 12346" by (intro scaled_f64_injective [of 12345 12346 2]) simp_all
  then show False by simp
qed

end
