(* ===== verification/Field.thy ===== *)
theory Field
  imports Win1252 Float64
begin

text \<open>
  One column of one row: the field descriptors of \<open>src/src/ods.rs\<close> and
  \<open>write_field_binary\<close> of \<open>src/src/extract.rs\<close>, which encodes a field into
  PostgreSQL's \<open>COPY BINARY\<close> format. The writer is the list of the bytes written; the
  scratch buffer for text is cleared before each use and leaves no trace.
\<close>

section \<open>Descriptors\<close>

definition DTYPE_TEXT :: nat where "DTYPE_TEXT = 1"
definition DTYPE_CSTRING :: nat where "DTYPE_CSTRING = 2"
definition DTYPE_VARYING :: nat where "DTYPE_VARYING = 3"
definition DTYPE_SHORT :: nat where "DTYPE_SHORT = 8"
definition DTYPE_LONG :: nat where "DTYPE_LONG = 9"
definition DTYPE_QUAD :: nat where "DTYPE_QUAD = 10"
definition DTYPE_REAL :: nat where "DTYPE_REAL = 11"
definition DTYPE_DOUBLE :: nat where "DTYPE_DOUBLE = 12"
definition DTYPE_D_FLOAT :: nat where "DTYPE_D_FLOAT = 13"
definition DTYPE_SQL_DATE :: nat where "DTYPE_SQL_DATE = 14"
definition DTYPE_SQL_TIME :: nat where "DTYPE_SQL_TIME = 15"
definition DTYPE_TIMESTAMP :: nat where "DTYPE_TIMESTAMP = 16"
definition DTYPE_INT64 :: nat where "DTYPE_INT64 = 19"
definition DTYPE_DBKEY :: nat where "DTYPE_DBKEY = 20"
definition DTYPE_BOOLEAN :: nat where "DTYPE_BOOLEAN = 21"
definition DTYPE_SQL_TIME_TZ :: nat where "DTYPE_SQL_TIME_TZ = 25"
definition DTYPE_TIMESTAMP_TZ :: nat where "DTYPE_TIMESTAMP_TZ = 26"

lemmas dtype_defs = DTYPE_TEXT_def DTYPE_CSTRING_def DTYPE_VARYING_def DTYPE_SHORT_def DTYPE_LONG_def
  DTYPE_QUAD_def DTYPE_REAL_def DTYPE_DOUBLE_def DTYPE_D_FLOAT_def DTYPE_SQL_DATE_def
  DTYPE_SQL_TIME_def DTYPE_TIMESTAMP_def DTYPE_INT64_def DTYPE_DBKEY_def DTYPE_BOOLEAN_def
  DTYPE_SQL_TIME_TZ_def DTYPE_TIMESTAMP_TZ_def

record desc =
  dtype :: nat
  scale :: int
  dlength :: nat
  sub_type :: int
  dflags :: nat
  offset :: nat

definition desc_from_bytes :: "bytes \<Rightarrow> desc run" where
  "desc_from_bytes b =
     (if length b < 12 then Panic
      else Val \<lparr>dtype = unat (b ! 0), scale = signed_of 8 (unat (b ! 1)), dlength = le_at 2 b 2,
                sub_type = signed_of 16 (le_at 2 b 4), dflags = le_at 2 b 6, offset = le_at 4 b 8\<rparr>)"

definition default_zero :: desc where
  "default_zero = \<lparr>dtype = 0, scale = 0, dlength = 0, sub_type = 0, dflags = 0, offset = 0\<rparr>"

section \<open>Encoding a field\<close>

definition PG_EPOCH_MJD :: int where "PG_EPOCH_MJD = 51544"

text \<open>\<open>null!()\<close>, and \<open>len4!(n)\<close> followed by the payload.\<close>

definition null_field :: bytes where
  "null_field = be_bytes 4 (wrap 32 (-1))"

definition len_field :: "bytes \<Rightarrow> bytes" where
  "len_field p = be_bytes 4 (length p) @ p"

text \<open>The part of a text up to its last byte above a blank.\<close>

definition visible :: "byte \<Rightarrow> bool" where
  "visible b \<longleftrightarrow> unat b > 32"

definition trim_text :: "bytes \<Rightarrow> bytes" where
  "trim_text raw = rev (dropWhile (\<lambda>b. \<not> visible b) (rev raw))"

definition text_field :: "bytes \<Rightarrow> bytes run" where
  "text_field raw = rbind (win1252_to_utf8 raw) (\<lambda>text. Val (len_field text))"

text \<open>
  An integer of \<open>n\<close> bytes: big endian when it has no scale, otherwise a double. The
  table \<open>SCALE_DIV\<close> has 19 entries; every other scale indexes outside it.
\<close>

definition int_field :: "bytes \<Rightarrow> desc \<Rightarrow> nat \<Rightarrow> bytes run" where
  "int_field rec d n =
     (let s = offset d in
      if s + n > length rec then Val null_field
      else rbind (slice rec s (s + n)) (\<lambda>b.
        let v = signed_of (8 * n) (le_nat b) in
        if scale d = 0 then Val (len_field (be_bytes n (wrap (8 * n) v)))
        else if -18 \<le> scale d \<and> scale d \<le> -1
             then Val (len_field (be_bytes 8 (scaled_f64 v (nat (- scale d)))))
             else Panic))"

text \<open>The raw bits of a float.\<close>

definition bits_field :: "bytes \<Rightarrow> desc \<Rightarrow> nat \<Rightarrow> bytes run" where
  "bits_field rec d n =
     (let s = offset d in
      if s + n > length rec then Val null_field
      else rbind (slice rec s (s + n)) (\<lambda>b. Val (len_field (be_bytes n (le_nat b)))))"

definition date_field :: "bytes \<Rightarrow> desc \<Rightarrow> bytes run" where
  "date_field rec d =
     (if offset d + 4 > length rec then Val null_field
      else rbind (u32_at rec (offset d)) (\<lambda>n.
        Val (len_field (be_bytes 4 (wrap 32 (signed_of 32 n - PG_EPOCH_MJD))))))"

definition time_field :: "bytes \<Rightarrow> desc \<Rightarrow> bytes run" where
  "time_field rec d =
     (if offset d + 4 > length rec then Val null_field
      else rbind (u32_at rec (offset d)) (\<lambda>ticks. Val (len_field (be_bytes 8 (ticks * 100)))))"

definition timestamp_field :: "bytes \<Rightarrow> desc \<Rightarrow> bytes run" where
  "timestamp_field rec d =
     (if offset d + 8 > length rec then Val null_field
      else
        rbind (u32_at rec (offset d)) (\<lambda>n.
        rbind (u32_at rec (offset d + 4)) (\<lambda>ticks.
        let us = (signed_of 32 n - PG_EPOCH_MJD) * 86400000000 + int ticks * 100
        in Val (len_field (be_bytes 8 (wrap 64 us))))))"

definition write_field_binary :: "bytes \<Rightarrow> desc \<Rightarrow> bytes run" where
  "write_field_binary rec d =
     (let s = offset d; ty = dtype d in
      if ty = DTYPE_TEXT \<or> ty = DTYPE_CSTRING then
        (let e = min (s + dlength d) (length rec) in
         if e \<le> s then Val null_field
         else rbind (slice rec s e) (\<lambda>raw. text_field (trim_text raw)))
      else if ty = DTYPE_VARYING then
        (if s + 2 > length rec then Val null_field
         else
           rbind (u16_at rec s) (\<lambda>vlen.
           rbind (slice rec (s + 2) (min (s + 2 + vlen) (length rec))) (\<lambda>data.
           text_field (if list_ex visible data then trim_text data else data))))
      else if ty = DTYPE_SHORT then int_field rec d 2
      else if ty = DTYPE_LONG then int_field rec d 4
      else if ty = DTYPE_INT64 \<or> ty = DTYPE_QUAD then int_field rec d 8
      else if ty = DTYPE_REAL then bits_field rec d 4
      else if ty = DTYPE_DOUBLE \<or> ty = DTYPE_D_FLOAT then bits_field rec d 8
      else if ty = DTYPE_SQL_DATE then date_field rec d
      else if ty = DTYPE_SQL_TIME \<or> ty = DTYPE_SQL_TIME_TZ then time_field rec d
      else if ty = DTYPE_TIMESTAMP \<or> ty = DTYPE_TIMESTAMP_TZ then timestamp_field rec d
      else if ty = DTYPE_BOOLEAN then
        (if s \<ge> length rec then Val null_field
         else rbind (byte_at rec s) (\<lambda>b. Val (len_field [if b \<noteq> 0 then 1 else 0])))
      else if ty = DTYPE_DBKEY then
        rbind (slice rec s (min (s + dlength d) (length rec))) (\<lambda>data. Val (len_field data))
      else Val null_field)"

section \<open>The format of a field\<close>

text \<open>A field is \<open>NULL\<close> or a value of less than \<open>2 ^ 31\<close> bytes behind its length.\<close>

fun encode_field :: "bytes option \<Rightarrow> bytes" where
  "encode_field None = null_field"
| "encode_field (Some p) = len_field p"

definition parse_field :: "bytes \<Rightarrow> (bytes option \<times> bytes) option" where
  "parse_field bs =
     (if length bs < 4 then None
      else let n = be_nat (take 4 bs); rest = drop 4 bs
           in if n = 2 ^ 32 - 1 then Some (None, rest)
              else if n \<le> length rest then Some (Some (take n rest), drop n rest) else None)"

definition field_ok :: "bytes option \<Rightarrow> bool" where
  "field_ok f \<longleftrightarrow> (case f of None \<Rightarrow> True | Some p \<Rightarrow> length p < 2 ^ 31)"

lemma null_field_bytes: "null_field = [255, 255, 255, 255]"
proof -
  have "wrap 32 (- 1) = be_nat [255, 255, 255, 255]" by (simp add: wrap_def be_nat_def)
  then show ?thesis unfolding null_field_def by (simp only:) (rule be_bytes_be_nat, simp)
qed

lemma parse_encode_field: "field_ok f \<Longrightarrow> parse_field (encode_field f @ rest) = Some (f, rest)"
proof (cases f)
  case None
  then show ?thesis by (simp add: parse_field_def null_field_bytes be_nat_def)
next
  case (Some p)
  assume "field_ok f"
  with Some have "be_nat (be_bytes 4 (length p)) = length p" "length p \<noteq> 2 ^ 32 - 1"
    by (auto simp: field_ok_def intro!: be_nat_be_bytes_id)
  with Some show ?thesis by (simp add: parse_field_def len_field_def)
qed

lemma encode_field_None_iff: "encode_field f = null_field \<and> field_ok f \<longleftrightarrow> f = None"
  using parse_encode_field [of f "[]"] parse_encode_field [of None "[]"]
  by (auto simp: field_ok_def)

section \<open>Every field is well formed\<close>

definition well_formed :: "nat \<Rightarrow> bytes run \<Rightarrow> bool" where
  "well_formed m r \<longleftrightarrow> (\<forall>out. r = Val out \<longrightarrow> (\<exists>f. out = encode_field f \<and> (\<forall>p. f = Some p \<longrightarrow> length p \<le> m)))"

lemma well_formed_if: "well_formed m x \<Longrightarrow> well_formed m y \<Longrightarrow> well_formed m (if b then x else y)"
  by simp

lemma well_formed_rbind:
  "(\<And>x. r = Val x \<Longrightarrow> well_formed m (f x)) \<Longrightarrow> well_formed m (rbind r f)"
  by (auto simp: well_formed_def rbind_Val_iff)

lemma well_formed_null: "well_formed m (Val null_field)"
  by (auto simp: well_formed_def intro!: exI [of _ None])

lemma well_formed_len: "length p \<le> m \<Longrightarrow> well_formed m (Val (len_field p))"
  by (auto simp: well_formed_def intro!: exI [of _ "Some p"])

lemma well_formed_Panic: "well_formed m Panic"
  by (simp add: well_formed_def)

lemmas well_formed_intros = well_formed_if well_formed_rbind well_formed_null well_formed_len
  well_formed_Panic

lemma length_utf8_char: "length (utf8_char c) \<le> 4"
  by (simp add: utf8_char_def)

lemma length_utf8_encode: "length (utf8_encode s) \<le> 4 * length s"
  using length_utf8_char by (induction s) (auto simp: utf8_encode_def intro: add_le_mono)

lemma length_win_text: "length (win_text bs) \<le> length bs"
  by (simp add: win_text_def)

lemma length_trim_text: "length (trim_text raw) \<le> length raw"
  using length_dropWhile_le [of "\<lambda>b. \<not> visible b" "rev raw"] by (simp add: trim_text_def)

lemma text_field_val: "text_field raw = Val (len_field (utf8_encode (win_text raw)))"
  by (simp add: text_field_def win1252_to_utf8_val)

lemma well_formed_text: "4 * length raw \<le> m \<Longrightarrow> well_formed m (text_field raw)"
  unfolding text_field_val
  by (intro well_formed_len order_trans [OF length_utf8_encode])
    (use length_win_text [of raw] in linarith)

lemma slice_length: "slice b i j = Val s \<Longrightarrow> length s \<le> length b"
  by (auto simp: slice_def split: if_splits)

lemma well_formed_numeric:
  "n \<le> 8 \<Longrightarrow> well_formed (8 + m) (int_field rec d n)"
  "n \<le> 8 \<Longrightarrow> well_formed (8 + m) (bits_field rec d n)"
  "well_formed (8 + m) (date_field rec d)"
  "well_formed (8 + m) (time_field rec d)"
  "well_formed (8 + m) (timestamp_field rec d)"
  by (simp_all only: int_field_def bits_field_def date_field_def time_field_def timestamp_field_def Let_def)
    (intro well_formed_intros; simp)+

lemma trim_if_length: "length (if b then trim_text raw else raw) \<le> length raw"
  using length_trim_text by simp

lemma slice_span: "slice b i j = Val s \<Longrightarrow> length s = j - i"
  by (auto simp: slice_def split: if_splits)

lemma write_field_well_formed:
  assumes "dlength d < 2 ^ 16"
  shows "well_formed 262148 (write_field_binary rec d)"
proof -
  have n: "n \<le> 8 \<Longrightarrow> well_formed 262148 (int_field rec d n)" "n \<le> 8 \<Longrightarrow> well_formed 262148 (bits_field rec d n)"
    "well_formed 262148 (date_field rec d)" "well_formed 262148 (time_field rec d)"
    "well_formed 262148 (timestamp_field rec d)" for n
    using well_formed_numeric [where m = 262140] by simp_all
  have vlen: "v < 65536" if "u16_at rec i = Val v" for v i
    using that le_nat_bound [of "take 2 (drop i rec)"] le_at_bound [where n = 2 and b = rec and i = i]
    by (auto simp: u16_at_def slice_def split: if_splits)
  show ?thesis
    unfolding write_field_binary_def Let_def
    using assms
    by (intro well_formed_if well_formed_rbind well_formed_null n well_formed_text well_formed_len
          order_refl mult_le_mono2 trans_le_add2 order_trans [OF mult_le_mono2 [OF length_trim_text]]
          order_trans [OF mult_le_mono2 [OF trim_if_length]])
      (auto dest!: slice_span vlen)
qed

section \<open>What the encoder can do\<close>

definition int_type :: "nat \<Rightarrow> nat option" where
  "int_type ty =
     (if ty = DTYPE_SHORT then Some 2 else if ty = DTYPE_LONG then Some 4
      else if ty = DTYPE_INT64 \<or> ty = DTYPE_QUAD then Some 8 else None)"

lemma int_type_cases:
  "int_type (dtype d) = Some n \<Longrightarrow> write_field_binary rec d = int_field rec d n"
  by (auto simp: int_type_def write_field_binary_def dtype_defs split: if_splits)

lemma int_field_Panic:
  "int_field rec d n = Panic \<longleftrightarrow> offset d + n \<le> length rec \<and> \<not> (-18 \<le> scale d \<and> scale d \<le> 0)"
  by (auto simp: int_field_def slice_def Let_def)

lemma int_field_other: "int_field rec d n \<noteq> Hang" "int_field rec d n \<noteq> Err e"
  by (auto simp: int_field_def slice_def Let_def)

lemma other_field_Val:
  "returns (bits_field rec d n)" "returns (date_field rec d)" "returns (time_field rec d)"
  "returns (timestamp_field rec d)" "returns (text_field raw)"
  by (auto simp: bits_field_def date_field_def time_field_def timestamp_field_def slice_def Let_def
      text_field_val)

lemmas field_defs = bits_field_def date_field_def time_field_def timestamp_field_def

lemma returns_not_Panic: "returns m \<Longrightarrow> m \<noteq> Panic"
  by auto

lemma returns_if: "(b \<Longrightarrow> returns x) \<Longrightarrow> (\<not> b \<Longrightarrow> returns y) \<Longrightarrow> returns (if b then x else y)"
  by simp

lemma returns_rbind: "returns m \<Longrightarrow> (\<And>x. m = Val x \<Longrightarrow> returns (f x)) \<Longrightarrow> returns (rbind m f)"
  by (cases m) auto

lemma returns_access: "i \<le> j \<Longrightarrow> j \<le> length b \<Longrightarrow> returns (slice b i j)"
  "k + 2 \<le> length c \<Longrightarrow> returns (u16_at c k)" "k < length b \<Longrightarrow> returns (byte_at b k)"
  by (simp_all add: slice_Val)

lemma write_field_other_type:
  "int_type (dtype d) = None \<Longrightarrow> dtype d \<noteq> DTYPE_DBKEY \<Longrightarrow> returns (write_field_binary rec d)"
  unfolding write_field_binary_def Let_def
  by (intro returns_if returns_rbind returns_access other_field_Val)
    (simp_all add: int_type_def not_less)

lemma write_field_dbkey:
  "dtype d = DTYPE_DBKEY \<Longrightarrow> write_field_binary rec d =
     rbind (slice rec (offset d) (min (offset d + dlength d) (length rec))) (\<lambda>data. Val (len_field data))"
  by (simp add: write_field_binary_def dtype_defs Let_def)

section \<open>Properties\<close>

text \<open>
  C27. The encoder never fails and never loops, and it panics in exactly two cases: an integer
  column that lies inside the record and has a scale outside the table of powers (\<open>-18\<close> to
  \<open>0\<close>), and a \<open>DBKEY\<close> column that starts beyond the record. Every other column that does
  not fit is written as \<open>NULL\<close>, so a \<open>DBKEY\<close> is the one type without that guard.
\<close>

theorem write_field_outcomes:
  "(write_field_binary rec d = Panic \<longleftrightarrow>
     (\<exists>n. int_type (dtype d) = Some n \<and> offset d + n \<le> length rec \<and> scale d \<notin> {-18..0}) \<or>
     (dtype d = DTYPE_DBKEY \<and> length rec < offset d)) \<and>
   write_field_binary rec d \<noteq> Hang \<and> (\<forall>e. write_field_binary rec d \<noteq> Err e)"
proof (cases "int_type (dtype d)")
  case (Some n)
  then have "dtype d \<noteq> DTYPE_DBKEY" by (auto simp: int_type_def dtype_defs)
  with Some show ?thesis by (auto simp: int_type_cases int_field_Panic int_field_other)
next
  case None
  then show ?thesis
    using write_field_other_type [of d rec] returns_iff [of "write_field_binary rec d"]
    by (cases "dtype d = DTYPE_DBKEY") (auto simp: write_field_dbkey slice_def)
qed

text \<open>
  C28. Whatever the record, the bytes written are one complete field of the \<open>COPY BINARY\<close>
  format: a reader of the format finds either \<open>NULL\<close> or a payload of at most 262148 bytes (four
  times the largest column and eight more), and stops exactly where the field ends. The length of
  a descriptor is a \<open>u16\<close>, which is the hypothesis.
\<close>

theorem write_field_parses:
  assumes "write_field_binary rec d = Val out" and "dlength d < 2 ^ 16"
  shows "\<exists>f. parse_field (out @ rest) = Some (f, rest) \<and> out = encode_field f \<and>
    (case f of None \<Rightarrow> True | Some p \<Rightarrow> length p \<le> 262148)"
proof -
  obtain f where f: "out = encode_field f" "\<And>p. f = Some p \<Longrightarrow> length p \<le> 262148"
    using write_field_well_formed [OF assms(2), of rec] assms(1) by (auto simp: well_formed_def)
  have "field_ok f" using f(2) by (cases f) (force simp: field_ok_def)+
  with f show ?thesis by (auto simp: parse_encode_field split: option.split)
qed

theorem write_field_parses_witness:
  "\<exists>f. parse_field ([0, 0, 0, 1, 1] @ [7]) = Some (f, [7]) \<and> [0, 0, 0, 1, 1] = encode_field f \<and>
    (case f of None \<Rightarrow> True | Some p \<Rightarrow> length p \<le> 262148)"
proof (rule write_field_parses)
  show "write_field_binary [9, 2]
      \<lparr>dtype = 21, scale = 0, dlength = 1, sub_type = 0, dflags = 0, offset = 1\<rparr> = Val [0, 0, 0, 1, 1]"
    by (simp add: write_field_binary_def dtype_defs Let_def len_field_def be_bytes_4)
qed simp

text \<open>
  An integer column without a scale keeps its value: when the record holds the \<open>n\<close>-byte
  two's complement little endian form of \<open>v\<close> at the column's offset (2, 4 or 8 bytes for
  \<open>SHORT\<close>, \<open>LONG\<close> and \<open>INT64\<close>/\<open>QUAD\<close>), the field is \<open>n\<close> bytes whose big endian
  two's complement value is \<open>v\<close>.
\<close>

theorem write_field_integer:
  assumes "int_type (dtype d) = Some n" and "scale d = 0" and "offset d = length pre"
    and "- (2 ^ (8 * n - 1)) \<le> v" and "v < 2 ^ (8 * n - 1)"
  shows "\<exists>p. write_field_binary (pre @ le_bytes n (wrap (8 * n) v) @ post) d = Val (encode_field (Some p)) \<and>
    length p = n \<and> signed_of (8 * n) (be_nat p) = v"
proof -
  let ?b = "le_bytes n (wrap (8 * n) v)"
  have n: "0 < n" using assms(1) by (auto simp: int_type_def split: if_splits)
  have w: "wrap (8 * n) v < 256 ^ n"
    using wrap_bound [of "8 * n" v] by (simp add: power_mult)
  have sw: "signed_of (8 * n) (wrap (8 * n) v) = v"
    using n assms(4,5) by (intro signed_wrap) auto
  have "write_field_binary (pre @ ?b @ post) d = int_field (pre @ ?b @ post) d n"
    by (rule int_type_cases [OF assms(1)])
  also have "\<dots> = Val (len_field (be_bytes n (wrap (8 * n) v)))"
    using assms(2,3) w n by (simp add: int_field_def slice_Val le_nat_le_bytes_id sw)
  finally show ?thesis
    using w by (intro exI [of _ "be_bytes n (wrap (8 * n) v)"]) (simp add: be_nat_be_bytes_id sw)
qed

text \<open>
  The witness reads the \<open>SHORT\<close> \<open>-3\<close> behind one byte of record header.
\<close>

theorem write_field_integer_witness:
  "\<exists>p. write_field_binary ([7] @ le_bytes 2 (wrap (8 * 2) (-3)) @ [1])
      \<lparr>dtype = 8, scale = 0, dlength = 2, sub_type = 0, dflags = 0, offset = 1\<rparr> = Val (encode_field (Some p)) \<and>
    length p = 2 \<and> signed_of (8 * 2) (be_nat p) = -3"
  by (rule write_field_integer) (simp_all add: int_type_def dtype_defs)

text \<open>
  A timestamp keeps its instant: from the days \<open>mjd\<close> since 17 November 1858 and the ticks of
  100 microseconds that the record holds, the field is the 8-byte number of microseconds from
  2000-01-01 (day 51544) to that instant, for every instant whose distance fits 64 bits.
\<close>

theorem write_field_timestamp:
  assumes "dtype d = DTYPE_TIMESTAMP" and "offset d = length pre"
    and "- (2 ^ 31) \<le> mjd" and "mjd < 2 ^ 31" and "ticks < 2 ^ 32"
    and "- (2 ^ 63) \<le> (mjd - 51544) * 86400000000 + int ticks * 100"
    and "(mjd - 51544) * 86400000000 + int ticks * 100 < 2 ^ 63"
  shows "\<exists>p. write_field_binary (pre @ le_bytes 4 (wrap 32 mjd) @ le_bytes 4 ticks @ post) d = Val (encode_field (Some p)) \<and>
    length p = 8 \<and> signed_of 64 (be_nat p) = (mjd - 51544) * 86400000000 + int ticks * 100"
proof -
  define us where "us = (mjd - 51544) * 86400000000 + int ticks * 100"
  have sw: "signed_of 32 (wrap 32 mjd) = mjd" "signed_of 64 (wrap 64 us) = us"
    by (rule signed_wrap; use assms in \<open>simp add: us_def\<close>)+
  have b: "wrap 32 mjd < 256 ^ 4" "wrap 64 us < 256 ^ 8"
    using wrap_bound [of 32 mjd] wrap_bound [of 64 us] by simp_all
  have "write_field_binary (pre @ le_bytes 4 (wrap 32 mjd) @ le_bytes 4 ticks @ post) d =
      timestamp_field (pre @ le_bytes 4 (wrap 32 mjd) @ le_bytes 4 ticks @ post) d"
    using assms(1) by (simp add: write_field_binary_def dtype_defs Let_def)
  also have "\<dots> = Val (len_field (be_bytes 8 (wrap 64 us)))"
    using assms(2,5) b sw(1)
    by (simp add: timestamp_field_def PG_EPOCH_MJD_def le_nat_le_bytes_id us_def)
  finally show ?thesis unfolding us_def [symmetric]
    using b sw(2) by (intro exI [of _ "be_bytes 8 (wrap 64 us)"]) (simp add: be_nat_be_bytes_id)
qed

theorem write_field_timestamp_witness:
  "\<exists>p. write_field_binary ([] @ le_bytes 4 (wrap 32 51545) @ le_bytes 4 5 @ [])
      \<lparr>dtype = 16, scale = 0, dlength = 8, sub_type = 0, dflags = 0, offset = 0\<rparr> = Val (encode_field (Some p)) \<and>
    length p = 8 \<and> signed_of 64 (be_nat p) = (51545 - 51544) * 86400000000 + int 5 * 100"
  by (rule write_field_timestamp) (simp_all add: dtype_defs)

text \<open>
  A \<open>CHAR\<close> column keeps its text: when its whole length lies in the record, the field is
  the UTF-8 form of the column's Windows-1252 characters up to the last one above a blank, NUL bytes
  left out.
\<close>

theorem write_field_char:
  assumes "dtype d = DTYPE_TEXT" and "offset d = length pre" and "dlength d = length raw" and "raw \<noteq> []"
  shows "\<exists>p. write_field_binary (pre @ raw @ post) d = Val (encode_field (Some p)) \<and>
    utf8_decode p = Some (map cp1252 (filter (\<lambda>b. b \<noteq> 0) (trim_text raw)))"
proof -
  have "write_field_binary (pre @ raw @ post) d = text_field (trim_text raw)"
    using assms by (simp add: write_field_binary_def Let_def slice_def)
  then show ?thesis
    using utf8_decode_encode [OF scalar_win_text [of "trim_text raw"]]
    by (intro exI [of _ "utf8_encode (win_text (trim_text raw))"])
      (simp add: text_field_val, simp add: win_text_def)
qed

theorem write_field_char_witness:
  "\<exists>p. write_field_binary ([9] @ [97, 128, 32] @ [1])
      \<lparr>dtype = 1, scale = 0, dlength = 3, sub_type = 0, dflags = 0, offset = 1\<rparr> = Val (encode_field (Some p)) \<and>
    utf8_decode p = Some (map cp1252 (filter (\<lambda>b. b \<noteq> 0) (trim_text [97, 128, 32])))"
  by (rule write_field_char) (simp_all add: dtype_defs)

end
