(* ===== verification/Heap_Order.thy ===== *)
theory Heap_Order
  imports Main "HOL-Library.Multiset"
begin

text \<open>
  The abstract sorter behind \<open>sort_dedup_generic\<close> of \<open>src/src/cdc.rs\<close>: a heapsort and an
  in-place removal of equal neighbours on lists of ordered elements. The bytes of the snapshot
  are refined to these lists in the theory of the flat key sets.
\<close>

section \<open>Exchanging two elements\<close>

definition swap_at :: "'a list \<Rightarrow> nat \<Rightarrow> nat \<Rightarrow> 'a list" where
  "swap_at xs i j = xs[i := xs ! j, j := xs ! i]"

lemma length_swap_at [simp]: "length (swap_at xs i j) = length xs"
  by (simp add: swap_at_def)

lemma swap_at_nth:
  "i < length xs \<Longrightarrow> j < length xs \<Longrightarrow>
   swap_at xs i j ! k = (if k = j then xs ! i else if k = i then xs ! j else xs ! k)"
  by (simp add: swap_at_def nth_list_update)

lemma mset_swap_at [simp]: "i < length xs \<Longrightarrow> j < length xs \<Longrightarrow> mset (swap_at xs i j) = mset xs"
  by (simp add: swap_at_def mset_swap)

section \<open>Sifting\<close>

text \<open>The child that \<open>heap_sift_down\<close> compares with its parent.\<close>

definition big_child :: "'a :: linorder list \<Rightarrow> nat \<Rightarrow> nat \<Rightarrow> nat" where
  "big_child xs r n = (if 2 * r + 2 < n \<and> xs ! (2 * r + 1) < xs ! (2 * r + 2) then 2 * r + 2 else 2 * r + 1)"

lemma big_child_bounds:
  "2 * r + 1 < n \<Longrightarrow> r < big_child xs r n \<and> big_child xs r n < n"
  by (auto simp: big_child_def)

function sift :: "'a :: linorder list \<Rightarrow> nat \<Rightarrow> nat \<Rightarrow> 'a list" where
  "sift xs r n =
     (if n \<le> 2 * r + 1 then xs
      else if xs ! r < xs ! big_child xs r n
           then sift (swap_at xs r (big_child xs r n)) (big_child xs r n) n
           else xs)"
  by pat_completeness auto
termination
proof (relation "measure (\<lambda>(xs, r, n). n - r)")
  fix xs :: "'a list" and r n :: nat
  assume "\<not> n \<le> 2 * r + 1"
  then show "((swap_at xs r (big_child xs r n), big_child xs r n, n), xs, r, n) \<in> measure (\<lambda>(xs, r, n). n - r)"
    using big_child_bounds [of r n xs] by (auto intro: diff_less_mono2)
qed simp

declare sift.simps [simp del]

definition heap_node :: "'a :: linorder list \<Rightarrow> nat \<Rightarrow> nat \<Rightarrow> bool" where
  "heap_node xs n i \<longleftrightarrow>
     (2 * i + 1 < n \<longrightarrow> xs ! (2 * i + 1) \<le> xs ! i) \<and> (2 * i + 2 < n \<longrightarrow> xs ! (2 * i + 2) \<le> xs ! i)"

text \<open>Every node from \<open>lo\<close> on is a heap node, the one at \<open>r\<close> perhaps excepted.\<close>

definition almost_heap :: "'a :: linorder list \<Rightarrow> nat \<Rightarrow> nat \<Rightarrow> nat \<Rightarrow> bool" where
  "almost_heap xs lo r n \<longleftrightarrow>
     (\<forall>i\<ge>lo. i \<noteq> r \<longrightarrow> heap_node xs n i) \<and>
     (\<forall>i\<ge>lo. \<forall>c. (r = 2 * i + 1 \<or> r = 2 * i + 2) \<longrightarrow> (c = 2 * r + 1 \<or> c = 2 * r + 2) \<longrightarrow> c < n \<longrightarrow> xs ! c \<le> xs ! i)"

definition heap_from :: "'a :: linorder list \<Rightarrow> nat \<Rightarrow> nat \<Rightarrow> bool" where
  "heap_from xs lo n \<longleftrightarrow> (\<forall>i\<ge>lo. heap_node xs n i)"

lemma almost_heap_step:
  assumes "almost_heap xs lo r n" and "lo \<le> r" and "n \<le> length xs" and "2 * r + 1 < n"
    and "xs ! r < xs ! big_child xs r n"
  shows "almost_heap (swap_at xs r (big_child xs r n)) lo (big_child xs r n) n"
proof -
  let ?c = "big_child xs r n" and ?ys = "swap_at xs r (big_child xs r n)"
  have c: "r < ?c" "?c < n" using big_child_bounds [OF assms(4), of xs] by auto
  have nth: "?ys ! k = (if k = ?c then xs ! r else if k = r then xs ! ?c else xs ! k)" for k
    using c assms(3) by (intro swap_at_nth) auto
  have c_is: "?c = 2 * r + 1 \<or> ?c = 2 * r + 2" by (auto simp: big_child_def)
  have sib: "xs ! k \<le> xs ! ?c" if "k = 2 * r + 1 \<or> k = 2 * r + 2" "k < n" for k
    using that by (auto simp: big_child_def not_less)
  have node: "heap_node xs n i" if "lo \<le> i" "i \<noteq> r" for i
    using assms(1) that by (simp add: almost_heap_def)
  have up: "xs ! k \<le> xs ! i" if "lo \<le> i" "r = 2 * i + 1 \<or> r = 2 * i + 2" "k = 2 * r + 1 \<or> k = 2 * r + 2" "k < n" for i k
    using assms(1) that by (auto simp: almost_heap_def)
  have "heap_node ?ys n i" if "lo \<le> i" "i \<noteq> ?c" for i
  proof (cases "i = r")
    case True
    have "?ys ! k \<le> ?ys ! r" if "k = 2 * r + 1 \<or> k = 2 * r + 2" "k < n" for k
      using sib [OF that] assms(5) that c by (simp add: nth less_imp_le)
    then show ?thesis using True by (simp add: heap_node_def)
  next
    case False
    have "?ys ! k \<le> ?ys ! i" if k: "k = 2 * i + 1 \<or> k = 2 * i + 2" "k < n" for k
    proof -
      have le: "xs ! k \<le> xs ! i" using node [OF \<open>lo \<le> i\<close> False] k by (auto simp: heap_node_def)
      have "k \<noteq> ?c" using k c_is False by auto
      moreover have "xs ! ?c \<le> xs ! i" if "k = r"
        using up [OF \<open>lo \<le> i\<close> _ c_is c(2)] k that by simp
      ultimately show ?thesis using le False \<open>i \<noteq> ?c\<close> by (simp add: nth)
    qed
    then show ?thesis by (simp add: heap_node_def)
  qed
  moreover have "?ys ! k \<le> ?ys ! i"
    if "lo \<le> i" "?c = 2 * i + 1 \<or> ?c = 2 * i + 2" "k = 2 * ?c + 1 \<or> k = 2 * ?c + 2" "k < n" for i k
  proof -
    have "i = r" using that(2) c_is by auto
    moreover have "xs ! k \<le> xs ! ?c"
      using node [of ?c] assms(2) c that(3,4) by (auto simp: heap_node_def)
    ultimately show ?thesis using that(3) c by (auto simp: nth)
  qed
  ultimately show ?thesis by (auto simp: almost_heap_def)
qed

lemma sift_correct:
  "almost_heap xs lo r n \<Longrightarrow> lo \<le> r \<Longrightarrow> n \<le> length xs \<Longrightarrow>
   heap_from (sift xs r n) lo n \<and> mset (sift xs r n) = mset xs \<and> length (sift xs r n) = length xs \<and>
   drop n (sift xs r n) = drop n xs"
proof (induction xs r n rule: sift.induct)
  case (1 xs r n)
  let ?c = "big_child xs r n"
  show ?case
  proof (cases "2 * r + 1 < n \<and> xs ! r < xs ! ?c")
    case True
    then have c: "r < ?c" "?c < n" using big_child_bounds [of r n xs] by auto
    have "almost_heap (swap_at xs r ?c) lo ?c n"
      using True "1.prems" by (intro almost_heap_step) auto
    moreover have "drop n (swap_at xs r ?c) = drop n xs"
      using c by (simp add: swap_at_def)
    ultimately show ?thesis
      using 1 True c by (subst (1 2 3 4) sift.simps) simp
  next
    case False
    then have "sift xs r n = xs" by (subst sift.simps) auto
    moreover have "heap_node xs n r"
    proof (cases "2 * r + 1 < n")
      case True
      with False have "xs ! ?c \<le> xs ! r" by auto
      then show ?thesis by (auto simp: heap_node_def big_child_def split: if_splits)
    qed (simp add: heap_node_def)
    ultimately show ?thesis using "1.prems"(1) by (auto simp: heap_from_def almost_heap_def)
  qed
qed

lemma sift_mset: "n \<le> length xs \<Longrightarrow> mset (sift xs r n) = mset xs"
proof (induction xs r n rule: sift.induct)
  case (1 xs r n)
  then show ?case
    using big_child_bounds [of r n xs] by (subst sift.simps) (auto simp: not_le)
qed

lemma length_sift [simp]: "n \<le> length xs \<Longrightarrow> length (sift xs r n) = length xs"
  by (metis sift_mset size_mset)

section \<open>Building and consuming the heap\<close>

definition build_heap :: "'a :: linorder list \<Rightarrow> nat \<Rightarrow> 'a list" where
  "build_heap xs n = fold (\<lambda>i xs. sift xs i n) (rev [0..<n div 2]) xs"

definition drain_heap :: "'a :: linorder list \<Rightarrow> nat \<Rightarrow> 'a list" where
  "drain_heap xs n = fold (\<lambda>e xs. sift (swap_at xs 0 e) 0 e) (rev [1..<n]) xs"

definition heap_sort :: "'a :: linorder list \<Rightarrow> 'a list" where
  "heap_sort xs = drain_heap (build_heap xs (length xs)) (length xs)"

lemma build_heap_from:
  "k \<le> n \<Longrightarrow> n \<le> length xs \<Longrightarrow> heap_from xs k n \<Longrightarrow>
   heap_from (fold (\<lambda>i xs. sift xs i n) (rev [0..<k]) xs) 0 n \<and>
   mset (fold (\<lambda>i xs. sift xs i n) (rev [0..<k]) xs) = mset xs"
proof (induction k arbitrary: xs)
  case 0
  then show ?case by simp
next
  case (Suc k)
  have "almost_heap xs k k n"
    using Suc.prems(3) by (simp add: almost_heap_def heap_from_def Suc_le_eq)
  with sift_correct [of xs k k n] Suc.prems(2)
  have s: "heap_from (sift xs k n) k n" "mset (sift xs k n) = mset xs" "length (sift xs k n) = length xs"
    by auto
  with Suc.IH [of "sift xs k n"] Suc.prems show ?case by simp
qed

lemma build_heap_correct:
  "heap_from (build_heap xs (length xs)) 0 (length xs)" "mset (build_heap xs (length xs)) = mset xs"
proof -
  have "heap_from xs (length xs div 2) (length xs)"
    by (auto simp: heap_from_def heap_node_def)
  then show "heap_from (build_heap xs (length xs)) 0 (length xs)" "mset (build_heap xs (length xs)) = mset xs"
    using build_heap_from [of "length xs div 2" "length xs" xs] by (auto simp: build_heap_def)
qed

lemma heap_max: "heap_from xs 0 n \<Longrightarrow> i < n \<Longrightarrow> xs ! i \<le> xs ! 0"
proof (induction i rule: less_induct)
  case (less i)
  show ?case
  proof (cases "i = 0")
    case False
    define p where "p = (i - 1) div 2"
    have p: "i = 2 * p + 1 \<or> i = 2 * p + 2" "p < i" using False by (auto simp: p_def)
    then have "xs ! i \<le> xs ! p" using less.prems by (auto simp: heap_from_def heap_node_def)
    also have "\<dots> \<le> xs ! 0" using less p by auto
    finally show ?thesis .
  qed simp
qed

text \<open>The part behind the heap is sorted and no smaller than the heap.\<close>

definition drained :: "'a :: linorder list \<Rightarrow> nat \<Rightarrow> bool" where
  "drained xs n \<longleftrightarrow> n \<le> length xs \<and> heap_from xs 0 n \<and> sorted (drop n xs) \<and>
     (\<forall>x \<in> set (take n xs). \<forall>y \<in> set (drop n xs). x \<le> y)"

lemma drained_step:
  assumes "drained xs (Suc e)"
  shows "drained (sift (swap_at xs 0 e) 0 e) e \<and> mset (sift (swap_at xs 0 e) 0 e) = mset xs"
proof -
  let ?ys = "swap_at xs 0 e" and ?zs = "sift (swap_at xs 0 e) 0 e"
  have len: "e < length xs" and heap: "heap_from xs 0 (Suc e)" and srt: "sorted (drop (Suc e) xs)"
    and below: "\<And>x y. x \<in> set (take (Suc e) xs) \<Longrightarrow> y \<in> set (drop (Suc e) xs) \<Longrightarrow> x \<le> y"
    using assms by (auto simp: drained_def)
  have nth: "?ys ! k = (if k = e then xs ! 0 else if k = 0 then xs ! e else xs ! k)" for k
    using len by (intro swap_at_nth) auto
  have "almost_heap ?ys 0 0 e"
    using heap by (auto simp: almost_heap_def heap_from_def heap_node_def nth)
  then have z: "heap_from ?zs 0 e" "mset ?zs = mset ?ys" "length ?zs = length xs" "drop e ?zs = drop e ?ys"
    using sift_correct [of ?ys 0 0 e] len by auto
  have "drop e ?ys = xs ! 0 # drop (Suc e) xs"
    using len by (simp add: Cons_nth_drop_Suc [symmetric] nth) (simp add: swap_at_def)
  then have d: "drop e ?zs = xs ! 0 # drop (Suc e) xs" using z(4) by simp
  have mys: "mset ?ys = mset xs" using len by (intro mset_swap_at) auto
  have "mset (take e ?zs) + mset (drop e ?zs) = mset xs"
    using z(2) mys by (metis append_take_drop_id mset_append)
  moreover have "mset xs = mset (take (Suc e) xs) + mset (drop (Suc e) xs)"
    by (metis append_take_drop_id mset_append)
  ultimately have t: "add_mset (xs ! 0) (mset (take e ?zs)) = mset (take (Suc e) xs)"
    using d by simp
  then have in_t: "x \<in> set (take (Suc e) xs)" if "x \<in> set (take e ?zs)" for x
    using that by (metis insertCI set_mset_add_mset_insert set_mset_mset)
  have max0: "x \<le> xs ! 0" if "x \<in> set (take (Suc e) xs)" for x
    using that heap_max [OF heap] len by (auto simp: in_set_conv_nth)
  have x0: "xs ! 0 \<in> set (take (Suc e) xs)" using t by (metis set_mset_mset union_single_eq_member)
  have "sorted (drop e ?zs)" using d srt below [OF x0] by auto
  moreover have "\<forall>x \<in> set (take e ?zs). \<forall>y \<in> set (drop e ?zs). x \<le> y"
    using d in_t max0 below by fastforce
  ultimately show ?thesis using z len mys by (simp add: drained_def)
qed

lemma drain_steps:
  "drained xs (Suc k) \<Longrightarrow>
   drained (fold (\<lambda>e xs. sift (swap_at xs 0 e) 0 e) (rev [1..<Suc k]) xs) 1 \<and>
   mset (fold (\<lambda>e xs. sift (swap_at xs 0 e) 0 e) (rev [1..<Suc k]) xs) = mset xs"
proof (induction k arbitrary: xs)
  case 0
  then show ?case by simp
next
  case (Suc k)
  from drained_step [OF Suc.prems] Suc.IH [of "sift (swap_at xs 0 (Suc k)) 0 (Suc k)"]
  show ?case by simp
qed

lemma drained_sorted: "drained xs 1 \<Longrightarrow> sorted xs"
  by (cases xs) (auto simp: drained_def)

theorem heap_sort_correct: "heap_sort xs = sort xs"
proof (cases "length xs")
  case 0
  then show ?thesis by (simp add: heap_sort_def build_heap_def drain_heap_def)
next
  case (Suc k)
  let ?h = "build_heap xs (length xs)"
  have m: "mset ?h = mset xs" and h: "heap_from ?h 0 (length xs)" by (rule build_heap_correct)+
  have "length ?h = length xs" using m by (metis size_mset)
  with h Suc have "drained ?h (Suc k)" by (simp add: drained_def)
  with drain_steps [of ?h k] Suc
  have "drained (heap_sort xs) 1" "mset (heap_sort xs) = mset ?h"
    by (simp_all add: heap_sort_def drain_heap_def)
  with m show ?thesis by (metis drained_sorted properties_for_sort)
qed

section \<open>Removing equal neighbours\<close>

text \<open>
  The write-pointer loop of both sorters: \<open>w\<close> elements are kept, \<open>r\<close> is the next to look at.
\<close>

function dedup_loop :: "'a list \<Rightarrow> nat \<Rightarrow> nat \<Rightarrow> 'a list \<times> nat" where
  "dedup_loop xs w r =
     (if r < length xs then
        (if xs ! r \<noteq> xs ! (w - 1)
         then dedup_loop (if r \<noteq> w then xs[w := xs ! r] else xs) (w + 1) (r + 1)
         else dedup_loop xs w (r + 1))
      else (xs, w))"
  by pat_completeness auto
termination by (relation "measure (\<lambda>(xs, w, r). length xs - r)") auto

declare dedup_loop.simps [simp del]

lemma dedup_loop_correct:
  "0 < w \<Longrightarrow> w \<le> r \<Longrightarrow> r \<le> length xs \<Longrightarrow> dedup_loop xs w r = (ys, v) \<Longrightarrow>
   v \<le> length ys \<and> length ys = length xs \<and>
   take v ys = take w xs @ tl (remdups_adj (xs ! (w - 1) # drop r xs))"
proof (induction xs w r arbitrary: ys v rule: dedup_loop.induct)
  case (1 xs w r)
  show ?case
  proof (cases "r < length xs")
    case False
    then have "dedup_loop xs w r = (xs, w)" by (subst dedup_loop.simps) simp
    with "1.prems" False show ?thesis by simp
  next
    case r: True
    then have d: "drop r xs = xs ! r # drop (Suc r) xs" by (simp add: Cons_nth_drop_Suc)
    show ?thesis
    proof (cases "xs ! r = xs ! (w - 1)")
      case True
      have "dedup_loop xs w (r + 1) = (ys, v)"
        using "1.prems"(4) r True by (subst (asm) dedup_loop.simps) simp
      then show ?thesis using "1.IH"(2) r True "1.prems"(1,2) d by simp
    next
      case False
      let ?zs = "if r \<noteq> w then xs[w := xs ! r] else xs"
      have len: "length ?zs = length xs" by simp
      have eq: "dedup_loop ?zs (w + 1) (r + 1) = (ys, v)"
        using "1.prems"(4) r False by (subst (asm) dedup_loop.simps) simp
      have IH: "v \<le> length ys \<and> length ys = length ?zs \<and>
          take v ys = take (w + 1) ?zs @ tl (remdups_adj (?zs ! (w + 1 - 1) # drop (r + 1) ?zs))"
        by (rule "1.IH"(1) [OF r False _ _ _ eq]) (use r "1.prems"(1,2) in auto)
      have zw: "?zs ! w = xs ! r" "take w ?zs = take w xs" "drop (r + 1) ?zs = drop (r + 1) xs"
        using r "1.prems"(2) by auto
      have "take (w + 1) ?zs = take w xs @ [xs ! r]"
        using zw r "1.prems"(2) take_Suc_conv_app_nth [of w ?zs] by simp
      then have "take v ys = take w xs @ remdups_adj (xs ! r # drop (Suc r) xs)"
        using IH zw by (simp del: remdups_adj.simps add: remdups_adj_Cons_alt)
      then show ?thesis using IH len False d by simp
    qed
  qed
qed

lemma dedup_loop_set: "dedup_loop xs w r = (ys, v) \<Longrightarrow> set ys \<subseteq> set xs"
proof (induction xs w r arbitrary: ys v rule: dedup_loop.induct)
  case (1 xs w r)
  let ?zs = "if r \<noteq> w then xs[w := xs ! r] else xs"
  have sub: "set ?zs \<subseteq> set xs" if "r < length xs"
    using set_update_subset_insert [of xs w "xs ! r"] that by auto
  show ?case
  proof (cases "r < length xs \<and> xs ! r \<noteq> xs ! (w - 1)")
    case True
    then have "dedup_loop ?zs (w + 1) (r + 1) = (ys, v)"
      using "1.prems" by (subst (asm) dedup_loop.simps) simp
    with "1.IH"(1) True sub show ?thesis by blast
  next
    case False
    then show ?thesis
      using "1.IH"(2) "1.prems" by (subst (asm) (2) dedup_loop.simps) (auto split: if_splits)
  qed
qed

definition dedup :: "'a list \<Rightarrow> 'a list" where
  "dedup xs = (case dedup_loop xs 1 1 of (ys, w) \<Rightarrow> take w ys)"

lemma dedup_remdups_adj: "xs \<noteq> [] \<Longrightarrow> dedup xs = remdups_adj xs"
proof -
  assume "xs \<noteq> []"
  then obtain y zs where xs: "xs = y # zs" by (cases xs) auto
  obtain ys v where "dedup_loop xs 1 1 = (ys, v)" by (cases "dedup_loop xs 1 1") auto
  then show ?thesis
    using dedup_loop_correct [of 1 1 xs ys v] xs
    by (simp add: dedup_def del: remdups_adj.simps)
qed

lemma remdups_adj_sorted_set:
  "sorted xs \<Longrightarrow> remdups_adj xs = sorted_list_of_set (set xs)"
proof -
  assume s: "sorted xs"
  have "sorted (remdups_adj xs)" using s by (simp add: sorted_remdups_adj)
  moreover have "distinct (remdups_adj xs)"
    using s by (induction xs rule: remdups_adj.induct) (auto dest: order.antisym)
  ultimately show ?thesis
    by (metis remdups_adj_set sorted_list_of_set.idem_if_sorted_distinct)
qed

end
