(* ===== verification/Pk_Flat.thy ===== *)
theory Pk_Flat
  imports Field Heap_Order "HOL-Library.List_Lexorder"
begin

text \<open>
  The flat sorted key sets of \<open>src/src/cdc.rs\<close>: the primary keys of a page lie one behind the
  other in a byte vector, each \<open>stride\<close> bytes long. The first part models the functions on
  bytes as they are written; the second shows that they implement the list operations of the
  abstract sorter on the list of chunks. The scratch buffer of the exchange is filled before each
  read and is not part of the state.
\<close>

section \<open>Slots and the width of a key\<close>

record slot_info =
  slot_desc :: desc
  null_byte :: nat
  null_mask :: nat

definition build_slots :: "(nat \<times> str) list \<Rightarrow> desc list \<Rightarrow> slot_info list" where
  "build_slots field_order descs =
     map (\<lambda>(fid, name).
       \<lparr>slot_desc = (if fid < length descs then descs ! fid else default_zero),
        null_byte = fid div 8, null_mask = 2 ^ (fid mod 8)\<rparr>) field_order"

definition payload_width :: "desc \<Rightarrow> nat option" where
  "payload_width d =
     (let ty = dtype d in
      if ty = DTYPE_SHORT then Some (if scale d = 0 then 2 else 8)
      else if ty = DTYPE_LONG then Some (if scale d = 0 then 4 else 8)
      else if ty = DTYPE_INT64 \<or> ty = DTYPE_QUAD then Some 8
      else if ty = DTYPE_REAL then Some 4
      else if ty = DTYPE_DOUBLE \<or> ty = DTYPE_D_FLOAT then Some 8
      else if ty = DTYPE_SQL_DATE then Some 4
      else if ty = DTYPE_SQL_TIME \<or> ty = DTYPE_SQL_TIME_TZ then Some 8
      else if ty = DTYPE_TIMESTAMP \<or> ty = DTYPE_TIMESTAMP_TZ then Some 8
      else if ty = DTYPE_BOOLEAN then Some 1
      else None)"

fun pk_stride_loop :: "nat option list \<Rightarrow> slot_info list \<Rightarrow> nat \<Rightarrow> nat run" where
  "pk_stride_loop [] slots acc = Val acc"
| "pk_stride_loop (None # pis) slots acc = Val 0"
| "pk_stride_loop (Some ix # pis) slots acc =
     rbind (byte_at slots ix) (\<lambda>slot.
       case payload_width (slot_desc slot) of
         None \<Rightarrow> Val 0
       | Some payload \<Rightarrow> pk_stride_loop pis slots (acc + (4 + payload)))"

definition pk_pgcopy_stride :: "nat option list \<Rightarrow> slot_info list \<Rightarrow> nat run" where
  "pk_pgcopy_stride pk_indices slots = pk_stride_loop pk_indices slots 0"

section \<open>Searching a sorted vector\<close>

function pk_search :: "bytes \<Rightarrow> nat \<Rightarrow> bytes \<Rightarrow> nat \<Rightarrow> nat \<Rightarrow> bool run" where
  "pk_search flat stride target lo hi =
     (if lo < hi then
        (let mid = lo + (hi - lo) div 2 in
         rbind (slice flat (mid * stride) ((mid + 1) * stride)) (\<lambda>chunk.
           if chunk = target then Val True
           else if chunk < target then pk_search flat stride target (mid + 1) hi
           else pk_search flat stride target lo mid))
      else Val False)"
  by pat_completeness auto
termination by (relation "measure (\<lambda>(flat, stride, target, lo, hi). hi - lo)") auto

definition flat_pk_contains :: "bytes \<Rightarrow> nat \<Rightarrow> bytes \<Rightarrow> bool run" where
  "flat_pk_contains flat stride target =
     (if stride = 0 \<or> flat = [] then Val False
      else pk_search flat stride target 0 (length flat div stride))"

section \<open>Sorting and removing duplicates\<close>

definition write_at :: "'a list \<Rightarrow> nat \<Rightarrow> 'a list \<Rightarrow> 'a list" where
  "write_at b i xs = take i b @ xs @ drop (i + length xs) b"

definition chunk_swap_at :: "bytes \<Rightarrow> nat \<Rightarrow> nat \<Rightarrow> nat \<Rightarrow> bytes run" where
  "chunk_swap_at buf stride a b =
     (if a = b then Val buf
      else
        (let lo = min a b; hi = max a b in
         rbind (slice buf (lo * stride) (lo * stride + stride)) (\<lambda>tmp.
         rbind (slice buf (hi * stride) (hi * stride + stride)) (\<lambda>right.
           Val (write_at (write_at buf (lo * stride) right) (hi * stride) tmp)))))"

function heap_sift_down :: "bytes \<Rightarrow> nat \<Rightarrow> nat \<Rightarrow> nat \<Rightarrow> bytes run" where
  "heap_sift_down buf stride node end =
     (if 2 * node + 1 < end then
        rbind
          (if 2 * node + 2 < end then
             rbind (slice buf ((2 * node + 1) * stride) ((2 * node + 1) * stride + stride)) (\<lambda>l.
             rbind (slice buf ((2 * node + 2) * stride) ((2 * node + 2) * stride + stride)) (\<lambda>r.
               Val (l < r)))
           else Val False) (\<lambda>go_right.
        let child = (if go_right then 2 * node + 2 else 2 * node + 1) in
        rbind (slice buf (node * stride) (node * stride + stride)) (\<lambda>p.
        rbind (slice buf (child * stride) (child * stride + stride)) (\<lambda>c.
        if p < c then
          rbind (chunk_swap_at buf stride node child) (\<lambda>buf'. heap_sift_down buf' stride child end)
        else Val buf)))
      else Val buf)"
  by pat_completeness auto
termination
  by (relation "measure (\<lambda>(buf, stride, node, end). end - node)") (auto simp: rbind_Val_iff split: if_splits)

text \<open>\<open>b.copy_within(r..r + n, w)\<close>, which panics when either range leaves \<open>b\<close>.\<close>

definition copy_within :: "bytes \<Rightarrow> nat \<Rightarrow> nat \<Rightarrow> nat \<Rightarrow> bytes run" where
  "copy_within b r n w =
     rbind (slice b r (r + n)) (\<lambda>s. if w + n \<le> length b then Val (write_at b w s) else Panic)"

lemma length_copy_within: "copy_within b r n w = Val b' \<Longrightarrow> length b' = length b"
  by (auto simp: copy_within_def write_at_def rbind_Val_iff elim: slice_ValE split: if_splits)

function dedup_bytes :: "bytes \<Rightarrow> nat \<Rightarrow> nat \<Rightarrow> nat \<Rightarrow> bytes run" where
  "dedup_bytes flat stride w r =
     (if r < length flat \<and> 0 < stride then
        rbind (slice flat r (r + stride)) (\<lambda>x.
        rbind (slice flat (w - stride) w) (\<lambda>y.
        if x \<noteq> y then
          rbind (if r \<noteq> w then copy_within flat r stride w else Val flat) (\<lambda>flat'.
            dedup_bytes flat' stride (w + stride) (r + stride))
        else dedup_bytes flat stride w (r + stride)))
      else Val (take w flat))"
  by pat_completeness auto
termination
  by (relation "measure (\<lambda>(flat, stride, w, r). length flat - r)")
    (auto split: if_splits dest: length_copy_within)

declare pk_search.simps [simp del] heap_sift_down.simps [simp del] dedup_bytes.simps [simp del]

definition sort_dedup_generic :: "bytes \<Rightarrow> nat \<Rightarrow> bytes run" where
  "sort_dedup_generic flat stride =
     (if stride = 0 \<or> stride > 64 \<or> length flat \<le> stride then Val flat
      else
        (let n = length flat div stride in
         if n < 2 then Val flat
         else
           rbind (rfold (\<lambda>i buf. heap_sift_down buf stride i n) (rev [0..<n div 2]) flat) (\<lambda>buf.
           rbind (rfold (\<lambda>end buf.
               rbind (chunk_swap_at buf stride 0 end) (\<lambda>buf. heap_sift_down buf stride 0 end))
             (rev [1..<n]) buf) (\<lambda>buf.
           dedup_bytes buf stride stride stride))))"

text \<open>
  The fast path reads the vector as an array of \<open>n\<close> chunks. \<open>sort_unstable\<close> of the
  standard library orders it; equal chunks are the same bytes, so stability does not show.
\<close>

definition chunks :: "nat \<Rightarrow> bytes \<Rightarrow> bytes list" where
  "chunks stride flat = map (\<lambda>i. take stride (drop (i * stride) flat)) [0..<length flat div stride]"

definition sort_dedup_const :: "nat \<Rightarrow> bytes \<Rightarrow> bytes" where
  "sort_dedup_const S flat =
     (if length flat < 2 * S then flat
      else case dedup_loop (sort (chunks S flat)) 1 1 of (cs, w) \<Rightarrow> take (w * S) (concat cs @ drop (length flat div S * S) flat))"

definition flat_pk_sort_dedup :: "bytes \<Rightarrow> nat \<Rightarrow> bytes run" where
  "flat_pk_sort_dedup flat stride =
     (if stride = 0 then Val flat
      else if stride \<in> {4, 8, 12, 16, 20, 24} then Val (sort_dedup_const stride flat)
      else sort_dedup_generic flat stride)"

section \<open>Bytes as a list of chunks\<close>

definition uniform :: "nat \<Rightarrow> bytes list \<Rightarrow> bool" where
  "uniform S cs \<longleftrightarrow> (\<forall>c \<in> set cs. length c = S)"

lemma uniform_simps [simp]:
  "uniform S []" "uniform S (c # cs) \<longleftrightarrow> length c = S \<and> uniform S cs"
  "uniform S (xs @ ys) \<longleftrightarrow> uniform S xs \<and> uniform S ys"
  by (auto simp: uniform_def)

lemma uniform_mset: "mset xs = mset ys \<Longrightarrow> uniform S xs \<longleftrightarrow> uniform S ys"
  by (metis uniform_def set_mset_mset)

lemma length_concat_uniform: "uniform S cs \<Longrightarrow> length (concat cs) = length cs * S"
  by (induction cs) auto

lemma concat_split:
  "uniform S cs \<Longrightarrow> i < length cs \<Longrightarrow>
   concat cs = concat (take i cs) @ cs ! i @ concat (drop (Suc i) cs) \<and> length (concat (take i cs)) = i * S \<and>
   length (cs ! i) = S"
proof -
  assume u: "uniform S cs" and i: "i < length cs"
  have "cs = take i cs @ cs ! i # drop (Suc i) cs" using i by (rule id_take_nth_drop)
  then have "concat cs = concat (take i cs) @ cs ! i @ concat (drop (Suc i) cs)"
    by (metis concat.simps(2) concat_append)
  moreover have "uniform S (take i cs)" using u by (auto simp: uniform_def dest: in_set_takeD)
  ultimately show ?thesis
    using length_concat_uniform [of S "take i cs"] u i by (auto simp: uniform_def)
qed

lemma slice_concat:
  assumes "uniform S cs" and "i < length cs"
  shows "slice (concat cs) (i * S) (i * S + S) = Val (cs ! i)"
proof -
  have "i * S + S \<le> length cs * S"
    using assms(2) mult_le_mono1 [of "Suc i" "length cs" S] by simp
  then show ?thesis
    using concat_split [OF assms] length_concat_uniform [OF assms(1)] by (simp add: slice_Val)
qed

lemma write_at_concat:
  assumes "uniform S cs" and "i < length cs" and "length x = S"
  shows "write_at (concat cs) (i * S) x = concat (cs[i := x])"
  using concat_split [OF assms(1,2)] assms(2,3)
  by (simp add: write_at_def upd_conv_take_nth_drop)

lemma uniform_nth: "uniform S cs \<Longrightarrow> i < length cs \<Longrightarrow> length (cs ! i) = S"
  by (simp add: uniform_def)

lemma uniform_update: "uniform S cs \<Longrightarrow> length x = S \<Longrightarrow> uniform S (cs[i := x])"
  using set_update_subset_insert [of cs i x] by (auto simp: uniform_def)

lemma chunk_swap_at_concat:
  assumes "uniform S cs" and "a < length cs" and "b < length cs"
  shows "chunk_swap_at (concat cs) S a b = Val (concat (swap_at cs a b))"
proof (cases "a = b")
  case True
  then show ?thesis by (simp add: chunk_swap_at_def swap_at_def)
next
  case False
  let ?lo = "min a b" and ?hi = "max a b"
  have lt: "?lo < length cs" "?hi < length cs" using assms by auto
  have "chunk_swap_at (concat cs) S a b = Val (concat (cs[?lo := cs ! ?hi, ?hi := cs ! ?lo]))"
    using False assms(1) lt
    by (simp only: chunk_swap_at_def slice_concat Let_def rbind.simps if_False write_at_concat
        uniform_update uniform_nth length_list_update)
  also have "cs[?lo := cs ! ?hi, ?hi := cs ! ?lo] = swap_at cs a b"
    by (simp add: swap_at_def min_def max_def list_update_swap False)
  finally show ?thesis .
qed

lemma heap_sift_down_concat:
  "uniform S cs \<Longrightarrow> n \<le> length cs \<Longrightarrow>
   heap_sift_down (concat cs) S r n = Val (concat (sift cs r n))"
proof (induction cs r n rule: sift.induct)
  case (1 cs r n)
  let ?c = "big_child cs r n"
  show ?case
  proof (cases "2 * r + 1 < n")
    case False
    then show ?thesis by (simp add: heap_sift_down.simps sift.simps [of cs])
  next
    case True
    then have c: "r < ?c" "?c < n" using big_child_bounds [of r n cs] by auto
    have sl: "slice (concat cs) (i * S) (i * S + S) = Val (cs ! i)" if "i < n" for i
      using slice_concat "1.prems" that by auto
    have go: "(if 2 * r + 2 < n then
             rbind (slice (concat cs) ((2 * r + 1) * S) ((2 * r + 1) * S + S)) (\<lambda>l.
             rbind (slice (concat cs) ((2 * r + 2) * S) ((2 * r + 2) * S + S)) (\<lambda>r.
               Val (l < r))) else Val False) = Val (?c = 2 * r + 2)"
      using sl [of "2 * r + 1"] sl [of "2 * r + 2"] True by (simp add: big_child_def)
    have child: "(if ?c = 2 * r + 2 then 2 * r + 2 else 2 * r + 1) = ?c"
      by (simp add: big_child_def)
    have sw: "chunk_swap_at (concat cs) S r ?c = Val (concat (swap_at cs r ?c))"
      using chunk_swap_at_concat "1.prems" c by simp
    have "uniform S (swap_at cs r ?c)"
      using "1.prems" c by (simp add: swap_at_def uniform_update uniform_nth)
    then have IH: "heap_sift_down (concat (swap_at cs r ?c)) S ?c n = Val (concat (sift (swap_at cs r ?c) ?c n))"
      if "cs ! r < cs ! ?c" using "1.IH" [of ] "1.prems" True that by simp
    have "heap_sift_down (concat cs) S r n =
        (if cs ! r < cs ! ?c then heap_sift_down (concat (swap_at cs r ?c)) S ?c n else Val (concat cs))"
      using True c sl [of r] sl [of ?c]
      by (subst heap_sift_down.simps) (simp only: go child sw rbind.simps Let_def if_True)
    also have "\<dots> = Val (concat (sift cs r n))"
      using IH True by (simp add: sift.simps [of cs])
    finally show ?thesis .
  qed
qed

lemma uniform_sift: "n \<le> length cs \<Longrightarrow> uniform S (sift cs r n) \<longleftrightarrow> uniform S cs"
  by (rule uniform_mset) (rule sift_mset)

lemma uniform_swap_at: "a < length cs \<Longrightarrow> b < length cs \<Longrightarrow> uniform S (swap_at cs a b) \<longleftrightarrow> uniform S cs"
  by (rule uniform_mset) (rule mset_swap_at)

text \<open>The two phases of the heapsort, on chunks.\<close>

lemma build_heap_concat:
  assumes "uniform S cs"
  shows "rfold (\<lambda>i buf. heap_sift_down buf S i (length cs)) (rev [0..<length cs div 2]) (concat cs) =
    Val (concat (build_heap cs (length cs)))"
  using rfold_refines_fold [where I = "\<lambda>ds. uniform S ds \<and> length ds = length cs" and conc = concat and a = cs
      and g = "\<lambda>i ds. sift ds i (length cs)" and f = "\<lambda>i buf. heap_sift_down buf S i (length cs)"
      and xs = "rev [0..<length cs div 2]"]
  by (auto simp: assms heap_sift_down_concat uniform_sift build_heap_def)

lemma drain_heap_concat:
  assumes "uniform S cs"
  shows "rfold (\<lambda>end buf. rbind (chunk_swap_at buf S 0 end) (\<lambda>buf. heap_sift_down buf S 0 end))
      (rev [1..<length cs]) (concat cs) = Val (concat (drain_heap cs (length cs)))"
proof -
  have step: "rbind (chunk_swap_at (concat ds) S 0 e) (\<lambda>buf. heap_sift_down buf S 0 e) =
      Val (concat (sift (swap_at ds 0 e) 0 e)) \<and> uniform S (sift (swap_at ds 0 e) 0 e) \<and>
      length (sift (swap_at ds 0 e) 0 e) = length cs"
    if "e \<in> set (rev [1..<length cs])" "uniform S ds \<and> length ds = length cs" for e ds
  proof -
    have e: "0 < length ds" "e < length ds" using that by auto
    then have "uniform S (swap_at ds 0 e)" using that by (simp only: uniform_swap_at)
    then show ?thesis
      using that e by (simp add: chunk_swap_at_concat heap_sift_down_concat uniform_sift less_imp_le)
  qed
  show ?thesis
    using rfold_refines_fold [where I = "\<lambda>ds. uniform S ds \<and> length ds = length cs" and conc = concat and a = cs
        and g = "\<lambda>e ds. sift (swap_at ds 0 e) 0 e" and xs = "rev [1..<length cs]"
        and f = "\<lambda>end buf. rbind (chunk_swap_at buf S 0 end) (\<lambda>buf. heap_sift_down buf S 0 end)"]
      step assms by (simp add: drain_heap_def)
qed

lemma copy_within_concat:
  assumes "uniform S cs" and "r < length cs" and "w < length cs"
  shows "copy_within (concat cs) (r * S) S (w * S) = Val (concat (cs[w := cs ! r]))"
proof -
  have "w * S + S \<le> length cs * S"
    using assms(3) mult_le_mono1 [of "Suc w" "length cs" S] by simp
  then show ?thesis
    using assms by (simp add: copy_within_def slice_concat write_at_concat uniform_nth length_concat_uniform)
qed

lemma take_concat_uniform: "uniform S cs \<Longrightarrow> v \<le> length cs \<Longrightarrow> take (v * S) (concat cs) = concat (take v cs)"
proof (induction cs arbitrary: v)
  case (Cons c cs)
  then show ?case by (cases v) auto
qed simp

lemma dedup_bytes_concat:
  "uniform S cs \<Longrightarrow> 0 < S \<Longrightarrow> 0 < w \<Longrightarrow> w \<le> r \<Longrightarrow> r \<le> length cs \<Longrightarrow> dedup_loop cs w r = (ys, v) \<Longrightarrow>
   dedup_bytes (concat cs) S (w * S) (r * S) = Val (concat (take v ys))"
proof (induction cs w r arbitrary: ys v rule: dedup_loop.induct)
  case (1 cs w r)
  have len: "length (concat cs) = length cs * S" using "1.prems"(1) by (rule length_concat_uniform)
  show ?case
  proof (cases "r < length cs")
    case False
    then have "dedup_loop cs w r = (cs, w)" by (subst dedup_loop.simps) simp
    then show ?thesis
      using False 1 len by (subst dedup_bytes.simps) (simp add: take_concat_uniform)
  next
    case r: True
    have w: "w * S - S = (w - 1) * S" by (simp add: diff_mult_distrib)
    have wS: "(w - 1) * S + S = w * S"
      using "1.prems"(3) by (metis Suc_diff_1 add.commute mult_Suc)
    have sl: "slice (concat cs) (r * S) (r * S + S) = Val (cs ! r)"
      "slice (concat cs) (w * S - S) (w * S) = Val (cs ! (w - 1))"
      using slice_concat [OF "1.prems"(1), of r] slice_concat [OF "1.prems"(1), of "w - 1"] "1.prems" r
      unfolding w wS by auto
    have nx: "(r + 1) * S = r * S + S" "(w + 1) * S = w * S + S" by simp_all
    have lt: "r * S < length (concat cs) \<and> 0 < S" using r "1.prems"(2) len by simp
    show ?thesis
    proof (cases "cs ! r = cs ! (w - 1)")
      case True
      have eq: "dedup_loop cs w (r + 1) = (ys, v)"
        using "1.prems"(6) r True by (subst (asm) dedup_loop.simps) simp
      have "dedup_bytes (concat cs) S (w * S) (r * S) = dedup_bytes (concat cs) S (w * S) ((r + 1) * S)"
        using True by (subst dedup_bytes.simps) (simp only: lt nx sl rbind.simps simp_thms if_True if_False)
      also have "\<dots> = Val (concat (take v ys))"
        by (rule "1.IH"(2) [OF r _ _ _ _ _ _ eq]) (use True "1.prems" r in auto)
      finally show ?thesis .
    next
      case False
      let ?ds = "if r \<noteq> w then cs[w := cs ! r] else cs"
      have eq: "dedup_loop ?ds (w + 1) (r + 1) = (ys, v)"
        using "1.prems"(6) r False by (subst (asm) dedup_loop.simps) simp
      have u: "uniform S ?ds" using "1.prems" r by (simp add: uniform_update uniform_nth)
      have cp: "(if r * S \<noteq> w * S then copy_within (concat cs) (r * S) S (w * S) else Val (concat cs)) = Val (concat ?ds)"
        using "1.prems" r by (simp add: copy_within_concat)
      have "dedup_bytes (concat cs) S (w * S) (r * S) = dedup_bytes (concat ?ds) S ((w + 1) * S) ((r + 1) * S)"
        using False by (subst dedup_bytes.simps) (simp only: lt nx sl cp rbind.simps simp_thms if_True)
      also have "\<dots> = Val (concat (take v ys))"
        by (rule "1.IH"(1) [OF r _ u _ _ _ _ eq]) (use False "1.prems" r in auto)
      finally show ?thesis .
    qed
  qed
qed

text \<open>The list of chunks is the vector, for a vector of whole chunks.\<close>

lemma chunks_concat: "uniform S cs \<Longrightarrow> 0 < S \<Longrightarrow> chunks S (concat cs) = cs"
proof (rule nth_equalityI)
  assume u: "uniform S cs" and S: "0 < S"
  then show len: "length (chunks S (concat cs)) = length cs"
    by (simp add: chunks_def length_concat_uniform)
  fix i assume "i < length (chunks S (concat cs))"
  then have i: "i < length cs" using len by simp
  then have "chunks S (concat cs) ! i = take S (drop (i * S) (concat cs))"
    using len by (simp add: chunks_def)
  also have "\<dots> = cs ! i" using concat_split [OF u i] by (metis append_eq_conv_conj)
  finally show "chunks S (concat cs) ! i = cs ! i" .
qed

lemma chunks_of_whole:
  assumes "0 < S" and "length flat mod S = 0"
  shows "uniform S (chunks S flat)" and "concat (chunks S flat) = flat"
proof -
  obtain n where n: "length flat = n * S" using assms(2) by (metis mod_0_imp_dvd dvd_def mult.commute)
  have "uniform S (map (\<lambda>i. take S (drop (i * S) flat)) [0..<n]) \<and>
      concat (map (\<lambda>i. take S (drop (i * S) flat)) [0..<n]) = flat" if "length flat = n * S" for flat :: bytes and n
    using that
  proof (induction n arbitrary: flat)
    case (Suc n)
    have "length (drop S flat) = n * S" using Suc.prems by simp
    from Suc.IH [OF this] have IH:
      "uniform S (map (\<lambda>i. take S (drop (i * S) (drop S flat))) [0..<n])"
      "concat (map (\<lambda>i. take S (drop (i * S) (drop S flat))) [0..<n]) = drop S flat" by auto
    have up: "[0..<Suc n] = 0 # map Suc [0..<n]" by (simp only: upt_conv_Cons map_Suc_upt zero_less_Suc)
    have shift: "map (\<lambda>i. take S (drop (i * S) flat)) (map Suc [0..<n]) =
        map (\<lambda>i. take S (drop (i * S) (drop S flat))) [0..<n]"
      by (simp add: add.commute)
    show ?case unfolding up list.map(2) shift using IH Suc.prems by simp
  qed simp
  then show "uniform S (chunks S flat)" "concat (chunks S flat) = flat"
    using n assms(1) by (simp_all add: chunks_def)
qed

lemma dedup_sort: "cs \<noteq> [] \<Longrightarrow> dedup (sort cs) = sorted_list_of_set (set (cs :: bytes list))"
proof -
  assume "cs \<noteq> []"
  then have "sort cs \<noteq> []" by (metis set_empty set_sort)
  then show ?thesis by (simp add: dedup_remdups_adj remdups_adj_sorted_set)
qed

lemma sorted_list_of_set_short: "length cs < 2 \<Longrightarrow> sorted_list_of_set (set cs) = (cs :: bytes list)"
  by (cases cs) (auto simp: less_Suc_eq numeral_2_eq_2)

lemma sort_dedup_const_concat:
  assumes "uniform S cs" and "0 < S"
  shows "sort_dedup_const S (concat cs) = concat (sorted_list_of_set (set cs))"
proof (cases "length cs < 2")
  case True
  then show ?thesis
    using assms by (simp add: sort_dedup_const_def length_concat_uniform sorted_list_of_set_short)
next
  case False
  then have "cs \<noteq> []" by auto
  obtain ys v where ys: "dedup_loop (sort cs) 1 1 = (ys, v)" by (cases "dedup_loop (sort cs) 1 1") auto
  have "uniform S ys" using dedup_loop_set [OF ys] assms(1) by (auto simp: uniform_def)
  moreover have "v \<le> length ys" "length ys = length cs"
    using dedup_loop_correct [OF _ _ _ ys] False by auto
  moreover have "take v ys = sorted_list_of_set (set cs)"
    using dedup_sort [OF \<open>cs \<noteq> []\<close>] ys by (simp add: dedup_def)
  ultimately show ?thesis
    using assms False ys
    by (simp add: sort_dedup_const_def chunks_concat length_concat_uniform take_concat_uniform)
qed

lemma sort_dedup_generic_concat:
  assumes "uniform S cs" and "0 < S" and "S \<le> 64"
  shows "sort_dedup_generic (concat cs) S = Val (concat (sorted_list_of_set (set cs)))"
proof (cases "length cs < 2")
  case True
  then have "length (concat cs) \<le> S"
    using assms(1) by (cases cs) (auto simp: length_concat_uniform)
  then show ?thesis using True assms by (simp add: sort_dedup_generic_def sorted_list_of_set_short)
next
  case False
  let ?h = "heap_sort cs"
  have len: "length (concat cs) div S = length cs" "\<not> length (concat cs) \<le> S"
    using assms False mult_le_mono1 [of 2 "length cs" S] by (auto simp: length_concat_uniform)
  obtain ys v where ys: "dedup_loop ?h 1 1 = (ys, v)" by (cases "dedup_loop ?h 1 1") auto
  have h: "?h = sort cs" by (rule heap_sort_correct)
  have b: "length (build_heap cs (length cs)) = length cs"
    using build_heap_correct(2) [of cs] by (metis size_mset)
  have ub: "uniform S (build_heap cs (length cs))"
    using uniform_mset [OF build_heap_correct(2)] assms(1) by blast
  have drain: "rfold (\<lambda>end buf. rbind (chunk_swap_at buf S 0 end) (\<lambda>buf. heap_sift_down buf S 0 end))
      (rev [1..<length cs]) (concat (build_heap cs (length cs))) = Val (concat ?h)"
    using drain_heap_concat [OF ub] b by (simp add: heap_sort_def)
  have "dedup_bytes (concat ?h) S (1 * S) (1 * S) = Val (concat (take v ys))"
    by (rule dedup_bytes_concat [OF _ _ _ _ _ ys])
      (use assms False h uniform_mset [of "sort cs" cs] in auto)
  then have "sort_dedup_generic (concat cs) S = Val (concat (take v ys))"
    using assms False len
    by (simp add: sort_dedup_generic_def build_heap_concat [OF assms(1)] drain [simplified] Let_def)
  moreover have "take v ys = sorted_list_of_set (set cs)"
    using dedup_sort [of cs] False ys h by (cases cs) (auto simp: dedup_def)
  ultimately show ?thesis by simp
qed

lemma flat_pk_sort_dedup_concat:
  "uniform S cs \<Longrightarrow> 0 < S \<Longrightarrow> S \<le> 64 \<Longrightarrow>
   flat_pk_sort_dedup (concat cs) S = Val (concat (sorted_list_of_set (set cs)))"
  by (simp only: flat_pk_sort_dedup_def sort_dedup_const_concat sort_dedup_generic_concat) simp

text \<open>The binary search keeps the target between \<open>lo\<close> and \<open>hi\<close>.\<close>

lemma pk_search_concat:
  "uniform S cs \<Longrightarrow> sorted cs \<Longrightarrow> hi \<le> length cs \<Longrightarrow>
   (\<forall>i < lo. i < length cs \<longrightarrow> cs ! i < t) \<Longrightarrow> (\<forall>i < length cs. hi \<le> i \<longrightarrow> t < cs ! i) \<Longrightarrow>
   pk_search (concat cs) S t lo hi = Val (t \<in> set cs)"
proof (induction "concat cs" S t lo hi rule: pk_search.induct)
  case (1 S t lo hi)
  show ?case
  proof (cases "lo < hi")
    case False
    have "cs ! i \<noteq> t" if "i < length cs" for i
      using "1.prems"(4,5) that False by (cases "i < lo") auto
    then have "t \<notin> set cs" by (metis in_set_conv_nth)
    then show ?thesis using False by (subst pk_search.simps) simp
  next
    case True
    define m where "m = lo + (hi - lo) div 2"
    have m: "lo \<le> m" "m < hi" "m < length cs" using True "1.prems"(3) by (auto simp: m_def)
    have sl: "slice (concat cs) (m * S) ((m + 1) * S) = Val (cs ! m)"
      using slice_concat [OF "1.prems"(1) m(3)] by (simp add: add.commute)
    have left: "cs ! i \<le> cs ! m" if "i \<le> m" for i
      using "1.prems"(2) that m by (simp add: sorted_iff_nth_mono)
    have right: "cs ! m \<le> cs ! i" if "m \<le> i" "i < length cs" for i
      using "1.prems"(2) that m by (simp add: sorted_iff_nth_mono)
    have step: "pk_search (concat cs) S t lo hi =
        (if cs ! m = t then Val True else if cs ! m < t then pk_search (concat cs) S t (m + 1) hi
         else pk_search (concat cs) S t lo m)"
      using True by (subst pk_search.simps) (simp only: m_def [symmetric] Let_def sl rbind.simps if_True)
    consider "cs ! m = t" | "cs ! m < t" | "t < cs ! m" by (rule linorder_cases)
    then show ?thesis
    proof cases
      case 1
      then show ?thesis using step m(3) by (auto simp: in_set_conv_nth)
    next
      case 2
      have "pk_search (concat cs) S t (m + 1) hi = Val (t \<in> set cs)"
      proof (rule "1.hyps"(1) [OF True m_def sl _ 2])
        show "cs ! m \<noteq> t" using 2 by auto
        show "\<forall>i < m + 1. i < length cs \<longrightarrow> cs ! i < t" using left 2 by (auto simp: less_Suc_eq_le intro: le_less_trans)
      qed (use "1.prems" in auto)
      then show ?thesis using step 2 by (simp add: less_imp_neq)
    next
      case 3
      have "pk_search (concat cs) S t lo m = Val (t \<in> set cs)"
      proof (rule "1.hyps"(2) [OF True m_def sl])
        show "cs ! m \<noteq> t" "\<not> cs ! m < t" using 3 by auto
        show "\<forall>i < length cs. m \<le> i \<longrightarrow> t < cs ! i" using right 3 by (auto intro: less_le_trans)
      qed (use "1.prems" m in auto)
      then show ?thesis using step 3 by auto
    qed
  qed
qed

lemma flat_pk_contains_concat:
  "uniform S cs \<Longrightarrow> 0 < S \<Longrightarrow> sorted cs \<Longrightarrow> flat_pk_contains (concat cs) S t = Val (t \<in> set cs)"
proof -
  assume a: "uniform S cs" "0 < S" "sorted cs"
  then have "length (concat cs) div S = length cs" by (simp add: length_concat_uniform)
  moreover have "concat cs = [] \<longleftrightarrow> cs = []" using a by (cases cs) auto
  moreover have "pk_search (concat cs) S t 0 (length cs) = Val (t \<in> set cs)"
    using a by (intro pk_search_concat) auto
  ultimately show ?thesis using a by (auto simp only: flat_pk_contains_def) simp_all
qed

section \<open>The interface to the scan\<close>

text \<open>
  What the scan relies on: a vector of whole keys of a width the set supports can be built into a
  set, the set is again a vector of those keys, and the search answers membership in it.
\<close>

locale key_set =
  fixes supports :: "nat \<Rightarrow> bool"
    and build :: "bytes \<Rightarrow> nat \<Rightarrow> bytes run"
    and contains :: "bytes \<Rightarrow> nat \<Rightarrow> bytes \<Rightarrow> bool run"
  assumes build_keys: "supports S \<Longrightarrow> uniform S ks \<Longrightarrow>
      \<exists>ds. build (concat ks) S = Val (concat ds) \<and> set ds = set ks \<and> distinct ds"
    and contains_build: "supports S \<Longrightarrow> uniform S ks \<Longrightarrow> build (concat ks) S = Val f \<Longrightarrow>
      contains f S k = Val (k \<in> set ks)"
begin

lemma build_returns: "supports S \<Longrightarrow> uniform S ks \<Longrightarrow> returns (build (concat ks) S)"
  using build_keys [of S ks] by auto

lemma build_uniform:
  assumes "supports S" and "uniform S ks" and "build (concat ks) S = Val f"
  obtains ds where "f = concat ds" and "uniform S ds" and "set ds = set ks" and "distinct ds"
  using build_keys [OF assms(1,2)] assms by (auto simp: uniform_def)

text \<open>Building again changes no answer.\<close>

lemma rebuild:
  assumes "supports S" and "uniform S ks" and "build (concat ks) S = Val f" and "build f S = Val g"
  shows "contains g S k = contains f S k"
proof -
  obtain ds where ds: "f = concat ds" "uniform S ds" "set ds = set ks"
    using build_uniform [OF assms(1-3)] by metis
  then show ?thesis
    using contains_build [OF assms(1,2,3)] contains_build [OF assms(1) ds(2), of g k] assms(4) by simp
qed

end

interpretation flat_keys: key_set "\<lambda>S. 0 < S \<and> S \<le> 64" flat_pk_sort_dedup flat_pk_contains
proof (unfold_locales)
  fix S :: nat and ks :: "bytes list"
  assume S: "0 < S \<and> S \<le> 64" and u: "uniform S ks"
  let ?ds = "sorted_list_of_set (set ks)"
  have b: "flat_pk_sort_dedup (concat ks) S = Val (concat ?ds)"
    using S u by (simp add: flat_pk_sort_dedup_concat)
  then show "\<exists>ds. flat_pk_sort_dedup (concat ks) S = Val (concat ds) \<and> set ds = set ks \<and> distinct ds"
    by (intro exI [of _ ?ds]) simp
  have "uniform S ?ds" using u by (simp add: uniform_def)
  then show "flat_pk_contains f S k = Val (k \<in> set ks)" if "flat_pk_sort_dedup (concat ks) S = Val f" for f k
    using flat_pk_contains_concat [of S ?ds k] S that b by simp
qed

section \<open>The width of an encoded key\<close>

lemma int_field_length:
  assumes "int_field rec d n = Val out"
  shows "out = null_field \<or> length out = 4 + (if scale d = 0 then n else 8)"
  using assms by (auto simp: int_field_def len_field_def rbind_Val_iff Let_def split: if_splits)

lemma fixed_field_length:
  "bits_field rec d n = Val out \<Longrightarrow> out = null_field \<or> length out = 4 + n"
  "date_field rec d = Val out \<Longrightarrow> out = null_field \<or> length out = 8"
  "time_field rec d = Val out \<Longrightarrow> out = null_field \<or> length out = 12"
  "timestamp_field rec d = Val out \<Longrightarrow> out = null_field \<or> length out = 12"
  by (auto simp: field_defs len_field_def rbind_Val_iff Let_def split: if_splits)

lemma write_field_width:
  assumes "payload_width d = Some p" and "write_field_binary rec d = Val out"
  shows "out = null_field \<or> length out = 4 + p"
proof -
  consider "dtype d \<in> {8, 9, 10, 19}" | "dtype d \<in> {11, 12, 13}" | "dtype d = 14" | "dtype d \<in> {15, 25}"
    | "dtype d \<in> {16, 26}" | "dtype d = 21"
    using assms(1) by (auto simp: payload_width_def Let_def dtype_defs split: if_splits)
  then show ?thesis
  proof cases
    case 1
    then show ?thesis
      using assms int_type_cases [of d _ rec] int_field_length [of rec d]
      by (fastforce simp: payload_width_def int_type_def Let_def dtype_defs)
  next
    case 2
    then show ?thesis
      using assms fixed_field_length(1) [of rec d]
      by (fastforce simp: payload_width_def write_field_binary_def Let_def dtype_defs)
  next
    case 3
    then show ?thesis
      using assms fixed_field_length(2) [of rec d]
      by (simp add: payload_width_def write_field_binary_def Let_def dtype_defs)
  next
    case 4
    then show ?thesis
      using assms fixed_field_length(3) [of rec d]
      by (auto simp: payload_width_def write_field_binary_def Let_def dtype_defs)
  next
    case 5
    then show ?thesis
      using assms fixed_field_length(4) [of rec d]
      by (auto simp: payload_width_def write_field_binary_def Let_def dtype_defs)
  next
    case 6
    then show ?thesis
      using assms by (auto simp: payload_width_def write_field_binary_def Let_def dtype_defs
          len_field_def rbind_Val_iff split: if_splits)
  qed
qed

lemma payload_width_pos: "payload_width d = Some p \<Longrightarrow> 0 < p"
  by (auto simp: payload_width_def Let_def split: if_splits)

lemma null_field_length [simp]: "length null_field = 4"
  by (simp add: null_field_def)

lemma pk_stride_loop_width:
  "pk_stride_loop pks slots acc = Val S \<Longrightarrow> 0 < S \<Longrightarrow>
   list_all2 (\<lambda>ix out. \<exists>i. ix = Some i \<and> write_field_binary rec (slot_desc (slots ! i)) = Val out) pks outs \<Longrightarrow>
   acc + length (concat outs) \<le> S \<and> (acc + length (concat outs) = S \<longleftrightarrow> null_field \<notin> set outs)"
proof (induction pks slots acc arbitrary: outs rule: pk_stride_loop.induct)
  case (3 i pks slots acc)
  from "3.prems"(3) obtain out outs' where o: "outs = out # outs'"
    "write_field_binary rec (slot_desc (slots ! i)) = Val out"
    "list_all2 (\<lambda>ix out. \<exists>i. ix = Some i \<and> write_field_binary rec (slot_desc (slots ! i)) = Val out) pks outs'"
    by (auto simp: list_all2_Cons1)
  from "3.prems"(1,2) obtain p where p: "byte_at slots i = Val (slots ! i)" "payload_width (slot_desc (slots ! i)) = Some p"
    "pk_stride_loop pks slots (acc + (4 + p)) = Val S"
    by (auto simp: rbind_Val_iff byte_at_def split: if_splits option.splits)
  have "acc + (4 + p) + length (concat outs') \<le> S \<and>
      (acc + (4 + p) + length (concat outs') = S \<longleftrightarrow> null_field \<notin> set outs')"
    by (rule "3.IH" [OF p(1,2,3) "3.prems"(2) o(3)])
  then show ?case
    using write_field_width [OF p(2) o(2)] payload_width_pos [OF p(2)] o(1) by auto
qed auto

section \<open>Keys wider than 64 bytes\<close>

text \<open>
  Six \<open>BIGINT\<close> columns give a width of 72: such a key is tracked, but the sorter leaves every
  vector of that width as it is, and the search misses a key that stands before a smaller one.
\<close>

lemma wide_key_stride:
  "pk_pgcopy_stride (map Some [0..<6])
      (build_slots (map (\<lambda>i. (i, [])) [0..<6]) (replicate 6 (default_zero\<lparr>dtype := DTYPE_INT64\<rparr>))) = Val 72"
proof -
  have up: "[0..<6] = [0, 1, 2, 3, 4, 5]" by (simp add: upt_rec)
  show ?thesis
    unfolding up by (simp add: pk_pgcopy_stride_def build_slots_def payload_width_def default_zero_def
        dtype_defs Let_def)
qed

lemma wide_keys_not_sorted:
  assumes "length a = 72" and "length b = 72" and "a < b"
  shows "flat_pk_sort_dedup (b @ a) 72 = Val (b @ a)"
    and "flat_pk_contains (b @ a) 72 b = Val False" and "flat_pk_contains (b @ a) 72 a = Val True"
proof -
  show "flat_pk_sort_dedup (b @ a) 72 = Val (b @ a)"
    by (simp add: flat_pk_sort_dedup_def sort_dedup_generic_def)
  have "b \<noteq> a" "\<not> b < a" "b \<noteq> []" using assms(2,3) by auto
  then show "flat_pk_contains (b @ a) 72 b = Val False" "flat_pk_contains (b @ a) 72 a = Val True"
    using assms by (simp_all add: flat_pk_contains_def pk_search.simps slice_def)
qed

section \<open>Properties\<close>

text \<open>
  C23. For every key width up to 64 bytes and every vector of whole keys, sorting and
  de-duplicating (the array sort of the six common widths and the heapsort of the others alike)
  returns without a panic, and the keys of the result are exactly the keys of the input, in
  ascending order of their bytes and each once.
\<close>

theorem flat_pk_sort_dedup_correct:
  assumes "0 < S" and "S \<le> 64" and "length flat mod S = 0"
  shows "\<exists>out. flat_pk_sort_dedup flat S = Val out \<and> length out mod S = 0 \<and>
    chunks S out = sorted_list_of_set (set (chunks S flat))"
proof -
  let ?cs = "chunks S flat" and ?ds = "sorted_list_of_set (set (chunks S flat))"
  note whole = chunks_of_whole [OF assms(1,3)]
  have "flat_pk_sort_dedup flat S = Val (concat ?ds)"
    using flat_pk_sort_dedup_concat [OF whole(1) assms(1,2)] by (simp add: whole(2))
  moreover have "uniform S ?ds" using whole(1) by (simp add: uniform_def)
  ultimately show ?thesis
    using assms(1) by (auto simp: chunks_concat length_concat_uniform)
qed

theorem flat_pk_sort_dedup_correct_witness:
  "\<exists>out. flat_pk_sort_dedup [2, 1, 2] 1 = Val out \<and> length out mod 1 = 0 \<and>
    chunks 1 out = sorted_list_of_set (set (chunks 1 [2, 1, 2]))"
  by (rule flat_pk_sort_dedup_correct) simp_all

text \<open>
  The binary search answers membership: on a vector of whole keys that ascend, it finds the
  target exactly when it is one of the keys, without a panic.
\<close>

theorem flat_pk_contains_correct:
  assumes "0 < S" and "length flat mod S = 0" and "sorted (chunks S flat)"
  shows "flat_pk_contains flat S target = Val (target \<in> set (chunks S flat))"
  using flat_pk_contains_concat [OF chunks_of_whole(1) assms(1,3)] assms chunks_of_whole(2) by simp

theorem flat_pk_contains_correct_witness:
  "flat_pk_contains [1, 3, 1, 4] 2 [1, 4] = Val ([1, 4] \<in> set (chunks 2 [1, 3, 1, 4 :: byte]))"
  by (rule flat_pk_contains_correct) (simp_all add: chunks_def)

text \<open>
  The computed width is the width of every key without a \<open>NULL\<close>: when the columns of
  the key are written one behind the other, the result has the width exactly when no column was
  written as \<open>NULL\<close>. The scan's comparison of the two lengths therefore drops exactly the
  keys that have a \<open>NULL\<close>.
\<close>

theorem pk_stride_is_key_width:
  assumes "pk_pgcopy_stride pks slots = Val S" and "0 < S"
    and "list_all2 (\<lambda>ix out. \<exists>i. ix = Some i \<and> write_field_binary rec (slot_desc (slots ! i)) = Val out) pks outs"
  shows "length (concat outs) = S \<longleftrightarrow> null_field \<notin> set outs"
  using pk_stride_loop_width [of pks slots 0 S rec outs] assms by (simp add: pk_pgcopy_stride_def)

theorem pk_stride_is_key_width_witness:
  "length (concat [len_field [1 :: byte]]) = 5 \<longleftrightarrow> null_field \<notin> set [len_field [1]]"
proof (rule pk_stride_is_key_width [where rec = "[1]"])
  show "pk_pgcopy_stride [Some 0] [\<lparr>slot_desc = default_zero\<lparr>dtype := DTYPE_BOOLEAN\<rparr>, null_byte = 0, null_mask = 1\<rparr>] = Val 5"
    by (simp add: pk_pgcopy_stride_def payload_width_def dtype_defs)
qed (simp_all add: write_field_binary_def default_zero_def dtype_defs byte_at_def)

end
