(* ===== verification/Cdc_State.thy ===== *)
theory Cdc_State
  imports Pk_Flat Rust_Str
begin

text \<open>
  The state of the change capture, \<open>src/src/cdc.rs\<close>: the runtime cache of a table, the binary
  side file with the key snapshots, and the way both files are replaced. A \<open>HashMap\<close> that is
  iterated is an association list in iteration order; one that is only looked up is a function.
\<close>

section \<open>Records\<close>

record table_state =
  ts_last_txn :: nat
  ts_pk_fields :: "str list"

record cdc_state =
  sv_version :: nat
  sv_last_txn :: nat
  sv_tables :: "str \<Rightarrow> table_state option"
  sv_page_gens :: "str \<Rightarrow> (nat \<Rightarrow> nat option) option"

record table_cache =
  tc_relation_id :: nat
  tc_slots :: "slot_info list"
  tc_fmt_slots :: "slot_info list option list"
  tc_col_names :: "str list"
  tc_pk_col_names :: "str list"
  tc_n_fields :: nat
  tc_n_pk :: nat
  tc_pk_indices :: "nat option list"
  tc_first_pp :: "nat option"
  tc_pp_gen :: nat
  tc_data_pages :: "nat list"
  tc_prev_pks :: "(nat \<times> bytes) list"
  tc_pk_tracked :: bool
  tc_pk_byte_len :: nat

text \<open>\<open>TableCache::slots_for\<close>\<close>

definition slots_for :: "table_cache \<Rightarrow> nat \<Rightarrow> slot_info list" where
  "slots_for c fmt =
     (if fmt < length (tc_fmt_slots c)
      then (case tc_fmt_slots c ! fmt of Some s \<Rightarrow> s | None \<Rightarrow> tc_slots c)
      else tc_slots c)"

section \<open>Replacing a file\<close>

text \<open>
  A file is written under a temporary name and renamed. A crash leaves a prefix of the steps
  done, the last write perhaps only in part; \<open>fs_after\<close> is every file system such a crash can
  leave.
\<close>

datatype fs_step = Write_File str bytes | Rename str str

type_synonym fs = "str \<Rightarrow> bytes option"

fun fs_apply :: "fs_step \<Rightarrow> fs \<Rightarrow> fs" where
  "fs_apply (Write_File p b) fs = fs(p := Some b)"
| "fs_apply (Rename p q) fs = fs(q := fs p, p := None)"

inductive fs_after :: "fs_step list \<Rightarrow> fs \<Rightarrow> fs \<Rightarrow> bool" where
  crash_here: "fs_after steps fs fs"
| crash_torn: "fs_after (Write_File p b # steps) fs (fs(p := Some (take n b)))"
| crash_later: "fs_after steps (fs_apply s fs) fs' \<Longrightarrow> fs_after (s # steps) fs fs'"

inductive_cases fs_after_NilE: "fs_after [] fs fs'"
inductive_cases fs_after_ConsE: "fs_after (s # steps) fs fs'"

definition replace_file :: "str \<Rightarrow> bytes \<Rightarrow> fs_step list" where
  "replace_file path b = [Write_File (path @ lit ''.tmp'') b, Rename (path @ lit ''.tmp'') path]"

definition save_state :: "(cdc_state \<Rightarrow> bytes option) \<Rightarrow> cdc_state \<Rightarrow> str \<Rightarrow> fs_step list run" where
  "save_state to_json st path =
     (case to_json st of None \<Rightarrow> Err (InvalidData ''json'') | Some j \<Rightarrow> Val (replace_file path j))"

definition load_state :: "(bytes \<Rightarrow> cdc_state option) \<Rightarrow> fs \<Rightarrow> str \<Rightarrow> cdc_state" where
  "load_state from_json fs path =
     (case Option.bind (fs path) from_json of
        Some st \<Rightarrow> st
      | None \<Rightarrow> \<lparr>sv_version = 1, sv_last_txn = 0, sv_tables = Map.empty, sv_page_gens = Map.empty\<rparr>)"

section \<open>The snapshot file\<close>

definition snap_tracked :: "table_cache option \<Rightarrow> bool" where
  "snap_tracked copt \<longleftrightarrow> (case copt of None \<Rightarrow> False | Some c \<Rightarrow> tc_pk_byte_len c > 0 \<and> tc_prev_pks c \<noteq> [])"

definition snap_page :: "nat \<times> bytes \<Rightarrow> bytes" where
  "snap_page = (\<lambda>(page_num, flat). le_bytes 4 page_num @ le_bytes 4 (length flat) @ flat)"

definition snap_table :: "str \<times> table_cache option \<Rightarrow> bytes" where
  "snap_table = (\<lambda>(name, copt). case copt of
     None \<Rightarrow> []
   | Some c \<Rightarrow>
       if tc_pk_byte_len c = 0 \<or> tc_prev_pks c = [] then []
       else
         (let nb = utf8_encode name
          in le_bytes 4 (length nb) @ nb @ le_bytes 4 (tc_pk_byte_len c) @
             le_bytes 8 (length (tc_prev_pks c)) @ concat (map snap_page (tc_prev_pks c))))"

definition FDBS :: bytes where "FDBS = [70, 68, 66, 83]"

definition save_snapshots :: "(str \<times> table_cache option) list \<Rightarrow> bytes" where
  "save_snapshots caches =
     FDBS @ le_bytes 4 1 @ le_bytes 8 (length (filter (\<lambda>(name, c). snap_tracked c) caches)) @
     concat (map snap_table caches)"

text \<open>
  Reading back. \<open>None\<close> is the early return of the closure. \<open>HashMap::with_capacity(n)\<close> panics when
  \<open>8 * n\<close> overflows; smaller sizes that exhaust the memory are outside the model.
\<close>

type_synonym snapshot = "nat \<times> (nat \<Rightarrow> bytes option)"

definition map_capacity :: "nat \<Rightarrow> 'a run \<Rightarrow> 'a run" where
  "map_capacity n m = (if 8 * n < 2 ^ 64 then m else Panic)"

fun load_pages :: "nat \<Rightarrow> bytes \<Rightarrow> nat \<Rightarrow> (nat \<Rightarrow> bytes option) \<Rightarrow> ((nat \<Rightarrow> bytes option) \<times> nat) option" where
  "load_pages 0 data i pages = Some (pages, i)"
| "load_pages (Suc n) data i pages =
     (if i + 8 > length data then None
      else
        (let pn = le_at 4 data i; fl = le_at 4 data (i + 4) in
         if i + 8 + fl > length data then None
         else load_pages n data (i + 8 + fl) (pages(pn := Some (take fl (drop (i + 8) data))))))"

definition load_table :: "bytes \<Rightarrow> nat \<Rightarrow> (str \<times> snapshot \<times> nat) option run" where
  "load_table data i =
     (if i + 4 > length data then Val None
      else
        (let nl = le_at 4 data i; i = i + 4 in
         if i + nl > length data then Val None
         else (case utf8_decode (take nl (drop i data)) of
             None \<Rightarrow> Val None
           | Some name \<Rightarrow>
               (let i = i + nl in
                if i + 4 > length data then Val None
                else
                  (let pk_byte_len = le_at 4 data i; i = i + 4 in
                   if i + 8 > length data then Val None
                   else
                     (let n_pages = le_at 8 data i; i = i + 8 in
                      map_capacity n_pages (Val
                        (case load_pages n_pages data i Map.empty of
                           None \<Rightarrow> None
                         | Some (pages, j) \<Rightarrow> Some (name, (pk_byte_len, pages), j)))))))))"

fun load_tables :: "nat \<Rightarrow> bytes \<Rightarrow> nat \<Rightarrow> (str \<Rightarrow> snapshot option) \<Rightarrow> (str \<Rightarrow> snapshot option) option run" where
  "load_tables 0 data i acc = Val (Some acc)"
| "load_tables (Suc n) data i acc =
     rbind (load_table data i) (\<lambda>r. case r of
       None \<Rightarrow> Val None
     | Some (name, snap, j) \<Rightarrow> load_tables n data j (acc(name := Some snap)))"

definition parse_snapshots :: "bytes \<Rightarrow> (str \<Rightarrow> snapshot option) option run" where
  "parse_snapshots data =
     (if length data < 16 \<or> take 4 data \<noteq> FDBS then Val None
      else if le_at 4 data 4 \<noteq> 1 then Val None
      else
        (let n_tables = le_at 8 data 8
         in map_capacity n_tables (load_tables n_tables data 16 Map.empty)))"

definition load_snapshots :: "bytes option \<Rightarrow> (str \<Rightarrow> snapshot option) run" where
  "load_snapshots file =
     (case file of
        None \<Rightarrow> Val Map.empty
      | Some data \<Rightarrow>
          rbind (parse_snapshots data) (\<lambda>r. Val (case r of Some m \<Rightarrow> m | None \<Rightarrow> Map.empty)))"

section \<open>Reading a snapshot back\<close>

lemma at_offset [simp]:
  "take n (drop (length pre) (pre @ xs)) = take n xs"
  "drop (length pre + k) (pre @ xs) = drop k xs"
  by simp_all

text \<open>The inserts of a loop over pairs.\<close>

fun put_all :: "('k \<times> 'v) list \<Rightarrow> ('k \<Rightarrow> 'v option) \<Rightarrow> 'k \<Rightarrow> 'v option" where
  "put_all [] m = m"
| "put_all ((k, v) # ps) m = put_all ps (m(k := Some v))"

definition page_ok :: "nat \<times> bytes \<Rightarrow> bool" where
  "page_ok p \<longleftrightarrow> fst p < 2 ^ 32 \<and> length (snd p) < 2 ^ 32"

lemma length_snap_page [simp]: "length (snap_page (pn, flat)) = 8 + length flat"
  by (simp add: snap_page_def)

lemma load_pages_snap:
  "list_all page_ok ps \<Longrightarrow>
   load_pages (length ps) (pre @ concat (map snap_page ps) @ post) (length pre) acc =
     Some (put_all ps acc, length pre + length (concat (map snap_page ps)))"
proof (induction ps arbitrary: pre acc)
  case Nil
  then show ?case by simp
next
  case (Cons p ps)
  obtain pn flat where p: "p = (pn, flat)" by (cases p)
  have ok: "pn < 2 ^ 32" "length flat < 2 ^ 32" using Cons.prems p by (auto simp: page_ok_def)
  define data where "data = pre @ snap_page p @ concat (map snap_page ps) @ post"
  have f: "le_at 4 data (length pre) = pn" "le_at 4 data (length pre + 4) = length flat"
    "take (length flat) (drop (length pre + 8) data) = flat"
    using ok by (simp_all add: data_def p snap_page_def le_nat_le_bytes_id)
  have len: "length pre + 8 + length flat \<le> length data" by (simp add: data_def p)
  have "load_pages (length (p # ps)) data (length pre) acc =
      load_pages (length ps) data (length pre + 8 + length flat) (acc(pn := Some flat))"
    using len by (simp add: f Let_def)
  also have "\<dots> = Some (put_all ps (acc(pn := Some flat)),
      length pre + 8 + length flat + length (concat (map snap_page ps)))"
  proof -
    have "list_all page_ok ps" "length (pre @ snap_page p) = length pre + 8 + length flat"
      "data = (pre @ snap_page p) @ concat (map snap_page ps) @ post"
      using Cons.prems by (simp_all add: data_def p)
    then show ?thesis using Cons.IH [of "pre @ snap_page p"] by (simp only:)
  qed
  also have "data = pre @ concat (map snap_page (p # ps)) @ post" by (simp add: data_def)
  finally show ?case by (simp only: p put_all.simps list.map concat.simps length_append length_snap_page add.assoc)
qed

lemma put_all_map_of:
  "distinct (map fst ps) \<Longrightarrow> put_all ps acc = acc ++ map_of ps"
proof (induction ps arbitrary: acc)
  case (Cons p ps)
  obtain k v where p: "p = (k, v)" by (cases p)
  with Cons.prems have "k \<notin> dom (map_of ps)" by (simp add: dom_map_of_conv_image_fst)
  then have "acc(k := Some v) ++ map_of ps = acc ++ (map_of ps)(k := Some v)"
    by (auto simp: map_add_def fun_eq_iff split: option.split)
  moreover have "put_all ps (acc(k := Some v)) = acc(k := Some v) ++ map_of ps"
    using Cons.prems by (intro Cons.IH) (simp add: p)
  ultimately show ?case by (simp only: p put_all.simps map_of.simps fst_conv snd_conv)
qed simp

definition snap_ok :: "str \<Rightarrow> table_cache \<Rightarrow> bool" where
  "snap_ok name c \<longleftrightarrow>
     list_all scalar name \<and> length (utf8_encode name) < 2 ^ 32 \<and> tc_pk_byte_len c < 2 ^ 32 \<and>
     length (tc_prev_pks c) < 2 ^ 61 \<and> list_all page_ok (tc_prev_pks c) \<and> distinct (map fst (tc_prev_pks c))"

lemma load_table_snap:
  assumes "snap_tracked (Some c)" and "snap_ok name c"
  shows "load_table (pre @ snap_table (name, Some c) @ post) (length pre) =
    Val (Some (name, (tc_pk_byte_len c, map_of (tc_prev_pks c)), length pre + length (snap_table (name, Some c))))"
proof -
  let ?nb = "utf8_encode name" and ?ps = "tc_prev_pks c"
  let ?pre = "pre @ le_bytes 4 (length ?nb) @ ?nb @ le_bytes 4 (tc_pk_byte_len c) @ le_bytes 8 (length ?ps)"
  have t: "snap_table (name, Some c) = le_bytes 4 (length ?nb) @ ?nb @ le_bytes 4 (tc_pk_byte_len c) @
      le_bytes 8 (length ?ps) @ concat (map snap_page ?ps)"
    using assms(1) by (auto simp: snap_table_def snap_tracked_def Let_def)
  have pages: "load_pages (length ?ps) (pre @ snap_table (name, Some c) @ post) (length ?pre) Map.empty =
      Some (map_of ?ps, length ?pre + length (concat (map snap_page ?ps)))"
    using load_pages_snap [of ?ps ?pre post Map.empty] assms(2)
    by (simp add: t snap_ok_def put_all_map_of)
  have dec: "utf8_decode ?nb = Some name"
    using assms(2) by (simp add: snap_ok_def utf8_decode_encode)
  have f: "le_at 4 (pre @ snap_table (name, Some c) @ post) (length pre) = length ?nb"
    "take (length ?nb) (drop (length pre + 4) (pre @ snap_table (name, Some c) @ post)) = ?nb"
    "le_at 4 (pre @ snap_table (name, Some c) @ post) (length pre + 4 + length ?nb) = tc_pk_byte_len c"
    "le_at 8 (pre @ snap_table (name, Some c) @ post) (length pre + 4 + length ?nb + 4) = length ?ps"
    using assms(2) by (simp_all add: t snap_ok_def le_nat_le_bytes_id ac_simps)
  have i: "length pre + 4 + length ?nb + 4 + 8 = length ?pre" by simp
  have len: "length (pre @ snap_table (name, Some c) @ post) \<ge> length ?pre" by (simp add: t)
  show ?thesis
    using len assms(2) pages unfolding load_table_def Let_def f i
    by (simp add: dec map_capacity_def snap_ok_def) (simp add: t)
qed

text \<open>The tables of the file, in order.\<close>

definition tracked :: "(str \<times> table_cache option) list \<Rightarrow> (str \<times> table_cache) list" where
  "tracked caches = [(name, c). (name, Some c) \<leftarrow> filter (\<lambda>(name, c). snap_tracked c) caches]"

definition snap_of :: "str \<times> table_cache \<Rightarrow> str \<times> snapshot" where
  "snap_of = (\<lambda>(name, c). (name, (tc_pk_byte_len c, map_of (tc_prev_pks c))))"

lemma tracked_simps [simp]:
  "tracked [] = []" "tracked ((name, None) # cs) = tracked cs"
  "tracked ((name, Some c) # cs) = (if snap_tracked (Some c) then (name, c) # tracked cs else tracked cs)"
  by (simp_all add: tracked_def snap_tracked_def)

lemma length_tracked: "length (filter (\<lambda>(name, c). snap_tracked c) caches) = length (tracked caches)"
proof (induction caches)
  case (Cons x cs)
  obtain name copt where "x = (name, copt)" by (cases x)
  then show ?case using Cons by (cases copt) (simp_all add: snap_tracked_def)
qed simp

lemma snap_tables_tracked:
  "concat (map snap_table caches) = concat (map (\<lambda>(name, c). snap_table (name, Some c)) (tracked caches))"
proof (induction caches)
  case (Cons x cs)
  obtain name copt where "x = (name, copt)" by (cases x)
  then show ?case using Cons by (cases copt) (auto simp: snap_tracked_def snap_table_def)
qed simp

lemma tracked_snap_tracked: "(name, c) \<in> set (tracked caches) \<Longrightarrow> snap_tracked (Some c)"
  by (auto simp: tracked_def)

lemma load_tables_snap:
  "(\<And>name c. (name, c) \<in> set ts \<Longrightarrow> snap_tracked (Some c) \<and> snap_ok name c) \<Longrightarrow>
   load_tables (length ts) (pre @ concat (map (\<lambda>(name, c). snap_table (name, Some c)) ts)) (length pre) acc =
     Val (Some (put_all (map snap_of ts) acc))"
proof (induction ts arbitrary: pre acc)
  case Nil
  then show ?case by simp
next
  case (Cons x ts)
  obtain name c where x: "x = (name, c)" by (cases x)
  have ok: "snap_tracked (Some c)" "snap_ok name c" using Cons.prems x by auto
  let ?t = "snap_table (name, Some c)" and ?rest = "concat (map (\<lambda>(name, c). snap_table (name, Some c)) ts)"
  have data: "pre @ concat (map (\<lambda>(name, c). snap_table (name, Some c)) (x # ts)) = pre @ ?t @ ?rest"
    by (simp add: x)
  have "load_tables (length (x # ts)) (pre @ ?t @ ?rest) (length pre) acc =
      load_tables (length ts) ((pre @ ?t) @ ?rest) (length (pre @ ?t)) (acc(name := Some (tc_pk_byte_len c, map_of (tc_prev_pks c))))"
    using load_table_snap [OF ok, of pre ?rest] by simp
  also have "\<dots> = Val (Some (put_all (map snap_of ts) (acc(name := Some (tc_pk_byte_len c, map_of (tc_prev_pks c))))))"
    by (rule Cons.IH) (use Cons.prems in auto)
  finally show ?case
    unfolding data by (simp only: x list.map snap_of_def prod.case put_all.simps)
qed

text \<open>The snapshot that a table's cache stands for.\<close>

definition snapshot_of :: "(str \<times> table_cache option) list \<Rightarrow> str \<Rightarrow> snapshot option" where
  "snapshot_of caches name =
     (case map_of caches name of
        Some (Some c) \<Rightarrow>
          if snap_tracked (Some c) then Some (tc_pk_byte_len c, map_of (tc_prev_pks c)) else None
      | _ \<Rightarrow> None)"

lemma fst_tracked: "fst ` set (tracked caches) \<subseteq> fst ` set caches"
  by (force simp: tracked_def)

lemma distinct_tracked: "distinct (map fst caches) \<Longrightarrow> distinct (map fst (map snap_of (tracked caches)))"
proof (induction caches)
  case (Cons x cs)
  obtain name copt where "x = (name, copt)" by (cases x)
  then show ?case
    using Cons fst_tracked [of cs] by (cases copt) (auto simp: snap_of_def image_iff case_prod_beta)
qed simp

lemma map_of_tracked:
  "distinct (map fst caches) \<Longrightarrow> map_of (map snap_of (tracked caches)) name = snapshot_of caches name"
proof (induction caches)
  case Nil
  then show ?case by (simp add: snapshot_of_def)
next
  case (Cons x cs)
  obtain n copt where x: "x = (n, copt)" by (cases x)
  have "map_of cs n = None" using Cons.prems x by (simp add: map_of_eq_None_iff)
  moreover have "map_of (map snap_of (tracked cs)) name = snapshot_of cs name" using Cons by simp
  ultimately show ?case using x by (cases copt) (auto simp: snapshot_of_def snap_of_def)
qed

lemma snapshots_reload:
  assumes "distinct (map fst caches)" and "length caches < 2 ^ 61"
    and "\<forall>(name, c) \<in> set (tracked caches). snap_ok name c"
  shows "\<exists>m. load_snapshots (Some (save_snapshots caches)) = Val m \<and> (\<forall>name. m name = snapshot_of caches name)"
proof -
  let ?ts = "tracked caches"
  let ?pre = "FDBS @ le_bytes 4 1 @ le_bytes 8 (length ?ts)"
  let ?data = "?pre @ concat (map (\<lambda>(name, c). snap_table (name, Some c)) ?ts)"
  have n: "length ?ts < 2 ^ 61"
    using assms(2) length_filter_le [of "\<lambda>(name, c). snap_tracked c" caches] by (simp add: length_tracked)
  have data: "save_snapshots caches = ?data"
    by (simp add: save_snapshots_def length_tracked snap_tables_tracked)
  have "load_tables (length ?ts) ?data (length ?pre) Map.empty = Val (Some (put_all (map snap_of ?ts) Map.empty))"
    using assms(3) tracked_snap_tracked by (intro load_tables_snap) auto
  moreover have pre: "length ?pre = 16" by (simp add: FDBS_def)
  ultimately have loaded: "load_tables (length ?ts) ?data 16 Map.empty = Val (Some (map_of (map snap_of ?ts)))"
    using put_all_map_of [OF distinct_tracked [OF assms(1)], of Map.empty] by simp
  have F: "length FDBS = 4" by (simp add: FDBS_def)
  have head: "take 4 ?data = FDBS" "le_at 4 ?data 4 = 1" "le_at 8 ?data 8 = length ?ts" "\<not> length ?data < 16"
    using n by (simp_all add: F le_nat_le_bytes_id)
  have "parse_snapshots ?data = Val (Some (map_of (map snap_of ?ts)))"
    using n unfolding parse_snapshots_def head Let_def loaded by (simp add: map_capacity_def F)
  then show ?thesis unfolding load_snapshots_def data by (simp add: map_of_tracked [OF assms(1)])
qed


section \<open>Properties\<close>

text \<open>
  The key snapshots survive a restart: reading back the file written for the caches gives,
  for every table that is tracked and has a snapshot, its key width and exactly its pages with their
  keys, and nothing for any other table, in whatever order the hash maps are iterated. (The
  sizes the file stores in 32 and 64 bits must fit.)
\<close>

theorem snapshots_roundtrip:
  assumes "distinct (map fst caches)" and "length caches < 2 ^ 61"
    and "\<forall>(name, c) \<in> set (tracked caches). snap_ok name c"
  shows "\<exists>m. load_snapshots (Some (save_snapshots caches)) = Val m \<and> (\<forall>name. m name = snapshot_of caches name)"
  by (rule snapshots_reload [OF assms])

definition sample_cache :: table_cache where
  "sample_cache = \<lparr>tc_relation_id = 9, tc_slots = [], tc_fmt_slots = [], tc_col_names = [], tc_pk_col_names = [],
     tc_n_fields = 1, tc_n_pk = 1, tc_pk_indices = [Some 0], tc_first_pp = None, tc_pp_gen = 0, tc_data_pages = [],
     tc_prev_pks = [(4, [0, 0, 0, 2, 0, 8])], tc_pk_tracked = True, tc_pk_byte_len = 6\<rparr>"

theorem snapshots_roundtrip_witness:
  "\<exists>m. load_snapshots (Some (save_snapshots [([84], Some sample_cache), ([85], None)])) = Val m \<and>
    (\<forall>name. m name = snapshot_of [([84], Some sample_cache), ([85], None)] name)"
  by (rule snapshots_roundtrip)
    (simp_all add: snap_tracked_def sample_cache_def snap_ok_def page_ok_def scalar_def utf8_encode_def utf8_char_def)

text \<open>
  The comment on \<open>load_snapshots\<close> promises an empty map on any error and no panic. A file
  of sixteen bytes breaks the promise: its table count is taken as the capacity of a hash map
  before a single table has been read, and a count of \<open>2 ^ 61\<close> overflows it.
\<close>

theorem load_snapshots_panics:
  "load_snapshots (Some (FDBS @ le_bytes 4 1 @ le_bytes 8 (2 ^ 61))) = Panic"
proof -
  let ?data = "FDBS @ le_bytes 4 1 @ le_bytes 8 (2 ^ 61)"
  have "length FDBS = 4" by (simp add: FDBS_def)
  then have "take 4 ?data = FDBS" "le_at 4 ?data 4 = 1" "le_at 8 ?data 8 = 2 ^ 61" "\<not> length ?data < 16"
    by (simp_all add: le_nat_le_bytes_id)
  then show ?thesis
    unfolding load_snapshots_def parse_snapshots_def by (simp add: map_capacity_def)
qed

text \<open>
  C24. Saving the state is atomic: a crash at any moment, in the middle of a write too, leaves a
  file from which either the old state or the new one is loaded, for every codec that reads back
  the new state; and when all steps are done it is the new one.
\<close>

theorem save_state_atomic:
  assumes "save_state to_json st path = Val steps" and "Option.bind (to_json st) from_json = Some st"
    and "fs_after steps fs fs'"
  shows "load_state from_json fs' path \<in> {load_state from_json fs path, st} \<and>
    load_state from_json (fold fs_apply steps fs) path = st"
proof -
  obtain j where j: "to_json st = Some j" "from_json j = Some st"
    using assms(2) by (auto simp: bind_eq_Some_conv)
  have steps: "steps = [Write_File (path @ lit ''.tmp'') j, Rename (path @ lit ''.tmp'') path]"
    using assms(1) j by (simp add: save_state_def replace_file_def)
  have ne: "path @ lit ''.tmp'' \<noteq> path" by (simp add: lit_def)
  have "fs' path = fs path \<or> fs' path = Some j"
    using assms(3) ne unfolding steps by (auto elim!: fs_after_ConsE fs_after_NilE)
  then show ?thesis using j ne steps by (auto simp: load_state_def)
qed

theorem save_state_atomic_witness:
  "load_state (\<lambda>j. Some \<lparr>sv_version = 1, sv_last_txn = length j, sv_tables = Map.empty, sv_page_gens = Map.empty\<rparr>)
      (Map.empty([115] \<mapsto> [9], [115] @ lit ''.tmp'' \<mapsto> [7])) [115]
    \<in> {load_state (\<lambda>j. Some \<lparr>sv_version = 1, sv_last_txn = length j, sv_tables = Map.empty, sv_page_gens = Map.empty\<rparr>)
        (Map.empty([115] \<mapsto> [9])) [115],
       \<lparr>sv_version = 1, sv_last_txn = 2, sv_tables = Map.empty, sv_page_gens = Map.empty\<rparr>} \<and>
   load_state (\<lambda>j. Some \<lparr>sv_version = 1, sv_last_txn = length j, sv_tables = Map.empty, sv_page_gens = Map.empty\<rparr>)
      (fold fs_apply (replace_file [115] [7, 7]) (Map.empty([115] \<mapsto> [9]))) [115] =
     \<lparr>sv_version = 1, sv_last_txn = 2, sv_tables = Map.empty, sv_page_gens = Map.empty\<rparr>"
proof (rule save_state_atomic [where to_json = "\<lambda>st. Some [7, 7]"])
  show "fs_after (replace_file [115] [7, 7]) (Map.empty([115] \<mapsto> [9]))
      (Map.empty([115] \<mapsto> [9], [115] @ lit ''.tmp'' \<mapsto> [7]))"
    using crash_torn [of "[115] @ lit ''.tmp''" "[7, 7]" "[Rename ([115] @ lit ''.tmp'') [115]]" "Map.empty([115] \<mapsto> [9])" 1]
    by (simp add: replace_file_def)
qed (simp_all add: save_state_def)

end
