(* ===== verification/Ods_Page.thy ===== *)
theory Ods_Page
  imports Prelude
begin

text \<open>
  Pages of a database file, \<open>src/src/ods.rs\<close>: opening the file, reading one page,
  the chain of pointer pages of a relation and the slots of a data page. A page access outside
  the file panics, as the slice of the memory map does.
\<close>

section \<open>Constants\<close>

definition PAG_DATA :: byte where "PAG_DATA = 5"
definition PAG_POINTER :: byte where "PAG_POINTER = 4"

definition RHD_DELETED :: nat where "RHD_DELETED = 1"
definition RHD_CHAIN :: nat where "RHD_CHAIN = 2"
definition RHD_FRAGMENT :: nat where "RHD_FRAGMENT = 4"
definition RHD_INCOMPLETE :: nat where "RHD_INCOMPLETE = 8"
definition RHD_BLOB :: nat where "RHD_BLOB = 16"
definition RHD_LONG_TRANUM :: nat where "RHD_LONG_TRANUM = 1024"
definition RHD_NOT_PACKED :: nat where "RHD_NOT_PACKED = 2048"

lemmas rhd_defs = RHD_DELETED_def RHD_CHAIN_def RHD_FRAGMENT_def RHD_INCOMPLETE_def RHD_BLOB_def
  RHD_LONG_TRANUM_def RHD_NOT_PACKED_def

section \<open>The reader\<close>

record ods =
  mmap :: bytes
  page_size :: nat
  ods_ver :: nat

text \<open>\<open>OdsReader::open\<close> on the content of the file.\<close>

definition ods_open :: "bytes \<Rightarrow> ods run" where
  "ods_open file =
     (if length file < 256 then Err FileTooSmall
      else
        rbind (u16_at file 16) (\<lambda>ps.
        rbind (u16_at file 18) (\<lambda>ods_enc.
        let ver = and ods_enc 0x7FFF in
        if \<not> (1024 \<le> ps \<and> ps \<le> 65536) then Err (InvalidPageSize ps)
        else if ver < 10 \<or> ver > 100 then Err (NotFirebird ver)
        else if ver < 12 then Err (UnsupportedOds ver)
        else Val \<lparr>mmap = file, page_size = ps, ods_ver = ver\<rparr>)))"

definition page :: "ods \<Rightarrow> nat \<Rightarrow> bytes run" where
  "page db n = slice (mmap db) (n * page_size db) (n * page_size db + page_size db)"

definition hdr_pages :: "ods \<Rightarrow> nat run" where
  "hdr_pages db = rbind (page db 0) (\<lambda>h. u32_at h (if ods_ver db \<ge> 14 then 28 else 20))"

section \<open>The pointer page chain\<close>

text \<open>The non-zero entries of the first \<open>count\<close> places of a pointer page.\<close>

definition pp_entries :: "bytes \<Rightarrow> nat \<Rightarrow> nat list run" where
  "pp_entries p count =
     rfold (\<lambda>i acc. rbind (u32_at p (32 + i * 4)) (\<lambda>dp.
       Val (if dp = 0 then acc else acc @ [dp]))) [0..<count] []"

text \<open>
  One turn of the loop of \<open>data_pages_for\<close>: \<open>None\<close> when the page is not a
  pointer page, otherwise its entries and the next page number, which is 0 when the loop ends
  here.
\<close>

definition pp_turn :: "ods \<Rightarrow> nat \<Rightarrow> (nat list \<times> nat) option run" where
  "pp_turn db pp =
     rbind (page db pp) (\<lambda>p.
     rbind (byte_at p 0) (\<lambda>ty.
     if ty \<noteq> PAG_POINTER then Val None
     else
       rbind (u16_at p 24) (\<lambda>count.
       rbind (u32_at p 20) (\<lambda>nxt.
       rbind (pp_entries p count) (\<lambda>es.
       rbind (byte_at p 1) (\<lambda>fl.
       Val (Some (es, if has_flag (unat fl) 1 then 0 else nxt))))))))"

fun pp_chain :: "nat \<Rightarrow> ods \<Rightarrow> nat \<Rightarrow> nat list \<Rightarrow> nat list run" where
  "pp_chain 0 db pp pages = Hang"
| "pp_chain (Suc k) db pp pages =
     (if pp = 0 then Val pages
      else rbind (pp_turn db pp) (\<lambda>t. case t of
          None \<Rightarrow> Val pages
        | Some (es, nxt) \<Rightarrow>
            if nxt = 0 then Val (pages @ es) else pp_chain k db nxt (pages @ es)))"

text \<open>
  The number of pages of the file: a chain that is longer visits a page twice, and then never
  ends (\<open>pp_chain_fuel\<close> below), so one more turn than pages is enough fuel.
\<close>

definition n_pages :: "ods \<Rightarrow> nat" where
  "n_pages db = length (mmap db) div page_size db"

definition data_pages_for :: "ods \<Rightarrow> nat \<Rightarrow> nat list run" where
  "data_pages_for db first_pp =
     rbind (pp_chain (n_pages db + 2) db first_pp []) (\<lambda>pages. Val (sort pages))"

section \<open>The slots of a data page\<close>

definition slot_bounds :: "bytes \<Rightarrow> nat \<Rightarrow> (nat \<times> nat) run" where
  "slot_bounds dp s =
     rbind (u16_at dp (24 + s * 4)) (\<lambda>off.
     rbind (u16_at dp (26 + s * 4)) (\<lambda>len. Val (off, len)))"

text \<open>The raw record of a slot; \<open>None\<close> for an empty or out-of-page slot.\<close>

definition slot_raw :: "ods \<Rightarrow> bytes \<Rightarrow> nat \<Rightarrow> bytes option run" where
  "slot_raw db dp s =
     rbind (slot_bounds dp s) (\<lambda>(off, len).
       if off = 0 \<or> len = 0 \<or> off + len > page_size db then Val None
       else rbind (slice dp off (off + len)) (\<lambda>raw. Val (Some raw)))"

text \<open>
  The loop all scans share: skip pages that are not data pages, skip unusable slots, give every
  other slot to the body, which may leave the scan with a result.
\<close>

definition scan_page ::
    "ods \<Rightarrow> (bytes \<Rightarrow> 's \<Rightarrow> ('r + 's) run) \<Rightarrow> nat \<Rightarrow> 's \<Rightarrow> ('r + 's) run" where
  "scan_page db body dp_n s =
     rbind (page db dp_n) (\<lambda>dp.
     rbind (byte_at dp 0) (\<lambda>ty.
     if ty \<noteq> PAG_DATA then Val (Inr s)
     else
       rbind (u16_at dp 22) (\<lambda>count.
       efold (\<lambda>i s. rbind (slot_raw db dp i) (\<lambda>r. case r of
           None \<Rightarrow> Val (Inr s)
         | Some raw \<Rightarrow> body raw s)) [0..<count] s)))"

definition scan_pages ::
    "ods \<Rightarrow> (bytes \<Rightarrow> 's \<Rightarrow> ('r + 's) run) \<Rightarrow> nat list \<Rightarrow> 's \<Rightarrow> ('r + 's) run" where
  "scan_pages db body dps s = efold (scan_page db body) dps s"

text \<open>\<open>read_slot_raw\<close>, used to follow chains.\<close>

definition read_slot_raw :: "ods \<Rightarrow> nat \<Rightarrow> nat \<Rightarrow> bytes option run" where
  "read_slot_raw db page_num s =
     rbind (page db page_num) (\<lambda>dp.
     rbind (byte_at dp 0) (\<lambda>ty.
     if ty \<noteq> PAG_DATA then Val None
     else
       rbind (u16_at dp 22) (\<lambda>cnt.
       if s \<ge> cnt then Val None else slot_raw db dp s)))"

section \<open>Invariants of scans\<close>

text \<open>A step that never leaves its scan keeps an invariant of the state.\<close>

definition keeps :: "('s \<Rightarrow> bool) \<Rightarrow> ('s \<Rightarrow> ('r + 's) run) \<Rightarrow> bool" where
  "keeps P f \<longleftrightarrow> (\<forall>s r. P s \<longrightarrow> f s = Val r \<longrightarrow> (\<exists>s'. r = Inr s' \<and> P s'))"

lemma keepsI: "(\<And>s r. P s \<Longrightarrow> f s = Val r \<Longrightarrow> \<exists>s'. r = Inr s' \<and> P s') \<Longrightarrow> keeps P f"
  by (auto simp: keeps_def)

lemma keepsD: "keeps P f \<Longrightarrow> P s \<Longrightarrow> f s = Val r \<Longrightarrow> \<exists>s'. r = Inr s' \<and> P s'"
  by (auto simp: keeps_def)

lemma keeps_efold: "(\<And>x. x \<in> set xs \<Longrightarrow> keeps P (f x)) \<Longrightarrow> keeps P (efold f xs)"
proof (induction xs)
  case Nil
  then show ?case by (simp add: keeps_def)
next
  case (Cons x xs)
  then have "keeps P (f x)" "keeps P (efold f xs)" by simp_all
  then show ?case
    by (intro keepsI) (fastforce simp: rbind_Val_iff dest: keepsD)
qed

lemma keeps_rbind: "(\<And>x. m = Val x \<Longrightarrow> keeps P (f x)) \<Longrightarrow> keeps P (\<lambda>s. rbind m (\<lambda>x. f x s))"
  by (cases m) (auto simp: keeps_def)

lemma keeps_scan_pages: "(\<And>raw. keeps P (body raw)) \<Longrightarrow> keeps P (scan_pages db body dps)"
proof -
  assume body: "\<And>raw. keeps P (body raw)"
  have skip: "keeps P (\<lambda>s. Val (Inr s))" by (simp add: keeps_def)
  have "keeps P (\<lambda>s. case r of None \<Rightarrow> Val (Inr s) | Some raw \<Rightarrow> body raw s)" for r
    using body skip by (cases r) simp_all
  then have slots: "keeps P (efold (\<lambda>i s. rbind (slot_raw db dp i) (\<lambda>r. case r of
           None \<Rightarrow> Val (Inr s) | Some raw \<Rightarrow> body raw s)) is)" for dp "is"
    by (intro keeps_efold keeps_rbind)
  have "keeps P (\<lambda>s. if ty \<noteq> PAG_DATA then Val (Inr s) else rbind (u16_at dp 22) (\<lambda>count.
       efold (\<lambda>i s. rbind (slot_raw db dp i) (\<lambda>r. case r of
           None \<Rightarrow> Val (Inr s) | Some raw \<Rightarrow> body raw s)) [0..<count] s))" for dp ty
  proof (cases "ty = PAG_DATA")
    case True
    then show ?thesis by (simp add: keeps_rbind slots)
  qed (simp add: skip)
  then have "keeps P (scan_page db body dp_n)" for dp_n
    unfolding scan_page_def by (intro keeps_rbind)
  then show ?thesis unfolding scan_pages_def by (intro keeps_efold)
qed

section \<open>The page chain: when it ends and what it collects\<close>

lemma page_Val_less:
  assumes "page db n = Val p" and "p \<noteq> []"
  shows "n < n_pages db"
proof -
  from assms have le: "n * page_size db + page_size db \<le> length (mmap db)" and pos: "0 < page_size db"
    by (auto simp: page_def slice_def split: if_splits)
  from le have "Suc n * page_size db \<le> length (mmap db)" by simp
  then have "Suc n \<le> length (mmap db) div page_size db"
    using pos by (simp add: less_eq_div_iff_mult_less_eq)
  then show ?thesis by (simp add: n_pages_def)
qed

lemma pp_entries_not_Hang: "pp_entries p count \<noteq> Hang"
proof -
  have "rfold (\<lambda>i acc. rbind (u32_at p (32 + i * 4)) (\<lambda>dp. Val (if dp = 0 then acc else acc @ [dp]))) is acc
          \<noteq> Hang" for "is" acc
    by (induction "is" arbitrary: acc) (auto simp: rbind_eq_Hang)
  then show ?thesis by (simp add: pp_entries_def)
qed

lemma pp_turn_not_Hang: "pp_turn db pp \<noteq> Hang"
  by (auto simp: pp_turn_def page_def rbind_eq_Hang pp_entries_not_Hang split: if_splits)

text \<open>The successor of a page in the chain, and the page reached after \<open>k\<close> steps.\<close>

definition pp_next :: "ods \<Rightarrow> nat \<Rightarrow> nat option" where
  "pp_next db pp =
     (if pp = 0 then None
      else case pp_turn db pp of
          Val (Some (es, nxt)) \<Rightarrow> if nxt = 0 then None else Some nxt
        | _ \<Rightarrow> None)"

fun pp_iter :: "ods \<Rightarrow> nat \<Rightarrow> nat \<Rightarrow> nat option" where
  "pp_iter db 0 pp = Some pp"
| "pp_iter db (Suc k) pp = Option.bind (pp_next db pp) (pp_iter db k)"

lemma pp_next_less: "pp_next db pp = Some q \<Longrightarrow> pp < n_pages db"
  by (auto simp: pp_next_def pp_turn_def byte_at_def intro!: page_Val_less
      elim!: rbind_ValE split: if_splits run.splits option.splits)

lemma pp_chain_Hang_iter: "pp_chain k db pp pages = Hang \<longleftrightarrow> pp_iter db k pp \<noteq> None"
proof (induction k arbitrary: pp pages)
  case 0
  then show ?case by simp
next
  case (Suc k)
  then show ?case
    using pp_turn_not_Hang [of db pp]
    by (cases "pp_turn db pp") (auto simp: pp_next_def split: option.splits)
qed

lemma pp_iter_add: "pp_iter db (j + k) pp = Option.bind (pp_iter db j pp) (pp_iter db k)"
proof (induction j arbitrary: pp)
  case 0
  then show ?case by simp
next
  case (Suc j)
  have "pp_iter db (j + k) = (\<lambda>q. Option.bind (pp_iter db j q) (pp_iter db k))"
    using Suc by auto
  then show ?case by simp
qed

lemma pp_iter_prefix: "pp_iter db (j + k) pp \<noteq> None \<Longrightarrow> pp_iter db j pp \<noteq> None"
  by (auto simp: pp_iter_add bind_eq_Some_conv)

lemma pp_iter_periodic:
  assumes "i < j" and "pp_iter db i pp = pp_iter db j pp" and "pp_iter db j pp \<noteq> None"
  shows "pp_iter db k pp \<noteq> None"
proof (induction k rule: less_induct)
  case (less k)
  show ?case
  proof (cases "k \<le> j")
    case True
    then show ?thesis using assms(3) pp_iter_prefix [of db k "j - k" pp] by simp
  next
    case False
    then obtain m where k: "k = j + m" by (metis le_Suc_ex nat_le_linear)
    have "pp_iter db (j + m) pp = pp_iter db (i + m) pp"
      using assms(2) by (simp add: pp_iter_add)
    with less [of "i + m"] k assms(1) show ?thesis by simp
  qed
qed

text \<open>A chain that makes one step more than there are pages visits a page twice.\<close>

lemma pp_iter_repeats:
  assumes "pp_iter db (Suc (n_pages db)) pp \<noteq> None"
  shows "\<exists>i j. i < j \<and> pp_iter db i pp = pp_iter db j pp \<and> pp_iter db j pp \<noteq> None"
proof -
  let ?f = "\<lambda>i. the (pp_iter db i pp)"
  have some: "pp_iter db i pp = Some (?f i) \<and> ?f i < n_pages db" if "i \<le> n_pages db" for i
  proof -
    have "pp_iter db (i + Suc (n_pages db - i)) pp \<noteq> None" using assms that by simp
    then obtain q where q: "pp_iter db i pp = Some q" "pp_iter db (Suc (n_pages db - i)) q \<noteq> None"
      unfolding pp_iter_add by (auto simp: bind_eq_Some_conv)
    then have "pp_next db q \<noteq> None" by (auto simp: bind_eq_Some_conv)
    with q(1) show ?thesis using pp_next_less by auto
  qed
  have "\<not> inj_on ?f {..n_pages db}"
  proof
    assume "inj_on ?f {..n_pages db}"
    then have "card {..n_pages db} \<le> card {..<n_pages db}"
      using some by (intro card_inj_on_le [where f = ?f]) auto
    then show False by simp
  qed
  then obtain i j where ij: "i < j" "j \<le> n_pages db" "?f i = ?f j"
    unfolding inj_on_def by (metis atMost_iff linorder_neqE_nat)
  then have "pp_iter db i pp = pp_iter db j pp" and "pp_iter db j pp \<noteq> None"
    using some [of i] some [of j] by auto
  with ij(1) show ?thesis by blast
qed

lemma pp_iter_pigeonhole:
  "pp_iter db (Suc (n_pages db)) pp \<noteq> None \<Longrightarrow> pp_iter db k pp \<noteq> None"
  using pp_iter_repeats pp_iter_periodic by metis

lemma pp_chain_more:
  "pp_chain k db pp pages \<noteq> Hang \<Longrightarrow> pp_chain (k + m) db pp pages = pp_chain k db pp pages"
proof (induction k arbitrary: pp pages)
  case 0
  then show ?case by simp
next
  case (Suc k)
  then show ?case by (cases "pp_turn db pp") (auto split: option.splits)
qed

lemma pp_chain_fuel:
  "pp_chain (n_pages db + 2) db pp pages = Hang \<longleftrightarrow> (\<forall>k. pp_chain k db pp pages = Hang)"
proof
  assume "pp_chain (n_pages db + 2) db pp pages = Hang"
  moreover have "n_pages db + 2 = Suc (n_pages db) + 1" by simp
  ultimately have "pp_iter db (Suc (n_pages db) + 1) pp \<noteq> None"
    by (simp only: pp_chain_Hang_iter not_False_eq_True)
  then have "pp_iter db (Suc (n_pages db)) pp \<noteq> None" by (rule pp_iter_prefix)
  then show "\<forall>k. pp_chain k db pp pages = Hang"
    unfolding pp_chain_Hang_iter by (intro allI) (rule pp_iter_pigeonhole)
next
  assume "\<forall>k. pp_chain k db pp pages = Hang"
  then show "pp_chain (n_pages db + 2) db pp pages = Hang" by blast
qed

subsection \<open>The layout of pointer pages\<close>

text \<open>
  The layout of the comment of \<open>data_pages_for\<close>, stated by how a page is put together and
  independently of the functions that read it: \<open>file_page\<close> says which bytes of the file are
  page \<open>n\<close>, \<open>pointer_layout\<close> that a page is a pointer page with the given next page and
  slots, the lowest flag bit saying that it is the last one.
\<close>

definition file_page :: "ods \<Rightarrow> nat \<Rightarrow> bytes \<Rightarrow> bool" where
  "file_page db n p \<longleftrightarrow>
     (\<exists>pre post. mmap db = pre @ p @ post \<and> length pre = n * page_size db \<and> length p = page_size db)"

definition pointer_layout :: "bytes \<Rightarrow> bool \<Rightarrow> nat \<Rightarrow> nat list \<Rightarrow> bool" where
  "pointer_layout p final nxt slots \<longleftrightarrow>
     nxt < 2 ^ 32 \<and> length slots < 2 ^ 16 \<and> (\<forall>v\<in>set slots. v < 2 ^ 32) \<and>
     (\<exists>fl hdr mid rest. length hdr = 18 \<and> length mid = 6 \<and> final = odd (unat fl) \<and>
        p = [4, fl] @ hdr @ le_bytes 4 nxt @ le_bytes 2 (length slots) @ mid @
            concat (map (le_bytes 4) slots) @ rest)"

text \<open>
  The chain of pointer pages from a page number: it ends at page 0, at a page of another type, at
  a page flagged as the last one and at one whose next page is 0. A slot of 0 is a released page.
\<close>

inductive pointer_chain :: "ods \<Rightarrow> nat \<Rightarrow> nat list \<Rightarrow> bool" for db where
  chain_null: "pointer_chain db 0 []"
| chain_other: "pp \<noteq> 0 \<Longrightarrow> file_page db pp (ty # p) \<Longrightarrow> ty \<noteq> 4 \<Longrightarrow> pointer_chain db pp []"
| chain_last: "pp \<noteq> 0 \<Longrightarrow> file_page db pp p \<Longrightarrow> pointer_layout p final nxt slots \<Longrightarrow>
    final \<or> nxt = 0 \<Longrightarrow> pointer_chain db pp (filter (\<lambda>v. v \<noteq> 0) slots)"
| chain_next: "pp \<noteq> 0 \<Longrightarrow> file_page db pp p \<Longrightarrow> pointer_layout p False nxt slots \<Longrightarrow> nxt \<noteq> 0 \<Longrightarrow>
    pointer_chain db nxt es \<Longrightarrow> pointer_chain db pp (filter (\<lambda>v. v \<noteq> 0) slots @ es)"

text \<open>A pointer page that sends the loop on to another page.\<close>

definition links :: "ods \<Rightarrow> nat \<Rightarrow> nat \<Rightarrow> bool" where
  "links db a b \<longleftrightarrow> a \<noteq> 0 \<and> b \<noteq> 0 \<and>
     (\<exists>p slots. file_page db a p \<and> pointer_layout p False b slots)"

lemma page_file_page: "page db n = Val p \<longleftrightarrow> file_page db n p"
proof
  assume "page db n = Val p"
  then have le: "n * page_size db + page_size db \<le> length (mmap db)"
    and p: "p = take (page_size db) (drop (n * page_size db) (mmap db))"
    by (auto simp: page_def slice_def split: if_splits)
  have "mmap db = take (n * page_size db) (mmap db) @ p @ drop (page_size db) (drop (n * page_size db) (mmap db))"
    unfolding p by (simp only: append_take_drop_id)
  then show "file_page db n p" unfolding file_page_def using le p by force
next
  assume "file_page db n p"
  then show "page db n = Val p" by (auto simp: file_page_def page_def slice_Val)
qed

lemma concat_slots_length: "length (concat (map (le_bytes 4) slots)) = 4 * length slots"
  by (induction slots) simp_all

lemma concat_slots_drop:
  "i < length slots \<Longrightarrow> drop (4 * i) (concat (map (le_bytes 4) slots) @ rest) =
     le_bytes 4 (slots ! i) @ drop (4 * Suc i) (concat (map (le_bytes 4) slots) @ rest)"
proof (induction slots arbitrary: i)
  case Nil
  then show ?case by simp
next
  case (Cons v slots)
  show ?case
  proof (cases i)
    case 0
    then show ?thesis by simp
  next
    case (Suc j)
    with Cons.IH [of j] Cons.prems show ?thesis by simp
  qed
qed

lemma slots_of_bytes:
  "length bs = 4 * n \<Longrightarrow>
   concat (map (le_bytes 4) (map (\<lambda>i. le_at 4 bs (4 * i)) [0..<n])) = bs"
proof (induction n arbitrary: bs)
  case 0
  then show ?case by simp
next
  case (Suc n)
  have "concat (map (le_bytes 4) (map (\<lambda>i. le_at 4 (drop 4 bs) (4 * i)) [0..<n])) = drop 4 bs"
    using Suc.prems by (intro Suc.IH) simp
  moreover have "map (\<lambda>i. le_at 4 bs (4 * i)) [0..<Suc n] =
      le_at 4 bs 0 # map (\<lambda>i. le_at 4 (drop 4 bs) (4 * i)) [0..<n]"
    by (simp add: map_upt_Suc add.commute del: upt_Suc)
  moreover have "le_bytes 4 (le_at 4 bs 0) = take 4 bs"
    using Suc.prems by (simp add: le_bytes_le_nat)
  ultimately show ?case by (simp del: upt_Suc)
qed

lemma pointer_layout_iff:
  "pointer_layout p final nxt slots \<longleftrightarrow>
     32 + 4 * length slots \<le> length p \<and> p ! 0 = 4 \<and> final = odd (unat (p ! 1)) \<and>
     nxt = le_at 4 p 20 \<and> length slots = le_at 2 p 24 \<and>
     slots = map (\<lambda>i. le_at 4 p (32 + i * 4)) [0..<length slots]" (is "_ \<longleftrightarrow> ?r")
proof
  assume l: "pointer_layout p final nxt slots"
  then obtain fl hdr mid rest where h: "length hdr = 18" "length mid = 6" "final = odd (unat fl)"
    and p: "p = [4, fl] @ hdr @ le_bytes 4 nxt @ le_bytes 2 (length slots) @ mid @
            concat (map (le_bytes 4) slots) @ rest"
    and b: "nxt < 2 ^ 32" "length slots < 2 ^ 16" "\<forall>v\<in>set slots. v < 2 ^ 32"
    unfolding pointer_layout_def by blast
  have "drop 32 p = concat (map (le_bytes 4) slots) @ rest" unfolding p by (simp add: h)
  then have d32: "drop (32 + j) p = drop j (concat (map (le_bytes 4) slots) @ rest)" for j
    by (metis add.commute drop_drop)
  have sl: "le_at 4 p (32 + i * 4) = slots ! i" if "i < length slots" for i
    using that b(3) unfolding d32 mult.commute [of i 4] concat_slots_drop [OF that]
    by (simp add: le_nat_le_bytes_id)
  have "drop 20 p = le_bytes 4 nxt @ le_bytes 2 (length slots) @ mid @ concat (map (le_bytes 4) slots) @ rest"
    unfolding p by (simp add: h)
  moreover have "drop 24 p = le_bytes 2 (length slots) @ mid @ concat (map (le_bytes 4) slots) @ rest"
    unfolding p by (simp add: h)
  ultimately have n: "le_at 4 p 20 = nxt" "le_at 2 p 24 = length slots"
    using b by (simp_all add: le_nat_le_bytes_id)
  have "length p = 32 + 4 * length slots + length rest"
    unfolding p by (simp add: h concat_slots_length)
  moreover have "slots = map (\<lambda>i. le_at 4 p (32 + i * 4)) [0..<length slots]"
    by (rule nth_equalityI) (simp_all add: sl)
  ultimately show ?r using h n by (simp add: p)
next
  assume r: ?r
  define n where "n = length slots"
  have len: "32 + 4 * n \<le> length p" using r by (simp add: n_def)
  define mid where "mid = take 6 (drop 26 p)"
  define body where "body = take (4 * n) (drop 32 p)"
  have "slots = map (\<lambda>i. le_at 4 body (4 * i)) [0..<n]"
  proof (rule nth_equalityI)
    fix i assume "i < length slots"
    then have i: "i < n" by (simp add: n_def)
    have "slots ! i = le_at 4 p (32 + i * 4)" using r i
      by (metis (no_types, lifting) add_0 diff_zero length_upt n_def nth_map nth_upt)
    also have "\<dots> = le_at 4 body (4 * i)"
      using i by (simp add: body_def drop_take min_def ac_simps)
    finally show "slots ! i = map (\<lambda>i. le_at 4 body (4 * i)) [0..<n] ! i" using i by simp
  qed (simp add: n_def)
  then have body: "concat (map (le_bytes 4) slots) = body"
    using slots_of_bytes [of body n] len by (simp add: body_def)
  have b: "\<forall>v\<in>set slots. v < 2 ^ 32"
  proof
    fix v assume "v \<in> set slots"
    then obtain i where "v = le_at 4 p (32 + i * 4)" using r by (metis (no_types, lifting) imageE set_map)
    then show "v < 2 ^ 32" using le_at_bound [of 4 "32 + i * 4" p] by simp
  qed
  have nx: "le_bytes 4 nxt = take 4 (drop 20 p)" "le_bytes 2 (length slots) = take 2 (drop 24 p)"
    using r len by (simp_all add: le_bytes_le_nat)
  have split: "\<And>k m. drop k p = take m (drop k p) @ drop (m + k) p"
    by (metis append_take_drop_id drop_drop)
  have "p = take 2 p @ take 18 (drop 2 p) @ take 4 (drop 20 p) @ take 2 (drop 24 p) @ mid @ body @
      drop (4 * n + 32) p"
    using split [of 0 2] split [of 2 18] split [of 20 4] split [of 24 2] split [of 26 6] split [of 32 "4 * n"]
    by (simp add: mid_def body_def)
  moreover have "take 2 p = [4, p ! 1]"
    using r len by (intro nth_equalityI) (auto simp: less_2_cases_iff)
  ultimately have "p = [4, p ! 1] @ take 18 (drop 2 p) @ le_bytes 4 nxt @ le_bytes 2 (length slots) @ mid @
      concat (map (le_bytes 4) slots) @ drop (4 * n + 32) p"
    by (simp only: nx body)
  moreover have "length (take 18 (drop 2 p)) = 18" "length mid = 6" using len by (simp_all add: mid_def)
  moreover have "nxt < 2 ^ 32" "length slots < 2 ^ 16"
    using r le_at_bound [of 4 20 p] le_at_bound [of 2 24 p] by simp_all
  ultimately show "pointer_layout p final nxt slots"
    unfolding pointer_layout_def using r b by blast
qed

lemma pp_entries_Val:
  assumes "32 \<le> length p"
  shows "pp_entries p n = Val es \<longleftrightarrow> 32 + 4 * n \<le> length p \<and>
    es = filter (\<lambda>v. v \<noteq> 0) (map (\<lambda>i. le_at 4 p (32 + i * 4)) [0..<n])"
  using assms
proof (induction n arbitrary: es)
  case 0
  then show ?case by (auto simp: pp_entries_def)
next
  case (Suc n)
  have "pp_entries p (Suc n) = rbind (pp_entries p n) (\<lambda>acc. rbind (u32_at p (32 + n * 4)) (\<lambda>dp.
      Val (if dp = 0 then acc else acc @ [dp])))"
    unfolding pp_entries_def by (simp add: rfold_append cong: rbind_cong)
  then show ?case using Suc
    by (cases "36 + n * 4 \<le> length p") (auto simp: rbind_Val_iff)
qed

lemma pp_turn_None:
  "pp_turn db pp = Val None \<longleftrightarrow> (\<exists>ty p. file_page db pp (ty # p) \<and> ty \<noteq> 4)"
proof -
  have "pp_turn db pp = Val None \<longleftrightarrow> (\<exists>p. page db pp = Val p \<and> p \<noteq> [] \<and> p ! 0 \<noteq> 4)"
    by (auto simp: pp_turn_def rbind_Val_iff byte_at_def PAG_POINTER_def split: if_splits)
  also have "\<dots> \<longleftrightarrow> (\<exists>ty p. page db pp = Val (ty # p) \<and> ty \<noteq> 4)"
    by (metis list.exhaust list.distinct(1) nth_Cons_0)
  finally show ?thesis by (simp add: page_file_page)
qed

lemma pp_turn_layout:
  assumes "32 \<le> length p"
  shows "(p ! 0 = 4 \<and> pp_entries p (le_at 2 p 24) = Val es \<and>
            nx = (if odd (unat (p ! 1)) then 0 else le_at 4 p 20)) \<longleftrightarrow>
    (\<exists>final nxt slots. pointer_layout p final nxt slots \<and> es = filter (\<lambda>v. v \<noteq> 0) slots \<and>
       nx = (if final then 0 else nxt))"
    (is "?l \<longleftrightarrow> ?r")
proof
  assume l: ?l
  let ?slots = "map (\<lambda>i. le_at 4 p (32 + i * 4)) [0..<le_at 2 p 24]"
  have "pointer_layout p (odd (unat (p ! 1))) (le_at 4 p 20) ?slots"
    using l assms unfolding pointer_layout_iff by (simp add: pp_entries_Val)
  moreover have "es = filter (\<lambda>v. v \<noteq> 0) ?slots" using l assms by (simp add: pp_entries_Val)
  ultimately show ?r using l by blast
next
  assume ?r
  then obtain final nxt slots where l: "pointer_layout p final nxt slots"
    and es: "es = filter (\<lambda>v. v \<noteq> 0) slots" "nx = (if final then 0 else nxt)" by blast
  then have s: "map (\<lambda>i. le_at 4 p (32 + i * 4)) [0..<le_at 2 p 24] = slots"
    and b: "32 + 4 * le_at 2 p 24 \<le> length p"
    unfolding pointer_layout_iff by metis+
  then have "pp_entries p (le_at 2 p 24) = Val es"
    unfolding pp_entries_Val [OF assms] es by simp
  then show ?l using l es unfolding pointer_layout_iff by blast
qed

lemma pp_turn_Some:
  assumes "32 \<le> page_size db"
  shows "pp_turn db pp = Val (Some (es, nx)) \<longleftrightarrow> (\<exists>p final nxt slots. file_page db pp p \<and>
    pointer_layout p final nxt slots \<and> es = filter (\<lambda>v. v \<noteq> 0) slots \<and> nx = (if final then 0 else nxt))"
proof -
  have fl: "has_flag n 1 = odd n" for n by (simp add: has_flag_def and_one_eq odd_iff_mod_2_eq_one)
  have len: "32 \<le> length p" if "page db pp = Val p" for p
    using that assms by (auto simp: page_file_page file_page_def)
  have "pp_turn db pp = Val (Some (es, nx)) \<longleftrightarrow> (\<exists>p. page db pp = Val p \<and> p ! 0 = 4 \<and>
     pp_entries p (le_at 2 p 24) = Val es \<and> nx = (if odd (unat (p ! 1)) then 0 else le_at 4 p 20))"
  proof (cases "page db pp")
    case (Val p)
    have "byte_at p 0 = Val (p ! 0)" "byte_at p 1 = Val (p ! 1)" "u16_at p 24 = Val (le_at 2 p 24)"
      "u32_at p 20 = Val (le_at 4 p 20)"
      using len [OF Val] by (intro byte_at_Val u16_at_Val u32_at_Val; linarith)+
    with Val show ?thesis
      by (auto simp: pp_turn_def rbind_Val_iff PAG_POINTER_def fl [unfolded One_nat_def])
  qed (simp_all add: pp_turn_def)
  also have "\<dots> \<longleftrightarrow> (\<exists>p. page db pp = Val p \<and> (\<exists>final nxt slots.
    pointer_layout p final nxt slots \<and> es = filter (\<lambda>v. v \<noteq> 0) slots \<and> nx = (if final then 0 else nxt)))"
    by (intro ex_cong1 conj_cong refl pp_turn_layout len)
  finally show ?thesis unfolding page_file_page by blast
qed

lemma pp_next_links: "32 \<le> page_size db \<Longrightarrow> pp_next db a = Some b \<longleftrightarrow> links db a b"
proof -
  assume ps: "32 \<le> page_size db"
  have "pp_next db a = Some b \<longleftrightarrow> a \<noteq> 0 \<and> b \<noteq> 0 \<and> (\<exists>es. pp_turn db a = Val (Some (es, b)))"
    by (auto simp: pp_next_def split: run.splits option.splits prod.splits if_splits)
  then show ?thesis unfolding pp_turn_Some [OF ps] links_def by (metis (full_types))
qed

lemma pointer_chain_other: "pp \<noteq> 0 \<Longrightarrow> pp_turn db pp = Val None \<Longrightarrow> pointer_chain db pp []"
  unfolding pp_turn_None by (blast intro: chain_other)

lemma pointer_chain_last:
  assumes "32 \<le> page_size db" and "pp \<noteq> 0" and "pp_turn db pp = Val (Some (es, 0))"
  shows "pointer_chain db pp es"
proof -
  from assms(3) obtain p final nxt slots where p: "file_page db pp p" "pointer_layout p final nxt slots"
    and es: "es = filter (\<lambda>v. v \<noteq> 0) slots" and z: "0 = (if final then 0 else nxt)"
    unfolding pp_turn_Some [OF assms(1)] by blast
  from z have "final \<or> nxt = 0" by metis
  with assms(2) p show ?thesis unfolding es by (rule chain_last)
qed

lemma pointer_chain_next:
  assumes "32 \<le> page_size db" and "pp \<noteq> 0" and "pp_turn db pp = Val (Some (es, nxt))" and "nxt \<noteq> 0"
    and "pointer_chain db nxt es'"
  shows "pointer_chain db pp (es @ es')"
proof -
  from assms(3,4) obtain p slots where p: "file_page db pp p" "pointer_layout p False nxt slots"
    and es: "es = filter (\<lambda>v. v \<noteq> 0) slots"
    unfolding pp_turn_Some [OF assms(1)] by (metis (full_types))
  show ?thesis unfolding es using assms(2) p assms(4,5) by (rule chain_next)
qed

lemma pp_chain_sound:
  assumes "32 \<le> page_size db"
  shows "pp_chain k db pp pages = Val r \<Longrightarrow> \<exists>es. pointer_chain db pp es \<and> r = pages @ es"
proof (induction k arbitrary: pp pages)
  case 0
  then show ?case by simp
next
  case (Suc k)
  show ?case
  proof (cases "pp = 0")
    case True
    with Suc.prems show ?thesis by (auto intro: chain_null)
  next
    case False
    from Suc.prems False obtain t where t: "pp_turn db pp = Val t"
      by (auto elim: rbind_ValE)
    show ?thesis
    proof (cases t)
      case None
      with Suc.prems False t show ?thesis by (auto intro: pointer_chain_other)
    next
      case (Some en)
      obtain es nxt where en: "en = (es, nxt)" by (cases en)
      show ?thesis
      proof (cases "nxt = 0")
        case True
        with Suc.prems False t Some en show ?thesis by (auto intro: pointer_chain_last [OF assms])
      next
        case nz: False
        with Suc.prems False t Some en have "pp_chain k db nxt (pages @ es) = Val r" by simp
        with Suc.IH obtain es' where "pointer_chain db nxt es'" "r = (pages @ es) @ es'" by blast
        with False t Some en nz show ?thesis by (auto intro: pointer_chain_next [OF assms])
      qed
    qed
  qed
qed

lemma pp_chain_complete:
  assumes "32 \<le> page_size db"
  shows "pointer_chain db pp es \<Longrightarrow> \<exists>k. \<forall>pages. pp_chain k db pp pages = Val (pages @ es)"
proof (induction rule: pointer_chain.induct)
  case chain_null
  show ?case by (rule exI [of _ "Suc 0"]) simp
next
  case (chain_other pp ty p)
  then have "pp_turn db pp = Val None" unfolding pp_turn_None by blast
  with chain_other(1) show ?case by (intro exI [of _ "Suc 0"]) simp
next
  case (chain_last pp p final nxt slots)
  then have "pp_turn db pp = Val (Some (filter (\<lambda>v. v \<noteq> 0) slots, 0))"
    unfolding pp_turn_Some [OF assms] by metis
  with chain_last(1) show ?case by (intro exI [of _ "Suc 0"]) simp
next
  case (chain_next pp p nxt slots es)
  then have "pp_turn db pp = Val (Some (filter (\<lambda>v. v \<noteq> 0) slots, nxt))"
    unfolding pp_turn_Some [OF assms] by metis
  moreover obtain k where "\<forall>pages. pp_chain k db nxt pages = Val (pages @ es)" using chain_next by blast
  ultimately show ?case using chain_next(1,4) by (intro exI [of _ "Suc k"]) simp
qed

lemma pp_iter_links: "32 \<le> page_size db \<Longrightarrow> pp_iter db k a = Some b \<longleftrightarrow> (links db ^^ k) a b"
proof (induction k arbitrary: a)
  case 0
  then show ?case by auto
next
  case (Suc k)
  then show ?case
    by (auto simp: bind_eq_Some_conv pp_next_links relpowp_Suc_right relcompp_apply simp del: relpowp.simps
        dest: relpowp_Suc_D2 intro: relpowp_Suc_I2)
qed

lemma pp_iter_cycle:
  assumes "32 \<le> page_size db" and "(links db)\<^sup>+\<^sup>+ q q" and "(links db)\<^sup>*\<^sup>* a q"
  shows "pp_iter db k a \<noteq> None"
  using assms(3)
proof (induction k arbitrary: a)
  case 0
  then show ?case by simp
next
  case (Suc k)
  obtain b where "links db a b" "(links db)\<^sup>*\<^sup>* b q"
    using Suc.prems assms(2) by (metis converse_rtranclpE tranclpD)
  with Suc.IH [of b] show ?case by (simp add: pp_next_links [OF assms(1), THEN iffD2])
qed

text \<open>Files of pages of 1024 bytes with the given pointer pages from page 1 on.\<close>

definition pointer_bytes :: "bool \<Rightarrow> nat \<Rightarrow> nat list \<Rightarrow> bytes" where
  "pointer_bytes final nxt slots =
     [4, if final then 1 else 0] @ replicate 18 0 @ le_bytes 4 nxt @ le_bytes 2 (length slots) @ replicate 6 0 @
     concat (map (le_bytes 4) slots) @ replicate (992 - 4 * length slots) 0"

lemma pointer_bytes_layout:
  assumes "nxt < 2 ^ 32" and "length slots < 2 ^ 16" and "\<forall>v\<in>set slots. v < 2 ^ 32"
  shows "pointer_layout (pointer_bytes final nxt slots) final nxt slots"
proof -
  have "length (replicate 18 (0 :: byte)) = 18" "length (replicate 6 (0 :: byte)) = 6"
    "final = odd (unat (if final then 1 else 0 :: byte))" by simp_all
  with assms show ?thesis unfolding pointer_layout_def pointer_bytes_def by blast
qed

lemma pointer_bytes_length: "length slots \<le> 248 \<Longrightarrow> length (pointer_bytes final nxt slots) = 1024"
  by (simp add: pointer_bytes_def concat_slots_length del: append.simps)

definition pointer_db :: "bytes list \<Rightarrow> ods" where
  "pointer_db ps = \<lparr>mmap = replicate 1024 0 @ concat ps, page_size = 1024, ods_ver = 13\<rparr>"

lemma pointer_db_page:
  assumes "\<forall>p\<in>set ps. length p = 1024" and "i < length ps"
  shows "file_page (pointer_db ps) (Suc i) (ps ! i)"
proof -
  have len: "length (concat qs) = 1024 * length qs" if "\<forall>p\<in>set qs. length p = 1024" for qs :: "bytes list"
    using that by (induction qs) simp_all
  have "concat ps = concat (take i ps) @ ps ! i @ concat (drop (Suc i) ps)"
    using assms(2) by (metis concat.simps(2) concat_append id_take_nth_drop)
  then have "replicate 1024 0 @ concat ps =
      (replicate 1024 0 @ concat (take i ps)) @ ps ! i @ concat (drop (Suc i) ps)"
    by (metis append.assoc)
  then have "mmap (pointer_db ps) = (replicate 1024 0 @ concat (take i ps)) @ ps ! i @ concat (drop (Suc i) ps)"
    unfolding pointer_db_def ods.simps .
  moreover have "length (concat (take i ps)) = 1024 * i"
    using len [of "take i ps"] assms by (auto dest: in_set_takeD)
  then have "length (replicate 1024 0 @ concat (take i ps)) = Suc i * page_size (pointer_db ps)"
    unfolding pointer_db_def ods.simps length_append length_replicate by simp
  moreover have "length (ps ! i) = page_size (pointer_db ps)"
    using assms by (simp add: pointer_db_def)
  ultimately show ?thesis unfolding file_page_def by blast
qed

section \<open>Properties\<close>

text \<open>
  C19. On a file with pages of at least 1024 bytes, which is what \<open>open\<close> lets through, the scan
  for the data pages of a relation returns exactly when the chain of pointer pages, read off the
  layout of the file, ends; it then gives the slots of all its pages that are not 0, those of the
  last page included, sorted into physical order.
\<close>

theorem data_pages_for_correct:
  assumes "1024 \<le> page_size db"
  shows "data_pages_for db pp = Val ps \<longleftrightarrow> (\<exists>es. pointer_chain db pp es \<and> ps = sort es)"
proof
  have ps: "32 \<le> page_size db" using assms by simp
  {
    assume "data_pages_for db pp = Val ps"
    then obtain r where "pp_chain (n_pages db + 2) db pp [] = Val r" and "ps = sort r"
      by (auto simp: data_pages_for_def elim: rbind_ValE)
    then show "\<exists>es. pointer_chain db pp es \<and> ps = sort es" using pp_chain_sound [OF ps] by fastforce
  next
    assume "\<exists>es. pointer_chain db pp es \<and> ps = sort es"
    then obtain es where s: "ps = sort es" and es: "pointer_chain db pp es" by blast
    obtain k where "\<forall>pages. pp_chain k db pp pages = Val (pages @ es)"
      using pp_chain_complete [OF ps es] by blast
    then have k: "pp_chain k db pp [] = Val es" by simp
    then have "pp_chain (n_pages db + 2) db pp [] \<noteq> Hang"
      unfolding pp_chain_fuel by (metis run.distinct(5))
    then have "pp_chain (n_pages db + 2) db pp [] = pp_chain k db pp []"
      using pp_chain_more [of "n_pages db + 2" db pp "[]" k] pp_chain_more [of k db pp "[]" "n_pages db + 2"] k
      by (simp add: add.commute)
    with s k show "data_pages_for db pp = Val ps" by (simp add: data_pages_for_def)
  }
qed

definition two_pointers :: ods where
  "two_pointers = pointer_db [pointer_bytes False 2 [9, 0], pointer_bytes True 0 [7]]"

theorem data_pages_for_correct_witness:
  "1024 \<le> page_size two_pointers \<and> data_pages_for two_pointers 1 = Val [7, 9]"
proof -
  let ?ps = "[pointer_bytes False 2 [9, 0], pointer_bytes True 0 [7]]"
  have "\<forall>p\<in>set ?ps. length p = 1024" by (simp add: pointer_bytes_length)
  then have "file_page two_pointers (Suc i) (?ps ! i)" if "i < 2" for i
    using pointer_db_page [of ?ps i] that by (simp add: two_pointers_def)
  from this [of 0] this [of 1]
  have p: "file_page two_pointers 1 (pointer_bytes False 2 [9, 0])"
    "file_page two_pointers 2 (pointer_bytes True 0 [7])" by (simp_all add: numeral_2_eq_2)
  have "pointer_chain two_pointers 2 (filter (\<lambda>v. v \<noteq> 0) [7])"
    by (rule chain_last [OF _ p(2) pointer_bytes_layout]) simp_all
  then have "pointer_chain two_pointers 1 (filter (\<lambda>v. v \<noteq> 0) [9, 0] @ filter (\<lambda>v. v \<noteq> 0) [7])"
    by (intro chain_next [OF _ p(1) pointer_bytes_layout]) simp_all
  then have "\<exists>es. pointer_chain two_pointers 1 es \<and> [7, 9] = sort es"
    by (intro exI [of _ "[9, 7]"]) simp
  moreover have "1024 \<le> page_size two_pointers" by (simp add: two_pointers_def pointer_db_def)
  ultimately show ?thesis using data_pages_for_correct [of two_pointers 1 "[7, 9]"] by blast
qed

text \<open>
  C20. The scan never returns exactly when the chain leads to a pointer page from which the chain
  leads back to it: the code has no guard against such a file. In particular the fuel of the model
  runs out only where the loop of the code runs forever.
\<close>

theorem data_pages_for_hangs:
  assumes "1024 \<le> page_size db"
  shows "data_pages_for db pp = Hang \<longleftrightarrow> (\<exists>q. (links db)\<^sup>*\<^sup>* pp q \<and> (links db)\<^sup>+\<^sup>+ q q)"
proof -
  have ps: "32 \<le> page_size db" using assms by simp
  have "data_pages_for db pp = Hang \<longleftrightarrow> pp_chain (n_pages db + 2) db pp [] = Hang"
    by (cases "pp_chain (n_pages db + 2) db pp []") (simp_all add: data_pages_for_def)
  also have "\<dots> \<longleftrightarrow> (\<forall>k. pp_iter db k pp \<noteq> None)"
    unfolding pp_chain_fuel by (simp only: pp_chain_Hang_iter)
  also have "\<dots> \<longleftrightarrow> (\<exists>q. (links db)\<^sup>*\<^sup>* pp q \<and> (links db)\<^sup>+\<^sup>+ q q)"
  proof
    assume "\<forall>k. pp_iter db k pp \<noteq> None"
    then have "pp_iter db (Suc (n_pages db)) pp \<noteq> None" by (rule spec)
    from pp_iter_repeats [OF this]
    obtain i j where ij: "i < j" "pp_iter db i pp = pp_iter db j pp" "pp_iter db j pp \<noteq> None" by blast
    then obtain q where q: "pp_iter db i pp = Some q" "pp_iter db (i + (j - i)) pp = Some q" by auto
    then have "pp_iter db (j - i) q = Some q" by (simp only: pp_iter_add) simp
    then have "(links db ^^ (j - i)) q q" unfolding pp_iter_links [OF ps] .
    moreover have "0 < j - i" using ij(1) by simp
    ultimately have "(links db)\<^sup>+\<^sup>+ q q" unfolding tranclp_power by blast
    moreover have "(links db)\<^sup>*\<^sup>* pp q"
      using q(1) unfolding pp_iter_links [OF ps] rtranclp_power by blast
    ultimately show "\<exists>q. (links db)\<^sup>*\<^sup>* pp q \<and> (links db)\<^sup>+\<^sup>+ q q" by blast
  next
    assume "\<exists>q. (links db)\<^sup>*\<^sup>* pp q \<and> (links db)\<^sup>+\<^sup>+ q q"
    then show "\<forall>k. pp_iter db k pp \<noteq> None" using pp_iter_cycle [OF ps] by blast
  qed
  finally show ?thesis .
qed


definition self_pointer :: ods where
  "self_pointer = pointer_db [pointer_bytes False 1 [5]]"

theorem data_pages_for_hangs_witness:
  "1024 \<le> page_size self_pointer \<and> data_pages_for self_pointer 1 = Hang"
proof -
  have "file_page self_pointer 1 (pointer_bytes False 1 [5])"
    using pointer_db_page [of "[pointer_bytes False 1 [5]]" 0]
    by (simp add: self_pointer_def pointer_bytes_length)
  moreover have "pointer_layout (pointer_bytes False 1 [5]) False 1 [5]"
    by (rule pointer_bytes_layout) simp_all
  ultimately have "links self_pointer 1 1" unfolding links_def by force
  then have "\<exists>q. (links self_pointer)\<^sup>*\<^sup>* 1 q \<and> (links self_pointer)\<^sup>+\<^sup>+ q q" by blast
  moreover have "1024 \<le> page_size self_pointer" by (simp add: self_pointer_def pointer_db_def)
  ultimately show ?thesis using data_pages_for_hangs [of self_pointer 1] by blast
qed


end
