(* ===== verification/Ods_Record.thy ===== *)
theory Ods_Record
  imports Ods_Page Sqz
begin

text \<open>
  Records, \<open>src/src/ods.rs\<close>: the header flags decide whether a raw slot is a record,
  where its payload starts and whether it is compressed. Three readers differ in which flags
  they skip: the snapshot scan (\<open>unpack_record_into\<close>), the change scan
  (\<open>unpack_record_cdc\<close>) and the catalog scan (\<open>unpack_record_meta\<close>),
  which also joins the fragments of a record that was split over several slots.
\<close>

section \<open>Header fields\<close>

text \<open>\<open>raw[10..12]\<close> of a slot that is long enough for a header.\<close>

definition rhd_flags :: "bytes \<Rightarrow> nat run" where
  "rhd_flags raw = u16_at raw 10"

definition data_start :: "nat \<Rightarrow> nat" where
  "data_start flags = (if has_flag flags RHD_LONG_TRANUM then 16 else 13)"

text \<open>The payload of a record whose flags have passed the caller's test.\<close>

definition unpack_payload :: "nat \<Rightarrow> bytes \<Rightarrow> bytes option run" where
  "unpack_payload flags raw =
     (if length raw \<le> data_start flags then Val None
      else rbind (slice raw (data_start flags) (length raw)) (\<lambda>compressed.
        if has_flag flags RHD_NOT_PACKED then Val (Some compressed) else decompress compressed))"

definition unpack_record_ex :: "bytes \<Rightarrow> bool \<Rightarrow> bytes option run" where
  "unpack_record_ex raw allow_chain =
     (if length raw < 13 then Val None
      else rbind (rhd_flags raw) (\<lambda>flags.
        let skip = or RHD_DELETED (or RHD_FRAGMENT (or RHD_INCOMPLETE RHD_BLOB));
            skip = (if allow_chain then skip else or skip RHD_CHAIN)
        in if has_flag flags skip then Val None else unpack_payload flags raw))"

definition unpack_record :: "bytes \<Rightarrow> bytes option run" where
  "unpack_record raw = unpack_record_ex raw False"

section \<open>Fragments\<close>

definition RHDF_SIZE :: nat where "RHDF_SIZE = 22"

definition frag_header_size :: "nat \<Rightarrow> nat" where
  "frag_header_size fl =
     (if has_flag fl RHD_INCOMPLETE then RHDF_SIZE else if has_flag fl RHD_LONG_TRANUM then 16 else 13)"

text \<open>The piece of the record that one fragment holds.\<close>

definition frag_piece :: "bytes \<Rightarrow> nat \<Rightarrow> bytes option run" where
  "frag_piece cur fl =
     (if length cur \<le> frag_header_size fl then Val None
      else rbind (slice cur (frag_header_size fl) (length cur)) (\<lambda>comp.
        if has_flag fl RHD_NOT_PACKED then Val (Some comp) else decompress comp))"

text \<open>
  The bounded loop of \<open>reassemble_fragments\<close>: \<open>k\<close> turns are left,
  \<open>out\<close> is what the fragments before \<open>cur\<close> gave.
\<close>

fun frag_loop :: "nat \<Rightarrow> ods \<Rightarrow> bytes \<Rightarrow> bytes \<Rightarrow> bytes option run" where
  "frag_loop 0 db cur out = Val None"
| "frag_loop (Suc k) db cur out =
     (if length cur < 13 then Val None
      else
        rbind (rhd_flags cur) (\<lambda>fl.
        rbind (frag_piece cur fl) (\<lambda>p. case p of
          None \<Rightarrow> Val None
        | Some piece \<Rightarrow>
            if \<not> has_flag fl RHD_INCOMPLETE then Val (Some (out @ piece))
            else
              rbind (u32_at cur 16) (\<lambda>f_page.
              rbind (u16_at cur 20) (\<lambda>f_line.
              rbind (read_slot_raw db f_page f_line) (\<lambda>nxt. case nxt of
                None \<Rightarrow> Val None
              | Some cur' \<Rightarrow> frag_loop k db cur' (out @ piece)))))))"

definition reassemble_fragments :: "ods \<Rightarrow> bytes \<Rightarrow> bytes option run" where
  "reassemble_fragments db head = frag_loop 4096 db head []"

definition unpack_record_meta :: "ods \<Rightarrow> bytes \<Rightarrow> bytes option run" where
  "unpack_record_meta db raw =
     (if length raw < 13 then Val None
      else rbind (rhd_flags raw) (\<lambda>flags.
        if has_flag flags (or RHD_DELETED (or RHD_FRAGMENT RHD_BLOB)) then Val None
        else if has_flag flags RHD_INCOMPLETE then reassemble_fragments db raw
        else unpack_payload flags raw))"

section \<open>Snapshot and change readers\<close>

text \<open>
  Both write into the caller's buffer and leave it as it is when they skip the record; a failed
  decompression leaves what it had written.
\<close>

definition unpack_buf :: "nat \<Rightarrow> bytes \<Rightarrow> bytes \<Rightarrow> (bool \<times> bytes) run" where
  "unpack_buf flags raw buf =
     (if length raw \<le> data_start flags then Val (False, buf)
      else rbind (slice raw (data_start flags) (length raw)) (\<lambda>compressed.
        if has_flag flags RHD_NOT_PACKED then Val (True, compressed)
        else decompress_into compressed buf))"

definition unpack_record_into :: "bytes \<Rightarrow> bytes \<Rightarrow> (bool \<times> bytes) run" where
  "unpack_record_into raw buf =
     (if length raw < 13 then Val (False, buf)
      else rbind (rhd_flags raw) (\<lambda>flags.
        if has_flag flags
             (or RHD_DELETED (or RHD_CHAIN (or RHD_FRAGMENT (or RHD_INCOMPLETE RHD_BLOB))))
        then Val (False, buf) else unpack_buf flags raw buf))"

definition record_transaction :: "bytes \<Rightarrow> nat option run" where
  "record_transaction raw =
     (if length raw < 13 then Val None
      else rbind (rhd_flags raw) (\<lambda>flags.
        if has_flag flags (or RHD_FRAGMENT (or RHD_INCOMPLETE RHD_BLOB)) then Val None
        else rbind (u32_at raw 0) (\<lambda>lo.
          if has_flag flags RHD_LONG_TRANUM then
            (if length raw < 16 then Val None
             else rbind (u16_at raw 14) (\<lambda>hi. Val (Some (or (push_bit 32 hi) lo))))
          else Val (Some lo))))"

definition unpack_record_cdc :: "bytes \<Rightarrow> bytes \<Rightarrow> (bool option \<times> bytes) run" where
  "unpack_record_cdc raw buf =
     (if length raw < 13 then Val (None, buf)
      else rbind (rhd_flags raw) (\<lambda>flags.
        if has_flag flags (or RHD_FRAGMENT (or RHD_INCOMPLETE RHD_BLOB)) then Val (None, buf)
        else if length raw \<le> data_start flags then Val (None, buf)
        else rbind (unpack_buf flags raw buf) (\<lambda>(ok, buf').
          Val (if ok then Some (has_flag flags RHD_DELETED) else None, buf'))))"

section \<open>None of the readers panics\<close>

text \<open>
  What each reader makes of a slot, as a plain function of its bytes: \<open>payload\<close> is
  the record that starts behind a header of \<open>n\<close> bytes.
\<close>

definition flags_of :: "bytes \<Rightarrow> nat" where
  "flags_of raw = le_at 2 raw 10"

definition payload :: "nat \<Rightarrow> bytes \<Rightarrow> bytes option" where
  "payload n raw =
     (if length raw \<le> n then None
      else if has_flag (flags_of raw) RHD_NOT_PACKED then Some (drop n raw)
      else sqz_meaning (drop n raw) 0)"

lemma rhd_flags_Val [simp]: "12 \<le> length raw \<Longrightarrow> rhd_flags raw = Val (flags_of raw)"
  by (simp add: rhd_flags_def flags_of_def)

lemma unpack_payload_val:
  "unpack_payload (flags_of raw) raw = Val (payload (data_start (flags_of raw)) raw)"
  by (simp add: unpack_payload_def payload_def slice_def decompress_meaning)

lemma frag_piece_val:
  "frag_piece cur (flags_of cur) = Val (payload (frag_header_size (flags_of cur)) cur)"
  by (simp add: frag_piece_def payload_def slice_def decompress_meaning)

lemma unpack_buf_val:
  "\<exists>junk. unpack_buf (flags_of raw) raw buf =
     Val (case payload (data_start (flags_of raw)) raw of
            Some rec \<Rightarrow> (True, rec) | None \<Rightarrow> (False, junk))"
proof -
  obtain junk where "decompress_into (drop (data_start (flags_of raw)) raw) buf =
      Val (case sqz_meaning (drop (data_start (flags_of raw)) raw) 0 of
             Some rec \<Rightarrow> (True, rec) | None \<Rightarrow> (False, junk))"
    using decompress_into_meaning by blast
  then show ?thesis
    by (auto simp: unpack_buf_def payload_def slice_def)
qed

text \<open>The flag masks, split into their flags.\<close>

lemmas has_flag_simps = has_flag_or

definition skipped_by_scan :: "nat \<Rightarrow> bool" where
  "skipped_by_scan fl \<longleftrightarrow> has_flag fl RHD_DELETED \<or> has_flag fl RHD_CHAIN \<or> has_flag fl RHD_FRAGMENT \<or>
     has_flag fl RHD_INCOMPLETE \<or> has_flag fl RHD_BLOB"

lemma unpack_record_val:
  "unpack_record raw =
     Val (if length raw < 13 \<or> skipped_by_scan (flags_of raw) then None
          else payload (data_start (flags_of raw)) raw)"
  by (auto simp: unpack_record_def unpack_record_ex_def skipped_by_scan_def has_flag_or
      unpack_payload_val)

lemma unpack_record_into_val:
  "\<exists>junk. unpack_record_into raw buf =
     Val (if length raw < 13 \<or> skipped_by_scan (flags_of raw) then (False, buf)
          else case payload (data_start (flags_of raw)) raw of
                 Some rec \<Rightarrow> (True, rec) | None \<Rightarrow> (False, junk))"
  using unpack_buf_val [of raw buf]
  by (auto simp: unpack_record_into_def skipped_by_scan_def has_flag_or)

lemma unpack_record_into_True:
  "unpack_record_into raw buf = Val (True, rec) \<longleftrightarrow>
     13 \<le> length raw \<and> \<not> skipped_by_scan (flags_of raw) \<and>
     payload (data_start (flags_of raw)) raw = Some rec"
  using unpack_record_into_val [of raw buf] by (auto split: option.splits if_splits)

lemma unpack_record_cdc_val:
  "\<exists>junk. unpack_record_cdc raw buf =
     Val (if length raw < 13 \<or> has_flag (flags_of raw) RHD_FRAGMENT \<or>
             has_flag (flags_of raw) RHD_INCOMPLETE \<or> has_flag (flags_of raw) RHD_BLOB
          then (None, buf)
          else case payload (data_start (flags_of raw)) raw of
                 Some rec \<Rightarrow> (Some (has_flag (flags_of raw) RHD_DELETED), rec)
               | None \<Rightarrow> (None, junk))"
proof (cases "length raw \<le> data_start (flags_of raw)")
  case True
  then show ?thesis
    by (auto simp: unpack_record_cdc_def has_flag_or payload_def)
next
  case False
  then show ?thesis
    using unpack_buf_val [of raw buf]
    by (auto simp: unpack_record_cdc_def has_flag_or split: option.splits)
qed

lemma unpack_record_cdc_Some:
  "unpack_record_cdc raw buf = Val (Some d, rec) \<longleftrightarrow>
     13 \<le> length raw \<and> \<not> has_flag (flags_of raw) RHD_FRAGMENT \<and>
     \<not> has_flag (flags_of raw) RHD_INCOMPLETE \<and> \<not> has_flag (flags_of raw) RHD_BLOB \<and>
     payload (data_start (flags_of raw)) raw = Some rec \<and> d = has_flag (flags_of raw) RHD_DELETED"
  using unpack_record_cdc_val [of raw buf] by (auto split: option.splits if_splits)

lemma unpack_record_cdc_returns: "returns (unpack_record_cdc raw buf)"
  using unpack_record_cdc_val [of raw buf] by (auto simp: returns_iff)

lemma unpack_record_into_returns: "returns (unpack_record_into raw buf)"
  using unpack_record_into_val [of raw buf] by (auto simp: returns_iff)

section \<open>Transaction numbers\<close>

lemma record_transaction_val:
  "record_transaction raw =
     Val (if length raw < 13 \<or> has_flag (flags_of raw) RHD_FRAGMENT \<or>
             has_flag (flags_of raw) RHD_INCOMPLETE \<or> has_flag (flags_of raw) RHD_BLOB
          then None
          else if has_flag (flags_of raw) RHD_LONG_TRANUM then
            (if length raw < 16 then None else Some (2 ^ 32 * le_at 2 raw 14 + le_at 4 raw 0))
          else Some (le_at 4 raw 0))"
  using le_at_bound [where n = 4 and b = raw and i = 0]
  by (auto simp: record_transaction_def has_flag_or or_push_bit_add)

section \<open>Chains of fragments\<close>

text \<open>
  \<open>fragments db cur ps\<close>: the chain that starts at the slot \<open>cur\<close> is
  complete and its fragments hold the pieces \<open>ps\<close>, in order.
\<close>

inductive fragments :: "ods \<Rightarrow> bytes \<Rightarrow> bytes list \<Rightarrow> bool" for db where
  frag_last: "13 \<le> length cur \<Longrightarrow> \<not> has_flag (flags_of cur) RHD_INCOMPLETE \<Longrightarrow>
    payload (frag_header_size (flags_of cur)) cur = Some p \<Longrightarrow> fragments db cur [p]"
| frag_next: "13 \<le> length cur \<Longrightarrow> has_flag (flags_of cur) RHD_INCOMPLETE \<Longrightarrow>
    payload (frag_header_size (flags_of cur)) cur = Some p \<Longrightarrow>
    read_slot_raw db (le_at 4 cur 16) (le_at 2 cur 20) = Val (Some cur') \<Longrightarrow>
    fragments db cur' ps \<Longrightarrow> fragments db cur (p # ps)"

inductive_simps fragments_Nil: "fragments db cur []"
inductive_simps fragments_Cons: "fragments db cur (p # ps)"

text \<open>One turn of the loop, with the accesses resolved.\<close>

lemma payload_Some_length: "payload n raw = Some p \<Longrightarrow> n < length raw"
  by (auto simp: payload_def split: if_splits)

lemma frag_loop_Suc:
  "frag_loop (Suc k) db cur out =
     (if length cur < 13 then Val None
      else case payload (frag_header_size (flags_of cur)) cur of
          None \<Rightarrow> Val None
        | Some piece \<Rightarrow>
            if \<not> has_flag (flags_of cur) RHD_INCOMPLETE then Val (Some (out @ piece))
            else rbind (read_slot_raw db (le_at 4 cur 16) (le_at 2 cur 20)) (\<lambda>nxt. case nxt of
                None \<Rightarrow> Val None | Some cur' \<Rightarrow> frag_loop k db cur' (out @ piece)))"
  by (auto simp: frag_piece_val frag_header_size_def RHDF_SIZE_def
      dest!: payload_Some_length split: option.split)

lemma frag_loop_fragments:
  "frag_loop k db cur out = Val (Some rec) \<longleftrightarrow>
     (\<exists>ps. fragments db cur ps \<and> length ps \<le> k \<and> rec = out @ concat ps)"
proof (induction k arbitrary: cur out)
  case 0
  then show ?case by (auto simp: fragments_Nil)
next
  case (Suc k)
  show ?case (is "?loop \<longleftrightarrow> (\<exists>ps. ?chain ps)")
  proof
    assume loop: ?loop
    then obtain piece where len: "13 \<le> length cur"
        and piece: "payload (frag_header_size (flags_of cur)) cur = Some piece"
      unfolding frag_loop_Suc by (auto split: if_splits option.splits)
    show "\<exists>ps. ?chain ps"
    proof (cases "has_flag (flags_of cur) RHD_INCOMPLETE")
      case False
      with loop len piece show ?thesis
        unfolding frag_loop_Suc by (auto intro!: exI [of _ "[piece]"] frag_last)
    next
      case True
      with loop len piece obtain cur' where
          cur': "read_slot_raw db (le_at 4 cur 16) (le_at 2 cur 20) = Val (Some cur')"
        and rest: "frag_loop k db cur' (out @ piece) = Val (Some rec)"
        unfolding frag_loop_Suc by (auto elim!: rbind_ValE split: option.splits)
      from rest obtain ps where "fragments db cur' ps" "length ps \<le> k" "rec = (out @ piece) @ concat ps"
        using Suc.IH by blast
      with True len piece cur' show ?thesis
        by (auto intro!: exI [of _ "piece # ps"] frag_next)
    qed
  next
    assume "\<exists>ps. ?chain ps"
    then obtain ps where ps: "fragments db cur ps" "length ps \<le> Suc k" "rec = out @ concat ps"
      by blast
    from ps(1) show ?loop
    proof cases
      case (frag_last p)
      with ps(3) show ?thesis unfolding frag_loop_Suc by simp
    next
      case (frag_next p cur' ps')
      with ps have "frag_loop k db cur' (out @ p) = Val (Some rec)"
        unfolding Suc.IH by auto
      with frag_next show ?thesis unfolding frag_loop_Suc by simp
    qed
  qed
qed

lemma read_slot_raw_not_Hang: "read_slot_raw db n s \<noteq> Hang"
  by (auto simp: read_slot_raw_def page_def slot_raw_def slot_bounds_def rbind_eq_Hang
      split: if_splits)

lemma frag_loop_not_Hang: "frag_loop k db cur out \<noteq> Hang"
proof (induction k arbitrary: cur out)
  case 0
  then show ?case by simp
next
  case (Suc k)
  then show ?case
    unfolding frag_loop_Suc
    by (auto simp: rbind_eq_Hang read_slot_raw_not_Hang split: option.splits)
qed

section \<open>Properties\<close>

text \<open>
  The snapshot reader emits exactly the primary versions: whatever the bytes of a slot, it
  returns without a panic, and it accepts the slot exactly when it has a whole header, none of the
  deleted, chain, fragment, incomplete and blob flags, and a payload that unpacks; the record it
  delivers is that payload.
\<close>

theorem unpack_record_into_correct:
  "\<exists>ok buf'. unpack_record_into raw buf = Val (ok, buf') \<and>
     (ok \<longleftrightarrow> 13 \<le> length raw \<and> \<not> skipped_by_scan (flags_of raw) \<and>
             payload (data_start (flags_of raw)) raw \<noteq> None) \<and>
     (ok \<longrightarrow> payload (data_start (flags_of raw)) raw = Some buf')"
  using unpack_record_into_val [of raw buf] by (auto split: option.splits if_splits)

theorem unpack_record_into_correct_witness:
  "unpack_record_into [0, 0, 0, 0, 0, 0, 0, 0, 0, 0, 0, 0, 0, 3, 170, 187, 204] [] = Val (True, [170, 187, 204])"
proof -
  let ?raw = "[0, 0, 0, 0, 0, 0, 0, 0, 0, 0, 0, 0, 0, 3, 170, 187, 204 :: byte]"
  have p: "payload (data_start (flags_of ?raw)) ?raw = Some [170, 187, 204]"
    by (simp add: payload_def flags_of_def data_start_def has_flag_def sqz_meaning_def parse_run_def
        expand_def MAX_RECORD_SIZE_def)
  have "\<not> skipped_by_scan (flags_of ?raw)"
    by (simp add: skipped_by_scan_def flags_of_def has_flag_def)
  with p unpack_record_into_correct [of ?raw "[]"] show ?thesis by auto
qed

text \<open>
  The three readers are consistent: a slot that the snapshot emits is a live record with the
  same bytes for the change scan, which also finds a transaction number in it, and the same record
  for the catalog scan.
\<close>

theorem snapshot_rows_are_live:
  assumes "unpack_record_into raw buf = Val (True, rec)"
  shows "unpack_record_cdc raw buf' = Val (Some False, rec) \<and>
         unpack_record raw = Val (Some rec) \<and>
         unpack_record_meta db raw = Val (Some rec) \<and>
         (\<exists>txn. record_transaction raw = Val (Some txn))"
proof -
  have p: "13 \<le> length raw" "\<not> skipped_by_scan (flags_of raw)"
      "payload (data_start (flags_of raw)) raw = Some rec"
    using assms by (simp_all add: unpack_record_into_True)
  have "unpack_record_cdc raw buf' = Val (Some False, rec)"
    using p by (simp add: unpack_record_cdc_Some skipped_by_scan_def)
  moreover have "unpack_record raw = Val (Some rec)" using p by (simp add: unpack_record_val)
  moreover have "unpack_record_meta db raw = Val (Some rec)"
    using p by (simp add: unpack_record_meta_def has_flag_or skipped_by_scan_def unpack_payload_val)
  moreover have "\<exists>txn. record_transaction raw = Val (Some txn)"
    using p payload_Some_length [OF p(3)]
    by (auto simp: record_transaction_val skipped_by_scan_def data_start_def split: if_splits)
  ultimately show ?thesis by blast
qed

theorem snapshot_rows_are_live_witness:
  "unpack_record_cdc [42, 0, 0, 0, 0, 0, 0, 0, 0, 0, 0, 0, 0, 3, 170, 187, 204] [] =
     Val (Some False, [170, 187, 204])"
proof -
  let ?raw = "[42, 0, 0, 0, 0, 0, 0, 0, 0, 0, 0, 0, 0, 3, 170, 187, 204 :: byte]"
  have "payload (data_start (flags_of ?raw)) ?raw = Some [170, 187, 204]"
    by (simp add: payload_def flags_of_def data_start_def has_flag_def sqz_meaning_def parse_run_def
        expand_def MAX_RECORD_SIZE_def)
  moreover have "\<not> skipped_by_scan (flags_of ?raw)"
    by (simp add: skipped_by_scan_def flags_of_def has_flag_def)
  ultimately have "unpack_record_into ?raw [] = Val (True, [170, 187, 204])"
    by (simp add: unpack_record_into_True)
  from snapshot_rows_are_live [OF this] show ?thesis by blast
qed

text \<open>
  C21. A fragmented record is put together exactly from its chain: the code returns a record if and
  only if the chain of incomplete fragments ends in a final fragment within 4096 pieces, and the
  record is the concatenation of the pieces, each unpacked on its own, in chain order.
\<close>

theorem reassemble_fragments_correct:
  "reassemble_fragments db head = Val (Some rec) \<longleftrightarrow>
     (\<exists>ps. fragments db head ps \<and> length ps \<le> 4096 \<and> rec = concat ps)"
  by (simp add: reassemble_fragments_def frag_loop_fragments)

text \<open>A cyclic or endless chain of fragments does not make the code run forever.\<close>

theorem reassemble_fragments_ends: "reassemble_fragments db head \<noteq> Hang"
  by (simp only: reassemble_fragments_def frag_loop_not_Hang not_False_eq_True)

text \<open>
  The transaction number of a record is the 48-bit number of its header: the low 32 bits, with
  the two further bytes of a long header above them when the long flag is set; there is none for
  fragments, blobs and slots too short for their header.
\<close>

theorem record_transaction_correct:
  "record_transaction raw =
     Val (if length raw < 13 \<or> has_flag (flags_of raw) (or RHD_FRAGMENT (or RHD_INCOMPLETE RHD_BLOB)) \<or>
             has_flag (flags_of raw) RHD_LONG_TRANUM \<and> length raw < 16
          then None
          else Some ((if has_flag (flags_of raw) RHD_LONG_TRANUM then 2 ^ 32 * le_at 2 raw 14 else 0)
                     + le_at 4 raw 0))"
  by (simp add: record_transaction_val has_flag_or)

end
