(* ===== verification/Ods_Catalog.thy ===== *)
theory Ods_Catalog
  imports Ods_Record Field
begin

text \<open>
  The system tables, \<open>src/src/ods.rs\<close>: where the pages of a relation start, which relation a
  table name means, its formats, columns and primary key, and the blobs that hold the formats.
  \<open>uc\<close> is the part of \<open>str::to_uppercase\<close> outside ASCII.
\<close>

section \<open>Scans over decompressed records\<close>

text \<open>The body of a scan that looks at the records an unpacker gives.\<close>

definition on_record ::
    "(bytes \<Rightarrow> bytes option run) \<Rightarrow> (bytes \<Rightarrow> 's \<Rightarrow> ('r + 's) run) \<Rightarrow> bytes \<Rightarrow> 's \<Rightarrow> ('r + 's) run" where
  "on_record unpack body raw s =
     rbind (unpack raw) (\<lambda>r. case r of None \<Rightarrow> Val (Inr s) | Some rec \<Rightarrow> body rec s)"

text \<open>All records of a list of pages, which is what the iterator \<open>records_meta\<close> gives.\<close>

definition collect_records :: "(bytes \<Rightarrow> bytes option run) \<Rightarrow> ods \<Rightarrow> nat list \<Rightarrow> bytes list run" where
  "collect_records unpack db dps =
     rbind (scan_pages db (on_record unpack (\<lambda>rec recs. Val (Inr (recs @ [rec])))) dps []) (\<lambda>r.
       Val (case r of Inl u \<Rightarrow> u | Inr recs \<Rightarrow> recs))"

definition records_meta :: "ods \<Rightarrow> nat \<Rightarrow> bytes list run" where
  "records_meta db first_pp = rbind (data_pages_for db first_pp) (collect_records (unpack_record_meta db) db)"

section \<open>Pointer pages of a relation\<close>

definition first_pp_body :: "nat \<Rightarrow> bytes \<Rightarrow> unit \<Rightarrow> (nat + unit) run" where
  "first_pp_body relation_id rec s =
     (if length rec < 18 then Val (Inr ())
      else
        rbind (u16_at rec 8) (\<lambda>rid.
        rbind (u16_at rec 16) (\<lambda>ptype.
        rbind (u32_at rec 12) (\<lambda>seq.
        if rid = relation_id \<and> signed_of 16 ptype = 4 \<and> signed_of 32 seq = 0
        then rbind (u32_at rec 4) (\<lambda>pn. Val (Inl pn))
        else Val (Inr ())))))"

definition find_first_pp :: "ods \<Rightarrow> nat \<Rightarrow> nat option run" where
  "find_first_pp db relation_id =
     rbind (hdr_pages db) (\<lambda>pp0.
     rbind (data_pages_for db pp0) (\<lambda>dps.
     rbind (scan_pages db (on_record unpack_record (first_pp_body relation_id)) dps ()) (\<lambda>r.
       Val (case r of Inl pn \<Rightarrow> Some pn | Inr _ \<Rightarrow> None))))"

text \<open>The data pages of a system table that must exist.\<close>

definition system_pages :: "ods \<Rightarrow> nat \<Rightarrow> nat list run" where
  "system_pages db rel =
     rbind (find_first_pp db rel) (\<lambda>pp. case pp of
       None \<Rightarrow> Err (MissingPointerPage rel)
     | Some pp \<Rightarrow> data_pages_for db pp)"

section \<open>Relations\<close>

definition name_len :: "ods \<Rightarrow> nat" where
  "name_len db = (if ods_ver db \<ge> 13 then 252 else 63)"

definition relation_id_body :: "nat \<Rightarrow> str \<Rightarrow> bytes \<Rightarrow> unit \<Rightarrow> (nat + unit) run" where
  "relation_id_body nl target rec s =
     (if length rec < 42 + nl then Val (Inr ())
      else
        rbind (byte_at rec 1) (\<lambda>n1.
        if has_flag (unat n1) 1 then Val (Inr ())
        else
          rbind (slice rec 42 (42 + nl)) (\<lambda>nm.
          if eq_ignore_ascii_case (trim_end (text_of nm)) target then
            (if length rec < 32 + 2 then Val (Inr ())
             else rbind (u16_at rec 32) (\<lambda>rid. Val (Inl rid)))
          else Val (Inr ()))))"

definition find_relation_id :: "(nat \<Rightarrow> str) \<Rightarrow> ods \<Rightarrow> str \<Rightarrow> nat run" where
  "find_relation_id uc db table =
     rbind (system_pages db 6) (\<lambda>dps.
     rbind (scan_pages db (on_record (unpack_record_meta db)
         (relation_id_body (name_len db) (to_uppercase uc table))) dps ()) (\<lambda>r.
       case r of Inl rid \<Rightarrow> Val rid | Inr _ \<Rightarrow> Err (TableNotFound table)))"

definition list_tables_body :: "nat \<Rightarrow> bytes \<Rightarrow> str list \<Rightarrow> (unit + str list) run" where
  "list_tables_body nl rec tables =
     (if length rec < 42 + nl then Val (Inr tables)
      else
        rbind (byte_at rec 1) (\<lambda>n1.
        if has_flag (unat n1) 1 then Val (Inr tables)
        else
          rbind (byte_at rec 0) (\<lambda>n0.
          if \<not> has_flag (unat n0) 1 then Val (Inr tables)
          else
            rbind (if length rec \<ge> 34 + 2 then u16_at rec 34 else Val 0) (\<lambda>sys.
            if signed_of 16 sys \<noteq> 0 then Val (Inr tables)
            else
              rbind (slice rec 42 (42 + nl)) (\<lambda>nm.
              let name = trim_str (trim_end_matches (\<lambda>c. c = 0) (text_of nm))
              in Val (Inr (if name = [] then tables else tables @ [name])))))))"

definition list_tables :: "ods \<Rightarrow> str list run" where
  "list_tables db =
     rbind (find_first_pp db 6) (\<lambda>pp. case pp of
       None \<Rightarrow> Val []
     | Some pp \<Rightarrow>
         rbind (data_pages_for db pp) (\<lambda>dps.
         rbind (scan_pages db (on_record (unpack_record_meta db) (list_tables_body (name_len db))) dps []) (\<lambda>r.
           Val (case r of Inl _ \<Rightarrow> [] | Inr tables \<Rightarrow> sort tables))))"

section \<open>Blobs\<close>

definition resolve_bid :: "ods \<Rightarrow> bytes \<Rightarrow> nat \<times> nat \<times> nat" where
  "resolve_bid db bid =
     (let rel_id = le_at 2 bid 0; num_up = unat (bid ! 3); num_lo = le_at 4 bid 4;
          rec_num = or (push_bit 32 num_up) num_lo; max_rec = (page_size db - 28) div 17
      in (rel_id, rec_num div max_rec, rec_num mod max_rec))"

definition read_blob_page_raw :: "ods \<Rightarrow> nat \<Rightarrow> bytes run" where
  "read_blob_page_raw db page_num =
     rbind (page db page_num) (\<lambda>bp.
     rbind (u16_at bp 24) (\<lambda>dlen.
       slice bp 28 (28 + min dlen (page_size db - 28))))"

definition read_blob_page :: "ods \<Rightarrow> nat \<Rightarrow> nat \<Rightarrow> bytes run" where
  "read_blob_page db page_num n =
     (if page_num * page_size db + page_size db > length (mmap db) then Err (BlobPageBounds page_num)
      else
        rbind (page db page_num) (\<lambda>bp.
        rbind (byte_at bp 0) (\<lambda>ty.
        if ty \<noteq> 8 then Err (BlobPageType (unat ty))
        else rbind (read_blob_page_raw db page_num) (\<lambda>raw. Val (take n raw)))))"

text \<open>The header of a blob, whose layout changed with ODS 14.\<close>

record blob_header =
  bl_lead_page :: nat
  bl_max_seq :: nat
  bl_level :: nat
  bl_length :: nat
  bl_count :: nat

definition blob_header_of :: "nat \<Rightarrow> bytes \<Rightarrow> blob_header" where
  "blob_header_of ver blh =
     (if ver \<ge> 14
      then \<lparr>bl_lead_page = le_at 4 blh 0, bl_max_seq = le_at 4 blh 4, bl_level = unat (blh ! 27),
            bl_length = le_at 8 blh 16, bl_count = le_at 4 blh 12\<rparr>
      else \<lparr>bl_lead_page = le_at 4 blh 0, bl_max_seq = le_at 4 blh 4, bl_level = unat (blh ! 12),
            bl_length = le_at 4 blh 20, bl_count = le_at 4 blh 16\<rparr>)"

text \<open>\<open>Vec::with_capacity(n)\<close> panics when \<open>n\<close> bytes exceed \<open>isize::MAX\<close>.\<close>

definition with_capacity :: "nat \<Rightarrow> 'a run \<Rightarrow> 'a run" where
  "with_capacity n m = (if n < 2 ^ 63 then m else Panic)"

text \<open>The segments inside a header slot, at most \<open>n\<close> of them from \<open>pos\<close> on.\<close>

fun blob_segments :: "nat \<Rightarrow> bytes \<Rightarrow> nat \<Rightarrow> bytes" where
  "blob_segments 0 blh pos = []"
| "blob_segments (Suc n) blh pos =
     (if pos + 2 > length blh then []
      else
        (let seg_len = le_at 2 blh pos in
         if pos + 2 + seg_len > length blh then []
         else take seg_len (drop (pos + 2) blh) @ blob_segments n blh (pos + 2 + seg_len)))"

text \<open>
  The pages named by a list of page numbers, up to the first place outside the list's
  container (\<open>n\<close> bytes long) or the first zero.
\<close>

fun blob_pages :: "ods \<Rightarrow> bytes \<Rightarrow> nat \<Rightarrow> nat \<Rightarrow> nat list \<Rightarrow> bytes run" where
  "blob_pages db b base n [] = Val []"
| "blob_pages db b base n (i # is) =
     (if base + i * 4 + 4 > n then Val []
      else
        rbind (u32_at b (base + i * 4)) (\<lambda>pg.
        if pg = 0 then Val []
        else
          rbind (read_blob_page_raw db pg) (\<lambda>d.
          rbind (blob_pages db b base n is) (\<lambda>ds. Val (d @ ds)))))"

definition blob_content :: "ods \<Rightarrow> bytes \<Rightarrow> nat \<Rightarrow> bytes run" where
  "blob_content db blh flags =
     (let h = blob_header_of (ods_ver db) blh; len = bl_length h in
      if len = 0 then Val []
      else if bl_max_seq h = 0 then
        (if has_flag flags 0x20 then
           (let need = wrap 64 (28 + int len) in
            if length blh < need then Err StreamBlobTruncated else slice blh 28 need)
         else with_capacity len (Val (blob_segments (bl_count h) blh 28)))
      else if bl_level h = 0 then
        with_capacity len
          (rbind (blob_pages db blh 28 (length blh) [0..<min (bl_max_seq h) 1000]) (\<lambda>data. Val (take len data)))
      else if bl_level h = 1 then
        rbind (u32_at blh 28) (\<lambda>ptr_page.
        rbind (page db ptr_page) (\<lambda>pp.
        let n_pages = max 1 (wrap 64 (int len + int (page_size db) - 1) div page_size db) in
        with_capacity len
          (rbind (blob_pages db pp 4 (page_size db) [0..<min n_pages 1000]) (\<lambda>data. Val (take len data)))))
      else read_blob_page db (bl_lead_page h) len)"

text \<open>One data page: \<open>Inl\<close> is the outcome of the whole search.\<close>

definition blob_on_page :: "ods \<Rightarrow> nat \<Rightarrow> nat \<Rightarrow> nat \<Rightarrow> unit \<Rightarrow> (bytes + unit) run" where
  "blob_on_page db target_seq target_slot dp_n s =
     rbind (page db dp_n) (\<lambda>dp.
     rbind (byte_at dp 0) (\<lambda>ty.
     if ty \<noteq> PAG_DATA then Val (Inr ())
     else
       rbind (u32_at dp 16) (\<lambda>seq.
       if seq \<noteq> target_seq then Val (Inr ())
       else
         rbind (u16_at dp 22) (\<lambda>slot_count.
         if target_slot \<ge> slot_count then Val (Inr ())
         else
           rbind (slot_raw db dp target_slot) (\<lambda>r. case r of
             None \<Rightarrow> Val (Inr ())
           | Some raw \<Rightarrow>
               if length raw < 32 then Val (Inr ())
               else
                 rbind (rhd_flags raw) (\<lambda>flags.
                 if \<not> has_flag flags RHD_BLOB then Val (Inr ())
                 else rbind (blob_content db raw flags) (\<lambda>b. Val (Inl b))))))))"

definition read_blob_from_bid :: "ods \<Rightarrow> bytes \<Rightarrow> bytes run" where
  "read_blob_from_bid db bid =
     (let (rel_id, target_seq, target_slot) = resolve_bid db bid in
      rbind (system_pages db rel_id) (\<lambda>dps.
      rbind (efold (blob_on_page db target_seq target_slot) dps ()) (\<lambda>r.
        case r of Inl b \<Rightarrow> Val b | Inr _ \<Rightarrow> Err BlobNotFound)))"

section \<open>Formats\<close>

definition scan_formats_body :: "nat \<Rightarrow> bytes \<Rightarrow> (nat \<times> bytes) list \<Rightarrow> (unit + (nat \<times> bytes) list) run" where
  "scan_formats_body relation_id rec found =
     (if length rec < 16 then Val (Inr found)
      else
        rbind (u16_at rec 4) (\<lambda>rid.
        if rid \<noteq> relation_id then Val (Inr found)
        else
          rbind (u16_at rec 6) (\<lambda>fv.
          rbind (slice rec 8 16) (\<lambda>bid. Val (Inr (found @ [(fv, bid)]))))))"

definition scan_formats :: "ods \<Rightarrow> nat \<Rightarrow> (nat \<times> bytes) list run" where
  "scan_formats db relation_id =
     rbind (find_first_pp db 8) (\<lambda>pp. case pp of
       None \<Rightarrow> Val []
     | Some pp \<Rightarrow>
         rbind (data_pages_for db pp) (\<lambda>dps.
         rbind (scan_pages db (on_record (unpack_record_meta db) (scan_formats_body relation_id)) dps []) (\<lambda>r.
           Val (case r of Inl _ \<Rightarrow> [] | Inr found \<Rightarrow> found))))"

text \<open>The descriptors of a format blob: a count and that many entries of 12 bytes.\<close>

fun descs_from :: "nat \<Rightarrow> bytes \<Rightarrow> desc list run" where
  "descs_from 0 b = Val []"
| "descs_from (Suc n) b =
     rbind (desc_from_bytes (take 12 b)) (\<lambda>d. rbind (descs_from n (drop 12 b)) (\<lambda>ds. Val (d # ds)))"

definition parse_format :: "bytes \<Rightarrow> desc list run" where
  "parse_format b =
     (if length b < 2 then Err BlobTooShort
      else
        rbind (u16_at b 0) (\<lambda>count.
        let needed = 2 + count * 12 in
        if length b < needed then Err BlobTooShort
        else rbind (slice b 2 needed) (descs_from count)))"

definition pick_format :: "nat \<Rightarrow> nat \<Rightarrow> (nat \<times> bytes) list \<Rightarrow> bytes run" where
  "pick_format relation_id fmt_ver entries =
     (if entries = [] then Err (NoFormats relation_id)
      else
        (let entries = sort_key fst entries in
         if fmt_ver = 65535 then Val (snd (last entries))
         else
           (case find (\<lambda>(v, b). v = fmt_ver) entries of
              Some (v, b) \<Rightarrow> Val b
            | None \<Rightarrow> Err (FormatNotFound fmt_ver relation_id))))"

definition read_format :: "ods \<Rightarrow> nat \<Rightarrow> nat \<Rightarrow> desc list run" where
  "read_format db relation_id fmt_ver =
     rbind (scan_formats db relation_id) (\<lambda>entries.
     rbind (pick_format relation_id fmt_ver entries) (\<lambda>bid.
     rbind (read_blob_from_bid db bid) parse_format))"

section \<open>Columns\<close>

definition round_up :: "nat \<Rightarrow> nat \<Rightarrow> nat" where
  "round_up a x = (x + (a - 1)) div a * a"

record field_layout =
  fl_rname :: nat
  fl_pos :: nat
  fl_id :: nat

definition field_layout_of :: "nat \<Rightarrow> field_layout" where
  "field_layout_of nl =
     (let rname_off = 4 + nl; field4_end = rname_off + nl * 4; f5_start = round_up 2 field4_end;
          f5_end = f5_start + 2 + 127; pos_off = round_up 2 f5_end; f7_start = round_up 8 (pos_off + 2);
          f8_off = f7_start + 8
      in \<lparr>fl_rname = rname_off, fl_pos = pos_off, fl_id = f8_off + 2\<rparr>)"

definition field_name_body ::
    "(nat \<Rightarrow> str) \<Rightarrow> nat \<Rightarrow> str \<Rightarrow> bytes \<Rightarrow> (int \<times> nat \<times> str) list \<Rightarrow> (unit + (int \<times> nat \<times> str) list) run" where
  "field_name_body uc nl target rec entries =
     (let l = field_layout_of nl; null0 = (if rec = [] then 0 else unat (rec ! 0)) in
      if has_flag null0 2 then Val (Inr entries)
      else if fl_rname l + nl > length rec then Val (Inr entries)
      else
        rbind (slice rec (fl_rname l) (fl_rname l + nl)) (\<lambda>rn.
        let rname = trim_str (trim_end_matches (\<lambda>c. c = 0) (text_of rn)) in
        if to_uppercase uc rname \<noteq> target then Val (Inr entries)
        else if has_flag null0 1 then Val (Inr entries)
        else if 4 + nl > length rec then Val (Inr entries)
        else
          rbind (slice rec 4 (4 + nl)) (\<lambda>fn.
          let fname = trim_str (trim_end_matches (\<lambda>c. c = 0) (text_of fn)) in
          if fname = [] then Val (Inr entries)
          else if fl_id l + 2 > length rec then Val (Inr entries)
          else
            rbind (u16_at rec (fl_id l)) (\<lambda>raw_id.
            rbind (if fl_pos l + 2 \<le> length rec \<and> \<not> has_flag null0 0x40
                   then u16_at rec (fl_pos l) else Val raw_id) (\<lambda>raw_pos.
            let fid = wrap 64 (signed_of 16 raw_id); pos = signed_of 16 raw_pos
            in Val (Inr (entries @ [(pos, fid, fname)])))))))"

definition read_field_names :: "(nat \<Rightarrow> str) \<Rightarrow> ods \<Rightarrow> nat \<Rightarrow> str \<Rightarrow> (nat \<times> str) list run" where
  "read_field_names uc db relation_id table_name =
     rbind (system_pages db 5) (\<lambda>dps.
     rbind (scan_pages db (on_record (unpack_record_meta db)
         (field_name_body uc (name_len db) (to_uppercase uc table_name))) dps []) (\<lambda>r.
       case r of
         Inl _ \<Rightarrow> Err (NoFields relation_id)
       | Inr entries \<Rightarrow>
           if entries = [] then Err (NoFields relation_id)
           else Val (map snd (sort_key fst entries))))"

section \<open>Primary keys\<close>

definition nul_or_blank :: "nat \<Rightarrow> bool" where
  "nul_or_blank c \<longleftrightarrow> c = 0 \<or> c = 32"

definition constraint_body :: "nat \<Rightarrow> str \<Rightarrow> bytes \<Rightarrow> str list \<Rightarrow> (unit + str list) run" where
  "constraint_body nl target rec out =
     (let ctype_off = 4 + nl; rname_off = ctype_off + 11 in
      if rname_off + nl > length rec then Val (Inr out)
      else
        rbind (slice rec rname_off (rname_off + nl)) (\<lambda>rn.
        if \<not> eq_ignore_ascii_case (trim_end_matches nul_or_blank (text_of rn)) target then Val (Inr out)
        else if ctype_off + 11 > length rec then Val (Inr out)
        else
          rbind (slice rec ctype_off (ctype_off + 11)) (\<lambda>ct. Val (Inr (out @ [trim_str (text_of ct)])))))"

definition list_constraints :: "(nat \<Rightarrow> str) \<Rightarrow> ods \<Rightarrow> str \<Rightarrow> str list run" where
  "list_constraints uc db table_name =
     rbind (find_first_pp db 22) (\<lambda>pp. case pp of
       None \<Rightarrow> Val []
     | Some pp \<Rightarrow>
         rbind (data_pages_for db pp) (\<lambda>dps.
         rbind (scan_pages db (on_record (unpack_record_meta db)
             (constraint_body (name_len db) (to_uppercase uc table_name))) dps []) (\<lambda>r.
           Val (case r of Inl _ \<Rightarrow> [] | Inr out \<Rightarrow> out))))"

definition pk_index_body :: "nat \<Rightarrow> str \<Rightarrow> bytes \<Rightarrow> unit \<Rightarrow> (str + unit) run" where
  "pk_index_body nl target rec s =
     (let ctype_off = 4 + nl; rname_off = ctype_off + 11; iname_off = rname_off + nl + 3 + 3 in
      if ctype_off + 11 > length rec then Val (Inr ())
      else
        rbind (slice rec ctype_off (ctype_off + 11)) (\<lambda>ct.
        if \<not> eq_ignore_ascii_case (trim_str (text_of ct)) (lit ''PRIMARY KEY'') then Val (Inr ())
        else if rname_off + nl > length rec then Val (Inr ())
        else
          rbind (slice rec rname_off (rname_off + nl)) (\<lambda>rn.
          if \<not> eq_ignore_ascii_case (trim_end_matches nul_or_blank (text_of rn)) target then Val (Inr ())
          else if iname_off + nl > length rec then Val (Inr ())
          else
            rbind (slice rec iname_off (iname_off + nl)) (\<lambda>iname.
              Val (Inl (trim_end_matches nul_or_blank (text_of iname)))))))"

definition find_pk_index_name :: "(nat \<Rightarrow> str) \<Rightarrow> ods \<Rightarrow> str \<Rightarrow> str run" where
  "find_pk_index_name uc db table_name =
     rbind (system_pages db 22) (\<lambda>dps.
     rbind (scan_pages db (on_record (unpack_record_meta db)
         (pk_index_body (name_len db) (to_uppercase uc table_name))) dps ()) (\<lambda>r.
       case r of Inl iname \<Rightarrow> Val iname | Inr _ \<Rightarrow> Err (NoPrimaryKey table_name)))"

definition segment_body ::
    "nat \<Rightarrow> str \<Rightarrow> bytes \<Rightarrow> (int \<times> str) list \<Rightarrow> (unit + (int \<times> str) list) run" where
  "segment_body nl target rec entries =
     (if 4 + nl > length rec then Val (Inr entries)
      else
        rbind (slice rec 4 (4 + nl)) (\<lambda>iname.
        if \<not> eq_ignore_ascii_case (trim_end_matches nul_or_blank (text_of iname)) target
        then Val (Inr entries)
        else if 4 + nl + nl > length rec then Val (Inr entries)
        else
          rbind (slice rec (4 + nl) (4 + nl + nl)) (\<lambda>fname.
          rbind (if 4 + nl + nl + 2 \<le> length rec then u16_at rec (4 + nl + nl)
                 else Val (length entries mod 2 ^ 16)) (\<lambda>pos.
            Val (Inr (entries @ [(signed_of 16 pos, trim_end_matches nul_or_blank (text_of fname))]))))))"

definition find_index_field_names :: "(nat \<Rightarrow> str) \<Rightarrow> ods \<Rightarrow> str \<Rightarrow> str list run" where
  "find_index_field_names uc db index_name =
     rbind (system_pages db 3) (\<lambda>dps.
     rbind (scan_pages db (on_record (unpack_record_meta db)
         (segment_body (name_len db) (to_uppercase uc index_name))) dps []) (\<lambda>r.
       case r of
         Inl _ \<Rightarrow> Err (NoSegments index_name)
       | Inr entries \<Rightarrow>
           if entries = [] then Err (NoSegments index_name)
           else Val (map snd (sort_key fst entries))))"

definition read_primary_key_fields :: "(nat \<Rightarrow> str) \<Rightarrow> ods \<Rightarrow> str \<Rightarrow> str list run" where
  "read_primary_key_fields uc db table_name =
     rbind (find_pk_index_name uc db table_name) (find_index_field_names uc db)"

section \<open>A scan is a loop over the records\<close>

abbreviation keep_all :: "bytes \<Rightarrow> bytes list \<Rightarrow> (bytes list + bytes list) run" where
  "keep_all \<equiv> \<lambda>rec recs. Val (Inr (recs @ [rec]))"

text \<open>
  \<open>yields f g\<close>: where the collecting step \<open>f\<close> goes through, it appends some records, and the
  same step with any other body \<open>b\<close>, written \<open>g b\<close>, runs that body over them.
\<close>

definition runs_over ::
    "(bytes list \<Rightarrow> (bytes list + bytes list) run) \<Rightarrow> ('s \<Rightarrow> ('r + 's) run) \<Rightarrow> (bytes \<Rightarrow> 's \<Rightarrow> ('r + 's) run) \<Rightarrow> bool" where
  "runs_over collect loop body \<longleftrightarrow>
     (\<forall>acc r. collect acc = Val r \<longrightarrow> (\<exists>rs. r = Inr (acc @ rs) \<and>
        (\<forall>s. loop s = efold body rs s) \<and> (\<forall>acc'. collect acc' = Val (Inr (acc' @ rs)))))"

lemma runs_over_efold:
  "(\<And>x. x \<in> set xs \<Longrightarrow> runs_over (c x) (l x) body) \<Longrightarrow> runs_over (efold c xs) (efold l xs) body"
proof (induction xs)
  case Nil
  then show ?case by (auto simp: runs_over_def)
next
  case (Cons x xs)
  show ?case
    unfolding runs_over_def
  proof (intro allI impI)
    fix acc r assume a: "efold c (x # xs) acc = Val r"
    then obtain q where q: "c x acc = Val q" by (auto elim: rbind_ValE)
    have "runs_over (c x) (l x) body" using Cons.prems by simp
    with q obtain rs where rs: "q = Inr (acc @ rs)" "\<And>s. l x s = efold body rs s"
      "\<And>acc'. c x acc' = Val (Inr (acc' @ rs))" unfolding runs_over_def by blast
    have "runs_over (efold c xs) (efold l xs) body" using Cons by simp
    moreover have "efold c xs (acc @ rs) = Val r" using a q rs(1) by simp
    ultimately obtain rs' where rs': "r = Inr ((acc @ rs) @ rs')" "\<And>s. efold l xs s = efold body rs' s"
      "\<And>acc'. efold c xs acc' = Val (Inr (acc' @ rs'))" unfolding runs_over_def by blast
    have e: "efold l xs = efold body rs'" using rs'(2) by (rule ext)
    have "efold l (x # xs) s = efold body (rs @ rs') s" for s
      unfolding efold_append using rs(2) e by simp
    then show "\<exists>rs. r = Inr (acc @ rs) \<and> (\<forall>s. efold l (x # xs) s = efold body rs s) \<and>
        (\<forall>acc'. efold c (x # xs) acc' = Val (Inr (acc' @ rs)))"
      using rs(3) rs' by (intro exI [of _ "rs @ rs'"]) simp
  qed
qed

lemma runs_over_rbind:
  "(\<And>x. m = Val x \<Longrightarrow> runs_over (c x) (l x) body) \<Longrightarrow>
   runs_over (\<lambda>acc. rbind m (\<lambda>x. c x acc)) (\<lambda>s. rbind m (\<lambda>x. l x s)) body"
  by (cases m) (auto simp: runs_over_def)

lemma runs_over_skip: "runs_over (\<lambda>acc. Val (Inr acc)) (\<lambda>s. Val (Inr s)) body"
  by (auto simp: runs_over_def)

lemma runs_over_if:
  "(b \<Longrightarrow> runs_over c l body) \<Longrightarrow> (\<not> b \<Longrightarrow> runs_over c' l' body) \<Longrightarrow>
   runs_over (\<lambda>acc. if b then c acc else c' acc) (\<lambda>s. if b then l s else l' s) body"
  by (cases b) simp_all

lemma runs_over_record: "runs_over (on_record unpack keep_all raw) (on_record unpack body raw) body"
proof (cases "unpack raw")
  case (Val r)
  have one: "(\<lambda>s. body rec s) = (\<lambda>s. efold body [rec] s)" for rec
  proof
    fix s
    show "body rec s = efold body [rec] s"
      by (cases "body rec s") (auto split: sum.split)
  qed
  show ?thesis
  proof (cases r)
    case None
    with Val show ?thesis by (auto simp: runs_over_def on_record_def)
  next
    case (Some rec)
    then have "on_record unpack body raw s = efold body [rec] s" for s
      using Val one by (auto simp: on_record_def fun_eq_iff)
    with Val Some show ?thesis by (auto simp: runs_over_def on_record_def)
  qed
qed (auto simp: runs_over_def on_record_def)

lemma runs_over_slot:
  "runs_over (\<lambda>acc. rbind (slot_raw db dp i) (\<lambda>r. case r of None \<Rightarrow> Val (Inr acc) | Some raw \<Rightarrow> on_record u keep_all raw acc))
     (\<lambda>s. rbind (slot_raw db dp i) (\<lambda>r. case r of None \<Rightarrow> Val (Inr s) | Some raw \<Rightarrow> on_record u body raw s)) body"
proof (rule runs_over_rbind)
  fix r
  show "runs_over (\<lambda>acc. case r of None \<Rightarrow> Val (Inr acc) | Some raw \<Rightarrow> on_record u keep_all raw acc)
      (\<lambda>s. case r of None \<Rightarrow> Val (Inr s) | Some raw \<Rightarrow> on_record u body raw s) body"
    by (cases r) (simp_all add: runs_over_skip runs_over_record)
qed

lemma runs_over_page:
  "runs_over (scan_page db (on_record u keep_all) dp_n) (scan_page db (on_record u body) dp_n) body"
  unfolding scan_page_def
  by (intro runs_over_rbind runs_over_if runs_over_skip runs_over_efold runs_over_slot)

lemma scan_over_records:
  assumes "collect_records u db dps = Val recs"
  shows "scan_pages db (on_record u body) dps s = efold body recs s"
proof -
  have "runs_over (scan_pages db (on_record u keep_all) dps) (scan_pages db (on_record u body) dps) body"
    unfolding scan_pages_def by (intro runs_over_efold runs_over_page)
  moreover obtain r where "scan_pages db (on_record u keep_all) dps [] = Val r" "(case r of Inl u \<Rightarrow> u | Inr recs \<Rightarrow> recs) = recs"
    using assms by (auto simp: collect_records_def elim: rbind_ValE)
  ultimately show ?thesis unfolding runs_over_def by fastforce
qed

text \<open>The two shapes of bodies: look for the first row, and gather rows.\<close>

lemma efold_first:
  "(\<And>rec s. body rec s = Val (case g rec of None \<Rightarrow> Inr () | Some x \<Rightarrow> Inl x)) \<Longrightarrow>
   efold body recs () = Val (case List.map_filter g recs of [] \<Rightarrow> Inr () | x # _ \<Rightarrow> Inl x)"
  by (induction recs) (auto simp: map_filter_simps split: option.split)

lemma efold_gather:
  "(\<And>rec s. body rec s = Val (Inr (case g rec of None \<Rightarrow> s | Some x \<Rightarrow> s @ [x]))) \<Longrightarrow>
   efold body recs s = Val (Inr (s @ List.map_filter g recs))"
  by (induction recs arbitrary: s) (auto simp: map_filter_simps split: option.split)

section \<open>What a row of a system table says\<close>

text \<open>\<open>RDB$PAGES\<close>: the first pointer page of a relation.\<close>

definition pointer_row :: "nat \<Rightarrow> bytes \<Rightarrow> nat option" where
  "pointer_row rel rec =
     (if 18 \<le> length rec \<and> le_at 2 rec 8 = rel \<and> le_at 2 rec 16 = 4 \<and> le_at 4 rec 12 = 0
      then Some (le_at 4 rec 4) else None)"

text \<open>\<open>RDB$RELATIONS\<close>: the name at 42, the id at 32, \<open>RDB$SYSTEM_FLAG\<close> at 34.\<close>

definition relation_row :: "nat \<Rightarrow> str \<Rightarrow> bytes \<Rightarrow> nat option" where
  "relation_row nl target rec =
     (if 42 + nl \<le> length rec \<and> \<not> has_flag (unat (rec ! 1)) 1 \<and>
         eq_ignore_ascii_case (trim_end (text_of (take nl (drop 42 rec)))) target
      then Some (le_at 2 rec 32) else None)"

definition user_table_row :: "nat \<Rightarrow> bytes \<Rightarrow> str option" where
  "user_table_row nl rec =
     (let name = trim_str (trim_end_matches (\<lambda>c. c = 0) (text_of (take nl (drop 42 rec)))) in
      if 42 + nl \<le> length rec \<and> \<not> has_flag (unat (rec ! 1)) 1 \<and> has_flag (unat (rec ! 0)) 1 \<and>
         le_at 2 rec 34 = 0 \<and> name \<noteq> []
      then Some name else None)"

text \<open>\<open>RDB$FORMATS\<close>: the version and the blob id of a format of a relation.\<close>

definition format_row :: "nat \<Rightarrow> bytes \<Rightarrow> (nat \<times> bytes) option" where
  "format_row rel rec =
     (if 16 \<le> length rec \<and> le_at 2 rec 4 = rel then Some (le_at 2 rec 6, take 8 (drop 8 rec)) else None)"

lemma signed_of_small: "n < 2 ^ w \<Longrightarrow> m < 2 ^ (w - 1) \<Longrightarrow> signed_of w n = int m \<longleftrightarrow> n = m"
  by (auto simp: signed_of_def) (metis of_nat_less_numeral_power_cancel_iff diff_less_0_iff_less of_nat_0_le_iff not_less)

lemma first_pp_body_row:
  "first_pp_body rel rec s = Val (case pointer_row rel rec of None \<Rightarrow> Inr () | Some pn \<Rightarrow> Inl pn)"
proof (cases "length rec < 18")
  case False
  have "signed_of 16 (le_at 2 rec 16) = 4 \<longleftrightarrow> le_at 2 rec 16 = 4"
    using signed_of_small [of "le_at 2 rec 16" 16 4] le_at_bound [where n = 2 and b = rec and i = 16] by simp
  moreover have "signed_of 32 (le_at 4 rec 12) = 0 \<longleftrightarrow> le_at 4 rec 12 = 0"
    using signed_of_small [of "le_at 4 rec 12" 32 0] le_at_bound [where n = 4 and b = rec and i = 12] by simp
  ultimately show ?thesis using False by (simp add: first_pp_body_def pointer_row_def)
qed (simp add: first_pp_body_def pointer_row_def)

lemma relation_id_body_row:
  "relation_id_body nl target rec s = Val (case relation_row nl target rec of None \<Rightarrow> Inr () | Some rid \<Rightarrow> Inl rid)"
  by (simp add: relation_id_body_def relation_row_def slice_def byte_at_def not_less)

lemma list_tables_body_row:
  "list_tables_body nl rec tables =
     Val (Inr (case user_table_row nl rec of None \<Rightarrow> tables | Some name \<Rightarrow> tables @ [name]))"
proof -
  have "signed_of 16 (le_at 2 rec 34) = 0 \<longleftrightarrow> le_at 2 rec 34 = 0"
    using signed_of_small [of "le_at 2 rec 34" 16 0] le_at_bound [where n = 2 and b = rec and i = 34] by simp
  then show ?thesis
    by (simp add: list_tables_body_def user_table_row_def slice_def byte_at_def not_less Let_def)
qed

lemma scan_formats_body_row:
  "scan_formats_body rel rec found =
     Val (Inr (case format_row rel rec of None \<Rightarrow> found | Some f \<Rightarrow> found @ [f]))"
  by (simp add: scan_formats_body_def format_row_def slice_def not_less)

section \<open>A small database\<close>

text \<open>
  Five pages of 384 bytes. Page 0 is the header and names pointer page 1, whose one data page
  2 holds the system tables: three rows of \<open>RDB$PAGES\<close> (relations 6 and 8 start at page 1,
  relation 9 at page 3), the row of \<open>RDB$RELATIONS\<close> of table \<open>T\<close> (relation 9), its format 1 in
  \<open>RDB$FORMATS\<close> and the blob of that format, one \<open>SHORT\<close> column at offset 4. Pointer page 3 has
  data page 4 with the rows of \<open>T\<close>: a live row with the value 7, a deleted stub and the version
  it points back to, with the value 8. Nothing is compressed.
\<close>

definition sample_header :: bytes where
  "sample_header = replicate 20 0 @ [1, 0, 0, 0] @ replicate 360 0"

definition sample_pointer :: "byte \<Rightarrow> bytes" where
  "sample_pointer n = [4] @ replicate 23 0 @ [1, 0] @ replicate 6 0 @ [n, 0, 0, 0] @ replicate 348 0"

definition sample_pages_row :: "byte \<Rightarrow> byte \<Rightarrow> bytes" where
  "sample_pages_row rel pp = [0, 0, 0, 0, pp, 0, 0, 0, rel, 0, 0, 0, 0, 0, 0, 0, 4, 0]"

definition sample_table_row :: bytes where
  "sample_table_row = [1] @ replicate 31 0 @ [9, 0] @ replicate 8 0 @ [84] @ replicate 62 32"

definition sample_bid :: bytes where
  "sample_bid = [8, 0, 0, 0, 5, 0, 0, 0]"

definition sample_format_row :: bytes where
  "sample_format_row = [0, 0, 0, 0, 9, 0, 1, 0] @ sample_bid"

definition sample_format :: bytes where
  "sample_format = [1, 0, 8, 0, 2, 0, 0, 0, 0, 0, 4, 0, 0, 0]"

definition sample_blob :: bytes where
  "sample_blob = replicate 10 0 @ [48, 0] @ replicate 8 0 @ [14, 0, 0, 0] @ replicate 4 0 @ sample_format"

definition sample_rhd :: bytes where
  "sample_rhd = replicate 11 0 @ [8, 0]"

definition sample_data :: bytes where
  "sample_data = [5] @ replicate 21 0 @ [6, 0] @
     [48, 0, 31, 0] @ [79, 0, 31, 0] @ [110, 0, 31, 0] @ [141, 0, 118, 0] @ [3, 1, 29, 0] @ [32, 1, 42, 0] @
     (sample_rhd @ sample_pages_row 6 1) @ (sample_rhd @ sample_pages_row 8 1) @ (sample_rhd @ sample_pages_row 9 3) @
     (sample_rhd @ sample_table_row) @ (sample_rhd @ sample_format_row) @ sample_blob @ replicate 54 0"

definition sample_live :: bytes where
  "sample_live = [5, 0, 0, 0, 0, 0, 0, 0, 0, 0, 0, 8, 1] @ [0, 0, 0, 0, 7, 0]"

definition sample_stub :: bytes where
  "sample_stub = [6, 0, 0, 0, 4, 0, 0, 0, 2, 0, 1, 8, 1] @ [0]"

definition sample_back :: bytes where
  "sample_back = [3, 0, 0, 0, 0, 0, 0, 0, 0, 0, 2, 8, 1] @ [0, 0, 0, 0, 8, 0]"

definition sample_rows :: bytes where
  "sample_rows = [5] @ replicate 21 0 @ [3, 0] @ [36, 0, 19, 0] @ [55, 0, 14, 0] @ [69, 0, 19, 0] @
     sample_live @ sample_stub @ sample_back @ replicate 296 0"

definition sample_db :: ods where
  "sample_db = \<lparr>mmap = sample_header @ sample_pointer 2 @ sample_data @ sample_pointer 4 @ sample_rows,
     page_size = 384, ods_ver = 12\<rparr>"

lemmas sample_defs = sample_header_def sample_pointer_def sample_pages_row_def sample_table_row_def sample_bid_def
  sample_format_row_def sample_format_def sample_blob_def sample_rhd_def sample_data_def sample_live_def
  sample_stub_def sample_back_def sample_rows_def

lemma length_sample [simp]:
  "length sample_header = 384" "length (sample_pointer n) = 384" "length sample_data = 384" "length sample_rows = 384"
  by (simp_all add: sample_defs)

lemma sample_db_page [simp]:
  "page sample_db 0 = Val sample_header" "page sample_db 1 = Val (sample_pointer 2)" "page sample_db 2 = Val sample_data"
  "page sample_db 3 = Val (sample_pointer 4)" "page sample_db 4 = Val sample_rows"
  "page sample_db (Suc 0) = Val (sample_pointer 2)"
  by (simp_all add: page_def sample_db_def slice_def)

lemma sample_db_fields [simp]: "page_size sample_db = 384" "ods_ver sample_db = 12" "n_pages sample_db = 5"
  by (simp_all add: sample_db_def n_pages_def)

lemma sample_header_word: "le_at 4 sample_header 20 = 1"
  by (simp add: sample_header_def)

lemma sample_pointer_bytes: "le_at 2 (sample_pointer n) 24 = 1" "le_at 4 (sample_pointer n) 20 = 0"
  "le_at 4 (sample_pointer n) 32 = unat n" "sample_pointer n ! 0 = 4" "sample_pointer n ! 1 = 0" "sample_pointer n ! Suc 0 = 0"
  by (simp_all add: sample_pointer_def nth_append)

lemma sample_data_words: "sample_data ! 0 = 5" "le_at 4 sample_data 16 = 0" "le_at 2 sample_data 22 = 6"
  "le_at 2 sample_data 24 = 48" "le_at 2 sample_data 26 = 31" "le_at 2 sample_data 28 = 79" "le_at 2 sample_data 30 = 31"
  "le_at 2 sample_data 32 = 110" "le_at 2 sample_data 34 = 31" "le_at 2 sample_data 36 = 141" "le_at 2 sample_data 38 = 118"
  "le_at 2 sample_data 40 = 259" "le_at 2 sample_data 42 = 29" "le_at 2 sample_data 44 = 288" "le_at 2 sample_data 46 = 42"
  by (simp_all add: sample_data_def)

lemma sample_data_slots:
  "take 31 (drop 48 sample_data) = sample_rhd @ sample_pages_row 6 1"
  "take 31 (drop 79 sample_data) = sample_rhd @ sample_pages_row 8 1"
  "take 31 (drop 110 sample_data) = sample_rhd @ sample_pages_row 9 3"
  "take 118 (drop 141 sample_data) = sample_rhd @ sample_table_row"
  "take 29 (drop 259 sample_data) = sample_rhd @ sample_format_row"
  "take 42 (drop 288 sample_data) = sample_blob"
  by (simp_all add: sample_defs)

lemma sample_row_words: "sample_rows ! 0 = 5" "le_at 2 sample_rows 22 = 3"
  "le_at 2 sample_rows 24 = 36" "le_at 2 sample_rows 26 = 19" "le_at 2 sample_rows 28 = 55" "le_at 2 sample_rows 30 = 14"
  "le_at 2 sample_rows 32 = 69" "le_at 2 sample_rows 34 = 19"
  by (simp_all add: sample_rows_def)

lemma sample_row_slots:
  "take 19 (drop 36 sample_rows) = sample_live" "take 14 (drop 55 sample_rows) = sample_stub"
  "take 19 (drop 69 sample_rows) = sample_back"
  by (simp_all add: sample_defs)

lemma sample_flags: "flags_of (sample_rhd @ r) = 2048" "flags_of sample_blob = 48"
  by (simp_all add: flags_of_def sample_defs)

lemma sample_db_hdr: "hdr_pages sample_db = Val 1"
  by (simp add: hdr_pages_def sample_header_word)

lemma sample_db_turn:
  "page sample_db pp = Val (sample_pointer n) \<Longrightarrow> n \<noteq> 0 \<Longrightarrow> pp_turn sample_db pp = Val (Some ([unat n], 0))"
  by (simp add: pp_turn_def pp_entries_def sample_pointer_bytes PAG_POINTER_def has_flag_def unat_eq_0)

lemma data_pages_for_one:
  "pp \<noteq> 0 \<Longrightarrow> pp_turn db pp = Val (Some (es, 0)) \<Longrightarrow> data_pages_for db pp = Val (sort es)"
  by (simp add: data_pages_for_def)

lemma sample_db_pages: "data_pages_for sample_db 1 = Val [2]" "data_pages_for sample_db 3 = Val [4]"
  using data_pages_for_one [OF _ sample_db_turn [of 1 2]] data_pages_for_one [OF _ sample_db_turn [of 3 4]]
  by simp_all

lemma sample_db_slots:
  "slot_raw sample_db sample_data 0 = Val (Some (sample_rhd @ sample_pages_row 6 1))"
  "slot_raw sample_db sample_data 1 = Val (Some (sample_rhd @ sample_pages_row 8 1))"
  "slot_raw sample_db sample_data 2 = Val (Some (sample_rhd @ sample_pages_row 9 3))"
  "slot_raw sample_db sample_data 3 = Val (Some (sample_rhd @ sample_table_row))"
  "slot_raw sample_db sample_data 4 = Val (Some (sample_rhd @ sample_format_row))"
  "slot_raw sample_db sample_data 5 = Val (Some sample_blob)"
  "slot_raw sample_db sample_rows 0 = Val (Some sample_live)"
  "slot_raw sample_db sample_rows 1 = Val (Some sample_stub)"
  "slot_raw sample_db sample_rows 2 = Val (Some sample_back)"
  by (simp_all add: slot_raw_def slot_bounds_def sample_data_words slice_Val sample_data_slots
      sample_row_words sample_row_slots)

lemma sample_unpack:
  "unpack_record (sample_rhd @ rec) = Val (if rec = [] then None else Some rec)"
  "unpack_record_meta db (sample_rhd @ rec) = Val (if rec = [] then None else Some rec)"
  "unpack_record sample_blob = Val None" "unpack_record_meta db sample_blob = Val None"
proof -
  have d: "drop 13 sample_rhd = []" "length sample_rhd = 13" "length sample_blob = 42" by (simp_all add: sample_defs)
  have f: "data_start 2048 = 13" "\<not> skipped_by_scan 2048" "has_flag 2048 RHD_NOT_PACKED"
    "\<not> has_flag 2048 RHD_INCOMPLETE" "\<not> has_flag 2048 (or RHD_DELETED (or RHD_FRAGMENT RHD_BLOB))"
    "skipped_by_scan 48" "has_flag 48 (or RHD_DELETED (or RHD_FRAGMENT RHD_BLOB))"
    by (simp_all add: data_start_def skipped_by_scan_def has_flag_def rhd_defs)
  show "unpack_record (sample_rhd @ rec) = Val (if rec = [] then None else Some rec)" "unpack_record sample_blob = Val None"
    by (simp_all add: unpack_record_val sample_flags payload_def d f)
  show "unpack_record_meta db (sample_rhd @ rec) = Val (if rec = [] then None else Some rec)"
    using unpack_payload_val [of "sample_rhd @ rec"]
    by (simp add: unpack_record_meta_def sample_flags payload_def d f)
  show "unpack_record_meta db sample_blob = Val None"
    by (simp add: unpack_record_meta_def sample_flags d f)
qed

definition sample_records :: "bytes list" where
  "sample_records = [sample_pages_row 6 1, sample_pages_row 8 1, sample_pages_row 9 3, sample_table_row, sample_format_row]"

lemma sample_rows_nonempty [simp]: "sample_pages_row a b \<noteq> []" "sample_table_row \<noteq> []" "sample_format_row \<noteq> []"
  by (simp_all add: sample_defs)

lemma upt_6: "[0..<6] = [0, 1, 2, 3, 4, 5]"
  by (simp add: upt_rec)

lemma sample_db_collect:
  "(\<And>rec. unpack (sample_rhd @ rec) = Val (if rec = [] then None else Some rec)) \<Longrightarrow> unpack sample_blob = Val None \<Longrightarrow>
   collect_records unpack sample_db [2] = Val sample_records"
  by (simp add: collect_records_def scan_pages_def scan_page_def sample_data_words PAG_DATA_def
      upt_6 sample_db_slots sample_db_slots [unfolded One_nat_def] on_record_def sample_records_def)

lemma sample_db_meta: "records_meta sample_db 1 = Val sample_records"
  by (simp add: records_meta_def sample_db_pages [unfolded One_nat_def] sample_db_collect sample_unpack)

lemma sample_db_starts:
  "find_first_pp sample_db 6 = Val (Some 1)" "find_first_pp sample_db 8 = Val (Some 1)"
  "find_first_pp sample_db 9 = Val (Some 3)" "find_first_pp sample_db 5 = Val None" "find_first_pp sample_db 22 = Val None"
proof -
  have scan: "scan_pages sample_db (on_record unpack_record (first_pp_body rel)) [2] () =
      Val (case List.map_filter (pointer_row rel) sample_records of [] \<Rightarrow> Inr () | pn # _ \<Rightarrow> Inl pn)" for rel
    unfolding scan_over_records [OF sample_db_collect [OF sample_unpack(1,3)]]
    by (rule efold_first) (rule first_pp_body_row)
  have row: "pointer_row rel (sample_pages_row r p) = (if unat r = rel then Some (unat p) else None)" for rel r p
    by (simp add: sample_pages_row_def pointer_row_def)
  have other: "rel \<in> {5, 22} \<Longrightarrow> pointer_row rel sample_table_row = None"
    "rel \<in> {5, 22} \<Longrightarrow> pointer_row rel sample_format_row = None" for rel
    by (auto simp: pointer_row_def sample_defs)
  show "find_first_pp sample_db 6 = Val (Some 1)" "find_first_pp sample_db 8 = Val (Some 1)"
    "find_first_pp sample_db 9 = Val (Some 3)" "find_first_pp sample_db 5 = Val None" "find_first_pp sample_db 22 = Val None"
    by (simp_all add: find_first_pp_def sample_db_hdr sample_db_pages [unfolded One_nat_def] scan
        sample_records_def map_filter_simps row other)
qed

lemma sample_db_relation: "find_relation_id uc sample_db (lit ''t'') = Val 9"
proof -
  have "scan_pages sample_db (on_record (unpack_record_meta sample_db) (relation_id_body 63 [84])) [2] () =
      Val (case List.map_filter (relation_row 63 [84]) sample_records of [] \<Rightarrow> Inr () | rid # _ \<Rightarrow> Inl rid)"
    unfolding scan_over_records [OF sample_db_collect [OF sample_unpack(2,4)]]
    by (rule efold_first) (rule relation_id_body_row)
  moreover have "to_uppercase uc (lit ''t'') = [84]" "name_len sample_db = 63"
    by (simp_all add: to_uppercase_def lit_def ascii_upper_def name_len_def)
  moreover have "List.map_filter (relation_row 63 [84]) sample_records = [9]"
  proof -
    have chars: "text_of (84 # replicate 62 32) = 84 # replicate 62 32"
      using utf8_decode_encode [of "84 # replicate 62 32"]
      by (simp add: text_of_def utf8_encode_def utf8_char_def scalar_def concat_map_singleton list_all_iff)
    have trim: "trim_end (84 # replicate 62 32) = [84]"
      using dropWhile_append2 [of "replicate 62 32" white_space "[84]"]
      by (simp add: trim_end_def trim_end_matches_def white_space_def)
    show ?thesis
      by (simp add: sample_records_def map_filter_simps relation_row_def)
        (simp add: sample_defs chars trim eq_ignore_ascii_case_def has_flag_def nth_append)
  qed
  ultimately show ?thesis
    by (simp add: find_relation_id_def system_pages_def sample_db_starts sample_db_pages [unfolded One_nat_def])
qed

lemma sample_db_no_names:
  "read_field_names uc sample_db 9 table = Err (MissingPointerPage 5)"
  "read_primary_key_fields uc sample_db table = Err (MissingPointerPage 22)"
  by (simp_all add: read_field_names_def read_primary_key_fields_def find_pk_index_name_def system_pages_def sample_db_starts)

definition sample_desc :: desc where
  "sample_desc = \<lparr>dtype = 8, scale = 0, dlength = 2, sub_type = 0, dflags = 0, offset = 4\<rparr>"

lemma sample_db_formats: "scan_formats sample_db 9 = Val [(1, sample_bid)]"
proof -
  have "scan_pages sample_db (on_record (unpack_record_meta sample_db) (scan_formats_body 9)) [2] [] =
      Val (Inr (List.map_filter (format_row 9) sample_records))"
    unfolding scan_over_records [OF sample_db_collect [OF sample_unpack(2,4)]]
    by (simp add: efold_gather [OF scan_formats_body_row])
  moreover have "List.map_filter (format_row 9) sample_records = [(1, sample_bid)]"
    by (simp add: sample_records_def map_filter_simps format_row_def sample_defs)
  ultimately show ?thesis
    by (simp add: scan_formats_def sample_db_starts sample_db_pages [unfolded One_nat_def])
qed

lemma sample_db_blob: "read_blob_from_bid sample_db sample_bid = Val sample_format"
proof -
  have "resolve_bid sample_db sample_bid = (8, 0, 5)"
    by (simp add: resolve_bid_def sample_bid_def)
  moreover have "system_pages sample_db 8 = Val [2]"
    by (simp add: system_pages_def sample_db_starts sample_db_pages [unfolded One_nat_def])
  moreover have "blob_content sample_db sample_blob 48 = Val sample_format"
    by (simp add: blob_content_def blob_header_of_def sample_blob_def Let_def has_flag_def wrap_def slice_def
        sample_format_def)
  moreover have "length sample_blob = 42" by (simp add: sample_defs)
  ultimately show ?thesis
    by (simp add: read_blob_from_bid_def blob_on_page_def sample_data_words PAG_DATA_def sample_db_slots
        sample_flags has_flag_def RHD_BLOB_def)
qed

lemma sample_db_format: "read_format sample_db 9 65535 = Val [sample_desc]" "read_format sample_db 9 1 = Val [sample_desc]"
proof -
  have "parse_format sample_format = Val [sample_desc]"
    by (simp add: parse_format_def sample_format_def slice_def desc_from_bytes_def signed_of_def sample_desc_def)
  then show "read_format sample_db 9 65535 = Val [sample_desc]" "read_format sample_db 9 1 = Val [sample_desc]"
    by (simp_all add: read_format_def sample_db_formats pick_format_def sample_db_blob)
qed

text \<open>An empty database of one page.\<close>

definition empty_file :: bytes where
  "empty_file = replicate 16 0 @ [0, 4, 13, 128] @ replicate 1004 0"

lemma empty_file_open: "ods_open empty_file = Val \<lparr>mmap = empty_file, page_size = 1024, ods_ver = 13\<rparr>"
proof -
  have "length empty_file = 1024" by (simp add: empty_file_def)
  moreover have "le_at 2 empty_file 16 = 1024" "le_at 2 empty_file 18 = 32781" by (simp_all add: empty_file_def)
  ultimately show ?thesis by (simp add: ods_open_def)
qed

lemma empty_file_no_tables:
  "find_relation_id uc \<lparr>mmap = empty_file, page_size = 1024, ods_ver = 13\<rparr> table = Err (MissingPointerPage 6)"
proof -
  let ?db = "\<lparr>mmap = empty_file, page_size = 1024, ods_ver = 13\<rparr>"
  have "length empty_file = 1024" "le_at 4 empty_file 20 = 0" by (simp_all add: empty_file_def)
  then have "hdr_pages ?db = Val 0" by (simp add: hdr_pages_def page_def slice_def)
  then show ?thesis by (simp add: find_relation_id_def system_pages_def find_first_pp_def data_pages_for_def scan_pages_def)
qed

section \<open>Properties\<close>

text \<open>
  The start of a relation: when the pages of \<open>RDB$PAGES\<close> can be read (\<open>recs\<close> are the
  records on them in scan order), the search returns the page number of the first row that
  describes the first pointer page of the relation, or nothing when there is none. It neither
  skips a row nor stops early.
\<close>

theorem find_first_pp_correct:
  assumes "hdr_pages db = Val pp0" and "data_pages_for db pp0 = Val dps"
    and "collect_records unpack_record db dps = Val recs"
  shows "find_first_pp db rel =
    Val (case List.map_filter (pointer_row rel) recs of [] \<Rightarrow> None | pn # _ \<Rightarrow> Some pn)"
proof -
  have "scan_pages db (on_record unpack_record (first_pp_body rel)) dps () =
      Val (case List.map_filter (pointer_row rel) recs of [] \<Rightarrow> Inr () | pn # _ \<Rightarrow> Inl pn)"
    unfolding scan_over_records [OF assms(3)] by (rule efold_first) (rule first_pp_body_row)
  then show ?thesis
    using assms(1,2) by (simp add: find_first_pp_def split: list.split)
qed

theorem find_first_pp_correct_witness:
  "find_first_pp sample_db 6 =
    Val (case List.map_filter (pointer_row 6) sample_records of [] \<Rightarrow> None | pn # _ \<Rightarrow> Some pn) \<and>
   pointer_row 6 (sample_pages_row 6 1) = Some 1"
proof
  show "find_first_pp sample_db 6 =
    Val (case List.map_filter (pointer_row 6) sample_records of [] \<Rightarrow> None | pn # _ \<Rightarrow> Some pn)"
    by (rule find_first_pp_correct [OF sample_db_hdr sample_db_pages(1)])
      (simp add: sample_db_collect sample_unpack)
qed (simp add: sample_pages_row_def pointer_row_def)

text \<open>
  A table name means the relation of the first row of \<open>RDB$RELATIONS\<close> whose name is the
  same but for the case of ASCII letters; without such a row the answer is the error
  \<open>TableNotFound\<close>.
\<close>

theorem find_relation_id_correct:
  assumes "find_first_pp db 6 = Val (Some pp)" and "records_meta db pp = Val recs"
  shows "find_relation_id uc db table =
    (case List.map_filter (relation_row (name_len db) (to_uppercase uc table)) recs of
       [] \<Rightarrow> Err (TableNotFound table) | rid # _ \<Rightarrow> Val rid)"
proof -
  obtain dps where dps: "data_pages_for db pp = Val dps" "collect_records (unpack_record_meta db) db dps = Val recs"
    using assms(2) by (auto simp: records_meta_def elim: rbind_ValE)
  have "scan_pages db (on_record (unpack_record_meta db) (relation_id_body nl target)) dps () =
      Val (case List.map_filter (relation_row nl target) recs of [] \<Rightarrow> Inr () | rid # _ \<Rightarrow> Inl rid)" for nl target
    unfolding scan_over_records [OF dps(2)] by (rule efold_first) (rule relation_id_body_row)
  then show ?thesis
    using assms(1) dps(1) by (simp add: find_relation_id_def system_pages_def split: list.split)
qed

theorem find_relation_id_correct_witness:
  "find_relation_id (\<lambda>c. []) sample_db (lit ''t'') =
    (case List.map_filter (relation_row (name_len sample_db) (to_uppercase (\<lambda>c. []) (lit ''t''))) sample_records of
       [] \<Rightarrow> Err (TableNotFound (lit ''t'')) | rid # _ \<Rightarrow> Val rid)"
  by (rule find_relation_id_correct [OF sample_db_starts(1) sample_db_meta])

text \<open>
  The list of tables holds exactly the names of the rows of \<open>RDB$RELATIONS\<close> that are
  neither views nor system tables, as often as they occur, in ascending order.
\<close>

theorem list_tables_correct:
  assumes "find_first_pp db 6 = Val (Some pp)" and "records_meta db pp = Val recs"
  shows "list_tables db = Val (sort (List.map_filter (user_table_row (name_len db)) recs))"
proof -
  obtain dps where dps: "data_pages_for db pp = Val dps" "collect_records (unpack_record_meta db) db dps = Val recs"
    using assms(2) by (auto simp: records_meta_def elim: rbind_ValE)
  have "scan_pages db (on_record (unpack_record_meta db) (list_tables_body nl)) dps [] =
      Val (Inr (List.map_filter (user_table_row nl) recs))" for nl
    by (simp add: scan_over_records [OF dps(2)] efold_gather [OF list_tables_body_row])
  then show ?thesis
    using assms(1) dps(1) by (simp add: list_tables_def)
qed

theorem list_tables_correct_witness:
  "list_tables sample_db =
    Val (sort (List.map_filter (user_table_row (name_len sample_db)) sample_records))"
  by (rule list_tables_correct [OF sample_db_starts(1) sample_db_meta])

text \<open>
  The choice of a format: among the formats found for a relation, the latest is one with
  the highest version, and a given version is the first one found with it; a missing version is an
  error, never another format.
\<close>

theorem pick_format_correct:
  assumes "entries \<noteq> []"
  shows "(\<exists>v b. pick_format rel 65535 entries = Val b \<and> (v, b) \<in> set entries \<and> v = Max (fst ` set entries)) \<and>
    (pick_format rel ver entries =
       (if ver = 65535 then pick_format rel 65535 entries
        else case filter (\<lambda>(v, b). v = ver) entries of
            [] \<Rightarrow> Err (FormatNotFound ver rel) | (v, b) # _ \<Rightarrow> Val b))"
proof
  let ?s = "sort_key fst entries"
  obtain xs x where x: "?s = xs @ [x]" using assms by (metis rev_exhaust set_empty set_sort)
  have "sorted (map fst (xs @ [x]))" unfolding x [symmetric] by simp
  then have "fst e \<le> fst x" if "e \<in> set (xs @ [x])" for e using that by (auto simp: sorted_append)
  then have "fst e \<le> fst (last ?s)" if "e \<in> set entries" for e
    using that set_sort [of fst entries] unfolding x by (metis last_snoc)
  moreover have "last ?s \<in> set entries" using x by (metis last_snoc in_set_conv_decomp set_sort)
  ultimately have "fst (last ?s) = Max (fst ` set entries)"
    by (intro Max_eqI [symmetric]) auto
  moreover have "pick_format rel 65535 entries = Val (snd (last ?s))"
    using assms by (simp add: pick_format_def)
  moreover have "(fst (last ?s), snd (last ?s)) \<in> set entries"
    using \<open>last ?s \<in> set entries\<close> by simp
  ultimately show "\<exists>v b. pick_format rel 65535 entries = Val b \<and> (v, b) \<in> set entries \<and> v = Max (fst ` set entries)"
    by blast
next
  have "filter (\<lambda>(v, b). v = ver) (sort_key fst entries) = filter (\<lambda>(v, b). v = ver) entries"
    using sort_key_stable [of fst ver entries] by (simp add: case_prod_beta')
  moreover have "find (\<lambda>(v, b). v = ver) es = (case filter (\<lambda>(v, b). v = ver) es of [] \<Rightarrow> None | e # _ \<Rightarrow> Some e)"
    for es :: "(nat \<times> bytes) list" by (induction es) auto
  ultimately show "pick_format rel ver entries =
       (if ver = 65535 then pick_format rel 65535 entries
        else case filter (\<lambda>(v, b). v = ver) entries of
            [] \<Rightarrow> Err (FormatNotFound ver rel) | (v, b) # _ \<Rightarrow> Val b)"
    using assms by (auto simp: pick_format_def split: list.split)
qed

theorem pick_format_correct_witness:
  "(\<exists>v b. pick_format 7 65535 [(2, [5]), (1, [6])] = Val b \<and> (v, b) \<in> set [(2, [5 :: byte]), (1, [6])] \<and>
      v = Max (fst ` set [(2 :: nat, [5 :: byte]), (1, [6])])) \<and>
    (pick_format 7 1 [(2, [5]), (1, [6])] =
       (if 1 = (65535 :: nat) then pick_format 7 65535 [(2, [5]), (1, [6])]
        else case filter (\<lambda>(v, b). v = 1) [(2 :: nat, [5]), (1, [6])] of
            [] \<Rightarrow> Err (FormatNotFound 1 7) | (v, b) # _ \<Rightarrow> Val b))"
  by (rule pick_format_correct) simp

end
