(* ===== verification/Copy_Stream.thy ===== *)
theory Copy_Stream
  imports Ods_Catalog
begin

text \<open>
  The full extraction of \<open>src/src/extract.rs\<close>: the columns of a table, the slots of one
  on-disk format, and the \<open>COPY BINARY\<close> stream of all live rows. The sink takes every byte, so
  the stream is the list of the bytes written; the progress callback sees only the row count.
\<close>

section \<open>Slots\<close>

record copy_slot =
  cs_desc :: desc
  cs_null_byte :: nat
  cs_null_mask :: nat
  cs_present :: bool

definition slots_for_format :: "(nat \<times> str) list \<Rightarrow> desc list \<Rightarrow> copy_slot list" where
  "slots_for_format field_order descs =
     map (\<lambda>(fid, name).
       if fid < length descs
       then \<lparr>cs_desc = descs ! fid, cs_null_byte = fid div 8, cs_null_mask = 2 ^ (fid mod 8), cs_present = True\<rparr>
       else \<lparr>cs_desc = default_zero, cs_null_byte = 0, cs_null_mask = 0, cs_present = False\<rparr>) field_order"

text \<open>\<open>Result::ok\<close>, and the decimal form of \<open>format!\<close>.\<close>

fun ok_of :: "'a run \<Rightarrow> 'a option run" where
  "ok_of (Val x) = Val (Some x)"
| "ok_of (Err e) = Val None"
| "ok_of Panic = Panic"
| "ok_of Hang = Hang"

fun decimal :: "nat \<Rightarrow> str" where
  "decimal n = (if n < 10 then [48 + n] else decimal (n div 10) @ [48 + n mod 10])"

declare decimal.simps [simp del]

definition field_order_of :: "(nat \<Rightarrow> str) \<Rightarrow> ods \<Rightarrow> nat \<Rightarrow> str \<Rightarrow> desc list \<Rightarrow> (nat \<times> str) list run" where
  "field_order_of uc db relation_id table descs =
     rbind (ok_of (read_field_names uc db relation_id table)) (\<lambda>r.
       Val (case r of Some names \<Rightarrow> names
         | None \<Rightarrow> map (\<lambda>i. (i, lit ''col_'' @ decimal i)) [0..<length descs]))"

definition copy_slots :: "(nat \<Rightarrow> str) \<Rightarrow> ods \<Rightarrow> nat \<Rightarrow> str \<Rightarrow> ((nat \<times> str) list \<times> nat) run" where
  "copy_slots uc db relation_id table =
     rbind (read_format db relation_id 65535) (\<lambda>descs.
     rbind (field_order_of uc db relation_id table descs) (\<lambda>field_order.
       Val (field_order, length field_order mod 2 ^ 16)))"

section \<open>Rows\<close>

text \<open>The byte of the null bitmap, \<open>0xFF\<close> beyond the record.\<close>

definition null_bits :: "bytes \<Rightarrow> nat \<Rightarrow> nat" where
  "null_bits rec i = (if i < length rec then unat (rec ! i) else 255)"

definition write_slot :: "bytes \<Rightarrow> copy_slot \<Rightarrow> bytes run" where
  "write_slot rec slot =
     (let nb = null_bits rec (cs_null_byte slot) in
      if \<not> cs_present slot \<or> (nb \<noteq> 0 \<and> has_flag nb (cs_null_mask slot)) then Val null_field
      else write_field_binary rec (cs_desc slot))"

definition write_row :: "nat \<Rightarrow> bytes \<Rightarrow> copy_slot list \<Rightarrow> bytes run" where
  "write_row n_fields rec slots =
     rfold (\<lambda>slot out. rbind (write_slot rec slot) (\<lambda>b. Val (out @ b))) slots (be_bytes 2 n_fields)"

section \<open>The stream\<close>

definition pgcopy_header :: bytes where
  "pgcopy_header = [80, 71, 67, 79, 80, 89, 10, 255, 13, 10, 0] @ be_bytes 4 0 @ be_bytes 4 0"

definition pgcopy_trailer :: bytes where
  "pgcopy_trailer = be_bytes 2 (wrap 16 (-1))"

record copy_state =
  st_out :: bytes
  st_buf :: bytes
  st_cache :: "nat \<Rightarrow> copy_slot list option"
  st_count :: nat

text \<open>The record of a slot: a split record is reassembled, everything else is unpacked.\<close>

definition copy_record :: "ods \<Rightarrow> bytes \<Rightarrow> nat \<Rightarrow> bytes \<Rightarrow> (bool \<times> bytes) run" where
  "copy_record db raw fl buf =
     (if has_flag fl RHD_INCOMPLETE \<and>
         \<not> has_flag fl (or RHD_DELETED (or RHD_FRAGMENT (or RHD_BLOB RHD_CHAIN)))
      then
        rbind (reassemble_fragments db raw) (\<lambda>r.
          Val (case r of Some v \<Rightarrow> (True, v) | None \<Rightarrow> (False, buf)))
      else unpack_record_into raw buf)"

text \<open>The slots of a format, read once; an unknown format falls back to the latest.\<close>

definition cached_slots ::
    "ods \<Rightarrow> nat \<Rightarrow> (nat \<times> str) list \<Rightarrow> desc list option \<Rightarrow> nat \<Rightarrow> (nat \<Rightarrow> copy_slot list option) \<Rightarrow> copy_slot list run" where
  "cached_slots db relation_id field_order latest fmt cache =
     (case cache fmt of
        Some slots \<Rightarrow> Val slots
      | None \<Rightarrow>
          rbind (ok_of (read_format db relation_id fmt)) (\<lambda>d.
          let descs = (case d of Some d \<Rightarrow> Some d | None \<Rightarrow> latest)
          in Val (case descs of Some d \<Rightarrow> slots_for_format field_order d | None \<Rightarrow> [])))"

definition copy_body ::
    "ods \<Rightarrow> nat \<Rightarrow> (nat \<times> str) list \<Rightarrow> nat \<Rightarrow> desc list option \<Rightarrow> bytes \<Rightarrow> copy_state \<Rightarrow> (unit + copy_state) run" where
  "copy_body db relation_id field_order n_fields latest raw st =
     rbind (byte_at raw 12) (\<lambda>fmt.
     rbind (rhd_flags raw) (\<lambda>fl.
     rbind (copy_record db raw fl (st_buf st)) (\<lambda>(got, buf).
     if \<not> got then Val (Inr (st\<lparr>st_buf := buf\<rparr>))
     else
       rbind (cached_slots db relation_id field_order latest (unat fmt) (st_cache st)) (\<lambda>slots.
       rbind (write_row n_fields buf slots) (\<lambda>row.
         Val (Inr \<lparr>st_out = st_out st @ row, st_buf = buf,
                   st_cache = (st_cache st)(unat fmt := Some slots), st_count = st_count st + 1\<rparr>))))))"

definition write_copy_stream :: "ods \<Rightarrow> nat \<Rightarrow> (nat \<times> str) list \<Rightarrow> nat \<Rightarrow> (bytes \<times> nat) run" where
  "write_copy_stream db relation_id field_order n_fields =
     rbind (ok_of (read_format db relation_id 65535)) (\<lambda>latest.
     rbind (find_first_pp db relation_id) (\<lambda>pp.
     rbind
       (case pp of
          None \<Rightarrow> Val (pgcopy_header, 0)
        | Some pp \<Rightarrow>
            rbind (data_pages_for db pp) (\<lambda>dps.
            rbind (scan_pages db (copy_body db relation_id field_order n_fields latest) dps
                \<lparr>st_out = pgcopy_header, st_buf = [], st_cache = Map.empty, st_count = 0\<rparr>) (\<lambda>r.
              Val (case r of Inl _ \<Rightarrow> (pgcopy_header, 0) | Inr st \<Rightarrow> (st_out st, st_count st)))))
       (\<lambda>(out, count). Val (out @ pgcopy_trailer, count))))"

section \<open>The format of the stream\<close>

type_synonym row = "bytes option list"

definition encode_row :: "row \<Rightarrow> bytes" where
  "encode_row r = be_bytes 2 (length r) @ concat (map encode_field r)"

fun parse_fields :: "nat \<Rightarrow> bytes \<Rightarrow> (row \<times> bytes) option" where
  "parse_fields 0 bs = Some ([], bs)"
| "parse_fields (Suc n) bs =
     (case parse_field bs of
        None \<Rightarrow> None
      | Some (f, bs) \<Rightarrow> map_option (\<lambda>(r, bs). (f # r, bs)) (parse_fields n bs))"

lemma parse_field_shorter: "parse_field bs = Some (f, rest) \<Longrightarrow> length rest \<le> length bs"
  by (auto simp: parse_field_def Let_def split: if_splits)

lemma parse_fields_shorter: "parse_fields n bs = Some (r, rest) \<Longrightarrow> length rest \<le> length bs"
  by (induction n bs arbitrary: r rest rule: parse_fields.induct)
    (fastforce split: option.splits dest: parse_field_shorter)+

function parse_rows :: "bytes \<Rightarrow> row list option" where
  "parse_rows bs =
     (if length bs < 2 then None
      else if be_nat (take 2 bs) = 65535 then (if length bs = 2 then Some [] else None)
      else case parse_fields (be_nat (take 2 bs)) (drop 2 bs) of
          None \<Rightarrow> None
        | Some (r, rest) \<Rightarrow> map_option (Cons r) (parse_rows rest))"
  by pat_completeness auto
termination
  by (relation "measure length") (auto dest: parse_fields_shorter)

declare parse_rows.simps [simp del]

definition parse_pgcopy :: "bytes \<Rightarrow> row list option" where
  "parse_pgcopy bs =
     (if take 19 bs = pgcopy_header then parse_rows (drop 19 bs) else None)"

definition row_ok :: "row \<Rightarrow> bool" where
  "row_ok r \<longleftrightarrow> length r < 2 ^ 15 \<and> list_all field_ok r"

lemma parse_fields_encode:
  "list_all field_ok r \<Longrightarrow> parse_fields (length r) (concat (map encode_field r) @ rest) = Some (r, rest)"
  by (induction r) (auto simp: parse_encode_field)

lemma pgcopy_trailer_bytes: "pgcopy_trailer = [255, 255]"
proof -
  have "wrap 16 (- 1) = 65535" by (simp add: wrap_def)
  then show ?thesis by (simp add: pgcopy_trailer_def be_bytes_def le_bytes_2)
qed

lemma parse_rows_encode:
  "list_all row_ok rs \<Longrightarrow> parse_rows (concat (map encode_row rs) @ pgcopy_trailer) = Some rs"
proof (induction rs)
  case Nil
  then show ?case by (subst parse_rows.simps) (simp add: pgcopy_trailer_bytes be_nat_def)
next
  case (Cons r rs)
  have n: "length r < 2 ^ 15" "list_all field_ok r" using Cons.prems by (auto simp: row_ok_def)
  then have h: "be_nat (be_bytes 2 (length r)) = length r" by (intro be_nat_be_bytes_id) simp
  show ?case
    using n h Cons parse_fields_encode [OF n(2), of "concat (map encode_row rs) @ pgcopy_trailer"]
    by (subst parse_rows.simps) (simp add: encode_row_def [of r])
qed

lemma length_pgcopy_header: "length pgcopy_header = 19"
  by (simp add: pgcopy_header_def)

lemma parse_pgcopy_encode:
  "list_all row_ok rs \<Longrightarrow> parse_pgcopy (pgcopy_header @ concat (map encode_row rs) @ pgcopy_trailer) = Some rs"
  by (simp add: parse_pgcopy_def length_pgcopy_header parse_rows_encode)

section \<open>Every row has every column\<close>

definition good_slots :: "nat \<Rightarrow> copy_slot list \<Rightarrow> bool" where
  "good_slots n slots \<longleftrightarrow> length slots = n \<and> (\<forall>s \<in> set slots. dlength (cs_desc s) < 2 ^ 16)"

definition good_descs :: "desc list \<Rightarrow> bool" where
  "good_descs ds \<longleftrightarrow> (\<forall>d \<in> set ds. dlength d < 2 ^ 16)"

lemma desc_from_bytes_good: "desc_from_bytes b = Val d \<Longrightarrow> dlength d < 2 ^ 16"
  using le_at_bound [where n = 2 and b = b and i = 2] by (auto simp: desc_from_bytes_def split: if_splits)

lemma descs_from_good: "descs_from n b = Val ds \<Longrightarrow> good_descs ds"
proof (induction n arbitrary: b ds)
  case (Suc n)
  then obtain d ds' where "desc_from_bytes (take 12 b) = Val d" "descs_from n (drop 12 b) = Val ds'" "ds = d # ds'"
    by (auto simp: rbind_Val_iff)
  with Suc.IH desc_from_bytes_good show ?case by (fastforce simp: good_descs_def)
qed (simp add: good_descs_def)

lemma read_format_good: "read_format db rel ver = Val ds \<Longrightarrow> good_descs ds"
  by (auto simp: read_format_def parse_format_def rbind_Val_iff Let_def split: if_splits dest: descs_from_good)

lemma slots_for_format_good: "good_descs ds \<Longrightarrow> good_slots (length fo) (slots_for_format fo ds)"
  by (auto simp: good_slots_def good_descs_def slots_for_format_def default_zero_def)

lemma ok_of_Val: "ok_of m = Val (Some x) \<longleftrightarrow> m = Val x"
  by (cases m) auto

lemma write_slot_field:
  assumes "write_slot rec slot = Val b" and "dlength (cs_desc slot) < 2 ^ 16"
  shows "\<exists>f. field_ok f \<and> b = encode_field f"
proof (cases "b = null_field")
  case True
  then show ?thesis by (intro exI [of _ None]) (simp add: field_ok_def)
next
  case False
  then have "write_field_binary rec (cs_desc slot) = Val b"
    using assms(1) by (auto simp: write_slot_def Let_def split: if_splits)
  then obtain f where "b = encode_field f" "\<And>p. f = Some p \<Longrightarrow> length p \<le> 262148"
    using write_field_well_formed [OF assms(2), of rec] by (auto simp: well_formed_def)
  then show ?thesis by (intro exI [of _ f]) (cases f; force simp: field_ok_def)
qed

lemma write_row_fields:
  assumes "write_row n rec slots = Val row" and "good_slots n slots" and "n < 2 ^ 15"
  shows "\<exists>r. row = encode_row r \<and> length r = n \<and> row_ok r"
proof -
  have "\<exists>r. out' = out @ concat (map encode_field r) \<and> length r = length ss \<and> list_all field_ok r"
    if "rfold (\<lambda>slot out. rbind (write_slot rec slot) (\<lambda>b. Val (out @ b))) ss out = Val out'"
      "\<forall>s \<in> set ss. dlength (cs_desc s) < 2 ^ 16" for ss out out'
    using that
  proof (induction ss arbitrary: out)
    case (Cons s ss)
    then obtain b where b: "write_slot rec s = Val b"
      "rfold (\<lambda>slot out. rbind (write_slot rec slot) (\<lambda>b. Val (out @ b))) ss (out @ b) = Val out'"
      by (auto simp: rbind_Val_iff)
    then obtain f r where "field_ok f" "b = encode_field f" "out' = (out @ b) @ concat (map encode_field r)"
      "length r = length ss" "list_all field_ok r"
      using Cons.IH [OF b(2)] Cons.prems(2) write_slot_field [OF b(1)] by auto
    then show ?case by (intro exI [of _ "f # r"]) simp
  qed simp
  from this [of slots "be_bytes 2 n" row] assms show ?thesis
    by (fastforce simp: write_row_def good_slots_def encode_row_def row_ok_def)
qed

text \<open>The invariant of the extraction.\<close>

definition copy_inv :: "nat \<Rightarrow> copy_state \<Rightarrow> bool" where
  "copy_inv n st \<longleftrightarrow>
     (\<exists>rows. st_out st = pgcopy_header @ concat (map encode_row rows) \<and> length rows = st_count st \<and>
        (\<forall>r \<in> set rows. row_ok r \<and> length r = n)) \<and>
     (\<forall>fmt slots. st_cache st fmt = Some slots \<longrightarrow> good_slots n slots)"

lemma cached_slots_good:
  assumes "cached_slots db rel fo latest fmt cache = Val slots"
    and "latest = Some ds" and "good_descs ds" and "\<And>slots. cache fmt = Some slots \<Longrightarrow> good_slots (length fo) slots"
  shows "good_slots (length fo) slots"
  using assms
  by (auto simp: cached_slots_def rbind_Val_iff Let_def ok_of_Val split: option.splits
      intro!: slots_for_format_good dest: read_format_good)

lemma copy_body_inv:
  assumes "copy_body db rel fo (length fo) latest raw st = Val r" and "copy_inv (length fo) st"
    and "latest = Some ds" and "good_descs ds" and "length fo < 2 ^ 15"
  shows "\<exists>st'. r = Inr st' \<and> copy_inv (length fo) st'"
proof -
  from assms(1) obtain fmt fl got buf where g: "copy_record db raw fl (st_buf st) = Val (got, buf)"
    and r: "(if \<not> got then Val (Inr (st\<lparr>st_buf := buf\<rparr>))
     else
       rbind (cached_slots db rel fo latest (unat (fmt :: byte)) (st_cache st)) (\<lambda>slots.
       rbind (write_row (length fo) buf slots) (\<lambda>row.
         Val (Inr \<lparr>st_out = st_out st @ row, st_buf = buf,
                   st_cache = (st_cache st)(unat fmt := Some slots), st_count = st_count st + 1\<rparr>)))) = Val r"
    by (auto simp: copy_body_def rbind_Val_iff)
  show ?thesis
  proof (cases got)
    case False
    with r assms(2) show ?thesis by (auto simp: copy_inv_def)
  next
    case True
    with r obtain slots row where s: "cached_slots db rel fo latest (unat fmt) (st_cache st) = Val slots"
      "write_row (length fo) buf slots = Val row"
      and r': "r = Inr \<lparr>st_out = st_out st @ row, st_buf = buf,
          st_cache = (st_cache st)(unat fmt := Some slots), st_count = st_count st + 1\<rparr>"
      by (auto simp: rbind_Val_iff)
    have good: "good_slots (length fo) slots"
      using cached_slots_good [OF s(1) assms(3,4)] assms(2) by (auto simp: copy_inv_def)
    obtain x where x: "row = encode_row x" "length x = length fo" "row_ok x"
      using write_row_fields [OF s(2) good assms(5)] by blast
    obtain rows where rows: "st_out st = pgcopy_header @ concat (map encode_row rows)" "length rows = st_count st"
      "\<forall>r \<in> set rows. row_ok r \<and> length r = length fo" using assms(2) by (auto simp: copy_inv_def)
    have "copy_inv (length fo) \<lparr>st_out = st_out st @ row, st_buf = buf,
          st_cache = (st_cache st)(unat fmt := Some slots), st_count = st_count st + 1\<rparr>"
      using good assms(2) rows x by (auto simp: copy_inv_def intro!: exI [of _ "rows @ [x]"])
    then show ?thesis using r' by auto
  qed
qed

section \<open>Properties\<close>

text \<open>
  C15. The extraction writes a well-formed \<open>COPY BINARY\<close> stream: when the latest format of the
  relation can be read and the column count fits, a reader of the format accepts the whole output
  and finds as many rows as the function reports, each with exactly the columns of the table,
  in whichever on-disk format the rows were stored.
\<close>

theorem copy_stream_well_formed:
  assumes "read_format db rel 65535 = Val latest" and "length fo < 2 ^ 15"
    and "write_copy_stream db rel fo (length fo) = Val (out, count)"
  shows "\<exists>rows. parse_pgcopy out = Some rows \<and> length rows = count \<and> (\<forall>r \<in> set rows. length r = length fo)"
proof -
  have good: "good_descs latest" using assms(1) by (rule read_format_good)
  have body: "keeps (copy_inv (length fo)) (copy_body db rel fo (length fo) (Some latest) raw)" for raw
    by (rule keepsI) (rule copy_body_inv [OF _ _ refl good assms(2)])
  have init: "copy_inv (length fo) \<lparr>st_out = pgcopy_header, st_buf = [], st_cache = Map.empty, st_count = 0\<rparr>"
    by (auto simp: copy_inv_def intro!: exI [of _ "[]"])
  have empty: "copy_inv (length fo) \<lparr>st_out = pgcopy_header, st_buf = [], st_cache = Map.empty, st_count = 0\<rparr> \<Longrightarrow>
      \<exists>rows. pgcopy_header = pgcopy_header @ concat (map encode_row rows) \<and> length rows = 0 \<and>
        (\<forall>r \<in> set rows. row_ok r \<and> length r = length fo)"
    by (intro exI [of _ "[]"]) simp
  obtain body' where out: "out = body' @ pgcopy_trailer" and rows: "\<exists>rows. body' = pgcopy_header @ concat (map encode_row rows) \<and>
      length rows = count \<and> (\<forall>r \<in> set rows. row_ok r \<and> length r = length fo)"
    using assms(1,3) empty [OF init] keepsD [OF keeps_scan_pages [OF body] init]
    by (fastforce simp: write_copy_stream_def rbind_Val_iff copy_inv_def split: option.splits)
  then obtain rows where r: "out = pgcopy_header @ concat (map encode_row rows) @ pgcopy_trailer"
    "length rows = count" "\<forall>r \<in> set rows. row_ok r \<and> length r = length fo" by auto
  then have "parse_pgcopy out = Some rows" by (simp add: parse_pgcopy_encode list_all_iff)
  with r show ?thesis by blast
qed

lemma sample_rows_flags:
  "flags_of sample_live = 2048" "flags_of sample_stub = 2049" "flags_of sample_back = 2050"
  "length sample_live = 19" "length sample_stub = 14" "length sample_back = 19"
  by (simp_all add: flags_of_def sample_defs)

lemma sample_flag_bits:
  "\<not> has_flag 2048 RHD_INCOMPLETE" "\<not> has_flag 2049 RHD_INCOMPLETE" "\<not> has_flag 2050 RHD_INCOMPLETE"
  by (simp_all add: has_flag_def rhd_defs)

lemma sample_unpack_into:
  "unpack_record_into sample_live buf = Val (True, [0, 0, 0, 0, 7, 0])"
  "unpack_record_into sample_stub buf = Val (False, buf)"
  "unpack_record_into sample_back buf = Val (False, buf)"
  by (simp_all add: unpack_record_into_def unpack_buf_def sample_rows_flags slice_def)
    (simp_all add: has_flag_def rhd_defs data_start_def sample_defs)

lemma sample_field: "write_field_binary [0, 0, 0, 0, 7, 0] sample_desc = Val [0, 0, 0, 2, 0, 7]"
  by (simp add: write_field_binary_def dtype_defs sample_desc_def int_field_def slice_def Let_def len_field_def
      be_bytes_4 signed_of_def wrap_def) (simp add: be_bytes_def le_bytes_2)

lemma sample_skip:
  "copy_body sample_db 9 fo n latest sample_stub st = Val (Inr st)"
  "copy_body sample_db 9 fo n latest sample_back st = Val (Inr st)"
  by (simp_all add: copy_body_def copy_record_def sample_rows_flags sample_flag_bits sample_unpack_into)

lemma sample_copy:
  assumes "st_cache st 1 = None"
  shows "\<exists>buf cache. copy_body sample_db 9 [(0, nm)] 1 latest sample_live st =
    Val (Inr \<lparr>st_out = st_out st @ [0, 1, 0, 0, 0, 2, 0, 7], st_buf = buf, st_cache = cache, st_count = st_count st + 1\<rparr>)"
proof -
  let ?slots = "[\<lparr>cs_desc = sample_desc, cs_null_byte = 0, cs_null_mask = 1, cs_present = True\<rparr>]"
  have "cached_slots sample_db 9 [(0, nm)] latest 1 (st_cache st) = Val ?slots"
    using assms by (simp add: cached_slots_def sample_db_format [unfolded One_nat_def] slots_for_format_def)
  moreover have "write_row 1 [0, 0, 0, 0, 7, 0] ?slots = Val [0, 1, 0, 0, 0, 2, 0, 7]"
    by (simp add: write_row_def write_slot_def null_bits_def sample_field) (simp add: be_bytes_def le_bytes_2)
  moreover have "sample_live ! 12 = 1" by (simp add: sample_defs)
  ultimately show ?thesis
    by (simp add: copy_body_def copy_record_def sample_rows_flags sample_flag_bits sample_unpack_into)
qed

lemma sample_stream:
  "write_copy_stream sample_db 9 [(0, nm)] 1 = Val (pgcopy_header @ [0, 1, 0, 0, 0, 2, 0, 7] @ [255, 255], 1)"
proof -
  let ?st = "\<lparr>st_out = pgcopy_header, st_buf = [], st_cache = Map.empty, st_count = 0\<rparr>"
  obtain buf cache where "copy_body sample_db 9 [(0, nm)] 1 (Some [sample_desc]) sample_live ?st =
      Val (Inr \<lparr>st_out = pgcopy_header @ [0, 1, 0, 0, 0, 2, 0, 7], st_buf = buf, st_cache = cache, st_count = 1\<rparr>)"
    using sample_copy [of ?st nm "Some [sample_desc]"] by auto
  moreover have "[0..<3] = [0, 1, 2]" by (simp add: upt_rec)
  ultimately have "scan_pages sample_db (copy_body sample_db 9 [(0, nm)] 1 (Some [sample_desc])) [4] ?st =
      Val (Inr \<lparr>st_out = pgcopy_header @ [0, 1, 0, 0, 0, 2, 0, 7], st_buf = buf, st_cache = cache, st_count = 1\<rparr>)"
    by (simp add: scan_pages_def scan_page_def sample_row_words PAG_DATA_def sample_db_slots
        sample_db_slots [unfolded One_nat_def] sample_skip)
  then show ?thesis
    by (simp add: write_copy_stream_def sample_db_format sample_db_starts sample_db_pages pgcopy_trailer_bytes)
qed

theorem copy_stream_well_formed_witness:
  "\<exists>rows. parse_pgcopy (pgcopy_header @ [0, 1, 0, 0, 0, 2, 0, 7] @ [255, 255]) = Some rows \<and> length rows = 1 \<and>
    (\<forall>r \<in> set rows. length r = length [(0 :: nat, lit ''A'')])"
  by (rule copy_stream_well_formed [OF sample_db_format(1)]) (simp_all add: sample_stream [unfolded One_nat_def])

text \<open>
  A slot of fewer than 13 bytes, which every record reader skips, stops the whole extraction:
  the format byte and the flags are read from the slot before its length is looked at.
\<close>

theorem short_slot_panics:
  assumes "length raw < 13"
  shows "copy_body db rel fo n latest raw st = Panic \<and> unpack_record_into raw buf = Val (False, buf) \<and>
    unpack_record raw = Val None \<and> unpack_record_meta db raw = Val None \<and> record_transaction raw = Val None"
  using assms
  by (simp add: copy_body_def byte_at_def unpack_record_into_def unpack_record_val unpack_record_meta_def
      record_transaction_def)

theorem short_slot_panics_witness:
  "copy_body sample_db 9 [] 0 None [0, 1, 2] \<lparr>st_out = [], st_buf = [], st_cache = Map.empty, st_count = 0\<rparr> = Panic \<and>
    unpack_record_into [0, 1, 2] [] = Val (False, []) \<and> unpack_record [0, 1, 2] = Val None \<and>
    unpack_record_meta sample_db [0, 1, 2] = Val None \<and> record_transaction [0, 1, 2] = Val None"
  by (rule short_slot_panics) simp

end
