(* ===== verification/Cdc_Scan.thy ===== *)
theory Cdc_Scan
  imports Cdc_State Copy_Stream
begin

text \<open>
  One pass of the change capture over a table, \<open>scan_changes_into\<close> of \<open>src/src/cdc.rs\<close>. The
  upserts go into the writer that the caller passes, here the list of its bytes; the timers and the
  debug output leave no trace. Page generations are only looked up and inserted, so they are a
  function; the key snapshots are iterated, so they are an association list.
\<close>

section \<open>Keys and rows\<close>

definition slot_field :: "bytes \<Rightarrow> slot_info \<Rightarrow> bytes run" where
  "slot_field rec slot =
     (if has_flag (null_bits rec (null_byte slot)) (null_mask slot) then Val null_field
      else write_field_binary rec (slot_desc slot))"

fun encode_pk_loop :: "bytes \<Rightarrow> slot_info list \<Rightarrow> nat option list \<Rightarrow> bytes run" where
  "encode_pk_loop rec slots [] = Val []"
| "encode_pk_loop rec slots (None # ixs) = Err PkIndexMissing"
| "encode_pk_loop rec slots (Some ix # ixs) =
     rbind (byte_at slots ix) (\<lambda>slot.
     rbind (slot_field rec slot) (\<lambda>b.
     rbind (encode_pk_loop rec slots ixs) (\<lambda>bs. Val (b @ bs))))"

definition encode_pk_pgcopy :: "bytes \<Rightarrow> table_cache \<Rightarrow> nat \<Rightarrow> bytes run" where
  "encode_pk_pgcopy rec c fmt = encode_pk_loop rec (slots_for c fmt) (tc_pk_indices c)"

text \<open>The key of a delete row: here a missing index is an \<open>unwrap\<close> of \<open>None\<close>.\<close>

fun delete_key :: "bytes \<Rightarrow> slot_info list \<Rightarrow> nat option list \<Rightarrow> bytes run" where
  "delete_key rec slots [] = Val []"
| "delete_key rec slots (None # ixs) = Panic"
| "delete_key rec slots (Some ix # ixs) =
     rbind (byte_at slots ix) (\<lambda>slot.
     rbind (slot_field rec slot) (\<lambda>b.
     rbind (delete_key rec slots ixs) (\<lambda>bs. Val (b @ bs))))"

fun upsert_fields :: "bytes \<Rightarrow> slot_info list \<Rightarrow> bytes run" where
  "upsert_fields rec [] = Val []"
| "upsert_fields rec (slot # slots) =
     rbind (slot_field rec slot) (\<lambda>b. rbind (upsert_fields rec slots) (\<lambda>bs. Val (b @ bs)))"

section \<open>Following a delete stub\<close>

definition MAX_CHAIN_DEPTH :: nat where "MAX_CHAIN_DEPTH = 8"

text \<open>
  The format of the first version along the chain that can be unpacked, and the record buffer,
  which holds that version then. \<open>k\<close> steps are left.
\<close>

fun chain_follow :: "nat \<Rightarrow> ods \<Rightarrow> nat \<Rightarrow> nat \<Rightarrow> bytes \<Rightarrow> (nat option \<times> bytes) run" where
  "chain_follow 0 db pg line buf = Val (None, buf)"
| "chain_follow (Suc k) db pg line buf =
     rbind (read_slot_raw db pg line) (\<lambda>r. case r of
       None \<Rightarrow> Val (None, buf)
     | Some back \<Rightarrow>
         rbind (unpack_record_cdc back buf) (\<lambda>(u, buf). case u of
           Some d \<Rightarrow> rbind (byte_at back 12) (\<lambda>fmt. Val (Some (unat fmt), buf))
         | None \<Rightarrow>
             if length back < 13 then Val (None, buf)
             else
               rbind (rhd_flags back) (\<lambda>bflags.
               if \<not> has_flag bflags (or RHD_CHAIN RHD_DELETED) then Val (None, buf)
               else
                 rbind (u32_at back 4) (\<lambda>pg.
                 rbind (u16_at back 8) (\<lambda>line. chain_follow k db pg line buf)))))"

section \<open>One record\<close>

record rec_state =
  rs_upsert_out :: bytes
  rs_delete_buf :: bytes
  rs_buf :: bytes
  rs_page_pks :: bytes
  rs_upserts :: nat
  rs_deletes :: nat
  rs_max_txn :: nat
  rs_checked :: nat

definition scan_delete :: "ods \<Rightarrow> table_cache \<Rightarrow> bytes \<Rightarrow> rec_state \<Rightarrow> rec_state run" where
  "scan_delete db c raw st =
     (if \<not> tc_pk_tracked c then Val st
      else
        rbind (u32_at raw 4) (\<lambda>pg.
        rbind (u16_at raw 8) (\<lambda>line.
        if pg = 0 then Val st
        else
          rbind (chain_follow MAX_CHAIN_DEPTH db pg line (rs_buf st)) (\<lambda>(r, buf). case r of
            None \<Rightarrow> Val (st\<lparr>rs_buf := buf\<rparr>)
          | Some fmt \<Rightarrow>
              rbind (delete_key buf (slots_for c fmt) (tc_pk_indices c)) (\<lambda>key.
                Val (st\<lparr>rs_buf := buf, rs_delete_buf := rs_delete_buf st @ be_bytes 2 (tc_n_pk c) @ key,
                       rs_deletes := rs_deletes st + 1\<rparr>))))))"

definition scan_upsert :: "table_cache \<Rightarrow> nat \<Rightarrow> rec_state \<Rightarrow> rec_state run" where
  "scan_upsert c fmt st =
     rbind (upsert_fields (rs_buf st) (slots_for c fmt)) (\<lambda>row.
       Val (st\<lparr>rs_upsert_out := rs_upsert_out st @ be_bytes 2 (tc_n_fields c) @ row,
              rs_upserts := rs_upserts st + 1\<rparr>))"

definition pk_skip :: nat where
  "pk_skip = or RHD_DELETED (or RHD_CHAIN (or RHD_FRAGMENT (or RHD_INCOMPLETE RHD_BLOB)))"

text \<open>The key of a live record joins the snapshot of its page when it has the fixed width.\<close>

definition snapshot_key :: "table_cache \<Rightarrow> nat \<Rightarrow> rec_state \<Rightarrow> rec_state run" where
  "snapshot_key c fmt st =
     rbind (ok_of (encode_pk_pgcopy (rs_buf st) c fmt)) (\<lambda>r.
       Val (case r of
           Some pk \<Rightarrow> if length pk = tc_pk_byte_len c then st\<lparr>rs_page_pks := rs_page_pks st @ pk\<rparr> else st
         | None \<Rightarrow> st))"

definition scan_record ::
    "ods \<Rightarrow> table_cache \<Rightarrow> nat \<Rightarrow> bool \<Rightarrow> bool \<Rightarrow> bytes \<Rightarrow> rec_state \<Rightarrow> rec_state run" where
  "scan_record db c last_txn page_changed rebuild_pks raw st =
     (if length raw < 13 then Val st
      else
        rbind (rhd_flags raw) (\<lambda>flags.
        if (\<not> page_changed \<and> \<not> rebuild_pks) \<and> \<not> has_flag flags RHD_DELETED then Val st
        else
          rbind (record_transaction raw) (\<lambda>t. case t of
            None \<Rightarrow> Val st
          | Some txn \<Rightarrow>
              let st = st\<lparr>rs_checked := rs_checked st + 1\<rparr>;
                  want_pk = (rebuild_pks \<and> \<not> has_flag flags pk_skip);
                  want_change = (txn > last_txn)
              in
                if \<not> want_pk \<and> \<not> want_change then Val st
                else
                  rbind (unpack_record_cdc raw (rs_buf st)) (\<lambda>(unpacked, buf).
                  rbind (byte_at raw 12) (\<lambda>fmt.
                  rbind (if want_pk \<and> unpacked = Some False
                         then snapshot_key c (unat fmt) (st\<lparr>rs_buf := buf\<rparr>)
                         else Val (st\<lparr>rs_buf := buf\<rparr>)) (\<lambda>st.
                  if \<not> want_change then Val st
                  else
                    (let st = st\<lparr>rs_max_txn := max txn (rs_max_txn st)\<rparr> in
                     case unpacked of
                       None \<Rightarrow> Val st
                     | Some deleted \<Rightarrow>
                         if deleted then scan_delete db c raw st
                         else if page_changed then scan_upsert c (unat fmt) st
                         else Val st)))))))"

section \<open>One page\<close>

record page_state =
  ps_rec :: rec_state
  ps_new_gens :: "nat \<Rightarrow> nat option"
  ps_new_pks :: "(nat \<times> bytes) list"
  ps_total :: nat
  ps_skipped :: nat

definition put_page :: "nat \<Rightarrow> bytes \<Rightarrow> (nat \<times> bytes) list \<Rightarrow> (nat \<times> bytes) list" where
  "put_page n flat ps = (n, flat) # filter (\<lambda>(m, f). m \<noteq> n) ps"

definition scan_cdc_page ::
    "ods \<Rightarrow> table_cache \<Rightarrow> nat \<Rightarrow> (nat \<Rightarrow> nat option) \<Rightarrow> bool \<Rightarrow> nat \<Rightarrow> page_state \<Rightarrow> page_state run" where
  "scan_cdc_page db c last_txn page_gens is_first_cycle dp_n ps =
     rbind (page db dp_n) (\<lambda>dp.
     rbind (byte_at dp 0) (\<lambda>ty.
     if ty \<noteq> PAG_DATA then Val ps
     else
       rbind (u32_at dp 4) (\<lambda>gen.
       let page_changed = (page_gens dp_n \<noteq> Some gen);
           rebuild_pks = (tc_pk_byte_len c > 0 \<and> (page_changed \<or> is_first_cycle)) in
       rbind (u16_at dp 22) (\<lambda>cnt.
       rbind (rfold (\<lambda>s st. rbind (slot_raw db dp s) (\<lambda>r. case r of
             None \<Rightarrow> Val st
           | Some raw \<Rightarrow> scan_record db c last_txn page_changed rebuild_pks raw st)) [0..<cnt]
           ((ps_rec ps)\<lparr>rs_page_pks := []\<rparr>)) (\<lambda>st.
       rbind (if rebuild_pks
              then rbind (flat_pk_sort_dedup (rs_page_pks st) (tc_pk_byte_len c)) (\<lambda>flat.
                Val (put_page dp_n flat (ps_new_pks ps)))
              else Val (ps_new_pks ps)) (\<lambda>new_pks.
         Val \<lparr>ps_rec = st, ps_new_gens = (if page_changed then (ps_new_gens ps)(dp_n := Some gen) else ps_new_gens ps),
              ps_new_pks = new_pks, ps_total = ps_total ps + 1,
              ps_skipped = (if page_changed then ps_skipped ps else ps_skipped ps + 1)\<rparr>))))))"

section \<open>Rows that vanished\<close>

text \<open>\<open>contains\<close> is the search in the set of the keys that are alive.\<close>

fun express_keys :: "(bytes \<Rightarrow> bool run) \<Rightarrow> bytes list \<Rightarrow> bytes list \<Rightarrow> bytes list run" where
  "express_keys contains [] emitted = Val emitted"
| "express_keys contains (pk # pks) emitted =
     rbind (contains pk) (\<lambda>alive.
       if alive \<or> pk \<in> set emitted then express_keys contains pks emitted
       else express_keys contains pks (emitted @ [pk]))"

definition alive_flat :: "(nat \<times> bytes) list \<Rightarrow> (nat \<times> bytes) list \<Rightarrow> bytes" where
  "alive_flat prev new =
     concat (map snd new) @ concat (map snd (filter (\<lambda>(n, f). n \<notin> fst ` set new) prev))"

definition express_deletes :: "nat \<Rightarrow> (nat \<times> bytes) list \<Rightarrow> (nat \<times> bytes) list \<Rightarrow> bytes list run" where
  "express_deletes stride prev new =
     rbind (flat_pk_sort_dedup (alive_flat prev new) stride) (\<lambda>alive.
       express_keys (flat_pk_contains alive stride)
         (concat (map (\<lambda>(n, f). chunks stride f) (filter (\<lambda>(n, f). n \<in> fst ` set new) prev))) [])"

section \<open>The pass\<close>

record scan_output =
  so_upsert_out :: bytes
  so_delete_buf :: bytes
  so_upserts :: nat
  so_deletes :: nat
  so_max_txn :: nat
  so_new_gens :: "nat \<Rightarrow> nat option"
  so_new_pks :: "(nat \<times> bytes) list"
  so_pages_total :: nat
  so_pages_skipped :: nat
  so_records_checked :: nat
  so_express_deletes :: nat

definition is_first_cycle :: "table_cache \<Rightarrow> bool" where
  "is_first_cycle c \<longleftrightarrow> tc_pk_byte_len c > 0 \<and> tc_prev_pks c = []"

definition scan_init :: "nat \<Rightarrow> page_state" where
  "scan_init last_txn =
     \<lparr>ps_rec = \<lparr>rs_upsert_out = pgcopy_header, rs_delete_buf = pgcopy_header, rs_buf = [], rs_page_pks = [],
        rs_upserts = 0, rs_deletes = 0, rs_max_txn = last_txn, rs_checked = 0\<rparr>,
      ps_new_gens = Map.empty, ps_new_pks = [], ps_total = 0, ps_skipped = 0\<rparr>"

definition scan_changes_into ::
    "ods \<Rightarrow> table_cache \<Rightarrow> nat \<Rightarrow> (nat \<Rightarrow> nat option) \<Rightarrow> scan_output run" where
  "scan_changes_into db c last_txn page_gens =
     rbind (rfold (scan_cdc_page db c last_txn page_gens (is_first_cycle c)) (tc_data_pages c) (scan_init last_txn)) (\<lambda>ps.
     rbind (if tc_pk_byte_len c > 0 \<and> \<not> is_first_cycle c \<and> ps_new_pks ps \<noteq> []
            then express_deletes (tc_pk_byte_len c) (tc_prev_pks c) (ps_new_pks ps) else Val []) (\<lambda>gone.
     let st = ps_rec ps in
     Val \<lparr>so_upsert_out = rs_upsert_out st @ pgcopy_trailer,
          so_delete_buf = rs_delete_buf st @ concat (map (\<lambda>pk. be_bytes 2 (tc_n_pk c) @ pk) gone) @ pgcopy_trailer,
          so_upserts = rs_upserts st, so_deletes = rs_deletes st + length gone, so_max_txn = rs_max_txn st,
          so_new_gens = ps_new_gens ps, so_new_pks = ps_new_pks ps, so_pages_total = ps_total ps,
          so_pages_skipped = ps_skipped ps, so_records_checked = rs_checked st,
          so_express_deletes = length gone\<rparr>))"

section \<open>The keys of a snapshot\<close>

definition snap_whole :: "nat \<Rightarrow> (nat \<times> bytes) list \<Rightarrow> bool" where
  "snap_whole S ps \<longleftrightarrow> list_all (\<lambda>p. length (snd p) mod S = 0) ps"

definition keys_of :: "nat \<Rightarrow> (nat \<times> bytes) list \<Rightarrow> bytes list" where
  "keys_of S ps = concat (map (\<lambda>p. chunks S (snd p)) ps)"

text \<open>The snapshot after a pass: the scanned pages replace theirs, the others stay.\<close>

definition advance_snapshot :: "(nat \<times> bytes) list \<Rightarrow> (nat \<times> bytes) list \<Rightarrow> (nat \<times> bytes) list" where
  "advance_snapshot prev new = fold (\<lambda>(n, f). put_page n f) new prev"

lemma snap_whole_simps [simp]:
  "snap_whole S []" "snap_whole S ((n, f) # ps) \<longleftrightarrow> length f mod S = 0 \<and> snap_whole S ps"
  "snap_whole S (ps @ qs) \<longleftrightarrow> snap_whole S ps \<and> snap_whole S qs"
  by (auto simp: snap_whole_def)

lemma snap_whole_filter: "snap_whole S ps \<Longrightarrow> snap_whole S (filter P ps)"
  by (auto simp: snap_whole_def list_all_iff)

lemma keys_of_simps [simp]:
  "keys_of S [] = []" "keys_of S ((n, f) # ps) = chunks S f @ keys_of S ps"
  "keys_of S (ps @ qs) = keys_of S ps @ keys_of S qs"
  by (simp_all add: keys_of_def)

lemma keys_of_whole:
  "0 < S \<Longrightarrow> snap_whole S ps \<Longrightarrow> uniform S (keys_of S ps) \<and> concat (keys_of S ps) = concat (map snd ps)"
  by (induction ps) (auto simp: chunks_of_whole)

lemma set_keys_of: "set (keys_of S ps) = (\<Union>p \<in> set ps. set (chunks S (snd p)))"
  by (auto simp: keys_of_def)

lemma set_put_page: "set (put_page n f ps) = insert (n, f) {p \<in> set ps. fst p \<noteq> n}"
  by (auto simp: put_page_def)

lemma distinct_put_page: "distinct (map fst ps) \<Longrightarrow> distinct (map fst (put_page n f ps))"
  by (auto simp: put_page_def intro: distinct_map_filter)

lemma advance_simps [simp]:
  "advance_snapshot prev [] = prev"
  "advance_snapshot prev ((n, f) # new) = advance_snapshot (put_page n f prev) new"
  by (simp_all add: advance_snapshot_def)

lemma set_advance:
  "distinct (map fst new) \<Longrightarrow>
   set (advance_snapshot prev new) = set new \<union> {p \<in> set prev. fst p \<notin> fst ` set new}"
proof (induction new arbitrary: prev)
  case (Cons p new)
  then show ?case by (cases p) (force simp: set_put_page)
qed simp

lemma distinct_advance: "distinct (map fst prev) \<Longrightarrow> distinct (map fst (advance_snapshot prev new))"
proof (induction new arbitrary: prev)
  case (Cons p new)
  then show ?case by (cases p) (simp add: distinct_put_page)
qed simp

lemma put_page_Nil [simp]: "put_page n f ps \<noteq> []" "[] \<noteq> put_page n f ps"
  by (simp_all add: put_page_def)

lemma advance_Nil [simp]: "advance_snapshot prev new = [] \<longleftrightarrow> prev = [] \<and> new = []"
proof (induction new arbitrary: prev)
  case (Cons p new)
  then show ?case by (cases p) simp
qed simp

section \<open>Which keys vanish\<close>

lemma express_keys_spec:
  "(\<And>k. k \<in> set pks \<Longrightarrow> contains k = Val (k \<in> A)) \<Longrightarrow> distinct emitted \<Longrightarrow>
   \<exists>gone. express_keys contains pks emitted = Val gone \<and> distinct gone \<and>
     set gone = set emitted \<union> (set pks - A)"
proof (induction pks arbitrary: emitted)
  case (Cons k pks)
  show ?case
  proof (cases "k \<in> A \<or> k \<in> set emitted")
    case True
    then show ?thesis using Cons.IH [of emitted] Cons.prems by auto
  next
    case False
    then have "distinct (emitted @ [k])" using Cons.prems(2) by simp
    then obtain gone where "express_keys contains pks (emitted @ [k]) = Val gone" "distinct gone"
      "set gone = set (emitted @ [k]) \<union> (set pks - A)"
      using Cons.IH [of "emitted @ [k]"] Cons.prems(1) by (metis list.set_intros(2))
    then show ?thesis using False Cons.prems(1) [of k] by auto
  qed
qed auto

context key_set
begin

lemma express_keys_built:
  assumes "supports S" and "uniform S ks" and "build (concat ks) S = Val f"
  shows "\<exists>gone. express_keys (contains f S) pks [] = Val gone \<and> distinct gone \<and> set gone = set pks - set ks"
  using express_keys_spec [of pks "contains f S" "set ks" "[]"] contains_build [OF assms] by simp

end

lemma alive_flat_keys:
  assumes "0 < S" and "snap_whole S prev" and "snap_whole S new" and "distinct (map fst new)"
  obtains ks where "uniform S ks" and "concat ks = alive_flat prev new"
    and "set ks = set (keys_of S (advance_snapshot prev new))"
proof (rule that)
  let ?old = "filter (\<lambda>(n, f). n \<notin> fst ` set new) prev"
  let ?ks = "keys_of S (new @ ?old)"
  have w: "snap_whole S (new @ ?old)" using assms(2,3) by (simp add: snap_whole_filter)
  show "uniform S ?ks" "concat ?ks = alive_flat prev new"
    using keys_of_whole [OF assms(1) w] by (simp_all add: alive_flat_def)
  show "set ?ks = set (keys_of S (advance_snapshot prev new))"
    using assms(4) by (auto simp: set_keys_of set_advance case_prod_beta)
qed

lemma UN_split_minus:
  "(\<Union>p \<in> {p \<in> A. \<not> P p}. g p) \<subseteq> K \<Longrightarrow> (\<Union>p \<in> {p \<in> A. P p}. g p) - K = (\<Union>p \<in> A. g p) - K"
  by blast

lemma express_deletes_keys:
  assumes "0 < S" and "S \<le> 64" and "snap_whole S prev" and "snap_whole S new" and "distinct (map fst new)"
  shows "\<exists>gone. express_deletes S prev new = Val gone \<and> distinct gone \<and>
    set gone = set (keys_of S prev) - set (keys_of S (advance_snapshot prev new))"
proof -
  obtain ks where ks: "uniform S ks" "concat ks = alive_flat prev new"
    "set ks = set (keys_of S (advance_snapshot prev new))"
    using alive_flat_keys [OF assms(1,3,4,5)] by blast
  have sup: "0 < S \<and> S \<le> 64" using assms by simp
  obtain f where f: "flat_pk_sort_dedup (alive_flat prev new) S = Val f"
    using flat_keys.build_returns [OF sup ks(1)] ks(2) by (auto simp: returns_iff)
  let ?pks = "concat (map (\<lambda>(n, f). chunks S f) (filter (\<lambda>(n, f). n \<in> fst ` set new) prev))"
  obtain gone where "express_keys (flat_pk_contains f S) ?pks [] = Val gone" "distinct gone"
    "set gone = set ?pks - set ks"
    using flat_keys.express_keys_built [OF sup ks(1), of f ?pks] f ks(2) by auto
  moreover have "set ?pks - set ks = set (keys_of S prev) - set ks"
  proof -
    have "set ?pks = (\<Union>p \<in> {p \<in> set prev. fst p \<in> fst ` set new}. set (chunks S (snd p)))"
      by (simp add: case_prod_beta)
    moreover have "(\<Union>p \<in> {p \<in> set prev. fst p \<notin> fst ` set new}. set (chunks S (snd p))) \<subseteq> set ks"
      unfolding ks(3) set_keys_of set_advance [OF assms(5)] by blast
    ultimately show ?thesis by (simp only: set_keys_of UN_split_minus)
  qed
  ultimately show ?thesis using f ks(3) by (auto simp: express_deletes_def)
qed

section \<open>Rows and keys are encoded fields\<close>

definition is_key :: "nat \<Rightarrow> bytes \<Rightarrow> bool" where
  "is_key n k \<longleftrightarrow> (\<exists>r. list_all field_ok r \<and> length r = n \<and> k = concat (map encode_field r))"

definition good_cache :: "table_cache \<Rightarrow> bool" where
  "good_cache c \<longleftrightarrow> tc_n_fields c < 2 ^ 15 \<and> tc_n_pk c < 2 ^ 15 \<and> length (tc_pk_indices c) = tc_n_pk c \<and>
     (\<forall>fmt. length (slots_for c fmt) = tc_n_fields c \<and> (\<forall>s \<in> set (slots_for c fmt). dlength (slot_desc s) < 2 ^ 16))"

definition valid_snapshot :: "table_cache \<Rightarrow> (nat \<times> bytes) list \<Rightarrow> bool" where
  "valid_snapshot c ps \<longleftrightarrow> distinct (map fst ps) \<and> snap_whole (tc_pk_byte_len c) ps \<and>
     (\<forall>k \<in> set (keys_of (tc_pk_byte_len c) ps). is_key (tc_n_pk c) k)"

lemma slot_field_encoded:
  assumes "slot_field rec slot = Val b" and "dlength (slot_desc slot) < 2 ^ 16"
  shows "\<exists>f. field_ok f \<and> b = encode_field f"
proof -
  have "b = null_field \<or> write_field_binary rec (slot_desc slot) = Val b"
    using assms(1) by (simp add: slot_field_def split: if_splits)
  then consider "b = null_field" | "write_field_binary rec (slot_desc slot) = Val b" by blast
  then show ?thesis
  proof cases
    case 1
    then show ?thesis by (intro exI [of _ None]) (simp add: field_ok_def)
  next
    case 2
    then obtain f where "b = encode_field f" "\<And>p. f = Some p \<Longrightarrow> length p \<le> 262148"
      using write_field_well_formed [OF assms(2), of rec] by (auto simp: well_formed_def)
    then show ?thesis by (intro exI [of _ f]) (cases f; force simp: field_ok_def)
  qed
qed

lemma is_key_Nil: "is_key 0 []"
  by (simp add: is_key_def)

lemma is_key_Cons: "field_ok f \<Longrightarrow> is_key n k \<Longrightarrow> is_key (Suc n) (encode_field f @ k)"
  unfolding is_key_def
proof (elim exE conjE)
  fix r assume "field_ok f" "list_all field_ok r" "length r = n" "k = concat (map encode_field r)"
  then show "\<exists>r. list_all field_ok r \<and> length r = Suc n \<and> encode_field f @ k = concat (map encode_field r)"
    by (intro exI [of _ "f # r"]) simp
qed

lemma upsert_fields_key:
  "upsert_fields rec slots = Val b \<Longrightarrow> \<forall>s \<in> set slots. dlength (slot_desc s) < 2 ^ 16 \<Longrightarrow> is_key (length slots) b"
proof (induction slots arbitrary: b)
  case (Cons s slots)
  then show ?case
    by (auto simp: rbind_Val_iff dest!: slot_field_encoded intro!: is_key_Cons)
qed (simp add: is_key_Nil)

lemma delete_key_key:
  "delete_key rec slots ixs = Val b \<Longrightarrow> \<forall>s \<in> set slots. dlength (slot_desc s) < 2 ^ 16 \<Longrightarrow> is_key (length ixs) b"
proof (induction rec slots ixs arbitrary: b rule: delete_key.induct)
  case (3 rec slots ix ixs)
  then obtain s x y where "byte_at slots ix = Val s" "slot_field rec s = Val x" "delete_key rec slots ixs = Val y" "b = x @ y"
    by (auto simp: rbind_Val_iff)
  moreover from this have "s \<in> set slots" by (auto simp: byte_at_def split: if_splits)
  moreover have "is_key (length ixs) y" using calculation "3.IH" "3.prems"(2) by blast
  ultimately show ?case using "3.prems"(2) by (auto dest!: slot_field_encoded intro!: is_key_Cons)
qed (simp_all add: is_key_Nil)

text \<open>Both loops over the key columns give the same bytes.\<close>

lemma encode_pk_loop_delete_key: "encode_pk_loop rec slots ixs = Val b \<longleftrightarrow> delete_key rec slots ixs = Val b"
proof (induction rec slots ixs arbitrary: b rule: delete_key.induct)
  case (3 rec slots ix ixs)
  show ?case
  proof (cases "\<exists>s x. byte_at slots ix = Val s \<and> slot_field rec s = Val x")
    case True
    then obtain s x where sx: "byte_at slots ix = Val s" "slot_field rec s = Val x" by blast
    show ?thesis using "3.IH" [OF sx] by (simp add: sx rbind_Val_iff)
  next
    case False
    then show ?thesis by (simp add: rbind_Val_iff) blast
  qed
qed simp_all

lemma is_key_row:
  assumes "is_key n k" and "n < 2 ^ 15"
  shows "\<exists>r. row_ok r \<and> length r = n \<and> be_bytes 2 n @ k = encode_row r"
  using assms by (auto simp: is_key_def row_ok_def encode_row_def)

section \<open>The streams of a pass\<close>

definition copy_rows :: "nat \<Rightarrow> nat \<Rightarrow> bytes \<Rightarrow> bool" where
  "copy_rows n k out \<longleftrightarrow> (\<exists>rs. out = pgcopy_header @ concat (map encode_row rs) \<and> length rs = k \<and>
     list_all (\<lambda>r. row_ok r \<and> length r = n) rs)"

lemma copy_rows_header: "copy_rows n 0 pgcopy_header"
  by (auto simp: copy_rows_def)

lemma copy_rows_append:
  assumes "copy_rows n k out" and "is_key n b" and "n < 2 ^ 15"
  shows "copy_rows n (Suc k) (out @ be_bytes 2 n @ b)"
proof -
  obtain rs where "out = pgcopy_header @ concat (map encode_row rs)" "length rs = k"
    "list_all (\<lambda>r. row_ok r \<and> length r = n) rs"
    using assms(1) by (auto simp: copy_rows_def)
  moreover obtain r where "row_ok r" "length r = n" "be_bytes 2 n @ b = encode_row r"
    using is_key_row [OF assms(2,3)] by blast
  ultimately show ?thesis unfolding copy_rows_def by (intro exI [of _ "rs @ [r]"]) simp
qed

lemma copy_rows_append_list:
  "copy_rows n k out \<Longrightarrow> \<forall>b \<in> set bs. is_key n b \<Longrightarrow> n < 2 ^ 15 \<Longrightarrow>
   copy_rows n (k + length bs) (out @ concat (map (\<lambda>b. be_bytes 2 n @ b) bs))"
proof (induction bs arbitrary: k out)
  case (Cons b bs)
  then have "copy_rows n (Suc k) (out @ be_bytes 2 n @ b)" by (simp add: copy_rows_append)
  from Cons.IH [OF this] Cons.prems show ?case by simp
qed simp

lemma copy_rows_parse:
  assumes "copy_rows n k out"
  shows "\<exists>rs. parse_pgcopy (out @ pgcopy_trailer) = Some rs \<and> length rs = k \<and> (\<forall>r \<in> set rs. length r = n)"
proof -
  obtain rs where rs: "out = pgcopy_header @ concat (map encode_row rs)" "length rs = k"
    "list_all (\<lambda>r. row_ok r \<and> length r = n) rs"
    using assms by (auto simp: copy_rows_def)
  then have "list_all row_ok rs" by (simp add: list_all_iff)
  then show ?thesis using rs parse_pgcopy_encode [of rs] by (auto simp: list_all_iff)
qed

definition key_list :: "table_cache \<Rightarrow> bytes list \<Rightarrow> bool" where
  "key_list c ks \<longleftrightarrow> uniform (tc_pk_byte_len c) ks \<and> (\<forall>k \<in> set ks. is_key (tc_n_pk c) k)"

definition rec_inv :: "table_cache \<Rightarrow> rec_state \<Rightarrow> bool" where
  "rec_inv c st \<longleftrightarrow> copy_rows (tc_n_fields c) (rs_upserts st) (rs_upsert_out st) \<and>
     copy_rows (tc_n_pk c) (rs_deletes st) (rs_delete_buf st) \<and>
     (\<exists>ks. rs_page_pks st = concat ks \<and> key_list c ks)"

lemma snapshot_key_inv:
  assumes "good_cache c" and "rec_inv c st" and "snapshot_key c fmt st = Val st'"
  shows "rec_inv c st'"
proof -
  obtain r where r: "ok_of (encode_pk_pgcopy (rs_buf st) c fmt) = Val r"
    using assms(3) by (auto simp: snapshot_key_def rbind_Val_iff)
  have "st' = st \<or> (\<exists>pk. encode_pk_pgcopy (rs_buf st) c fmt = Val pk \<and> length pk = tc_pk_byte_len c \<and>
      st' = st\<lparr>rs_page_pks := rs_page_pks st @ pk\<rparr>)"
    using assms(3) r by (cases r) (simp_all add: snapshot_key_def ok_of_Val split: if_splits)
  then consider "st' = st" | pk where "encode_pk_pgcopy (rs_buf st) c fmt = Val pk" "length pk = tc_pk_byte_len c"
      "st' = st\<lparr>rs_page_pks := rs_page_pks st @ pk\<rparr>" by blast
  then show ?thesis
  proof cases
    case 2
    have "is_key (tc_n_pk c) pk"
      using 2(1) assms(1) by (auto simp: encode_pk_pgcopy_def encode_pk_loop_delete_key good_cache_def dest!: delete_key_key)
    moreover obtain ks where "rs_page_pks st = concat ks" "key_list c ks" using assms(2) by (auto simp: rec_inv_def)
    ultimately have "rs_page_pks st' = concat (ks @ [pk])" "key_list c (ks @ [pk])"
      using 2 by (simp_all add: key_list_def)
    then show ?thesis using assms(2) 2(3) unfolding rec_inv_def
      by (intro conjI exI [of _ "ks @ [pk]"]) simp_all
  qed (simp add: assms(2))
qed

lemma scan_upsert_inv:
  assumes "good_cache c" and "rec_inv c st" and "scan_upsert c fmt st = Val st'"
  shows "rec_inv c st'"
proof -
  obtain row where row: "upsert_fields (rs_buf st) (slots_for c fmt) = Val row"
    "st' = st\<lparr>rs_upsert_out := rs_upsert_out st @ be_bytes 2 (tc_n_fields c) @ row, rs_upserts := rs_upserts st + 1\<rparr>"
    using assms(3) by (auto simp: scan_upsert_def rbind_Val_iff)
  have "is_key (tc_n_fields c) row"
    using row(1) assms(1) upsert_fields_key [of "rs_buf st" "slots_for c fmt" row] by (simp add: good_cache_def)
  then show ?thesis using assms(1,2) row(2) by (simp add: rec_inv_def copy_rows_append good_cache_def)
qed

lemma scan_delete_outcomes:
  assumes "scan_delete db c raw st = Val st'"
  shows "st' = st \<or> (\<exists>buf. st' = st\<lparr>rs_buf := buf\<rparr>) \<or>
      (\<exists>buf fmt key. delete_key buf (slots_for c fmt) (tc_pk_indices c) = Val key \<and>
        st' = st\<lparr>rs_buf := buf, rs_delete_buf := rs_delete_buf st @ be_bytes 2 (tc_n_pk c) @ key,
          rs_deletes := rs_deletes st + 1\<rparr>)"
proof (cases "tc_pk_tracked c")
  case True
  then obtain pg line where *: "u32_at raw 4 = Val pg" "u16_at raw 8 = Val line"
    using assms by (auto simp: scan_delete_def rbind_Val_iff)
  show ?thesis
  proof (cases "pg = 0")
    case False
    then have "\<exists>r buf. chain_follow MAX_CHAIN_DEPTH db pg line (rs_buf st) = Val (r, buf)"
      using assms True * by (auto simp: scan_delete_def rbind_Val_iff)
    then obtain r buf where follow: "chain_follow MAX_CHAIN_DEPTH db pg line (rs_buf st) = Val (r, buf)" by blast
    show ?thesis
    proof (cases r)
      case None
      then show ?thesis using assms True False * follow by (auto simp: scan_delete_def)
    next
      case (Some fmt)
      then show ?thesis using assms True False * follow
        by (simp add: scan_delete_def rbind_Val_iff) blast
    qed
  qed (use assms True * in \<open>simp add: scan_delete_def\<close>)
qed (use assms in \<open>simp add: scan_delete_def\<close>)

lemma scan_delete_inv:
  assumes "good_cache c" and "rec_inv c st" and "scan_delete db c raw st = Val st'"
  shows "rec_inv c st'"
proof -
  consider "st' = st" | buf where "st' = st\<lparr>rs_buf := buf\<rparr>"
    | buf fmt key where "delete_key buf (slots_for c fmt) (tc_pk_indices c) = Val key"
      "st' = st\<lparr>rs_buf := buf, rs_delete_buf := rs_delete_buf st @ be_bytes 2 (tc_n_pk c) @ key, rs_deletes := rs_deletes st + 1\<rparr>"
    using scan_delete_outcomes [OF assms(3)] by blast
  then show ?thesis
  proof cases
    case 3
    have "is_key (tc_n_pk c) key" using 3(1) assms(1) by (auto simp: good_cache_def dest!: delete_key_key)
    then show ?thesis using assms(1,2) 3(2) by (simp add: rec_inv_def copy_rows_append good_cache_def)
  qed (use assms(2) in \<open>simp_all add: rec_inv_def\<close>)
qed

section \<open>The steps of the record loop\<close>

text \<open>
  What a record does to the state, as a relation: the cases of \<open>scan_record\<close> when it gives a
  value, with the flags and the transaction number read out.
\<close>

definition wants_key :: "bool \<Rightarrow> bytes \<Rightarrow> bool" where
  "wants_key rebuild_pks raw \<longleftrightarrow> rebuild_pks \<and> \<not> has_flag (flags_of raw) pk_skip"

definition keyed :: "table_cache \<Rightarrow> bool \<Rightarrow> bytes \<Rightarrow> bool option \<Rightarrow> rec_state \<Rightarrow> rec_state \<Rightarrow> bool" where
  "keyed c rebuild_pks raw u st st' \<longleftrightarrow>
     (if wants_key rebuild_pks raw \<and> u = Some False then snapshot_key c (unat (raw ! 12)) st = Val st' else st' = st)"

definition changed ::
    "ods \<Rightarrow> table_cache \<Rightarrow> bool \<Rightarrow> bytes \<Rightarrow> bool option \<Rightarrow> rec_state \<Rightarrow> rec_state \<Rightarrow> bool" where
  "changed db c page_changed raw u st st' \<longleftrightarrow>
     (case u of
        None \<Rightarrow> st' = st
      | Some deleted \<Rightarrow>
          if deleted then scan_delete db c raw st = Val st'
          else if page_changed then scan_upsert c (unat (raw ! 12)) st = Val st'
          else st' = st)"

inductive record_step ::
    "ods \<Rightarrow> table_cache \<Rightarrow> nat \<Rightarrow> bool \<Rightarrow> bool \<Rightarrow> bytes \<Rightarrow> rec_state \<Rightarrow> rec_state \<Rightarrow> bool"
  for db c last_txn page_changed rebuild_pks raw st
where
  step_short: "length raw < 13 \<Longrightarrow> record_step db c last_txn page_changed rebuild_pks raw st st"
| step_quiet: "13 \<le> length raw \<Longrightarrow> \<not> page_changed \<Longrightarrow> \<not> rebuild_pks \<Longrightarrow> \<not> has_flag (flags_of raw) RHD_DELETED \<Longrightarrow>
    record_step db c last_txn page_changed rebuild_pks raw st st"
| step_none: "13 \<le> length raw \<Longrightarrow> record_transaction raw = Val None \<Longrightarrow>
    record_step db c last_txn page_changed rebuild_pks raw st st"
| step_idle: "13 \<le> length raw \<Longrightarrow> record_transaction raw = Val (Some txn) \<Longrightarrow> txn \<le> last_txn \<Longrightarrow>
    \<not> wants_key rebuild_pks raw \<Longrightarrow>
    record_step db c last_txn page_changed rebuild_pks raw st (st\<lparr>rs_checked := rs_checked st + 1\<rparr>)"
| step_old: "13 \<le> length raw \<Longrightarrow> record_transaction raw = Val (Some txn) \<Longrightarrow> txn \<le> last_txn \<Longrightarrow>
    wants_key rebuild_pks raw \<Longrightarrow> unpack_record_cdc raw (rs_buf st) = Val (u, buf) \<Longrightarrow>
    keyed c rebuild_pks raw u (st\<lparr>rs_checked := rs_checked st + 1, rs_buf := buf\<rparr>) st' \<Longrightarrow>
    record_step db c last_txn page_changed rebuild_pks raw st st'"
| step_new: "13 \<le> length raw \<Longrightarrow> record_transaction raw = Val (Some txn) \<Longrightarrow> last_txn < txn \<Longrightarrow>
    page_changed \<or> rebuild_pks \<or> has_flag (flags_of raw) RHD_DELETED \<Longrightarrow>
    unpack_record_cdc raw (rs_buf st) = Val (u, buf) \<Longrightarrow>
    keyed c rebuild_pks raw u (st\<lparr>rs_checked := rs_checked st + 1, rs_buf := buf\<rparr>) st1 \<Longrightarrow>
    changed db c page_changed raw u (st1\<lparr>rs_max_txn := max txn (rs_max_txn st1)\<rparr>) st' \<Longrightarrow>
    record_step db c last_txn page_changed rebuild_pks raw st st'"

inductive_cases record_stepE [consumes 1, case_names short quiet none idle old new]:
  "record_step db c last_txn page_changed rebuild_pks raw st st'"

lemma scan_record_step:
  assumes "scan_record db c last_txn page_changed rebuild_pks raw st = Val st'"
  shows "record_step db c last_txn page_changed rebuild_pks raw st st'"
proof (cases "length raw < 13")
  case True
  then show ?thesis using assms by (simp add: scan_record_def step_short)
next
  case False
  then have len: "13 \<le> length raw" by simp
  then have fl: "rhd_flags raw = Val (flags_of raw)" "byte_at raw 12 = Val (raw ! 12)" by simp_all
  show ?thesis
  proof (cases "(\<not> page_changed \<and> \<not> rebuild_pks) \<and> \<not> has_flag (flags_of raw) RHD_DELETED")
    case True
    then have "st' = st" using assms len fl by (simp add: scan_record_def)
    then show ?thesis using True len by (simp add: step_quiet)
  next
    case False
    then have loud: "page_changed \<or> rebuild_pks \<or> has_flag (flags_of raw) RHD_DELETED"
      "(\<not> page_changed \<and> \<not> rebuild_pks \<and> \<not> has_flag (flags_of raw) RHD_DELETED) = False" by auto
    obtain t where t: "record_transaction raw = Val t" using record_transaction_val by blast
    show ?thesis
    proof (cases t)
      case None
      then have "st' = st" using assms len fl t by (simp add: scan_record_def loud(2))
      then show ?thesis using None len t by (simp add: step_none)
    next
      case (Some txn)
      obtain u buf where u: "unpack_record_cdc raw (rs_buf st) = Val (u, buf)"
        using unpack_record_cdc_returns [of raw "rs_buf st"] by (auto simp: returns_iff)
      let ?st0 = "st\<lparr>rs_checked := rs_checked st + 1, rs_buf := buf\<rparr>"
      have eq: "scan_record db c last_txn page_changed rebuild_pks raw st =
          (if \<not> wants_key rebuild_pks raw \<and> \<not> txn > last_txn then Val (st\<lparr>rs_checked := rs_checked st + 1\<rparr>)
           else
             rbind (if wants_key rebuild_pks raw \<and> u = Some False then snapshot_key c (unat (raw ! 12)) ?st0 else Val ?st0) (\<lambda>st.
             if \<not> txn > last_txn then Val st
             else
               (let st = st\<lparr>rs_max_txn := max txn (rs_max_txn st)\<rparr> in
                case u of
                  None \<Rightarrow> Val st
                | Some deleted \<Rightarrow>
                    if deleted then scan_delete db c raw st
                    else if page_changed then scan_upsert c (unat (raw ! 12)) st
                    else Val st)))"
        using len fl t Some u unfolding scan_record_def wants_key_def by (simp add: Let_def loud(2))
      show ?thesis
      proof (cases "\<not> wants_key rebuild_pks raw \<and> \<not> txn > last_txn")
        case True
        then have st': "st' = st\<lparr>rs_checked := rs_checked st + 1\<rparr>" using assms by (simp add: eq)
        show ?thesis unfolding st' by (rule step_idle [of raw txn]) (use True len t Some in auto)
      next
        case act: False
        then obtain st1 where st1: "keyed c rebuild_pks raw u ?st0 st1"
          "(if \<not> txn > last_txn then Val st1
            else
              (let st = st1\<lparr>rs_max_txn := max txn (rs_max_txn st1)\<rparr> in
               case u of
                 None \<Rightarrow> Val st
               | Some deleted \<Rightarrow>
                   if deleted then scan_delete db c raw st
                   else if page_changed then scan_upsert c (unat (raw ! 12)) st
                   else Val st)) = Val st'"
          using assms unfolding eq if_not_P [OF act] rbind_Val_iff keyed_def by (auto split: if_splits)
        show ?thesis
        proof (cases "txn > last_txn")
          case True
          then have "changed db c page_changed raw u (st1\<lparr>rs_max_txn := max txn (rs_max_txn st1)\<rparr>) st'"
            using st1(2) by (auto simp: changed_def Let_def split: option.splits if_splits)
          then show ?thesis using len t Some loud(1) u st1(1) True by (auto intro: step_new)
        next
          case False
          then have "st' = st1" using st1(2) by simp
          then show ?thesis using len t Some act u st1(1) False by (auto intro: step_old)
        qed
      qed
    qed
  qed
qed

lemma keyed_inv: "good_cache c \<Longrightarrow> rec_inv c st \<Longrightarrow> keyed c rb raw u st st' \<Longrightarrow> rec_inv c st'"
  by (auto simp: keyed_def intro: snapshot_key_inv split: if_splits)

lemma changed_inv: "good_cache c \<Longrightarrow> rec_inv c st \<Longrightarrow> changed db c pc raw u st st' \<Longrightarrow> rec_inv c st'"
  by (auto simp: changed_def intro: scan_delete_inv scan_upsert_inv split: option.splits if_splits)

lemma rec_inv_updates [simp]:
  "rec_inv c (st\<lparr>rs_checked := k\<rparr>) \<longleftrightarrow> rec_inv c st" "rec_inv c (st\<lparr>rs_buf := b\<rparr>) \<longleftrightarrow> rec_inv c st"
  "rec_inv c (st\<lparr>rs_max_txn := m\<rparr>) \<longleftrightarrow> rec_inv c st"
  "rec_inv c (st\<lparr>rs_checked := k, rs_buf := b\<rparr>) \<longleftrightarrow> rec_inv c st"
  by (simp_all add: rec_inv_def)

lemma record_step_inv:
  assumes "good_cache c" and "rec_inv c st" and "record_step db c last_txn pc rb raw st st'"
  shows "rec_inv c st'"
  using assms(3)
proof (cases rule: record_stepE)
  case (new txn u buf st1)
  have "rec_inv c st1" using keyed_inv [OF assms(1) _ new(6)] assms(2) by simp
  then show ?thesis using changed_inv [OF assms(1) _ new(7)] by simp
next
  case (old txn u buf)
  then show ?thesis using keyed_inv [OF assms(1) _ old(6)] assms(2) by simp
qed (use assms(2) in simp_all)

section \<open>Pages\<close>

definition page_inv :: "table_cache \<Rightarrow> page_state \<Rightarrow> bool" where
  "page_inv c ps \<longleftrightarrow> copy_rows (tc_n_fields c) (rs_upserts (ps_rec ps)) (rs_upsert_out (ps_rec ps)) \<and>
     copy_rows (tc_n_pk c) (rs_deletes (ps_rec ps)) (rs_delete_buf (ps_rec ps)) \<and>
     valid_snapshot c (ps_new_pks ps)"

text \<open>Sorting a page keeps its keys, also where the width is too large to be sorted.\<close>

lemma sort_keeps_keys:
  assumes "flat_pk_sort_dedup (concat ks) S = Val f" and "uniform S ks" and "0 < S"
  obtains ds where "f = concat ds" and "uniform S ds" and "set ds = set ks"
proof (cases "S \<le> 64")
  case True
  then have "0 < S \<and> S \<le> 64" using assms(3) by simp
  from flat_keys.build_uniform [OF this assms(2,1)] that show ?thesis by blast
next
  case False
  then have "f = concat ks" using assms(1) by (simp add: flat_pk_sort_dedup_def sort_dedup_generic_def)
  then show ?thesis using that assms(2) by blast
qed

lemma valid_snapshot_put:
  assumes "valid_snapshot c ps" and "key_list c ds" and "0 < tc_pk_byte_len c"
  shows "valid_snapshot c (put_page n (concat ds) ps)"
proof -
  have u: "uniform (tc_pk_byte_len c) ds" using assms(2) by (simp add: key_list_def)
  have "snap_whole (tc_pk_byte_len c) (put_page n (concat ds) ps)"
    using assms(1,3) length_concat_uniform [OF u]
    by (simp add: put_page_def valid_snapshot_def snap_whole_filter)
  then show ?thesis using assms chunks_concat [OF u assms(3)]
    by (auto simp: valid_snapshot_def distinct_put_page set_keys_of set_put_page key_list_def)
qed

lemma valid_snapshot_Nil [simp]: "valid_snapshot c []"
  by (simp add: valid_snapshot_def)

lemma valid_snapshot_advance:
  assumes "valid_snapshot c prev" and "valid_snapshot c new"
  shows "valid_snapshot c (advance_snapshot prev new)"
proof -
  have d: "distinct (map fst new)" using assms(2) by (simp add: valid_snapshot_def)
  show ?thesis using assms
    by (auto simp: valid_snapshot_def distinct_advance set_keys_of set_advance [OF d] snap_whole_def list_all_iff)
qed

text \<open>The pieces of a page that is scanned.\<close>

lemma scan_cdc_page_cases:
  assumes "scan_cdc_page db c last_txn gens first dp_n ps = Val ps'"
  obtains (other) dp where "page db dp_n = Val dp" and "byte_at dp 0 \<noteq> Val PAG_DATA" and "ps' = ps"
  | (data) dp gen cnt pc rb st new_pks where "page db dp_n = Val dp" and "byte_at dp 0 = Val PAG_DATA"
    and "u32_at dp 4 = Val gen" and "u16_at dp 22 = Val cnt" and "pc \<longleftrightarrow> gens dp_n \<noteq> Some gen"
    and "rb \<longleftrightarrow> tc_pk_byte_len c > 0 \<and> (pc \<or> first)"
    and "rfold (\<lambda>s st. rbind (slot_raw db dp s) (\<lambda>r. case r of
             None \<Rightarrow> Val st
           | Some raw \<Rightarrow> scan_record db c last_txn pc rb raw st)) [0..<cnt]
           ((ps_rec ps)\<lparr>rs_page_pks := []\<rparr>) = Val st"
    and "if rb then \<exists>flat. flat_pk_sort_dedup (rs_page_pks st) (tc_pk_byte_len c) = Val flat \<and>
           new_pks = put_page dp_n flat (ps_new_pks ps) else new_pks = ps_new_pks ps"
    and "ps' = \<lparr>ps_rec = st, ps_new_gens = (if pc then (ps_new_gens ps)(dp_n := Some gen) else ps_new_gens ps),
              ps_new_pks = new_pks, ps_total = ps_total ps + 1,
              ps_skipped = (if pc then ps_skipped ps else ps_skipped ps + 1)\<rparr>"
proof -
  obtain dp ty where dp: "page db dp_n = Val dp" "byte_at dp 0 = Val ty"
    using assms by (auto simp: scan_cdc_page_def rbind_Val_iff)
  show thesis
  proof (cases "ty = PAG_DATA")
    case False
    have "byte_at dp 0 \<noteq> Val PAG_DATA" "ps' = ps"
      using assms dp False by (simp_all add: scan_cdc_page_def)
    then show ?thesis using other dp(1) by blast
  next
    case True
    then obtain gen cnt where g: "u32_at dp 4 = Val gen" "u16_at dp 22 = Val cnt"
      using assms dp by (auto simp: scan_cdc_page_def rbind_Val_iff Let_def)
    define pc where "pc = (gens dp_n \<noteq> Some gen)"
    define rb where "rb = (tc_pk_byte_len c > 0 \<and> (pc \<or> first))"
    have "rbind (rfold (\<lambda>s st. rbind (slot_raw db dp s) (\<lambda>r. case r of
             None \<Rightarrow> Val st
           | Some raw \<Rightarrow> scan_record db c last_txn pc rb raw st)) [0..<cnt]
           ((ps_rec ps)\<lparr>rs_page_pks := []\<rparr>)) (\<lambda>st.
        rbind (if rb
              then rbind (flat_pk_sort_dedup (rs_page_pks st) (tc_pk_byte_len c)) (\<lambda>flat.
                Val (put_page dp_n flat (ps_new_pks ps)))
              else Val (ps_new_pks ps)) (\<lambda>new_pks.
         Val \<lparr>ps_rec = st, ps_new_gens = (if pc then (ps_new_gens ps)(dp_n := Some gen) else ps_new_gens ps),
              ps_new_pks = new_pks, ps_total = ps_total ps + 1,
              ps_skipped = (if pc then ps_skipped ps else ps_skipped ps + 1)\<rparr>)) = Val ps'"
      using assms by (simp only: scan_cdc_page_def dp True g Let_def rbind.simps pc_def rb_def simp_thms if_False)
    then obtain st where st: "rfold (\<lambda>s st. rbind (slot_raw db dp s) (\<lambda>r. case r of
             None \<Rightarrow> Val st
           | Some raw \<Rightarrow> scan_record db c last_txn pc rb raw st)) [0..<cnt]
           ((ps_rec ps)\<lparr>rs_page_pks := []\<rparr>) = Val st"
      "rbind (if rb
              then rbind (flat_pk_sort_dedup (rs_page_pks st) (tc_pk_byte_len c)) (\<lambda>flat.
                Val (put_page dp_n flat (ps_new_pks ps)))
              else Val (ps_new_pks ps)) (\<lambda>new_pks.
         Val \<lparr>ps_rec = st, ps_new_gens = (if pc then (ps_new_gens ps)(dp_n := Some gen) else ps_new_gens ps),
              ps_new_pks = new_pks, ps_total = ps_total ps + 1,
              ps_skipped = (if pc then ps_skipped ps else ps_skipped ps + 1)\<rparr>) = Val ps'"
      by (rule rbind_ValE)
    then show ?thesis using data [OF dp(1) _ g pc_def rb_def st(1)] dp(2) True
      by (auto simp: rbind_Val_iff split: if_splits)
  qed
qed

lemma scan_cdc_page_inv:
  assumes "good_cache c" and "page_inv c ps" and "scan_cdc_page db c last_txn gens first dp_n ps = Val ps'"
  shows "page_inv c ps'"
  using assms(3)
proof (cases rule: scan_cdc_page_cases)
  case (data dp gen cnt pc rb st new_pks)
  have start: "rec_inv c ((ps_rec ps)\<lparr>rs_page_pks := []\<rparr>)"
    using assms(2) by (auto simp: rec_inv_def page_inv_def key_list_def intro!: exI [of _ "[]"])
  have "rec_inv c st"
    by (rule rfold_invariant [where P = "rec_inv c", OF data(7) start])
      (auto simp: rbind_Val_iff split: option.splits dest!: scan_record_step intro: record_step_inv [OF assms(1)])
  then obtain ks where st: "copy_rows (tc_n_fields c) (rs_upserts st) (rs_upsert_out st)"
    "copy_rows (tc_n_pk c) (rs_deletes st) (rs_delete_buf st)" "rs_page_pks st = concat ks" "key_list c ks"
    by (auto simp: rec_inv_def)
  have "valid_snapshot c new_pks"
  proof (cases rb)
    case True
    then obtain flat where f: "flat_pk_sort_dedup (concat ks) (tc_pk_byte_len c) = Val flat"
      "new_pks = put_page dp_n flat (ps_new_pks ps)" "0 < tc_pk_byte_len c"
      using data(6,8) st(3) by auto
    obtain ds where "flat = concat ds" "key_list c ds"
      using sort_keeps_keys [OF f(1) _ f(3)] st(4) by (metis key_list_def)
    then show ?thesis using f(2,3) assms(2) by (simp add: valid_snapshot_put page_inv_def)
  qed (use data(8) assms(2) in \<open>simp add: page_inv_def\<close>)
  then show ?thesis using st data(9) by (simp add: page_inv_def)
qed (use assms(2) in simp)

lemma express_keys_subset:
  "express_keys contains pks emitted = Val gone \<Longrightarrow> set gone \<subseteq> set pks \<union> set emitted"
proof (induction pks arbitrary: emitted)
  case (Cons k pks)
  then show ?case by (fastforce simp: rbind_Val_iff split: if_splits)
qed simp

lemma express_deletes_subset:
  assumes "express_deletes S prev new = Val gone"
  shows "set gone \<subseteq> set (keys_of S prev)"
proof -
  have "set gone \<subseteq> (\<Union>p \<in> {p \<in> set prev. fst p \<in> fst ` set new}. set (chunks S (snd p)))"
    using assms by (auto simp: express_deletes_def rbind_Val_iff case_prod_beta dest!: express_keys_subset)
  then show ?thesis unfolding set_keys_of by blast
qed

text \<open>The two halves of a pass.\<close>

lemma scan_changes_cases:
  assumes "scan_changes_into db c last_txn gens = Val so"
  obtains ps gone where "rfold (scan_cdc_page db c last_txn gens (is_first_cycle c)) (tc_data_pages c) (scan_init last_txn) = Val ps"
    and "if tc_pk_byte_len c > 0 \<and> \<not> is_first_cycle c \<and> ps_new_pks ps \<noteq> []
         then express_deletes (tc_pk_byte_len c) (tc_prev_pks c) (ps_new_pks ps) = Val gone else gone = []"
    and "so = \<lparr>so_upsert_out = rs_upsert_out (ps_rec ps) @ pgcopy_trailer,
          so_delete_buf = rs_delete_buf (ps_rec ps) @ concat (map (\<lambda>pk. be_bytes 2 (tc_n_pk c) @ pk) gone) @ pgcopy_trailer,
          so_upserts = rs_upserts (ps_rec ps), so_deletes = rs_deletes (ps_rec ps) + length gone,
          so_max_txn = rs_max_txn (ps_rec ps),
          so_new_gens = ps_new_gens ps, so_new_pks = ps_new_pks ps, so_pages_total = ps_total ps,
          so_pages_skipped = ps_skipped ps, so_records_checked = rs_checked (ps_rec ps),
          so_express_deletes = length gone\<rparr>"
  using assms by (auto simp: scan_changes_into_def rbind_Val_iff Let_def split: if_splits)

text \<open>A pass keeps the snapshot valid and writes well-formed streams.\<close>

lemma scan_streams:
  assumes "good_cache c" and "valid_snapshot c (tc_prev_pks c)" and "scan_changes_into db c last_txn gens = Val so"
  shows "(\<exists>rows. parse_pgcopy (so_upsert_out so) = Some rows \<and> length rows = so_upserts so \<and>
       (\<forall>r \<in> set rows. length r = tc_n_fields c)) \<and>
    (\<exists>rows. parse_pgcopy (so_delete_buf so) = Some rows \<and> length rows = so_deletes so \<and>
       (\<forall>r \<in> set rows. length r = tc_n_pk c)) \<and>
    valid_snapshot c (advance_snapshot (tc_prev_pks c) (so_new_pks so))"
  using assms(3)
proof (cases rule: scan_changes_cases)
  case (1 ps gone)
  have "page_inv c (scan_init last_txn)" by (simp add: page_inv_def scan_init_def copy_rows_header)
  then have inv: "page_inv c ps"
    by (rule rfold_invariant [where P = "page_inv c", OF 1(1)]) (rule scan_cdc_page_inv [OF assms(1)])
  have "set gone \<subseteq> set (keys_of (tc_pk_byte_len c) (tc_prev_pks c))"
    using 1(2) by (auto dest: express_deletes_subset split: if_splits)
  then have gone: "\<forall>k \<in> set gone. is_key (tc_n_pk c) k" using assms(2) by (auto simp: valid_snapshot_def)
  have n: "tc_n_pk c < 2 ^ 15" using assms(1) by (simp add: good_cache_def)
  show ?thesis
    using copy_rows_parse [of "tc_n_fields c"] copy_rows_parse [OF copy_rows_append_list [OF _ gone n]]
      inv assms(2) 1(3) by (simp add: page_inv_def valid_snapshot_advance)
qed

section \<open>A second pass\<close>

text \<open>A deletion that a pass up to transaction \<open>m\<close> leaves alone.\<close>

definition settled :: "nat \<Rightarrow> bytes \<Rightarrow> bool" where
  "settled m raw \<longleftrightarrow> length raw < 13 \<or> \<not> has_flag (flags_of raw) RHD_DELETED \<or>
     (\<exists>t. record_transaction raw = Val t \<and> (\<forall>txn. t = Some txn \<longrightarrow> txn \<le> m))"

lemma settled_mono: "settled m raw \<Longrightarrow> m \<le> k \<Longrightarrow> settled k raw"
  by (force simp: settled_def)

lemma scan_upsert_max: "scan_upsert c fmt st = Val st' \<Longrightarrow> rs_max_txn st' = rs_max_txn st"
  by (auto simp: scan_upsert_def rbind_Val_iff)

lemma snapshot_key_max: "snapshot_key c fmt st = Val st' \<Longrightarrow> rs_max_txn st' = rs_max_txn st"
  by (auto simp: snapshot_key_def rbind_Val_iff split: option.splits)

lemma scan_delete_max: "scan_delete db c raw st = Val st' \<Longrightarrow> rs_max_txn st' = rs_max_txn st"
  using scan_delete_outcomes by fastforce

lemma keyed_max: "keyed c rb raw u st st' \<Longrightarrow> rs_max_txn st' = rs_max_txn st"
  by (auto simp: keyed_def dest: snapshot_key_max split: if_splits)

lemma changed_max: "changed db c pc raw u st st' \<Longrightarrow> rs_max_txn st' = rs_max_txn st"
  by (auto simp: changed_def dest: scan_delete_max scan_upsert_max split: option.splits if_splits)

lemma record_step_settles:
  assumes "record_step db c last_txn pc rb raw st st'" and "last_txn \<le> rs_max_txn st"
  shows "rs_max_txn st \<le> rs_max_txn st' \<and> settled (rs_max_txn st') raw"
  using assms(1)
proof (cases rule: record_stepE)
  case (old txn u buf)
  then show ?thesis using assms(2) keyed_max [OF old(6)] by (auto simp: settled_def)
next
  case (new txn u buf st1)
  then show ?thesis using keyed_max [OF new(6)] changed_max [OF new(7)] by (auto simp: settled_def)
qed (use assms(2) in \<open>auto simp: settled_def\<close>)

lemma settled_record:
  assumes "settled last_txn raw"
  shows "\<exists>k. scan_record db c last_txn False False raw st = Val (st\<lparr>rs_checked := k\<rparr>)"
proof (cases "13 \<le> length raw \<and> has_flag (flags_of raw) RHD_DELETED")
  case True
  then obtain t where "record_transaction raw = Val t" "\<forall>txn. t = Some txn \<longrightarrow> txn \<le> last_txn"
    using assms by (auto simp: settled_def)
  then show ?thesis using True
    by (cases t) (auto simp: scan_record_def intro: exI [of _ "rs_checked st"])
next
  case False
  then have "scan_record db c last_txn False False raw st = Val st"
    by (cases "length raw < 13") (simp_all add: scan_record_def)
  then show ?thesis by (intro exI [of _ "rs_checked st"]) simp
qed

definition page_gen :: "ods \<Rightarrow> nat \<Rightarrow> nat option" where
  "page_gen db n = (case page db n of Val dp \<Rightarrow> (case u32_at dp 4 of Val g \<Rightarrow> Some g | _ \<Rightarrow> None) | _ \<Rightarrow> None)"

text \<open>A page on which a pass up to \<open>m\<close> that has seen the generations \<open>gens\<close> finds nothing.\<close>

definition quiet_page :: "ods \<Rightarrow> nat \<Rightarrow> (nat \<Rightarrow> nat option) \<Rightarrow> nat \<Rightarrow> bool" where
  "quiet_page db m gens n \<longleftrightarrow> (\<exists>dp cnt. page db n = Val dp \<and> byte_at dp 0 = Val PAG_DATA \<and>
     page_gen db n \<noteq> None \<and> gens n = page_gen db n \<and> u16_at dp 22 = Val cnt \<and>
     (\<forall>s < cnt. \<exists>r. slot_raw db dp s = Val r \<and> (\<forall>raw. r = Some raw \<longrightarrow> settled m raw)))"

definition other_page :: "ods \<Rightarrow> nat \<Rightarrow> bool" where
  "other_page db n \<longleftrightarrow> (\<exists>dp ty. page db n = Val dp \<and> byte_at dp 0 = Val ty \<and> ty \<noteq> PAG_DATA)"

definition pass_le :: "ods \<Rightarrow> page_state \<Rightarrow> page_state \<Rightarrow> bool" where
  "pass_le db ps ps' \<longleftrightarrow> rs_max_txn (ps_rec ps) \<le> rs_max_txn (ps_rec ps') \<and>
     (\<forall>n. ps_new_gens ps' n = ps_new_gens ps n \<or> ps_new_gens ps' n = page_gen db n \<and> page_gen db n \<noteq> None) \<and>
     (ps_new_pks ps \<noteq> [] \<longrightarrow> ps_new_pks ps' \<noteq> [])"

lemma pass_le_refl: "pass_le db ps ps"
  by (simp add: pass_le_def)

lemma pass_le_trans: "pass_le db p q \<Longrightarrow> pass_le db q r \<Longrightarrow> pass_le db p r"
  unfolding pass_le_def by (metis le_trans)

definition page_done :: "ods \<Rightarrow> table_cache \<Rightarrow> (nat \<Rightarrow> nat option) \<Rightarrow> nat \<Rightarrow> page_state \<Rightarrow> bool" where
  "page_done db c gens n ps \<longleftrightarrow> other_page db n \<or>
     quiet_page db (rs_max_txn (ps_rec ps)) (gens ++ ps_new_gens ps) n \<and>
     (is_first_cycle c \<longrightarrow> ps_new_pks ps \<noteq> [])"

definition true_gens :: "ods \<Rightarrow> page_state \<Rightarrow> bool" where
  "true_gens db ps \<longleftrightarrow> (\<forall>n g. ps_new_gens ps n = Some g \<longrightarrow> page_gen db n = Some g)"

lemma quiet_page_mono:
  assumes "quiet_page db m gens n" and "m \<le> k" and "gens' n = gens n"
  shows "quiet_page db k gens' n"
  using assms unfolding quiet_page_def by (metis settled_mono)

lemma page_done_mono: "pass_le db ps ps' \<Longrightarrow> page_done db c gens n ps \<Longrightarrow> page_done db c gens n ps'"
proof (cases "other_page db n")
  case False
  assume le: "pass_le db ps ps'" and d: "page_done db c gens n ps"
  then have q: "quiet_page db (rs_max_txn (ps_rec ps)) (gens ++ ps_new_gens ps) n"
    using False by (simp add: page_done_def)
  then have "(gens ++ ps_new_gens ps) n = page_gen db n" "page_gen db n \<noteq> None" by (auto simp: quiet_page_def)
  moreover have "ps_new_gens ps' n = ps_new_gens ps n \<or> ps_new_gens ps' n = page_gen db n"
    using le by (auto simp: pass_le_def)
  ultimately have "(gens ++ ps_new_gens ps') n = (gens ++ ps_new_gens ps) n"
    by (auto simp: map_add_def)
  then show ?thesis using le d quiet_page_mono [OF q] False by (simp add: page_done_def pass_le_def)
qed (simp add: page_done_def)

lemma scan_cdc_page_done:
  assumes "scan_cdc_page db c last_txn gens (is_first_cycle c) n ps = Val ps'"
    and "last_txn \<le> rs_max_txn (ps_rec ps)" and "true_gens db ps"
  shows "pass_le db ps ps' \<and> true_gens db ps' \<and> page_done db c gens n ps'"
  using assms(1)
proof (cases rule: scan_cdc_page_cases)
  case (other dp)
  then have "other_page db n" using assms(1)
    by (auto simp: other_page_def scan_cdc_page_def rbind_Val_iff split: if_splits)
  then show ?thesis using other pass_le_refl assms(3) by (simp add: page_done_def)
next
  case (data dp gen cnt pc rb st new_pks)
  let ?Q = "\<lambda>s t. \<exists>r. slot_raw db dp s = Val r \<and> (\<forall>raw. r = Some raw \<longrightarrow> settled (rs_max_txn t) raw)"
  have "rs_max_txn ((ps_rec ps)\<lparr>rs_page_pks := []\<rparr>) \<le> rs_max_txn st \<and> (\<forall>s \<in> set [0..<cnt]. ?Q s st)"
  proof (rule rfold_visits [OF data(7), where P = "\<lambda>t. last_txn \<le> rs_max_txn t"])
    fix s t t'
    assume P: "last_txn \<le> rs_max_txn t"
      and turn: "rbind (slot_raw db dp s) (\<lambda>r. case r of None \<Rightarrow> Val t
           | Some raw \<Rightarrow> scan_record db c last_txn pc rb raw t) = Val t'"
    then obtain r where r: "slot_raw db dp s = Val r" by (auto simp: rbind_Val_iff)
    show "last_txn \<le> rs_max_txn t' \<and> rs_max_txn t \<le> rs_max_txn t' \<and> ?Q s t'"
    proof (cases r)
      case (Some raw)
      then have "record_step db c last_txn pc rb raw t t'" using turn r scan_record_step by simp
      from record_step_settles [OF this P] show ?thesis using P r Some by auto
    qed (use turn r P in simp)
  qed (use assms(2) settled_mono in \<open>fastforce+\<close>)
  then have st: "rs_max_txn (ps_rec ps) \<le> rs_max_txn st"
    "\<forall>s < cnt. ?Q s st" by auto
  have pg: "page_gen db n = Some gen" using data(1,3) by (simp add: page_gen_def)
  have "ps_new_gens ps n = None \<or> ps_new_gens ps n = Some gen"
    using assms(3) pg by (cases "ps_new_gens ps n") (auto simp: true_gens_def)
  then have g: "(gens ++ ps_new_gens ps') n = Some gen"
    using data(5,9) by (auto simp: map_add_def)
  have "quiet_page db (rs_max_txn st) (gens ++ ps_new_gens ps') n"
    unfolding quiet_page_def using data(1,2,4) pg st(2) g by auto
  moreover have "is_first_cycle c \<longrightarrow> new_pks \<noteq> []"
    using data(6,8) by (auto simp: is_first_cycle_def)
  moreover have "ps_new_pks ps \<noteq> [] \<longrightarrow> new_pks \<noteq> []"
    using data(8) by (auto split: if_splits)
  moreover have "true_gens db ps'" using assms(3) data(9) pg by (auto simp: true_gens_def)
  ultimately show ?thesis using st(1) data(9) pg by (auto simp: page_done_def pass_le_def)
qed

definition nothing_found :: "nat \<Rightarrow> page_state \<Rightarrow> bool" where
  "nothing_found m ps \<longleftrightarrow> rs_upserts (ps_rec ps) = 0 \<and> rs_deletes (ps_rec ps) = 0 \<and> rs_max_txn (ps_rec ps) = m \<and>
     ps_new_gens ps = Map.empty \<and> ps_new_pks ps = [] \<and> ps_total ps = ps_skipped ps"

lemma other_page_scan: "other_page db n \<Longrightarrow> scan_cdc_page db c last_txn gens first n ps = Val ps"
  by (auto simp: other_page_def scan_cdc_page_def)

lemma quiet_page_scan:
  assumes "quiet_page db m gens n" and "nothing_found m ps"
  shows "\<exists>ps'. scan_cdc_page db c m gens False n ps = Val ps' \<and> nothing_found m ps'"
proof -
  obtain dp cnt gen where q: "page db n = Val dp" "byte_at dp 0 = Val PAG_DATA" "u32_at dp 4 = Val gen"
    "gens n = Some gen" "u16_at dp 22 = Val cnt"
    "\<And>s. s < cnt \<Longrightarrow> \<exists>r. slot_raw db dp s = Val r \<and> (\<forall>raw. r = Some raw \<longrightarrow> settled m raw)"
    using assms(1) by (auto simp: quiet_page_def page_gen_def split: run.splits)
  let ?st0 = "(ps_rec ps)\<lparr>rs_page_pks := []\<rparr>"
  have "\<exists>st. rfold (\<lambda>s st. rbind (slot_raw db dp s) (\<lambda>r. case r of
             None \<Rightarrow> Val st
           | Some raw \<Rightarrow> scan_record db c m False False raw st)) [0..<cnt] ?st0 = Val st \<and>
      (\<exists>k. st = ?st0\<lparr>rs_checked := k\<rparr>)"
  proof (rule rfold_runs)
    fix s t assume "s \<in> set [0..<cnt]" and "\<exists>k. t = ?st0\<lparr>rs_checked := k\<rparr>"
    then obtain r j where r: "slot_raw db dp s = Val r" "\<And>raw. r = Some raw \<Longrightarrow> settled m raw"
      and t: "t = ?st0\<lparr>rs_checked := j\<rparr>"
      using q(6) [of s] by auto
    have "\<exists>k. (case r of None \<Rightarrow> Val t | Some raw \<Rightarrow> scan_record db c m False False raw t) =
        Val (?st0\<lparr>rs_checked := k\<rparr>)"
    proof (cases r)
      case None
      then show ?thesis using t by (intro exI [of _ j]) simp
    next
      case (Some raw)
      obtain k where "scan_record db c m False False raw t = Val (t\<lparr>rs_checked := k\<rparr>)"
        using settled_record [OF r(2) [OF Some]] by blast
      then show ?thesis using t Some by (intro exI [of _ k]) simp
    qed
    then show "\<exists>t'. rbind (slot_raw db dp s) (\<lambda>r. case r of
             None \<Rightarrow> Val t
           | Some raw \<Rightarrow> scan_record db c m False False raw t) = Val t' \<and> (\<exists>k. t' = ?st0\<lparr>rs_checked := k\<rparr>)"
      unfolding r(1) rbind.simps by blast
  qed (rule exI [of _ "rs_checked ?st0"], simp)
  then obtain k where loop: "rfold (\<lambda>s st. rbind (slot_raw db dp s) (\<lambda>r. case r of
             None \<Rightarrow> Val st
           | Some raw \<Rightarrow> scan_record db c m False False raw st)) [0..<cnt] ?st0 = Val (?st0\<lparr>rs_checked := k\<rparr>)"
    by blast
  have "scan_cdc_page db c m gens False n ps =
      Val (ps\<lparr>ps_rec := ?st0\<lparr>rs_checked := k\<rparr>, ps_total := ps_total ps + 1, ps_skipped := ps_skipped ps + 1\<rparr>)"
    unfolding scan_cdc_page_def q(1) rbind.simps q(2,3,5) Let_def q(4) by (simp add: loop)
  then show ?thesis using assms(2) by (simp add: nothing_found_def)
qed

text \<open>
  A pass after another with a cache for the same pages: what the first has seen is quiet.
\<close>

lemma rescan_quiet:
  assumes "scan_changes_into db c last_txn gens = Val so" and "tc_data_pages c' = tc_data_pages c"
    and "\<forall>n \<in> set (tc_data_pages c). gens' n = (gens ++ so_new_gens so) n"
    and "is_first_cycle c' \<Longrightarrow> is_first_cycle c \<and> so_new_pks so = [] \<or> tc_data_pages c = []"
  shows "\<exists>so'. scan_changes_into db c' (so_max_txn so) gens' = Val so' \<and>
    so_upserts so' = 0 \<and> so_deletes so' = 0 \<and> so_max_txn so' = so_max_txn so \<and>
    so_new_pks so' = [] \<and> so_new_gens so' = Map.empty \<and> so_pages_skipped so' = so_pages_total so'"
  using assms(1)
proof (cases rule: scan_changes_cases)
  case (1 ps gone)
  let ?m = "rs_max_txn (ps_rec ps)" and ?gens = "gens ++ ps_new_gens ps"
  have "pass_le db (scan_init last_txn) ps \<and> (\<forall>n \<in> set (tc_data_pages c). page_done db c gens n ps)"
  proof (rule rfold_visits [OF 1(1), where P = "\<lambda>p. last_txn \<le> rs_max_txn (ps_rec p) \<and> true_gens db p"])
    fix n t t'
    assume P: "last_txn \<le> rs_max_txn (ps_rec t) \<and> true_gens db t"
      and "scan_cdc_page db c last_txn gens (is_first_cycle c) n t = Val t'"
    from scan_cdc_page_done [OF this(2)] P
    show "(last_txn \<le> rs_max_txn (ps_rec t') \<and> true_gens db t') \<and> pass_le db t t' \<and> page_done db c gens n t'"
      by (auto simp: pass_le_def)
  qed (simp_all add: scan_init_def true_gens_def page_done_mono pass_le_refl pass_le_trans)
  then have finished: "\<And>n. n \<in> set (tc_data_pages c) \<Longrightarrow> page_done db c gens n ps" by blast
  have "\<exists>ps'. rfold (scan_cdc_page db c' ?m gens' (is_first_cycle c')) (tc_data_pages c) (scan_init ?m) = Val ps' \<and>
      nothing_found ?m ps'"
  proof (rule rfold_runs)
    show "nothing_found ?m (scan_init ?m)" by (simp add: nothing_found_def scan_init_def)
    fix n p assume n: "n \<in> set (tc_data_pages c)" and p: "nothing_found ?m p"
    show "\<exists>p'. scan_cdc_page db c' ?m gens' (is_first_cycle c') n p = Val p' \<and> nothing_found ?m p'"
    proof (cases "other_page db n")
      case True
      then show ?thesis using p other_page_scan by blast
    next
      case False
      then have q: "quiet_page db ?m ?gens n" and "\<not> is_first_cycle c'"
        using finished [OF n] assms(4) n 1(3) by (auto simp: page_done_def)
      moreover have "gens' n = ?gens n" using assms(3) n 1(3) by simp
      ultimately show ?thesis using quiet_page_scan [OF quiet_page_mono [OF q order_refl] p, of gens' c'] by simp
    qed
  qed
  then obtain ps' where "rfold (scan_cdc_page db c' ?m gens' (is_first_cycle c')) (tc_data_pages c) (scan_init ?m) = Val ps'"
    "nothing_found ?m ps'" by blast
  then show ?thesis using 1(3) assms(2) by (simp add: scan_changes_into_def nothing_found_def Let_def)
qed

section \<open>Which rows are sent\<close>

text \<open>
  The rows of a pass without its loop: the records above the watermark, on pages whose generation
  has changed, that unpack and are not deletion stubs; each with its format.
\<close>

definition row_of :: "nat \<Rightarrow> bytes \<Rightarrow> (nat \<times> bytes) list" where
  "row_of last_txn raw =
     (if length raw < 13 \<or> has_flag (flags_of raw) RHD_FRAGMENT \<or> has_flag (flags_of raw) RHD_INCOMPLETE \<or>
         has_flag (flags_of raw) RHD_BLOB \<or> has_flag (flags_of raw) RHD_DELETED
      then []
      else case record_transaction raw of
          Val (Some txn) \<Rightarrow>
            if last_txn < txn
            then (case payload (data_start (flags_of raw)) raw of Some rec \<Rightarrow> [(unat (raw ! 12), rec)] | None \<Rightarrow> [])
            else []
        | _ \<Rightarrow> [])"

definition page_rows :: "ods \<Rightarrow> nat \<Rightarrow> nat \<Rightarrow> (nat \<times> bytes) list" where
  "page_rows db last_txn n =
     (case page db n of
        Val dp \<Rightarrow>
          if byte_at dp 0 = Val PAG_DATA
          then (case u16_at dp 22 of
              Val cnt \<Rightarrow> concat (map (\<lambda>s. case slot_raw db dp s of Val (Some raw) \<Rightarrow> row_of last_txn raw | _ \<Rightarrow> []) [0..<cnt])
            | _ \<Rightarrow> [])
          else []
      | _ \<Rightarrow> [])"

definition new_rows :: "ods \<Rightarrow> nat \<Rightarrow> (nat \<Rightarrow> nat option) \<Rightarrow> nat list \<Rightarrow> (nat \<times> bytes) list" where
  "new_rows db last_txn gens dps =
     concat (map (\<lambda>n. if gens n = page_gen db n then [] else page_rows db last_txn n) dps)"

definition rows_sent :: "table_cache \<Rightarrow> (nat \<times> bytes) list \<Rightarrow> bytes \<Rightarrow> nat \<Rightarrow> bool" where
  "rows_sent c rows out k \<longleftrightarrow> (\<exists>bs. list_all2 (\<lambda>(fmt, rec) b. upsert_fields rec (slots_for c fmt) = Val b) rows bs \<and>
     out = pgcopy_header @ concat (map (\<lambda>b. be_bytes 2 (tc_n_fields c) @ b) bs) \<and> k = length bs)"

lemma rows_sent_append:
  assumes "rows_sent c rows out k" and "upsert_fields rec (slots_for c fmt) = Val b"
  shows "rows_sent c (rows @ [(fmt, rec)]) (out @ be_bytes 2 (tc_n_fields c) @ b) (Suc k)"
proof -
  obtain bs where "list_all2 (\<lambda>(fmt, rec) b. upsert_fields rec (slots_for c fmt) = Val b) rows bs"
    "out = pgcopy_header @ concat (map (\<lambda>b. be_bytes 2 (tc_n_fields c) @ b) bs)" "k = length bs"
    using assms(1) by (auto simp: rows_sent_def)
  then show ?thesis unfolding rows_sent_def
    by (intro exI [of _ "bs @ [b]"]) (simp add: list_all2_appendI assms(2))
qed

lemma keyed_frame:
  "keyed c rb raw u st st' \<Longrightarrow>
   rs_upsert_out st' = rs_upsert_out st \<and> rs_upserts st' = rs_upserts st \<and> rs_buf st' = rs_buf st"
  by (auto simp: keyed_def snapshot_key_def rbind_Val_iff split: if_splits option.splits)

lemma scan_delete_frame:
  "scan_delete db c raw st = Val st' \<Longrightarrow> rs_upsert_out st' = rs_upsert_out st \<and> rs_upserts st' = rs_upserts st"
  using scan_delete_outcomes by fastforce

lemma record_step_rows:
  assumes "record_step db c last_txn pc rb raw st st'" and "rows_sent c rows (rs_upsert_out st) (rs_upserts st)"
  shows "rows_sent c (rows @ (if pc then row_of last_txn raw else [])) (rs_upsert_out st') (rs_upserts st')"
  using assms(1)
proof (cases rule: record_stepE)
  case (old txn u buf)
  then show ?thesis using assms(2) keyed_frame [OF old(6)] by (simp add: row_of_def)
next
  case (new txn u buf st1)
  note frame = keyed_frame [OF new(6), simplified]
  have flags: "\<not> has_flag (flags_of raw) RHD_FRAGMENT" "\<not> has_flag (flags_of raw) RHD_INCOMPLETE"
    "\<not> has_flag (flags_of raw) RHD_BLOB"
    using new(1,2) record_transaction_val [of raw] by (auto split: if_splits)
  show ?thesis
  proof (cases u)
    case None
    then have "payload (data_start (flags_of raw)) raw = None"
      using new(1,5) flags unpack_record_cdc_val [of raw "rs_buf st"] by (auto split: option.splits)
    then have "row_of last_txn raw = []" using new(1,2) by (simp add: row_of_def)
    moreover have "st' = st1\<lparr>rs_max_txn := max txn (rs_max_txn st1)\<rparr>"
      using new(7) None by (simp add: changed_def)
    ultimately show ?thesis using frame assms(2) by simp
  next
    case (Some deleted)
    then have d: "deleted = has_flag (flags_of raw) RHD_DELETED" "payload (data_start (flags_of raw)) raw = Some buf"
      using new(5) by (simp_all add: unpack_record_cdc_Some)
    show ?thesis
    proof (cases "deleted \<or> \<not> pc")
      case True
      then have "(if pc then row_of last_txn raw else []) = []" using d(1) by (auto simp: row_of_def)
      moreover have "rs_upsert_out st' = rs_upsert_out st1 \<and> rs_upserts st' = rs_upserts st1"
        using new(7) Some True by (auto simp: changed_def dest: scan_delete_frame split: if_splits)
      ultimately show ?thesis using frame assms(2) by simp
    next
      case False
      then have "row_of last_txn raw = [(unat (raw ! 12), buf)]"
        using d new(1-3) flags by (simp add: row_of_def)
      moreover have "scan_upsert c (unat (raw ! 12)) (st1\<lparr>rs_max_txn := max txn (rs_max_txn st1)\<rparr>) = Val st'"
        using new(7) Some False by (simp add: changed_def)
      then obtain b where "upsert_fields buf (slots_for c (unat (raw ! 12))) = Val b"
        "rs_upsert_out st' = rs_upsert_out st1 @ be_bytes 2 (tc_n_fields c) @ b" "rs_upserts st' = Suc (rs_upserts st1)"
        using frame by (auto simp: scan_upsert_def rbind_Val_iff)
      ultimately show ?thesis using False frame rows_sent_append assms(2) by simp
    qed
  qed
next
  case (none)
  then show ?thesis using assms(2) by (simp add: row_of_def)
next
  case (idle txn)
  then show ?thesis using assms(2) by (simp add: row_of_def)
qed (use assms(2) in \<open>simp_all add: row_of_def\<close>)

lemma scan_cdc_page_rows:
  assumes "scan_cdc_page db c last_txn gens first n ps = Val ps'"
    and "rows_sent c rows (rs_upsert_out (ps_rec ps)) (rs_upserts (ps_rec ps))"
  shows "rows_sent c (rows @ (if gens n = page_gen db n then [] else page_rows db last_txn n))
    (rs_upsert_out (ps_rec ps')) (rs_upserts (ps_rec ps'))"
  using assms(1)
proof (cases rule: scan_cdc_page_cases)
  case (other dp)
  then show ?thesis using assms(2) by (simp add: page_rows_def)
next
  case (data dp gen cnt pc rb st new_pks)
  let ?g = "\<lambda>s. if pc then (case slot_raw db dp s of Val (Some raw) \<Rightarrow> row_of last_txn raw | _ \<Rightarrow> []) else []"
  have "rows_sent c (rows @ concat (map ?g [0..<cnt])) (rs_upsert_out st) (rs_upserts st)"
  proof (rule rfold_collects [OF data(7), where R = "\<lambda>acc t. rows_sent c (rows @ acc) (rs_upsert_out t) (rs_upserts t)"])
    fix s t t' acc
    assume acc: "rows_sent c (rows @ acc) (rs_upsert_out t) (rs_upserts t)"
      and turn: "rbind (slot_raw db dp s) (\<lambda>r. case r of None \<Rightarrow> Val t
           | Some raw \<Rightarrow> scan_record db c last_txn pc rb raw t) = Val t'"
    then obtain r where r: "slot_raw db dp s = Val r" by (auto simp: rbind_Val_iff)
    show "rows_sent c (rows @ acc @ ?g s) (rs_upsert_out t') (rs_upserts t')"
    proof (cases r)
      case None
      then show ?thesis using turn r acc by simp
    next
      case (Some raw)
      then have "record_step db c last_txn pc rb raw t t'" using turn r scan_record_step by simp
      from record_step_rows [OF this acc] show ?thesis using r Some by (cases pc) simp_all
    qed
  qed (use assms(2) in simp)
  moreover have "concat (map ?g [0..<cnt]) = (if gens n = page_gen db n then [] else page_rows db last_txn n)"
    using data(1-5) by (auto simp: page_rows_def page_gen_def)
  ultimately show ?thesis using data(9) by simp
qed

lemma scan_sends:
  assumes "scan_changes_into db c last_txn gens = Val so"
  shows "\<exists>bs. list_all2 (\<lambda>(fmt, rec) b. upsert_fields rec (slots_for c fmt) = Val b)
        (new_rows db last_txn gens (tc_data_pages c)) bs \<and>
    so_upsert_out so = pgcopy_header @ concat (map (\<lambda>b. be_bytes 2 (tc_n_fields c) @ b) bs) @ pgcopy_trailer \<and>
    so_upserts so = length bs"
  using assms
proof (cases rule: scan_changes_cases)
  case (1 ps gone)
  have "rows_sent c (new_rows db last_txn gens (tc_data_pages c)) (rs_upsert_out (ps_rec ps)) (rs_upserts (ps_rec ps))"
    unfolding new_rows_def
  proof (rule rfold_collects [OF 1(1), where R = "\<lambda>acc p. rows_sent c acc (rs_upsert_out (ps_rec p)) (rs_upserts (ps_rec p))"])
    show "rows_sent c [] (rs_upsert_out (ps_rec (scan_init last_txn))) (rs_upserts (ps_rec (scan_init last_txn)))"
      by (simp add: rows_sent_def scan_init_def)
  qed (rule scan_cdc_page_rows)
  then show ?thesis using 1(3) by (auto simp: rows_sent_def)
qed

section \<open>A sample table\<close>

text \<open>
  One data page with one record of transaction 7 and flag \<open>f\<close> (and \<open>RHD_NOT_PACKED\<close>), whose
  only column is a \<open>BOOLEAN\<close> that is the key as well.
\<close>

definition cdc_raw :: "byte \<Rightarrow> bytes" where
  "cdc_raw f = [7, 0, 0, 0, 0, 0, 0, 0, 0, 0, f, 8, 0, 0, 1]"

definition cdc_page :: "byte \<Rightarrow> bytes" where
  "cdc_page f = [5, 0, 0, 0, 3, 0, 0, 0] @ replicate 14 0 @ [1, 0, 28, 0, 15, 0] @ cdc_raw f"

definition cdc_db :: "byte \<Rightarrow> ods" where
  "cdc_db f = \<lparr>mmap = cdc_page f, page_size = 43, ods_ver = 13\<rparr>"

definition cdc_slot :: slot_info where
  "cdc_slot = \<lparr>slot_desc = default_zero\<lparr>dtype := DTYPE_BOOLEAN, dlength := 1, offset := 1\<rparr>, null_byte = 0, null_mask = 1\<rparr>"

definition cdc_cache :: "(nat \<times> bytes) list \<Rightarrow> table_cache" where
  "cdc_cache prev = \<lparr>tc_relation_id = 9, tc_slots = [cdc_slot], tc_fmt_slots = [], tc_col_names = [[99]],
     tc_pk_col_names = [[99]], tc_n_fields = 1, tc_n_pk = 1, tc_pk_indices = [Some 0], tc_first_pp = Some 0,
     tc_pp_gen = 3, tc_data_pages = [0], tc_prev_pks = prev, tc_pk_tracked = True, tc_pk_byte_len = 5\<rparr>"

lemma length_cdc [simp]: "length (cdc_raw f) = 15" "length (cdc_page f) = 43"
  by (simp_all add: cdc_raw_def cdc_page_def)

lemma cdc_db_page:
  "page (cdc_db f) 0 = Val (cdc_page f)" "byte_at (cdc_page f) 0 = Val PAG_DATA" "u32_at (cdc_page f) 4 = Val 3"
  "u16_at (cdc_page f) 22 = Val 1" "slot_raw (cdc_db f) (cdc_page f) 0 = Val (Some (cdc_raw f))"
  by (simp_all add: page_def cdc_db_def slice_def cdc_page_def PAG_DATA_def 
      slot_raw_def slot_bounds_def cdc_raw_def)

lemma cdc_raw_flags: "flags_of (cdc_raw f) = unat f + 2048"
  by (simp add: flags_of_def cdc_raw_def)

lemma cdc_raw_live:
  assumes "f = 0 \<or> f = 2"
  shows "record_transaction (cdc_raw f) = Val (Some 7)" "payload (data_start (flags_of (cdc_raw f))) (cdc_raw f) = Some [0, 1]"
    "unpack_record_cdc (cdc_raw f) buf = Val (Some False, [0, 1])"
proof -
  have flags: "\<not> has_flag (unat f + 2048) RHD_FRAGMENT" "\<not> has_flag (unat f + 2048) RHD_INCOMPLETE"
    "\<not> has_flag (unat f + 2048) RHD_BLOB" "\<not> has_flag (unat f + 2048) RHD_LONG_TRANUM"
    "\<not> has_flag (unat f + 2048) RHD_DELETED" "has_flag (unat f + 2048) RHD_NOT_PACKED"
    using assms by (auto simp: has_flag_def rhd_defs)
  show "record_transaction (cdc_raw f) = Val (Some 7)"
    using flags by (simp add: record_transaction_val cdc_raw_flags) (simp add: cdc_raw_def)
  show p: "payload (data_start (flags_of (cdc_raw f))) (cdc_raw f) = Some [0, 1]"
    using flags by (simp add: payload_def data_start_def cdc_raw_flags) (simp add: cdc_raw_def)
  show "unpack_record_cdc (cdc_raw f) buf = Val (Some False, [0, 1])"
    using flags p by (simp add: unpack_record_cdc_Some cdc_raw_flags)
qed

lemma cdc_slots: "slots_for (cdc_cache prev) fmt = [cdc_slot]"
  by (simp add: slots_for_def cdc_cache_def)

lemma cdc_field: "slot_field [0, 1] cdc_slot = Val (len_field [1])"
  by (simp add: slot_field_def cdc_slot_def null_bits_def has_flag_def write_field_binary_def dtype_defs byte_at_def
      default_zero_def)

lemma cdc_good: "good_cache (cdc_cache prev)"
  by (auto simp: good_cache_def cdc_slots) (simp_all add: cdc_cache_def cdc_slot_def)

lemma cdc_scan: "\<exists>so. scan_changes_into (cdc_db 0) (cdc_cache []) 0 Map.empty = Val so \<and> so_upserts so = 1 \<and>
    so_new_pks so = [(0, len_field [1])] \<and> so_deletes so = 0 \<and> so_max_txn so = 7 \<and>
    length (so_upsert_out so) = 28 \<and> length (so_delete_buf so) = 21"
proof -
  have skip: "\<not> has_flag (flags_of (cdc_raw 0)) pk_skip"
    by (simp add: cdc_raw_flags pk_skip_def has_flag_def rhd_defs)
  have key: "encode_pk_pgcopy [0, 1] (cdc_cache []) fmt = Val (len_field [1])" for fmt
    by (simp add: encode_pk_pgcopy_def cdc_slots cdc_field) (simp add: cdc_cache_def cdc_field)
  have sort: "flat_pk_sort_dedup (len_field [1]) 5 = Val (len_field [1])"
    using flat_pk_sort_dedup_concat [of 5 "[len_field [1]]"] by (simp add: len_field_def)
  let ?c = "cdc_cache []"
  have len: "length (len_field [1]) = 5" by (simp add: len_field_def)
  have c: "tc_pk_byte_len ?c = 5" "tc_data_pages ?c = [0]" "is_first_cycle ?c = True"
    by (simp_all add: cdc_cache_def is_first_cycle_def)
  obtain st where st: "scan_record (cdc_db 0) ?c 0 True True (cdc_raw 0)
      ((ps_rec (scan_init 0))\<lparr>rs_page_pks := []\<rparr>) = Val st" "rs_page_pks st = len_field [1]" "rs_upserts st = 1"
    "rs_deletes st = 0" "rs_max_txn st = 7"
    "length (rs_upsert_out st) = 26" "length (rs_delete_buf st) = 19"
    using cdc_raw_live [of 0] skip
    by (simp add: scan_record_def snapshot_key_def key scan_upsert_def cdc_slots cdc_field scan_init_def Let_def len c pgcopy_header_def)
  have "scan_cdc_page (cdc_db 0) ?c 0 Map.empty True 0 (scan_init 0) =
      Val \<lparr>ps_rec = st, ps_new_gens = [0 \<mapsto> 3], ps_new_pks = [(0, len_field [1])], ps_total = 1, ps_skipped = 0\<rparr>"
    unfolding scan_cdc_page_def cdc_db_page rbind.simps Let_def
    using st sort by (simp add: c cdc_db_page scan_init_def put_page_def)
  then show ?thesis using st(3-7) by (simp add: scan_changes_into_def c pgcopy_trailer_bytes)
qed

lemma split_rows_scan:
  assumes "tc_data_pages c = [n]" and "page db n = Val dp" and "byte_at dp 0 = Val PAG_DATA"
    and "u32_at dp 4 = Val gen" and "gens n \<noteq> Some gen" and "u16_at dp 22 = Val cnt"
    and "\<forall>s < cnt. \<exists>raw. slot_raw db dp s = Val (Some raw) \<and> has_flag (flags_of raw) RHD_INCOMPLETE"
    and "tc_pk_byte_len c = S" and "0 < S" and "S \<le> 64"
    and "tc_prev_pks c = [(n, concat ks)]" and "uniform S ks" and "ks \<noteq> []"
  shows "\<exists>so gone. scan_changes_into db c last_txn gens = Val so \<and> so_upserts so = 0 \<and>
    distinct gone \<and> set gone = set ks \<and>
    so_delete_buf so = pgcopy_header @ concat (map (\<lambda>pk. be_bytes 2 (tc_n_pk c) @ pk) gone) @ pgcopy_trailer"
proof -
  have skip: "scan_record db c last_txn True rb raw st = Val st" if "has_flag (flags_of raw) RHD_INCOMPLETE" for raw st rb
    using that record_transaction_val [of raw] by (cases "length raw < 13") (auto simp: scan_record_def)
  have first: "is_first_cycle c = False" using assms(11) by (simp add: is_first_cycle_def)
  have changed: "gens n = Some gen \<longleftrightarrow> False" using assms(5) by simp
  have loop: "rfold (\<lambda>s st. rbind (slot_raw db dp s) (\<lambda>r. case r of
             None \<Rightarrow> Val st
           | Some raw \<Rightarrow> scan_record db c last_txn True True raw st)) [0..<cnt] st = Val st" for st
  proof -
    have "\<exists>st'. rfold (\<lambda>s st. rbind (slot_raw db dp s) (\<lambda>r. case r of
             None \<Rightarrow> Val st
           | Some raw \<Rightarrow> scan_record db c last_txn True True raw st)) [0..<cnt] st = Val st' \<and> st' = st"
      using assms(7) skip by (intro rfold_runs) fastforce+
    then show ?thesis by simp
  qed
  have sort: "flat_pk_sort_dedup [] S = Val []"
    using flat_pk_sort_dedup_concat [of S "[]"] assms(9,10) by simp
  have scan: "scan_cdc_page db c last_txn gens False n (scan_init last_txn) =
      Val \<lparr>ps_rec = ps_rec (scan_init last_txn), ps_new_gens = [n \<mapsto> gen], ps_new_pks = [(n, [])],
           ps_total = 1, ps_skipped = 0\<rparr>"
    unfolding scan_cdc_page_def assms(2) rbind.simps assms(3,4,6) Let_def
    using assms(8,9) by (simp add: changed loop scan_init_def sort put_page_def)
  have whole: "snap_whole S [(n, concat ks)]" "snap_whole S [(n, [])]"
    using assms(12) by (simp_all add: length_concat_uniform)
  obtain gone where gone: "express_deletes S [(n, concat ks)] [(n, [])] = Val gone" "distinct gone"
    "set gone = set (keys_of S [(n, concat ks)]) - set (keys_of S (advance_snapshot [(n, concat ks)] [(n, [])]))"
    using express_deletes_keys [OF assms(9,10) whole] by auto
  have "set gone = set ks"
    using gone(3) chunks_concat [OF assms(12,9)] chunks_concat [of S "[]"] assms(9) by (simp add: put_page_def)
  moreover have "\<exists>so. scan_changes_into db c last_txn gens = Val so \<and> so_upserts so = 0 \<and>
      so_delete_buf so = pgcopy_header @ concat (map (\<lambda>pk. be_bytes 2 (tc_n_pk c) @ pk) gone) @ pgcopy_trailer"
    using assms(1,8,9,11) first scan gone(1) by (simp add: scan_changes_into_def Let_def scan_init_def)
  ultimately show ?thesis using gone(2) by blast
qed

lemma cdc_split_scan:
  "\<exists>so gone. scan_changes_into (cdc_db 8) (cdc_cache [(0, concat [len_field [1]])]) 3 Map.empty = Val so \<and>
    so_upserts so = 0 \<and> distinct gone \<and> set gone = set [len_field [1]] \<and>
    so_delete_buf so = pgcopy_header @
      concat (map (\<lambda>pk. be_bytes 2 (tc_n_pk (cdc_cache [(0, concat [len_field [1]])])) @ pk) gone) @ pgcopy_trailer"
proof (rule split_rows_scan [OF _ cdc_db_page(1-3) _ cdc_db_page(4)])
  have "has_flag (flags_of (cdc_raw 8)) RHD_INCOMPLETE" by (simp add: cdc_raw_flags has_flag_def rhd_defs)
  then show "\<forall>s < 1. \<exists>raw. slot_raw (cdc_db 8) (cdc_page 8) s = Val (Some raw) \<and> has_flag (flags_of raw) RHD_INCOMPLETE"
    using cdc_db_page(5) by simp
qed (simp_all add: cdc_cache_def len_field_def)

section \<open>Properties\<close>

text \<open>
  The keys reported as vanished are exactly those of the old snapshot that the new one lacks,
  each once, for key widths up to 64; and the new snapshot is the old one with the scanned pages
  replaced.
\<close>

theorem express_deletes_correct:
  assumes "0 < S" and "S \<le> 64" and "snap_whole S prev" and "snap_whole S new" and "distinct (map fst new)"
  shows "\<exists>gone. express_deletes S prev new = Val gone \<and> distinct gone \<and>
    set gone = set (keys_of S prev) - set (keys_of S (advance_snapshot prev new))"
  by (rule express_deletes_keys [OF assms])

theorem express_deletes_correct_witness:
  "\<exists>gone. express_deletes 1 [(4, [7, 8])] [(4, [7])] = Val gone \<and> distinct gone \<and>
    set gone = set (keys_of 1 [(4, [7, 8])]) - set (keys_of 1 (advance_snapshot [(4, [7, 8])] [(4, [7])]))"
  by (rule express_deletes_correct) simp_all

text \<open>
  A pass keeps the snapshot valid and writes well-formed streams.
\<close>

theorem scan_streams_well_formed:
  assumes "good_cache c" and "valid_snapshot c (tc_prev_pks c)" and "scan_changes_into db c last_txn gens = Val so"
  shows "(\<exists>rows. parse_pgcopy (so_upsert_out so) = Some rows \<and> length rows = so_upserts so \<and>
       (\<forall>r \<in> set rows. length r = tc_n_fields c)) \<and>
    (\<exists>rows. parse_pgcopy (so_delete_buf so) = Some rows \<and> length rows = so_deletes so \<and>
       (\<forall>r \<in> set rows. length r = tc_n_pk c)) \<and>
    valid_snapshot c (advance_snapshot (tc_prev_pks c) (so_new_pks so))"
  by (rule scan_streams [OF assms])

theorem scan_streams_well_formed_witness:
  "\<exists>so. scan_changes_into (cdc_db 0) (cdc_cache []) 0 Map.empty = Val so \<and>
    ((\<exists>rows. parse_pgcopy (so_upsert_out so) = Some rows \<and> length rows = so_upserts so \<and>
       (\<forall>r \<in> set rows. length r = tc_n_fields (cdc_cache []))) \<and>
    (\<exists>rows. parse_pgcopy (so_delete_buf so) = Some rows \<and> length rows = so_deletes so \<and>
       (\<forall>r \<in> set rows. length r = tc_n_pk (cdc_cache []))) \<and>
    valid_snapshot (cdc_cache []) (advance_snapshot (tc_prev_pks (cdc_cache [])) (so_new_pks so)))"
proof -
  obtain so where so: "scan_changes_into (cdc_db 0) (cdc_cache []) 0 Map.empty = Val so" using cdc_scan by blast
  have "valid_snapshot (cdc_cache []) (tc_prev_pks (cdc_cache []))" by (simp add: cdc_cache_def)
  from scan_streams_well_formed [OF cdc_good this so] show ?thesis using so by blast
qed

text \<open>
  A second pass over the same file reports nothing: with the watermark, the page
  generations and the snapshot that the first pass leaves, every page is skipped and no row and no
  key is written. A change is therefore reported once.
\<close>

theorem rescan_is_quiet:
  assumes "scan_changes_into db c last_txn gens = Val so"
  shows "\<exists>so'. scan_changes_into db (c\<lparr>tc_prev_pks := advance_snapshot (tc_prev_pks c) (so_new_pks so)\<rparr>)
      (so_max_txn so) (gens ++ so_new_gens so) = Val so' \<and>
    so_upserts so' = 0 \<and> so_deletes so' = 0 \<and> so_max_txn so' = so_max_txn so \<and>
    so_new_pks so' = [] \<and> so_new_gens so' = Map.empty \<and> so_pages_skipped so' = so_pages_total so'"
  by (rule rescan_quiet [OF assms]) (auto simp: is_first_cycle_def)

theorem rescan_is_quiet_witness:
  "\<exists>so so'. scan_changes_into (cdc_db 0) (cdc_cache []) 0 Map.empty = Val so \<and> so_upserts so = 1 \<and>
    scan_changes_into (cdc_db 0) (cdc_cache [] \<lparr>tc_prev_pks := advance_snapshot (tc_prev_pks (cdc_cache [])) (so_new_pks so)\<rparr>)
      (so_max_txn so) (Map.empty ++ so_new_gens so) = Val so' \<and> so_upserts so' = 0"
proof -
  obtain so where so: "scan_changes_into (cdc_db 0) (cdc_cache []) 0 Map.empty = Val so" "so_upserts so = 1"
    using cdc_scan by blast
  from rescan_is_quiet [OF so(1)] so show ?thesis by blast
qed

text \<open>
  C5. A pass sends exactly the rows above the watermark on the pages whose generation has
  changed, in their order on disk: every record there that is complete, unpacks and is no deletion
  stub is encoded with the slots of its own format, and nothing else is written.
\<close>

theorem scan_upserts_exact:
  assumes "scan_changes_into db c last_txn gens = Val so"
  shows "\<exists>bs. list_all2 (\<lambda>(fmt, rec) b. upsert_fields rec (slots_for c fmt) = Val b)
        (new_rows db last_txn gens (tc_data_pages c)) bs \<and>
    so_upsert_out so = pgcopy_header @ concat (map (\<lambda>b. be_bytes 2 (tc_n_fields c) @ b) bs) @ pgcopy_trailer \<and>
    so_upserts so = length bs"
  by (rule scan_sends [OF assms])

theorem scan_upserts_exact_witness:
  "\<exists>so bs. scan_changes_into (cdc_db 0) (cdc_cache []) 0 Map.empty = Val so \<and>
    list_all2 (\<lambda>(fmt, rec) b. upsert_fields rec (slots_for (cdc_cache []) fmt) = Val b)
        (new_rows (cdc_db 0) 0 Map.empty (tc_data_pages (cdc_cache []))) bs \<and> length bs = 1"
proof -
  obtain so where so: "scan_changes_into (cdc_db 0) (cdc_cache []) 0 Map.empty = Val so" "so_upserts so = 1"
    using cdc_scan by blast
  from scan_upserts_exact [OF so(1)] so show ?thesis by auto
qed

text \<open>
  An old version is sent as if it were current: a back version (\<open>RHD_CHAIN\<close>) above the
  watermark that lies on a changed page is written as a row of its own, beside the current version
  of the same row, while the full extraction skips it.
\<close>

theorem old_version_is_sent:
  assumes "13 \<le> length raw" and "has_flag (flags_of raw) RHD_CHAIN"
    and "\<not> has_flag (flags_of raw) RHD_DELETED"
    and "record_transaction raw = Val (Some txn)" and "last_txn < txn"
    and "payload (data_start (flags_of raw)) raw = Some rec"
    and "upsert_fields rec (slots_for c (unat (raw ! 12))) = Val row"
  shows "unpack_record_into raw buf = Val (False, buf) \<and>
    (\<exists>st'. scan_record db c last_txn True rebuild_pks raw st = Val st' \<and>
      rs_upsert_out st' = rs_upsert_out st @ be_bytes 2 (tc_n_fields c) @ row \<and>
      rs_upserts st' = rs_upserts st + 1)"
proof
  show "unpack_record_into raw buf = Val (False, buf)"
    using unpack_record_into_val [of raw buf] assms(2) by (auto simp: skipped_by_scan_def)
  have flags: "\<not> has_flag (flags_of raw) RHD_FRAGMENT" "\<not> has_flag (flags_of raw) RHD_INCOMPLETE"
    "\<not> has_flag (flags_of raw) RHD_BLOB"
    using assms(1,4) record_transaction_val [of raw] by (auto split: if_splits)
  have u: "unpack_record_cdc raw (rs_buf st) = Val (Some False, rec)"
    unfolding unpack_record_cdc_Some using assms flags by simp
  have "has_flag (flags_of raw) pk_skip" using assms(2) by (simp add: pk_skip_def has_flag_or)
  then show "\<exists>st'. scan_record db c last_txn True rebuild_pks raw st = Val st' \<and>
      rs_upsert_out st' = rs_upsert_out st @ be_bytes 2 (tc_n_fields c) @ row \<and>
      rs_upserts st' = rs_upserts st + 1"
    using assms(1,4,5,7) u by (simp add: scan_record_def scan_upsert_def Let_def)
qed

theorem old_version_is_sent_witness:
  "unpack_record_into (cdc_raw 2) [] = Val (False, []) \<and>
    (\<exists>st'. scan_record (cdc_db 2) (cdc_cache []) 3 True True (cdc_raw 2) (ps_rec (scan_init 3)) = Val st' \<and>
      rs_upsert_out st' = rs_upsert_out (ps_rec (scan_init 3)) @ be_bytes 2 (tc_n_fields (cdc_cache [])) @ len_field [1] \<and>
      rs_upserts st' = rs_upserts (ps_rec (scan_init 3)) + 1)"
proof (rule old_version_is_sent [where txn = 7])
  show "has_flag (flags_of (cdc_raw 2)) RHD_CHAIN" "\<not> has_flag (flags_of (cdc_raw 2)) RHD_DELETED"
    by (simp_all add: cdc_raw_flags has_flag_def rhd_defs)
  show "record_transaction (cdc_raw 2) = Val (Some 7)"
    "payload (data_start (flags_of (cdc_raw 2))) (cdc_raw 2) = Some [0, 1]"
    using cdc_raw_live [of 2] by simp_all
  show "upsert_fields [0, 1] (slots_for (cdc_cache []) (unat (cdc_raw 2 ! 12))) = Val (len_field [1])"
    by (simp add: cdc_slots cdc_field)
qed simp_all

text \<open>
  C36. A row that has been split into fragments is reported as deleted. On a changed page on which
  every record is split (\<open>RHD_INCOMPLETE\<close>), no row is sent, and every key that the snapshot has
  for the page is written as deleted, although the full extraction reassembles such rows.
\<close>

theorem split_rows_reported_deleted:
  assumes "tc_data_pages c = [n]" and "page db n = Val dp" and "byte_at dp 0 = Val PAG_DATA"
    and "u32_at dp 4 = Val gen" and "gens n \<noteq> Some gen" and "u16_at dp 22 = Val cnt"
    and "\<forall>s < cnt. \<exists>raw. slot_raw db dp s = Val (Some raw) \<and> has_flag (flags_of raw) RHD_INCOMPLETE"
    and "tc_pk_byte_len c = S" and "0 < S" and "S \<le> 64"
    and "tc_prev_pks c = [(n, concat ks)]" and "uniform S ks" and "ks \<noteq> []"
  shows "\<exists>so gone. scan_changes_into db c last_txn gens = Val so \<and> so_upserts so = 0 \<and>
    distinct gone \<and> set gone = set ks \<and>
    so_delete_buf so = pgcopy_header @ concat (map (\<lambda>pk. be_bytes 2 (tc_n_pk c) @ pk) gone) @ pgcopy_trailer"
  by (rule split_rows_scan [where gens = gens and ks = ks, OF assms])

theorem split_rows_reported_deleted_witness:
  "\<exists>so gone. scan_changes_into (cdc_db 8) (cdc_cache [(0, concat [len_field [1]])]) 3 Map.empty = Val so \<and>
    so_upserts so = 0 \<and> distinct gone \<and> set gone = set [len_field [1]] \<and>
    so_delete_buf so = pgcopy_header @
      concat (map (\<lambda>pk. be_bytes 2 (tc_n_pk (cdc_cache [(0, concat [len_field [1]])])) @ pk) gone) @ pgcopy_trailer"
proof (rule split_rows_reported_deleted [OF _ cdc_db_page(1-3) _ cdc_db_page(4)])
  have "has_flag (flags_of (cdc_raw 8)) RHD_INCOMPLETE" by (simp add: cdc_raw_flags has_flag_def rhd_defs)
  then show "\<forall>s < 1. \<exists>raw. slot_raw (cdc_db 8) (cdc_page 8) s = Val (Some raw) \<and> has_flag (flags_of raw) RHD_INCOMPLETE"
    using cdc_db_page(5) by simp
qed (simp_all add: cdc_cache_def len_field_def)

text \<open>
  C37. With a key of more than 64 bytes a living row is reported as deleted: six \<open>BIGINT\<close>
  columns give a width of 72, and when the page holds a larger key before a smaller one, a pass
  that finds the very same keys writes the larger one as vanished.
\<close>

theorem wide_key_false_delete:
  assumes "length a = 72" and "length b = 72" and "a < b"
  shows "pk_pgcopy_stride (map Some [0..<6])
      (build_slots (map (\<lambda>i. (i, [])) [0..<6]) (replicate 6 (default_zero\<lparr>dtype := DTYPE_INT64\<rparr>))) = Val 72 \<and>
    express_deletes 72 [(n, b @ a)] [(n, b @ a)] = Val [b]"
proof
  show "pk_pgcopy_stride (map Some [0..<6])
      (build_slots (map (\<lambda>i. (i, [])) [0..<6]) (replicate 6 (default_zero\<lparr>dtype := DTYPE_INT64\<rparr>))) = Val 72"
    by (rule wide_key_stride)
  have "chunks 72 (b @ a) = [b, a]" using chunks_concat [of 72 "[b, a]"] assms by simp
  then show "express_deletes 72 [(n, b @ a)] [(n, b @ a)] = Val [b]"
    using wide_keys_not_sorted [OF assms] assms(3) by (auto simp: express_deletes_def alive_flat_def)
qed

theorem wide_key_false_delete_witness:
  "pk_pgcopy_stride (map Some [0..<6])
      (build_slots (map (\<lambda>i. (i, [])) [0..<6]) (replicate 6 (default_zero\<lparr>dtype := DTYPE_INT64\<rparr>))) = Val 72 \<and>
    express_deletes 72 [(4, (1 # replicate 71 0) @ (0 # replicate 71 0))] [(4, (1 # replicate 71 0) @ (0 # replicate 71 0))] =
      Val [1 # replicate 71 0]"
  by (rule wide_key_false_delete) simp_all

end
