(* ===== verification/Wire.thy ===== *)
theory Wire
  imports Rust_Str
begin

text \<open>
  The framed protocol of \<open>src/src/wire.rs\<close> between the agent and the gateway. A writer is the
  list of the bytes it writes. A reader is the list of the bytes still to come; \<open>Read::read\<close> may
  give fewer bytes than asked for, which is the parameter \<open>grant\<close>: with \<open>n\<close> bytes to come, a
  read gives at most \<open>grant n\<close> of them, but at least one (every read shortens the list, so a
  function of the length covers every schedule). \<open>serde_json\<close> is the parameter pair
  \<open>to_json\<close> and \<open>from_json\<close>.
\<close>

section \<open>Operations and messages\<close>

definition MAGIC :: bytes where "MAGIC = [70, 68, 66, 73]"
definition VERSION :: byte where "VERSION = 1"

datatype op = Full | Delta

fun op_to_u8 :: "op \<Rightarrow> byte" where
  "op_to_u8 Full = 1"
| "op_to_u8 Delta = 2"

definition op_from_u8 :: "byte \<Rightarrow> op run" where
  "op_from_u8 b =
     (if b = 1 then Val Full else if b = 2 then Val Delta else Err (InvalidData ''unknown op''))"

record full_header =
  fh_table :: str
  fh_create_sql :: str

record delta_header =
  dh_table :: str
  dh_cols_csv :: str
  dh_pk_csv :: str
  dh_pk_col_names :: "str list"
  dh_n_upserts :: nat
  dh_n_deletes :: nat

record resp =
  r_error :: "str option"
  r_rows :: nat
  r_upserts :: nat
  r_deletes :: nat

definition resp_err :: "str \<Rightarrow> resp" where
  "resp_err msg = \<lparr>r_error = Some msg, r_rows = 0, r_upserts = 0, r_deletes = 0\<rparr>"

section \<open>Length-prefixed blobs\<close>

definition read_exact :: "bytes \<Rightarrow> nat \<Rightarrow> (bytes \<times> bytes) run" where
  "read_exact r n = (if n \<le> length r then Val (take n r, drop n r) else Err UnexpectedEof)"

definition write_u32_prefixed :: "bytes \<Rightarrow> bytes" where
  "write_u32_prefixed b = be_bytes 4 (length b) @ b"

definition read_u32_prefixed :: "bytes \<Rightarrow> (bytes \<times> bytes) run" where
  "read_u32_prefixed r =
     rbind (read_exact r 4) (\<lambda>(l, r). read_exact r (be_nat l))"

text \<open>
  \<open>copy_u32_prefixed\<close> writes what it copies before it finds the body too short: the result, the
  bytes written to \<open>w\<close> and the bytes left in \<open>r\<close>.
\<close>

definition copy_u32_prefixed :: "bytes \<Rightarrow> nat run \<times> bytes \<times> bytes" where
  "copy_u32_prefixed r =
     (case read_exact r 4 of
        Val (l, r) \<Rightarrow>
          (let n = be_nat l; limited = take n r; copied = length limited
           in (if copied \<noteq> n then Err UnexpectedEof else Val copied, limited, drop n r))
      | Err e \<Rightarrow> (Err e, [], [])
      | Panic \<Rightarrow> (Panic, [], [])
      | Hang \<Rightarrow> (Hang, [], []))"

section \<open>Requests and responses\<close>

definition write_request_header :: "op \<Rightarrow> bytes \<Rightarrow> bytes" where
  "write_request_header op header_json = MAGIC @ [VERSION, op_to_u8 op] @ write_u32_prefixed header_json"

definition read_request_header :: "bytes \<Rightarrow> ((op \<times> bytes) \<times> bytes) run" where
  "read_request_header r =
     rbind (read_exact r 4) (\<lambda>(m, r).
     if m \<noteq> MAGIC then Err (InvalidData ''bad magic'')
     else
       rbind (read_exact r 2) (\<lambda>(vo, r).
       if vo ! 0 \<noteq> VERSION then Err (InvalidData ''unsupported version'')
       else
         rbind (op_from_u8 (vo ! 1)) (\<lambda>op.
         rbind (read_u32_prefixed r) (\<lambda>(header, r). Val ((op, header), r)))))"

definition write_response :: "(resp \<Rightarrow> bytes option) \<Rightarrow> resp \<Rightarrow> bytes run" where
  "write_response to_json resp =
     (case to_json resp of
        None \<Rightarrow> Err (InvalidData ''json'')
      | Some j \<Rightarrow> Val (MAGIC @ [if r_error resp \<noteq> None then 1 else 0] @ write_u32_prefixed j))"

definition read_response :: "(bytes \<Rightarrow> resp option) \<Rightarrow> bytes \<Rightarrow> resp run" where
  "read_response from_json r =
     rbind (read_exact r 4) (\<lambda>(m, r).
     if m \<noteq> MAGIC then Err (InvalidData ''bad magic'')
     else
       rbind (read_exact r 1) (\<lambda>(s, r).
       rbind (read_u32_prefixed r) (\<lambda>(j, r).
         case from_json j of None \<Rightarrow> Err (InvalidData ''json'') | Some x \<Rightarrow> Val x)))"

section \<open>Chunked bodies\<close>

record chunk_writer =
  cw_inner :: bytes
  cw_written :: nat

definition chunk_writer_new :: "bytes \<Rightarrow> chunk_writer" where
  "chunk_writer_new inner = \<lparr>cw_inner = inner, cw_written = 0\<rparr>"

definition chunk_write :: "bytes \<Rightarrow> chunk_writer \<Rightarrow> chunk_writer" where
  "chunk_write buf w =
     (if buf = [] then w
      else \<lparr>cw_inner = cw_inner w @ be_bytes 4 (length buf) @ buf, cw_written = cw_written w + (4 + length buf)\<rparr>)"

definition chunk_finish :: "chunk_writer \<Rightarrow> bytes" where
  "chunk_finish w = cw_inner w @ be_bytes 4 0"

record chunk_reader =
  cr_inner :: bytes
  cr_remaining :: nat
  cr_done :: bool

definition chunk_reader_new :: "bytes \<Rightarrow> chunk_reader" where
  "chunk_reader_new inner = \<lparr>cr_inner = inner, cr_remaining = 0, cr_done = False\<rparr>"

text \<open>\<open>Read::read\<close> of the inner reader into a buffer of \<open>k\<close> bytes.\<close>

definition inner_read :: "(nat \<Rightarrow> nat) \<Rightarrow> bytes \<Rightarrow> nat \<Rightarrow> bytes \<times> bytes" where
  "inner_read grant r k =
     (let n = min k (max 1 (grant (length r))) in (take n r, drop n r))"

definition chunk_fill :: "(nat \<Rightarrow> nat) \<Rightarrow> chunk_reader \<Rightarrow> nat \<Rightarrow> (bytes \<times> chunk_reader) run" where
  "chunk_fill grant s k =
     (let (got, r) = inner_read grant (cr_inner s) (min (cr_remaining s) k)
      in if got = [] then Err UnexpectedEof
         else Val (got, s\<lparr>cr_inner := r, cr_remaining := cr_remaining s - length got\<rparr>))"

definition chunk_read :: "(nat \<Rightarrow> nat) \<Rightarrow> chunk_reader \<Rightarrow> nat \<Rightarrow> (bytes \<times> chunk_reader) run" where
  "chunk_read grant s k =
     (if cr_done s then Val ([], s)
      else if cr_remaining s = 0 then
        rbind (read_exact (cr_inner s) 4) (\<lambda>(l, r).
          if be_nat l = 0 then Val ([], s\<lparr>cr_inner := r, cr_done := True\<rparr>)
          else chunk_fill grant (s\<lparr>cr_inner := r, cr_remaining := be_nat l\<rparr>) k)
      else chunk_fill grant s k)"

text \<open>\<open>io::copy\<close> reads into a buffer of \<open>k\<close> bytes until a read gives none.\<close>

lemma inner_read_shorter:
  "inner_read grant r k = (got, r') \<Longrightarrow> r = got @ r'"
  by (auto simp: inner_read_def Let_def)

lemma chunk_fill_split:
  assumes "chunk_fill grant s k = Val (got, s')"
  shows "cr_inner s = got @ cr_inner s'"
  using assms by (auto simp: chunk_fill_def dest!: inner_read_shorter split: if_splits prod.splits)

lemma chunk_read_shorter:
  "chunk_read grant s k = Val (got, s') \<Longrightarrow> got \<noteq> [] \<Longrightarrow> length (cr_inner s') < length (cr_inner s)"
  by (auto simp: chunk_read_def read_exact_def rbind_Val_iff
      dest!: chunk_fill_split [THEN arg_cong [where f = length]] split: if_splits prod.splits)

function copy_chunks :: "(nat \<Rightarrow> nat) \<Rightarrow> nat \<Rightarrow> chunk_reader \<Rightarrow> (bytes \<times> chunk_reader) run" where
  "copy_chunks grant k s =
     rbind (chunk_read grant s k) (\<lambda>(got, s').
       if got = [] then Val ([], s')
       else rbind (copy_chunks grant k s') (\<lambda>(more, t). Val (got @ more, t)))"
  by pat_completeness auto
termination
  by (relation "measure (\<lambda>(grant, k, s). length (cr_inner s))") (auto dest: chunk_read_shorter)

declare copy_chunks.simps [simp del]

section \<open>Reading what was written\<close>

lemma read_exact_append: "length a = n \<Longrightarrow> read_exact (a @ b) n = Val (a, b)"
  by (simp add: read_exact_def)

lemma be_nat_be_bytes_mod: "be_nat (be_bytes n v) = v mod 256 ^ n"
  by (simp add: be_nat_def be_bytes_def le_nat_le_bytes)

lemma read_write_prefixed:
  "read_u32_prefixed (write_u32_prefixed b @ rest) =
     Val (take (length b mod 2 ^ 32) b, drop (length b mod 2 ^ 32) b @ rest)"
proof -
  have "length b mod 2 ^ 32 \<le> length b" by simp
  then show ?thesis
    by (simp add: read_u32_prefixed_def write_u32_prefixed_def read_exact_append be_nat_be_bytes_mod)
      (simp add: read_exact_def)
qed

lemma op_from_to_u8: "op_from_u8 (op_to_u8 op) = Val op"
  by (cases op) (simp_all add: op_from_u8_def)

lemmas frame_simps = read_exact_append read_write_prefixed op_from_to_u8 be_nat_be_bytes_mod

text \<open>The bytes of a sequence of writes.\<close>

definition frames :: "bytes list \<Rightarrow> bytes" where
  "frames bufs = concat (map (\<lambda>b. if b = [] then [] else be_bytes 4 (length b) @ b) bufs)"

lemma frames_simps [simp]:
  "frames [] = []"
  "frames (b # bs) = (if b = [] then frames bs else be_bytes 4 (length b) @ b @ frames bs)"
  by (simp_all add: frames_def)

lemma fold_chunk_write:
  "cw_inner (fold chunk_write bufs w) = cw_inner w @ frames bufs \<and>
   cw_written (fold chunk_write bufs w) = cw_written w + length (frames bufs)"
  by (induction bufs arbitrary: w) (auto simp: chunk_write_def)

text \<open>Reading inside a frame, then through the frames that follow.\<close>

lemma chunk_fill_step:
  assumes "0 < k" and "0 < cr_remaining s" and "cr_inner s \<noteq> []"
  obtains m where "0 < m" and "m \<le> cr_remaining s" and "m \<le> length (cr_inner s)"
    and "chunk_fill grant s k =
      Val (take m (cr_inner s), s\<lparr>cr_inner := drop m (cr_inner s), cr_remaining := cr_remaining s - m\<rparr>)"
proof -
  define n where "n = min (min (cr_remaining s) k) (max 1 (grant (length (cr_inner s))))"
  define m where "m = min n (length (cr_inner s))"
  have n: "0 < n" "n \<le> cr_remaining s" using assms by (auto simp: n_def)
  have "inner_read grant (cr_inner s) (min (cr_remaining s) k) = (take n (cr_inner s), drop n (cr_inner s))"
    by (simp add: inner_read_def n_def Let_def)
  then have "chunk_fill grant s k =
      Val (take m (cr_inner s), s\<lparr>cr_inner := drop m (cr_inner s), cr_remaining := cr_remaining s - m\<rparr>)"
    using assms(3) n by (simp add: chunk_fill_def m_def min.commute) (simp add: min_def)
  then show thesis using that [of m] assms n by (simp add: m_def)
qed

definition body_of :: "bytes \<Rightarrow> bytes list \<Rightarrow> bytes" where
  "body_of cur bs = cur @ frames bs @ be_bytes 4 0"

definition short_buf :: "bytes \<Rightarrow> bool" where
  "short_buf b \<longleftrightarrow> 0 < length b \<and> length b < 2 ^ 32"

lemma frame_length_word: "short_buf b \<Longrightarrow> be_nat (be_bytes 4 (length b)) = length b"
  by (simp add: short_buf_def be_nat_be_bytes_mod)

lemma be_nat_zero [simp]: "be_nat (be_bytes n 0) = 0"
  by (simp add: be_nat_be_bytes_mod)

text \<open>The next read of a reader that has frames before it: the end, or bytes of the current frame.\<close>

lemma chunk_read_end:
  "chunk_read grant \<lparr>cr_inner = body_of [] [] @ rest, cr_remaining = 0, cr_done = False\<rparr> k =
     Val ([], \<lparr>cr_inner = rest, cr_remaining = 0, cr_done = True\<rparr>)"
  by (simp add: chunk_read_def body_of_def read_exact_append)

lemma chunk_read_header:
  "short_buf b \<Longrightarrow>
   chunk_read grant \<lparr>cr_inner = be_bytes 4 (length b) @ r, cr_remaining = 0, cr_done = False\<rparr> k =
     chunk_fill grant \<lparr>cr_inner = r, cr_remaining = length b, cr_done = False\<rparr> k"
  by (simp add: chunk_read_def read_exact_append frame_length_word) (simp add: short_buf_def)

lemma chunk_read_inside:
  "0 < n \<Longrightarrow> chunk_read grant \<lparr>cr_inner = r, cr_remaining = n, cr_done = False\<rparr> k =
     chunk_fill grant \<lparr>cr_inner = r, cr_remaining = n, cr_done = False\<rparr> k"
  by (simp add: chunk_read_def)

lemma copy_chunks_whole:
  "0 < k \<Longrightarrow> list_all short_buf bs \<Longrightarrow> length cur < 2 ^ 32 \<Longrightarrow>
   copy_chunks grant k \<lparr>cr_inner = body_of cur bs @ rest, cr_remaining = length cur, cr_done = False\<rparr> =
     Val (cur @ concat bs, \<lparr>cr_inner = rest, cr_remaining = 0, cr_done = True\<rparr>)"
proof (induction "length (body_of cur bs)" arbitrary: cur bs rule: less_induct)
  case less
  have inside: "copy_chunks grant k s = Val (c @ concat ds, \<lparr>cr_inner = rest, cr_remaining = 0, cr_done = True\<rparr>)"
    if read: "chunk_read grant s k = chunk_fill grant \<lparr>cr_inner = body_of c ds @ rest, cr_remaining = length c, cr_done = False\<rparr> k"
      and c: "c \<noteq> []" "length c < 2 ^ 32" "list_all short_buf ds"
      and le: "length (body_of c ds) \<le> length (body_of cur bs)" for s c ds
  proof -
    let ?s = "\<lparr>cr_inner = body_of c ds @ rest, cr_remaining = length c, cr_done = False\<rparr>"
    obtain m where m: "0 < m" "m \<le> length c" and f: "chunk_fill grant ?s k =
        Val (take m c, \<lparr>cr_inner = body_of (drop m c) ds @ rest, cr_remaining = length (drop m c), cr_done = False\<rparr>)"
      using chunk_fill_step [of k ?s grant] \<open>0 < k\<close> c(1) by (auto simp: body_of_def)
    have "copy_chunks grant k \<lparr>cr_inner = body_of (drop m c) ds @ rest, cr_remaining = length (drop m c), cr_done = False\<rparr> =
        Val (drop m c @ concat ds, \<lparr>cr_inner = rest, cr_remaining = 0, cr_done = True\<rparr>)"
      by (rule less.hyps) (use m c le less.prems(1) in \<open>auto simp: body_of_def\<close>)
    then show ?thesis
      using m c(1) by (subst copy_chunks.simps) (simp add: read f flip: append_assoc)
  qed
  show ?case
  proof (cases "cur = []")
    case False
    then show ?thesis
      using less.prems by (intro inside) (simp_all add: chunk_read_inside)
  next
    case cur: True
    show ?thesis
    proof (cases bs)
      case Nil
      then show ?thesis
        using cur chunk_read_end [of grant rest k] by (subst copy_chunks.simps) simp
    next
      case (Cons b ds)
      then have b: "short_buf b" "b \<noteq> []" using less.prems(2) by (auto simp: short_buf_def)
      have "copy_chunks grant k \<lparr>cr_inner = body_of cur bs @ rest, cr_remaining = length cur, cr_done = False\<rparr> =
          Val (b @ concat ds, \<lparr>cr_inner = rest, cr_remaining = 0, cr_done = True\<rparr>)"
        by (rule inside)
          (use Cons cur b less.prems in \<open>auto simp: body_of_def chunk_read_header short_buf_def\<close>)
      then show ?thesis using Cons cur by simp
    qed
  qed
qed

lemma chunk_fill_eof: "cr_inner s = [] \<Longrightarrow> chunk_fill grant s k = Err UnexpectedEof"
  by (simp add: chunk_fill_def inner_read_def Let_def)

lemma copy_chunks_cut:
  "0 < k \<Longrightarrow> list_all short_buf bs \<Longrightarrow> length cur < 2 ^ 32 \<Longrightarrow> p @ q = body_of cur bs \<Longrightarrow> q \<noteq> [] \<Longrightarrow>
   copy_chunks grant k \<lparr>cr_inner = p, cr_remaining = length cur, cr_done = False\<rparr> = Err UnexpectedEof"
proof (induction "length (body_of cur bs)" arbitrary: cur bs p rule: less_induct)
  case less
  have inside: "copy_chunks grant k s = Err UnexpectedEof"
    if read: "chunk_read grant s k = chunk_fill grant \<lparr>cr_inner = p', cr_remaining = length c, cr_done = False\<rparr> k"
      and c: "c \<noteq> []" "length c < 2 ^ 32" "list_all short_buf ds" "p' @ q = body_of c ds"
      and le: "length (body_of c ds) \<le> length (body_of cur bs)" for s c ds p'
  proof (cases "p' = []")
    case True
    then show ?thesis using read by (subst copy_chunks.simps) (simp add: chunk_fill_eof)
  next
    case False
    let ?s = "\<lparr>cr_inner = p', cr_remaining = length c, cr_done = False\<rparr>"
    obtain m where m: "0 < m" "m \<le> length c" "m \<le> length p'" and f: "chunk_fill grant ?s k =
        Val (take m p', \<lparr>cr_inner = drop m p', cr_remaining = length (drop m c), cr_done = False\<rparr>)"
      using chunk_fill_step [of k ?s grant] \<open>0 < k\<close> c(1) False by auto
    have "drop m (p' @ q) = drop m (body_of c ds)" using c(4) by simp
    then have "drop m p' @ q = body_of (drop m c) ds" using m by (simp add: body_of_def)
    then have "copy_chunks grant k \<lparr>cr_inner = drop m p', cr_remaining = length (drop m c), cr_done = False\<rparr> =
        Err UnexpectedEof"
      by (intro less.hyps) (use m c le less.prems(1,5) in \<open>auto simp: body_of_def\<close>)
    then show ?thesis
      using m False by (subst copy_chunks.simps) (simp add: read f)
  qed
  show ?case
  proof (cases "cur = []")
    case False
    then show ?thesis
      using less.prems by (intro inside [of _ p cur bs]) (simp_all add: chunk_read_inside)
  next
    case cur: True
    obtain hd rest where body: "body_of cur bs = hd @ rest" "length hd = 4"
      and next_frame: "bs = [] \<and> rest = [] \<or>
        (\<exists>b ds. bs = b # ds \<and> hd = be_bytes 4 (length b) \<and> rest = body_of b ds \<and> short_buf b)"
    proof (cases bs)
      case Nil
      then show ?thesis using that [of "be_bytes 4 0" "[]"] cur by (simp add: body_of_def)
    next
      case (Cons b ds)
      then show ?thesis
        using that [of "be_bytes 4 (length b)" "body_of b ds"] cur less.prems(2)
        by (auto simp: body_of_def short_buf_def)
    qed
    show ?thesis
    proof (cases "length p < 4")
      case True
      then have "chunk_read grant \<lparr>cr_inner = p, cr_remaining = 0, cr_done = False\<rparr> k = Err UnexpectedEof"
        by (simp add: chunk_read_def read_exact_def)
      then show ?thesis using cur by (subst copy_chunks.simps) simp
    next
      case False
      have "take 4 p = take 4 (p @ q)" using False by simp
      also have "\<dots> = hd" using less.prems(4) body by simp
      finally obtain p' where p: "p = hd @ p'" by (metis append_take_drop_id)
      moreover have "p' @ q = rest" using less.prems(4) body(1) p by simp
      ultimately have p: "p = hd @ p'" "p' @ q = rest" by auto
      then obtain b ds where b: "bs = b # ds" "hd = be_bytes 4 (length b)" "rest = body_of b ds" "short_buf b"
        using next_frame less.prems(5) by auto
      show ?thesis
        by (rule inside [of _ p' b ds])
          (use b p cur less.prems in \<open>auto simp: chunk_read_header short_buf_def body_of_def\<close>)
    qed
  qed
qed

lemma frames_nonempty: "frames (filter (\<lambda>b. b \<noteq> []) bufs) = frames bufs"
  "concat (filter (\<lambda>b. b \<noteq> []) bufs) = concat bufs"
  by (induction bufs) auto

lemma short_bufs: "\<forall>b \<in> set bufs. length b < 2 ^ 32 \<Longrightarrow> list_all short_buf (filter (\<lambda>b. b \<noteq> []) bufs)"
  by (auto simp: short_buf_def list_all_iff)

lemma read_prefixed_iff:
  "read_u32_prefixed r = Val (b, rest) \<longleftrightarrow> r = write_u32_prefixed b @ rest \<and> length b < 2 ^ 32"
proof
  assume "read_u32_prefixed r = Val (b, rest)"
  then have len: "4 \<le> length r" and n: "be_nat (take 4 r) \<le> length (drop 4 r)"
    and b: "b = take (be_nat (take 4 r)) (drop 4 r)" "rest = drop (be_nat (take 4 r)) (drop 4 r)"
    by (auto simp: read_u32_prefixed_def read_exact_def rbind_Val_iff split: if_splits)
  have "length b = be_nat (take 4 r)" using b(1) n by simp
  moreover have "be_bytes 4 (be_nat (take 4 r)) = take 4 r" using len by (intro be_bytes_be_nat) simp
  ultimately have "be_bytes 4 (length b) = take 4 r" by simp
  moreover have "b @ rest = drop 4 r" by (simp only: b append_take_drop_id)
  ultimately have "r = write_u32_prefixed b @ rest" by (simp add: write_u32_prefixed_def)
  moreover have "length b < 2 ^ 32"
    using be_nat_bound [of "take 4 r"] len unfolding \<open>length b = be_nat (take 4 r)\<close> by simp
  ultimately show "r = write_u32_prefixed b @ rest \<and> length b < 2 ^ 32" by simp
qed (simp add: read_write_prefixed)

text \<open>Messages that are read back, for the users of the protocol.\<close>

lemma read_written_request:
  "length header < 2 ^ 32 \<Longrightarrow>
   read_request_header (write_request_header op header @ body) = Val ((op, header), body)"
  by (simp add: read_request_header_def write_request_header_def MAGIC_def read_exact_def
      op_from_to_u8 read_write_prefixed)

lemma read_written_response:
  assumes "to_json resp = Some j" and "from_json j = Some resp" and "length j < 2 ^ 32"
  shows "\<exists>bs. write_response to_json resp = Val bs \<and> read_response from_json bs = Val resp"
proof -
  have "read_u32_prefixed (write_u32_prefixed j) = Val (j, [])"
    using read_write_prefixed [of j "[]"] assms(3) by simp
  then show ?thesis
    using assms by (simp add: write_response_def read_response_def MAGIC_def read_exact_def)
qed

lemma copy_chunks_written:
  assumes "\<forall>b \<in> set bufs. length b < 2 ^ 32" and "0 < k"
  shows "copy_chunks grant k (chunk_reader_new (chunk_finish (fold chunk_write bufs (chunk_writer_new [])) @ rest)) =
      Val (concat bufs, \<lparr>cr_inner = rest, cr_remaining = 0, cr_done = True\<rparr>)"
proof -
  let ?bs = "filter (\<lambda>b. b \<noteq> []) bufs"
  have "chunk_finish (fold chunk_write bufs (chunk_writer_new [])) = body_of [] ?bs"
    using fold_chunk_write [of bufs "chunk_writer_new []"]
    by (simp add: chunk_finish_def body_of_def chunk_writer_new_def frames_nonempty)
  then show ?thesis
    using copy_chunks_whole [OF assms(2) short_bufs [OF assms(1)], of "[]" grant rest]
    by (simp add: chunk_reader_new_def frames_nonempty)
qed

lemma copy_chunks_short:
  assumes "\<forall>b \<in> set bufs. length b < 2 ^ 32" and "0 < k"
    and "p @ q = chunk_finish (fold chunk_write bufs (chunk_writer_new []))" and "q \<noteq> []"
  shows "copy_chunks grant k (chunk_reader_new p) = Err UnexpectedEof"
proof -
  have "p @ q = body_of [] (filter (\<lambda>b. b \<noteq> []) bufs)"
    using fold_chunk_write [of bufs "chunk_writer_new []"] assms(3)
    by (simp add: chunk_writer_new_def chunk_finish_def body_of_def frames_nonempty)
  then show ?thesis
    using copy_chunks_cut [OF assms(2) short_bufs [OF assms(1)], of "[]" p q grant] assms(4)
    by (simp add: chunk_reader_new_def)
qed

section \<open>Properties\<close>

text \<open>
  What a length prefix carries: reading a written blob gives its first \<open>length mod 2 ^ 32\<close>
  bytes and leaves the others in front of the rest. So the round trip is exact below 4 GiB,
  and a longer blob (the length is cast with \<open>as u32\<close>, unchecked) desynchronises the stream.
\<close>

theorem prefixed_roundtrip:
  "read_u32_prefixed (write_u32_prefixed b @ rest) =
     Val (take (length b mod 2 ^ 32) b, drop (length b mod 2 ^ 32) b @ rest)"
  by (rule read_write_prefixed)

text \<open>
  The streaming copy of a length-prefixed body succeeds on exactly the inputs that start
  with a written blob, has then copied that blob and nothing else, and leaves the reader behind
  it.
\<close>

theorem copy_prefixed_exact:
  "copy_u32_prefixed r = (Val n, b, rest) \<longleftrightarrow>
     r = write_u32_prefixed b @ rest \<and> n = length b \<and> length b < 2 ^ 32"
proof -
  have "copy_u32_prefixed r = (Val n, b, rest) \<longleftrightarrow> read_u32_prefixed r = Val (b, rest) \<and> n = length b"
    by (auto simp: copy_u32_prefixed_def read_u32_prefixed_def read_exact_def Let_def min_def split: if_splits)
  then show ?thesis by (auto simp: read_prefixed_iff)
qed

text \<open>
  The gateway accepts a request header exactly when it is one the agent writes: magic,
  version 1, a known operation and a header blob below 4 GiB; it then has that operation and
  that header and stands at the body.
\<close>

theorem request_header_exact:
  "read_request_header r = Val ((op, header), body) \<longleftrightarrow>
     r = write_request_header op header @ body \<and> length header < 2 ^ 32"
proof
  assume "read_request_header r = Val ((op, header), body)"
  then obtain vo r' where r: "4 \<le> length r" "take 4 r = MAGIC" "2 \<le> length (drop 4 r)"
    "vo = take 2 (drop 4 r)" "r' = drop 2 (drop 4 r)" "vo ! 0 = VERSION" "op_from_u8 (vo ! 1) = Val op"
    "read_u32_prefixed r' = Val (header, body)"
    by (auto simp: read_request_header_def read_exact_def rbind_Val_iff split: if_splits)
  have "vo = [vo ! 0, vo ! 1]" using r(3,4) by (intro nth_equalityI) (auto simp: less_Suc_eq numeral_2_eq_2)
  moreover have "vo ! 1 = op_to_u8 op" using r(7) by (auto simp: op_from_u8_def split: if_splits)
  moreover have "r = take 4 r @ take 2 (drop 4 r) @ drop 2 (drop 4 r)"
    by (simp only: append_take_drop_id)
  ultimately have "r = MAGIC @ [VERSION, op_to_u8 op] @ r'" using r(2,4,5,6) by metis
  then show "r = write_request_header op header @ body \<and> length header < 2 ^ 32"
    using r(8) by (simp add: read_prefixed_iff write_request_header_def)
next
  assume "r = write_request_header op header @ body \<and> length header < 2 ^ 32"
  then show "read_request_header r = Val ((op, header), body)" by (simp add: read_written_request)
qed

text \<open>
  A response survives the wire, for every JSON codec that reads back what it wrote and
  writes less than 4 GiB.
\<close>

theorem response_roundtrip:
  assumes "to_json resp = Some j" and "from_json j = Some resp" and "length j < 2 ^ 32"
  shows "\<exists>bs. write_response to_json resp = Val bs \<and> read_response from_json bs = Val resp"
  by (rule read_written_response) (rule assms)+

theorem response_roundtrip_witness:
  "\<exists>bs. write_response (\<lambda>r. Some [of_nat (r_rows r)]) \<lparr>r_error = None, r_rows = 3, r_upserts = 0, r_deletes = 0\<rparr> = Val bs \<and>
    read_response (\<lambda>j. Some \<lparr>r_error = None, r_rows = unat (j ! 0), r_upserts = 0, r_deletes = 0\<rparr>) bs =
      Val \<lparr>r_error = None, r_rows = 3, r_upserts = 0, r_deletes = 0\<rparr>"
  by (rule response_roundtrip [where j = "[3]"]) simp_all

text \<open>
  C25. Chunk framing is transparent: whatever the sequence of writes (each below 4 GiB), however
  the transport splits its reads and whatever the size of the copy buffer, copying from the
  chunk reader gives the concatenation of the writes, ends at the terminator, and leaves the bytes
  after it unread. The writer's counter is the size of the frames.
\<close>

theorem chunks_roundtrip:
  assumes "\<forall>b \<in> set bufs. length b < 2 ^ 32" and "0 < k"
    and "w = fold chunk_write bufs (chunk_writer_new [])"
  shows "copy_chunks grant k (chunk_reader_new (chunk_finish w @ rest)) =
      Val (concat bufs, \<lparr>cr_inner = rest, cr_remaining = 0, cr_done = True\<rparr>) \<and>
    cw_written w + 4 = length (chunk_finish w)"
proof -
  have "cw_inner w = frames bufs" "cw_written w = length (frames bufs)"
    using fold_chunk_write [of bufs "chunk_writer_new []"] assms(3) by (simp_all add: chunk_writer_new_def)
  then show ?thesis
    using copy_chunks_written [OF assms(1,2)] assms(3) by (simp add: chunk_finish_def)
qed

theorem chunks_roundtrip_witness:
  "copy_chunks (\<lambda>n. 2) 3 (chunk_reader_new (chunk_finish (fold chunk_write [[1, 2, 3], [], [4]] (chunk_writer_new [])) @ [9])) =
      Val (concat [[1, 2, 3], [], [4]], \<lparr>cr_inner = [9], cr_remaining = 0, cr_done = True\<rparr>) \<and>
    cw_written (fold chunk_write [[1, 2, 3], [], [4]] (chunk_writer_new [])) + 4 =
      length (chunk_finish (fold chunk_write [[1, 2, 3], [], [4]] (chunk_writer_new [])))"
  by (rule chunks_roundtrip) simp_all

text \<open>
  C26. A stream that breaks off anywhere before its last byte is an error: the copy never
  reports a short body as a complete one.
\<close>

theorem chunks_cut_short:
  assumes "\<forall>b \<in> set bufs. length b < 2 ^ 32" and "0 < k"
    and "p @ q = chunk_finish (fold chunk_write bufs (chunk_writer_new []))" and "q \<noteq> []"
  shows "copy_chunks grant k (chunk_reader_new p) = Err UnexpectedEof"
  by (rule copy_chunks_short [OF assms])

theorem chunks_cut_short_witness:
  "copy_chunks (\<lambda>n. 5) 2 (chunk_reader_new [0, 0, 0, 1, 7, 0]) = Err UnexpectedEof"
  by (rule chunks_cut_short [where bufs = "[[7]]" and q = "[0, 0, 0]"])
    (simp_all add: chunk_writer_new_def chunk_write_def chunk_finish_def be_bytes_4)

end
