(* ===== verification/Merge.thy ===== *)
theory Merge
  imports Rust_Str Wire
begin

text \<open>
  Applying a delta to PostgreSQL, \<open>src/src/merge.rs\<close>. The server behind a \<open>postgres::Client\<close> is a
  parameter: a function that takes its state and a call and gives a reply and the next state. The
  data of a \<open>COPY\<close> go to the server with the call that ends it; a refusal of that call stands for
  an error of any write, of the flush or of the end. Timings are left out.
\<close>

section \<open>The client\<close>

datatype call =
    Connect str
  | Execute str
  | Batch str
  | Query_One str
  | Copy_In str
  | Copy_Done bytes
  | Copy_Drop

text \<open>A reply carries the number of rows or the \<open>SQLSTATE\<close> code.\<close>

datatype reply = Rows nat | Refused str

type_synonym 's server = "'s \<Rightarrow> call \<Rightarrow> reply \<times> 's"
type_synonym ('s, 'a) pgm = "'s \<Rightarrow> 'a run \<times> 's"

definition pval :: "'a \<Rightarrow> ('s, 'a) pgm" where
  "pval x = (\<lambda>s. (Val x, s))"

definition pbind :: "('s, 'a) pgm \<Rightarrow> ('a \<Rightarrow> ('s, 'b) pgm) \<Rightarrow> ('s, 'b) pgm" where
  "pbind m f = (\<lambda>s. case m s of
       (Val x, s) \<Rightarrow> f x s | (Err e, s) \<Rightarrow> (Err e, s) | (Panic, s) \<Rightarrow> (Panic, s) | (Hang, s) \<Rightarrow> (Hang, s))"

text \<open>\<open>client.call(...)?\<close>, and \<open>let _ = client.call(...)\<close>.\<close>

definition exec :: "'s server \<Rightarrow> call \<Rightarrow> ('s, nat) pgm" where
  "exec srv c = (\<lambda>s. case srv s c of (Rows n, s) \<Rightarrow> (Val n, s) | (Refused code, s) \<Rightarrow> (Err (PgError code), s))"

definition try_exec :: "'s server \<Rightarrow> call \<Rightarrow> ('s, unit) pgm" where
  "try_exec srv c = (\<lambda>s. (Val (), snd (srv s c)))"

section \<open>Statements\<close>

record merge_meta =
  mm_pg_table :: str
  mm_cols_csv :: str
  mm_pk_csv :: str
  mm_pk_col_names :: "str list"

definition quoted :: "str \<Rightarrow> str" where
  "quoted s = [34] @ s @ [34]"

fun join :: "str \<Rightarrow> str list \<Rightarrow> str" where
  "join sep [] = []"
| "join sep [x] = x"
| "join sep (x # xs) = x @ sep @ join sep xs"

text \<open>\<open>split(", ")\<close>\<close>

fun split_comma :: "str \<Rightarrow> str \<Rightarrow> str list" where
  "split_comma acc [] = [acc]"
| "split_comma acc (c # s) =
     (if take 2 (c # s) = [44, 32] then acc # split_comma [] (drop 1 s) else split_comma (acc @ [c]) s)"

definition excluded :: "str \<Rightarrow> str" where
  "excluded cn = cn @ lit '' = EXCLUDED.'' @ cn"

definition build_upsert_sql :: "merge_meta \<Rightarrow> str \<Rightarrow> str" where
  "build_upsert_sql meta src =
     (let update_cols = map excluded (filter (\<lambda>cn. cn \<notin> set (mm_pk_col_names meta)) (split_comma [] (mm_cols_csv meta)));
          sql = lit ''INSERT INTO '' @ quoted (mm_pg_table meta) @ lit '' ('' @ mm_cols_csv meta @ lit '') SELECT '' @
            mm_cols_csv meta @ lit '' FROM '' @ quoted src @ lit '' ON CONFLICT ('' @ mm_pk_csv meta @ lit '') ''
      in if update_cols = [] then sql @ lit ''DO NOTHING''
         else sql @ lit ''DO UPDATE SET '' @ join (lit '', '') update_cols)"

definition delta_tmp :: "merge_meta \<Rightarrow> str" where
  "delta_tmp meta = lit ''_fdb_delta_'' @ filter (\<lambda>c. c \<noteq> 34) (mm_pg_table meta)"

definition del_tmp :: "merge_meta \<Rightarrow> str" where
  "del_tmp meta = lit ''_fdb_del_'' @ filter (\<lambda>c. c \<noteq> 34) (mm_pg_table meta)"

definition drop_tmps :: "'s server \<Rightarrow> merge_meta \<Rightarrow> ('s, unit) pgm" where
  "drop_tmps srv meta =
     pbind (try_exec srv (Execute (lit ''DROP TABLE IF EXISTS '' @ quoted (delta_tmp meta)))) (\<lambda>_.
     try_exec srv (Execute (lit ''DROP TABLE IF EXISTS '' @ quoted (del_tmp meta))))"

definition create_tmps :: "'s server \<Rightarrow> merge_meta \<Rightarrow> ('s, nat) pgm" where
  "create_tmps srv meta =
     pbind (exec srv (Execute (lit ''CREATE TEMP TABLE '' @ quoted (delta_tmp meta) @ lit '' (LIKE '' @
       quoted (mm_pg_table meta) @ lit '')''))) (\<lambda>_.
     exec srv (Execute (lit ''CREATE TEMP TABLE '' @ quoted (del_tmp meta) @ lit '' AS SELECT '' @ mm_pk_csv meta @
       lit '' FROM '' @ quoted (mm_pg_table meta) @ lit '' WHERE false'')))"

definition copy_delta_sql :: "merge_meta \<Rightarrow> str" where
  "copy_delta_sql meta = lit ''COPY '' @ quoted (delta_tmp meta) @ lit '' ('' @ mm_cols_csv meta @
     lit '') FROM STDIN WITH (FORMAT BINARY)''"

definition copy_del_sql :: "merge_meta \<Rightarrow> str" where
  "copy_del_sql meta = lit ''COPY '' @ quoted (del_tmp meta) @ lit '' ('' @ mm_pk_csv meta @
     lit '') FROM STDIN WITH (FORMAT BINARY)''"

definition delete_sql :: "merge_meta \<Rightarrow> str" where
  "delete_sql meta = lit ''DELETE FROM '' @ quoted (mm_pg_table meta) @ lit '' USING '' @ quoted (del_tmp meta) @
     lit '' WHERE '' @ join (lit '' AND '') (map (\<lambda>cn. quoted (mm_pg_table meta) @ lit ''.'' @ cn @ lit '' = '' @
       quoted (del_tmp meta) @ lit ''.'' @ cn) (mm_pk_col_names meta))"

section \<open>The transaction\<close>

text \<open>
  Both merges run their statements between \<open>BEGIN\<close> and \<open>COMMIT\<close>, and roll back on an error.
  \<open>cl\<close> sends a call through the client; the two differ in what else is in their state.
\<close>

definition transact :: "(call \<Rightarrow> ('t, nat) pgm) \<Rightarrow> ('t, unit) pgm \<Rightarrow> ('t, unit) pgm" where
  "transact cl apply =
     pbind (cl (Execute (lit ''BEGIN''))) (\<lambda>_ s. case apply s of
       (Val _, s) \<Rightarrow> pbind (cl (Execute (lit ''COMMIT''))) (\<lambda>_. pval ()) s
     | (Err e, s) \<Rightarrow> (Err e, snd (cl (Execute (lit ''ROLLBACK'')) s))
     | (Panic, s) \<Rightarrow> (Panic, s)
     | (Hang, s) \<Rightarrow> (Hang, s))"

definition apply_deletes :: "'s server \<Rightarrow> merge_meta \<Rightarrow> bytes \<Rightarrow> bool \<Rightarrow> ('s, unit) pgm" where
  "apply_deletes srv meta delete_buf debug =
     pbind (exec srv (Copy_In (copy_del_sql meta))) (\<lambda>_.
     pbind (exec srv (Copy_Done delete_buf)) (\<lambda>_.
     pbind (if debug then exec srv (Query_One (lit ''SELECT COUNT(*) FROM '' @ quoted (del_tmp meta))) else pval 0) (\<lambda>_.
     pbind (exec srv (Execute (delete_sql meta))) (\<lambda>_. pval ()))))"

definition apply_upserts :: "'s server \<Rightarrow> merge_meta \<Rightarrow> nat \<Rightarrow> ('s, unit) pgm" where
  "apply_upserts srv meta n_upserts =
     (if n_upserts > 0
      then pbind (exec srv (Execute (build_upsert_sql meta (delta_tmp meta)))) (\<lambda>_. pval ())
      else pval ())"

definition apply_delta ::
    "'s server \<Rightarrow> merge_meta \<Rightarrow> bytes \<Rightarrow> bytes \<Rightarrow> nat \<Rightarrow> nat \<Rightarrow> bool \<Rightarrow> ('s, unit) pgm" where
  "apply_delta srv meta upsert_buf delete_buf n_upserts n_deletes debug =
     transact (exec srv)
       (pbind (drop_tmps srv meta) (\<lambda>_.
        pbind (create_tmps srv meta) (\<lambda>_.
        pbind (exec srv (Copy_In (copy_delta_sql meta))) (\<lambda>_.
        pbind (exec srv (Copy_Done upsert_buf)) (\<lambda>_.
        pbind (if n_deletes > 0 then apply_deletes srv meta delete_buf debug else pval ()) (\<lambda>_.
        pbind (apply_upserts srv meta n_upserts) (\<lambda>_.
        drop_tmps srv meta)))))))"

section \<open>The streaming twin\<close>

text \<open>
  Here the state is the server and the bytes still to come from the connection. When a body ends
  too soon the writer is dropped, which aborts the \<open>COPY\<close>.
\<close>

definition srv_part :: "('s, 'a) pgm \<Rightarrow> ('s \<times> bytes, 'a) pgm" where
  "srv_part m = (\<lambda>(s, body). case m s of (r, s) \<Rightarrow> (r, (s, body)))"

definition relay_body :: "'s server \<Rightarrow> ('s \<times> bytes, nat) pgm" where
  "relay_body srv = (\<lambda>(s, body). case copy_u32_prefixed body of
       (Val n, data, rest) \<Rightarrow> srv_part (exec srv (Copy_Done data)) (s, rest)
     | (Err e, data, rest) \<Rightarrow> (Err e, (snd (srv s Copy_Drop), rest))
     | (Panic, data, rest) \<Rightarrow> (Panic, (s, rest))
     | (Hang, data, rest) \<Rightarrow> (Hang, (s, rest)))"

definition drain_body :: "('s \<times> bytes, nat) pgm" where
  "drain_body = (\<lambda>(s, body). case copy_u32_prefixed body of (r, data, rest) \<Rightarrow> (r, (s, rest)))"

definition apply_delta_streaming :: "'s server \<Rightarrow> merge_meta \<Rightarrow> nat \<Rightarrow> nat \<Rightarrow> ('s \<times> bytes, unit) pgm" where
  "apply_delta_streaming srv meta n_upserts n_deletes =
     transact (\<lambda>c. srv_part (exec srv c))
       (pbind (srv_part (drop_tmps srv meta)) (\<lambda>_.
        pbind (srv_part (create_tmps srv meta)) (\<lambda>_.
        pbind (srv_part (exec srv (Copy_In (copy_delta_sql meta)))) (\<lambda>_.
        pbind (relay_body srv) (\<lambda>_.
        pbind (if n_deletes > 0
               then pbind (srv_part (exec srv (Copy_In (copy_del_sql meta)))) (\<lambda>_.
                    pbind (relay_body srv) (\<lambda>_.
                    srv_part (exec srv (Execute (delete_sql meta)))))
               else drain_body) (\<lambda>_.
        pbind (srv_part (apply_upserts srv meta n_upserts)) (\<lambda>_.
        srv_part (drop_tmps srv meta))))))))"

section \<open>The two agree\<close>

text \<open>
  \<open>streams m n b b'\<close>: the program \<open>n\<close> does to the server what \<open>m\<close> does, reading \<open>b\<close> and leaving
  \<open>b'\<close> when it succeeds.
\<close>

definition streams :: "('s, 'a) pgm \<Rightarrow> ('s \<times> bytes, 'c) pgm \<Rightarrow> bytes \<Rightarrow> bytes \<Rightarrow> bool" where
  "streams m n b b' \<longleftrightarrow> (\<forall>s. \<exists>c. map_run (\<lambda>_. ()) (fst (n (s, b))) = map_run (\<lambda>_. ()) (fst (m s)) \<and>
     snd (n (s, b)) = (snd (m s), c) \<and> (returns (fst (m s)) \<longrightarrow> c = b'))"

lemma streams_srv_part: "streams m (srv_part m) b b"
  by (auto simp: streams_def srv_part_def split: prod.split)

lemma streams_pbind:
  assumes "streams m n b b'" and "\<And>x y. streams (f x) (g y) b' b''"
  shows "streams (pbind m f) (pbind n g) b b''"
  unfolding streams_def
proof
  fix s
  obtain c where c: "map_run (\<lambda>_. ()) (fst (n (s, b))) = map_run (\<lambda>_. ()) (fst (m s))"
    "snd (n (s, b)) = (snd (m s), c)" "returns (fst (m s)) \<longrightarrow> c = b'"
    using assms(1) unfolding streams_def by blast
  obtain r t where m: "m s = (r, t)" by (cases "m s")
  obtain q u where n: "n (s, b) = (q, u)" by (cases "n (s, b)")
  have u: "u = (t, c)" using c(2) m n by simp
  show "\<exists>c. map_run (\<lambda>_. ()) (fst (pbind n g (s, b))) = map_run (\<lambda>_. ()) (fst (pbind m f s)) \<and>
     snd (pbind n g (s, b)) = (snd (pbind m f s), c) \<and> (returns (fst (pbind m f s)) \<longrightarrow> c = b'')"
  proof (cases r)
    case (Val x)
    then obtain y where "q = Val y" "c = b'" using c m n by (cases q) auto
    then show ?thesis using assms(2) [of x y] m n u Val unfolding streams_def by (simp add: pbind_def)
  qed (use c m n u in \<open>cases q; auto simp: pbind_def\<close>)+
qed

lemma streams_unit_right: "streams m n b b' \<Longrightarrow> streams (pbind m (\<lambda>_. pval ())) n b b'"
  unfolding streams_def pbind_def pval_def
  by (rule allI, drule_tac x = s in spec) (auto split: prod.splits run.splits)

lemma copy_write_prefixed:
  "length u < 2 ^ 32 \<Longrightarrow> copy_u32_prefixed (write_u32_prefixed u @ rest) = (Val (length u), u, rest)"
  using be_nat_be_bytes_id [of "length u" 4]
  by (simp add: copy_u32_prefixed_def write_u32_prefixed_def read_exact_append)

lemma streams_relay:
  "length u < 2 ^ 32 \<Longrightarrow> streams (exec srv (Copy_Done u)) (relay_body srv) (write_u32_prefixed u @ b) b"
  by (auto simp: streams_def relay_body_def copy_write_prefixed srv_part_def split: prod.split)

lemma streams_drain: "length d < 2 ^ 32 \<Longrightarrow> streams (pval ()) drain_body (write_u32_prefixed d @ b) b"
  by (auto simp: streams_def drain_body_def copy_write_prefixed pval_def)

lemma streams_transact:
  assumes "streams m n b b'"
  shows "streams (transact (exec srv) m) (transact (\<lambda>c. srv_part (exec srv c)) n) b b'"
  unfolding transact_def
proof (rule streams_pbind [OF streams_srv_part])
  fix x y
  let ?finish = "\<lambda>cl out. case out of
       (Val _, s) \<Rightarrow> pbind (cl (Execute (lit ''COMMIT''))) (\<lambda>_. pval ()) s
     | (Err e, s) \<Rightarrow> (Err e, snd (cl (Execute (lit ''ROLLBACK'')) s))
     | (Panic, s) \<Rightarrow> (Panic, s)
     | (Hang, s) \<Rightarrow> (Hang, s)"
  show "streams (\<lambda>s. ?finish (exec srv) (m s)) (\<lambda>s. ?finish (\<lambda>c. srv_part (exec srv c)) (n s)) b b'"
    unfolding streams_def
  proof
    fix s
    obtain c where c: "map_run (\<lambda>_. ()) (fst (n (s, b))) = map_run (\<lambda>_. ()) (fst (m s))"
      "snd (n (s, b)) = (snd (m s), c)" "returns (fst (m s)) \<longrightarrow> c = b'"
      using assms unfolding streams_def by blast
    obtain r t where m: "m s = (r, t)" by (cases "m s")
    obtain q u where n: "n (s, b) = (q, u)" by (cases "n (s, b)")
    have u: "u = (t, c)" using c(2) m n by simp
    show "\<exists>c. map_run (\<lambda>_. ()) (fst (?finish (\<lambda>c. srv_part (exec srv c)) (n (s, b)))) =
        map_run (\<lambda>_. ()) (fst (?finish (exec srv) (m s))) \<and>
      snd (?finish (\<lambda>c. srv_part (exec srv c)) (n (s, b))) = (snd (?finish (exec srv) (m s)), c) \<and>
      (returns (fst (?finish (exec srv) (m s))) \<longrightarrow> c = b')"
    proof (cases r)
      case (Val x)
      then obtain y where "q = Val y" "c = b'" using c m n by (cases q) auto
      then show ?thesis using Val m n u
        by (auto simp: pbind_def srv_part_def pval_def exec_def split: prod.split reply.split)
    next
      case (Err e)
      then have "q = Err e" using c m n by (cases q) auto
      then show ?thesis using Err m n u
        by (auto simp: srv_part_def split: prod.split)
    qed (use c m n u in \<open>cases q; auto\<close>)+
  qed
qed

lemma streams_if: "(P \<Longrightarrow> streams m n b b') \<Longrightarrow> (\<not> P \<Longrightarrow> streams m' n' b b') \<Longrightarrow>
   streams (if P then m else m') (if P then n else n') b b'"
  by simp

lemma pbind_ValE:
  assumes "pbind m f s = (Val y, t)"
  obtains x u where "m s = (Val x, u)" and "f x u = (Val y, t)"
  using assms by (auto simp: pbind_def split: prod.splits run.splits)

lemma pbind_pval [simp]: "pbind (pval x) f = f x"
  by (simp add: pbind_def pval_def)

text \<open>The whole delta, with both bodies framed.\<close>

lemma apply_delta_streams:
  assumes "length u < 2 ^ 32" and "length d < 2 ^ 32"
  shows "streams (apply_delta srv meta u d n_upserts n_deletes False) (apply_delta_streaming srv meta n_upserts n_deletes)
    (write_u32_prefixed u @ write_u32_prefixed d @ rest) rest"
proof -
  have "streams (apply_deletes srv meta d False)
      (pbind (srv_part (exec srv (Copy_In (copy_del_sql meta)))) (\<lambda>_.
       pbind (relay_body srv) (\<lambda>_. srv_part (exec srv (Execute (delete_sql meta))))))
      (write_u32_prefixed d @ rest) rest"
    unfolding apply_deletes_def if_False pbind_pval
    by (rule streams_pbind [OF streams_srv_part], rule streams_pbind [OF streams_relay [OF assms(2)]],
        rule streams_unit_right, rule streams_srv_part)
  then have dels: "streams (if n_deletes > 0 then apply_deletes srv meta d False else pval ())
      (if n_deletes > 0
       then pbind (srv_part (exec srv (Copy_In (copy_del_sql meta)))) (\<lambda>_.
         pbind (relay_body srv) (\<lambda>_. srv_part (exec srv (Execute (delete_sql meta)))))
       else drain_body) (write_u32_prefixed d @ rest) rest"
    using streams_drain [OF assms(2)] by (cases "n_deletes > 0") simp_all
  show ?thesis
    unfolding apply_delta_def apply_delta_streaming_def
    by (rule streams_transact, rule streams_pbind [OF streams_srv_part], rule streams_pbind [OF streams_srv_part],
        rule streams_pbind [OF streams_srv_part], rule streams_pbind [OF streams_relay [OF assms(1)]],
        rule streams_pbind [OF dels], rule streams_pbind [OF streams_srv_part], rule streams_srv_part)
qed

section \<open>All or nothing\<close>

text \<open>
  What the code relies on: after a rollback the data are those before the transaction, whatever
  statements it had, and a refused \<open>BEGIN\<close> or \<open>COMMIT\<close> changes nothing. \<open>view\<close> is what other
  sessions see. The last point leaves out a connection that breaks after the server has committed and
  before its answer arrives: the code then takes a delta for refused that has been applied.
\<close>

definition plain_call :: "call \<Rightarrow> bool" where
  "plain_call c \<longleftrightarrow> (case c of Execute sql \<Rightarrow> sql \<notin> {lit ''BEGIN'', lit ''COMMIT'', lit ''ROLLBACK''}
     | Batch sql \<Rightarrow> False | Connect db \<Rightarrow> False | _ \<Rightarrow> True)"

definition calls :: "'s server \<Rightarrow> call list \<Rightarrow> 's \<Rightarrow> 's" where
  "calls srv cs s = fold (\<lambda>c s. snd (srv s c)) cs s"

definition transactional :: "'s server \<Rightarrow> ('s \<Rightarrow> 'v) \<Rightarrow> bool" where
  "transactional srv view \<longleftrightarrow>
     (\<forall>s cs. list_all plain_call cs \<longrightarrow>
       view (calls srv (Execute (lit ''BEGIN'') # cs @ [Execute (lit ''ROLLBACK'')]) s) = view s) \<and>
     (\<forall>s code s'. srv s (Execute (lit ''BEGIN'')) = (Refused code, s') \<longrightarrow> view s' = view s) \<and>
     (\<forall>s cs t code s'. list_all plain_call cs \<longrightarrow> t = calls srv (Execute (lit ''BEGIN'') # cs) s \<longrightarrow>
       srv t (Execute (lit ''COMMIT'')) = (Refused code, s') \<longrightarrow> view s' = view s)"

lemma calls_simps [simp]:
  "calls srv [] s = s" "calls srv (c # cs) s = calls srv cs (snd (srv s c))"
  "calls srv (cs @ ds) s = calls srv ds (calls srv cs s)"
  by (simp_all add: calls_def)

lemma lit_simps: "lit (c # s) = of_char c # lit s" "lit [] = []"
  by (simp_all add: lit_def)

lemma plain_sql:
  "plain_call (Execute (lit ''DROP TABLE IF EXISTS '' @ x))" "plain_call (Execute (lit ''CREATE TEMP TABLE '' @ x))"
  "plain_call (Execute (delete_sql meta))" "plain_call (Execute (build_upsert_sql meta src))"
  "plain_call (Copy_In x)" "plain_call (Copy_Done b)" "plain_call (Query_One x)" "plain_call Copy_Drop"
  by (simp_all add: plain_call_def delete_sql_def build_upsert_sql_def Let_def lit_simps)

text \<open>
  The interface of a merge to its client: a call reaches the server, which is a part of the state.
  \<open>only_plain m\<close>: the program makes plain_call calls only and does not panic.
\<close>

locale client =
  fixes srv :: "'s server" and cl :: "call \<Rightarrow> ('t, nat) pgm" and get :: "'t \<Rightarrow> 's"
  assumes cl_result: "fst (cl c t) = fst (exec srv c (get t))"
    and cl_state: "get (snd (cl c t)) = snd (srv (get t) c)"
begin

definition only_plain :: "('t, 'a) pgm \<Rightarrow> bool" where
  "only_plain m \<longleftrightarrow> (\<forall>s. safe (fst (m s)) \<and> (\<exists>cs. list_all plain_call cs \<and> get (snd (m s)) = calls srv cs (get s)))"

lemma only_plain_pval: "only_plain (pval x)"
  by (auto simp: only_plain_def pval_def intro: exI [of _ "[]"])

lemma exec_safe: "safe (fst (exec srv c s))"
  by (simp add: exec_def split: prod.split reply.split)

lemma only_plain_cl: "plain_call c \<Longrightarrow> only_plain (cl c)"
  unfolding only_plain_def cl_result cl_state using exec_safe by (auto intro: exI [of _ "[c]"])

lemma only_plain_pbind:
  assumes "only_plain m" and "\<And>x. only_plain (f x)"
  shows "only_plain (pbind m f)"
  unfolding only_plain_def
proof
  fix s
  obtain r t where m: "m s = (r, t)" by (cases "m s")
  obtain cs where cs: "safe r" "list_all plain_call cs" "get t = calls srv cs (get s)"
    using assms(1) m unfolding only_plain_def by (metis fst_conv snd_conv)
  show "safe (fst (pbind m f s)) \<and> (\<exists>cs. list_all plain_call cs \<and> get (snd (pbind m f s)) = calls srv cs (get s))"
  proof (cases r)
    case (Val x)
    obtain ds where "safe (fst (f x t))" "list_all plain_call ds" "get (snd (f x t)) = calls srv ds (get t)"
      using assms(2) [of x] unfolding only_plain_def by blast
    then show ?thesis using m Val cs by (auto simp: pbind_def intro!: exI [of _ "cs @ ds"])
  qed (use m cs in \<open>auto simp: pbind_def\<close>)
qed

lemma only_plain_if: "only_plain m \<Longrightarrow> only_plain n \<Longrightarrow> only_plain (if b then m else n)"
  by simp

lemmas only_plain_intros = only_plain_pbind only_plain_pval only_plain_cl only_plain_if

lemma transact_safe:
  assumes "only_plain m"
  shows "safe (fst (transact cl m s))"
proof -
  have cl: "(\<exists>n. q = Val n) \<or> (\<exists>e. q = Err e)" if "cl c u = (q, v)" for c u q v
    using cl_result [of c u] that by (auto simp: exec_def split: prod.splits reply.splits)
  obtain q t where b: "cl (Execute (lit ''BEGIN'')) s = (q, t)" by (cases "cl (Execute (lit ''BEGIN'')) s")
  obtain p u where m: "m t = (p, u)" by (cases "m t")
  obtain q' v where c: "cl (Execute (lit ''COMMIT'')) u = (q', v)" by (cases "cl (Execute (lit ''COMMIT'')) u")
  have "safe p" using assms m unfolding only_plain_def by (metis fst_conv)
  then show ?thesis using cl [OF b] cl [OF c] b m c
    by (cases p) (auto simp: transact_def pbind_def pval_def)
qed

lemma all_or_nothing:
  assumes "transactional srv view" and "only_plain m" and "transact cl m s = (r, s')" and "r \<noteq> Val ()"
  shows "view (get s') = view (get s) \<and> (\<exists>e. r = Err e)"
proof -
  let ?call = "\<lambda>sql. Execute (lit sql)"
  obtain q0 t where b: "cl (?call ''BEGIN'') s = (q0, t)" by (cases "cl (?call ''BEGIN'') s")
  have srv: "snd (srv (get u) (?call sql)) = get v" if "cl (?call sql) u = (q, v)" for sql u q v
    using cl_state [of "?call sql" u] that by simp
  have refused: "\<exists>code. srv (get u) (?call sql) = (Refused code, get v)" if "cl (?call sql) u = (Err e, v)" for sql u e v
    using cl_result [of "?call sql" u] cl_state [of "?call sql" u] that
    by (auto simp: exec_def split: prod.splits reply.splits)
  have q: "(\<exists>n. q = Val n) \<or> (\<exists>e. q = Err e)" if "cl (?call sql) u = (q, v)" for sql u q v
    using cl_result [of "?call sql" u] that by (auto simp: exec_def split: prod.splits reply.splits)
  consider e where "q0 = Err e" | n where "q0 = Val n" using q [OF b] by blast
  then show ?thesis
  proof cases
    case 1
    then have "r = Err e" "s' = t" using assms(3) b by (simp_all add: transact_def pbind_def)
    then show ?thesis using assms(1) refused [of "''BEGIN''" s e t] b 1 unfolding transactional_def by blast
  next
    case 2
    obtain p u where m: "m t = (p, u)" by (cases "m t")
    obtain cs where cs: "safe p" "list_all plain_call cs" "get u = calls srv cs (get t)"
      using assms(2) m unfolding only_plain_def by (metis fst_conv snd_conv)
    have u: "get u = calls srv (?call ''BEGIN'' # cs) (get s)" using cs(3) srv [OF b] by simp
    show ?thesis
    proof (cases p)
      case (Val x)
      obtain q1 v where c: "cl (?call ''COMMIT'') u = (q1, v)" by (cases "cl (?call ''COMMIT'') u")
      from q [OF c] obtain e where e: "q1 = Err e" "r = Err e" "s' = v"
        using assms(3,4) b 2 m Val c by (auto simp: transact_def pbind_def pval_def)
      then show ?thesis using assms(1) cs(2) u refused [of "''COMMIT''" u e v] c unfolding transactional_def by blast
    next
      case (Err e)
      obtain q1 v where c: "cl (?call ''ROLLBACK'') u = (q1, v)" by (cases "cl (?call ''ROLLBACK'') u")
      then have "r = Err e" "s' = v" using assms(3) b 2 m Err by (auto simp: transact_def pbind_def)
      moreover have "view (calls srv (?call ''BEGIN'' # cs @ [?call ''ROLLBACK'']) (get s)) = view (get s)"
        using assms(1) cs(2) unfolding transactional_def by blast
      ultimately show ?thesis using u srv [OF c] by simp
    qed (use cs in simp_all)
  qed
qed

lemma success_commits:
  assumes "only_plain m" and "transact cl m s = (Val (), s')"
  shows "\<exists>cs n. list_all plain_call cs \<and> srv (calls srv (Execute (lit ''BEGIN'') # cs) (get s)) (Execute (lit ''COMMIT'')) =
    (Rows n, get s')"
proof -
  let ?call = "\<lambda>sql. Execute (lit sql)"
  obtain q0 t where b: "cl (?call ''BEGIN'') s = (q0, t)" by (cases "cl (?call ''BEGIN'') s")
  obtain p u where m: "m t = (p, u)" by (cases "m t")
  obtain q1 v where c: "cl (?call ''COMMIT'') u = (q1, v)" by (cases "cl (?call ''COMMIT'') u")
  have "q0 \<noteq> Hang" "q0 \<noteq> Panic" "q1 \<noteq> Hang" "q1 \<noteq> Panic"
    using cl_result [of "?call ''BEGIN''" s] cl_result [of "?call ''COMMIT''" u] exec_safe b c by (auto simp: safe_iff)
  then obtain n where n: "q1 = Val n" "s' = v" using assms(2) b m c
    by (cases q0; cases p; cases q1) (auto simp: transact_def pbind_def pval_def)
  obtain cs where cs: "list_all plain_call cs" "get u = calls srv cs (get t)"
    using assms(1) m unfolding only_plain_def by (metis snd_conv)
  have "get t = snd (srv (get s) (?call ''BEGIN''))" using cl_state [of "?call ''BEGIN''" s] b by simp
  then have u: "get u = calls srv (?call ''BEGIN'' # cs) (get s)" using cs(2) by simp
  have "srv (get u) (?call ''COMMIT'') = (Rows n, get v)"
    using cl_result [of "?call ''COMMIT''" u] cl_state [of "?call ''COMMIT''" u] c n(1)
    by (auto simp: exec_def split: prod.splits reply.splits)
  then show ?thesis using cs(1) u n(2) by auto
qed

end

interpretation direct: client srv "exec srv" id for srv
  by unfold_locales (auto simp: exec_def split: prod.split reply.split)

interpretation streamed: client srv "\<lambda>c. srv_part (exec srv c)" fst for srv
  by unfold_locales (auto simp: exec_def srv_part_def split: prod.split reply.split)

lemma direct_try_exec: "plain_call c \<Longrightarrow> direct.only_plain srv (try_exec srv c)"
  by (auto simp: direct.only_plain_def try_exec_def intro!: exI [of _ "[c]"])

lemmas direct_intros = direct.only_plain_intros direct_try_exec plain_sql

lemma direct_parts:
  "direct.only_plain srv (drop_tmps srv meta)" "direct.only_plain srv (create_tmps srv meta)"
  "direct.only_plain srv (apply_deletes srv meta delete_buf debug)" "direct.only_plain srv (apply_upserts srv meta n)"
  unfolding drop_tmps_def create_tmps_def apply_deletes_def apply_upserts_def
  by (intro direct_intros)+

lemma streamed_part: "direct.only_plain srv m \<Longrightarrow> streamed.only_plain srv (srv_part m)"
  unfolding direct.only_plain_def streamed.only_plain_def by (auto simp: srv_part_def split: prod.split; metis fst_conv snd_conv)

lemma copy_prefixed_safe: "safe (fst (copy_u32_prefixed body))"
  by (simp add: copy_u32_prefixed_def read_exact_def Let_def)

lemma streamed_bodies: "streamed.only_plain srv (relay_body srv)" "streamed.only_plain srv drain_body"
proof -
  show "streamed.only_plain srv (relay_body srv)"
    unfolding streamed.only_plain_def
  proof
    fix s :: "'a \<times> bytes"
    obtain t body where s: "s = (t, body)" by (cases s)
    obtain r data rest where c: "copy_u32_prefixed body = (r, data, rest)" by (cases "copy_u32_prefixed body")
    then have "safe r" using copy_prefixed_safe [of body] by simp
    have sent: "streamed.only_plain srv (srv_part (exec srv (Copy_Done data)))"
      by (intro streamed.only_plain_cl plain_sql)
    show "safe (fst (relay_body srv s)) \<and> (\<exists>cs. list_all plain_call cs \<and> fst (snd (relay_body srv s)) = calls srv cs (fst s))"
    proof (cases r)
      case (Val n)
      then show ?thesis using sent s c unfolding streamed.only_plain_def by (simp add: relay_body_def)
    next
      case (Err e)
      then show ?thesis using s c plain_sql by (auto simp: relay_body_def intro!: exI [of _ "[Copy_Drop]"])
    qed (use \<open>safe r\<close> in simp_all)
  qed
  show "streamed.only_plain srv drain_body"
    unfolding streamed.only_plain_def drain_body_def
    using copy_prefixed_safe by (auto split: prod.split intro!: exI [of _ "[]"]; metis fst_conv)
qed

lemma apply_delta_safe: "safe (fst (apply_delta srv meta upsert_buf delete_buf n_upserts n_deletes debug s))"
  unfolding apply_delta_def by (rule direct.transact_safe) (simp add: direct_intros direct_parts)

section \<open>Splitting the column list\<close>

definition no_comma :: "str \<Rightarrow> bool" where
  "no_comma s \<longleftrightarrow> (\<forall>a b. s \<noteq> a @ [44, 32] @ b)"

lemma no_comma_tl: "no_comma (c # s) \<Longrightarrow> no_comma s \<and> \<not> (c = 44 \<and> take 1 s = [32])"
proof -
  assume a: "no_comma (c # s)"
  have "no_comma s" unfolding no_comma_def
  proof (intro allI notI)
    fix x y assume "s = x @ [44, 32] @ y"
    then have "c # s = (c # x) @ [44, 32] @ y" by simp
    with a show False unfolding no_comma_def by blast
  qed
  moreover have "\<not> (c = 44 \<and> take 1 s = [32])"
  proof
    assume h: "c = 44 \<and> take 1 s = [32]"
    then have "c # s = [] @ [44, 32] @ drop 1 s" by (cases s) auto
    with a show False unfolding no_comma_def by blast
  qed
  ultimately show ?thesis by blast
qed

lemma split_comma_column:
  "no_comma x \<Longrightarrow> split_comma acc x = [acc @ x]"
  "no_comma x \<Longrightarrow> split_comma acc (x @ [44, 32] @ rest) = (acc @ x) # split_comma [] rest"
proof (induction x arbitrary: acc)
  case (Cons c x)
  {
    case 1
    from no_comma_tl [OF 1] show ?case using Cons.IH(1) by (cases x) auto
  next
    case 2
    from no_comma_tl [OF 2] show ?case using Cons.IH(2) by (cases x) auto
  }
qed simp_all

lemma split_comma_join:
  "cols \<noteq> [] \<Longrightarrow> list_all no_comma cols \<Longrightarrow> split_comma [] (join (lit '', '') cols) = cols"
proof (induction cols)
  case (Cons x cols)
  note IH = Cons.IH and prems = Cons.prems
  show ?case
  proof (cases cols)
    case Nil
    then show ?thesis using prems by (simp add: split_comma_column)
  next
    case (Cons y ys)
    then have "join (lit '', '') (x # cols) = x @ [44, 32] @ join (lit '', '') cols" by (simp add: lit_simps)
    then show ?thesis using IH prems Cons split_comma_column(2) [of x "[]"] by simp
  qed
qed simp

lemma apply_delta_streaming_framed:
  assumes "length u < 2 ^ 32" and "length d < 2 ^ 32"
  shows "\<exists>left. apply_delta_streaming srv meta n_upserts n_deletes (s, write_u32_prefixed u @ write_u32_prefixed d @ rest) =
      (fst (apply_delta srv meta u d n_upserts n_deletes False s),
       (snd (apply_delta srv meta u d n_upserts n_deletes False s), left)) \<and>
    (fst (apply_delta srv meta u d n_upserts n_deletes False s) = Val () \<longrightarrow> left = rest)"
proof -
  have unit: "map_run (\<lambda>_. ()) r = r" for r :: "unit run" by (cases r) auto
  let ?bodies = "write_u32_prefixed u @ write_u32_prefixed d @ rest"
  obtain left where
    "fst (apply_delta_streaming srv meta n_upserts n_deletes (s, ?bodies)) =
       fst (apply_delta srv meta u d n_upserts n_deletes False s)"
    "snd (apply_delta_streaming srv meta n_upserts n_deletes (s, ?bodies)) =
       (snd (apply_delta srv meta u d n_upserts n_deletes False s), left)"
    "returns (fst (apply_delta srv meta u d n_upserts n_deletes False s)) \<longrightarrow> left = rest"
    using apply_delta_streams [OF assms, of srv meta n_upserts n_deletes rest]
    unfolding streams_def unit by blast
  then show ?thesis by (intro exI [of _ left]) (simp add: prod_eq_iff)
qed

section \<open>Properties\<close>

text \<open>
  The merge statement updates exactly the columns that are not in the key, in their order,
  and degrades to \<open>DO NOTHING\<close> when there is none, for column names without a comma followed by
  a blank.
\<close>

theorem build_upsert_sql_correct:
  assumes "cols \<noteq> []" and "list_all no_comma cols" and "mm_cols_csv meta = join (lit '', '') cols"
  shows "\<exists>stem. build_upsert_sql meta src =
    (if set cols \<subseteq> set (mm_pk_col_names meta) then stem @ lit ''DO NOTHING''
     else stem @ lit ''DO UPDATE SET '' @
       join (lit '', '') (map (\<lambda>c. c @ lit '' = EXCLUDED.'' @ c) (filter (\<lambda>c. c \<notin> set (mm_pk_col_names meta)) cols)))"
proof -
  have cols: "split_comma [] (mm_cols_csv meta) = cols"
    using assms split_comma_join by simp
  have "map excluded (filter (\<lambda>cn. cn \<notin> set (mm_pk_col_names meta)) cols) = [] \<longleftrightarrow> set cols \<subseteq> set (mm_pk_col_names meta)"
    by (auto simp: filter_empty_conv)
  moreover have "excluded = (\<lambda>c. c @ lit '' = EXCLUDED.'' @ c)" by (rule ext) (simp add: excluded_def)
  ultimately show ?thesis
    unfolding build_upsert_sql_def cols Let_def by (simp only: append_assoc if_distrib [of "(@) _"]) auto
qed

text \<open>
  C16. The streaming merge of the gateway does to the server exactly what the merge from memory
  does: fed with the two framed bodies, it gives the same outcome and leaves the server in the same
  state, and on success it has read the two bodies and nothing more.
\<close>

theorem streaming_merge_agrees:
  assumes "length u < 2 ^ 32" and "length d < 2 ^ 32"
  shows "\<exists>left. apply_delta_streaming srv meta n_upserts n_deletes (s, write_u32_prefixed u @ write_u32_prefixed d @ rest) =
      (fst (apply_delta srv meta u d n_upserts n_deletes False s),
       (snd (apply_delta srv meta u d n_upserts n_deletes False s), left)) \<and>
    (fst (apply_delta srv meta u d n_upserts n_deletes False s) = Val () \<longrightarrow> left = rest)"
  by (rule apply_delta_streaming_framed [OF assms])

text \<open>The merge without its transaction makes plain calls only, for the delta in memory and the streamed one.\<close>

lemma apply_delta_plain:
  "\<exists>m. direct.only_plain srv m \<and> apply_delta srv meta upsert_buf delete_buf n_upserts n_deletes debug = transact (exec srv) m"
  unfolding apply_delta_def
  by (intro exI conjI, rule_tac [2] refl) (simp add: direct_intros direct_parts)

lemma apply_delta_streaming_plain:
  "\<exists>m. streamed.only_plain srv m \<and>
     apply_delta_streaming srv meta n_upserts n_deletes = transact (\<lambda>c. srv_part (exec srv c)) m"
  unfolding apply_delta_streaming_def
  by (intro exI conjI, rule_tac [2] refl)
    (simp add: streamed.only_plain_intros plain_sql streamed_part streamed_bodies direct_parts)

text \<open>
  C14. Every outcome of a merge is a success or an error. On a server that keeps to its transactions,
  refuses no \<open>BEGIN\<close> and no \<open>COMMIT\<close> after which something has changed all the same, and for
  whatever other statement of the merge it refuses, also when the streamed body ends too soon, an
  error leaves the data that other sessions see as they were. A success is one transaction, which
  the server has accepted the \<open>COMMIT\<close> of, with no other begin or end of a transaction in it; what
  the transaction does to the table is not part of this.
\<close>

theorem failed_merge_changes_nothing:
  assumes "transactional srv view"
    and "(r, s') = apply_delta srv meta upsert_buf delete_buf n_upserts n_deletes debug s \<or>
      (\<exists>body rest. (r, (s', rest)) = apply_delta_streaming srv meta n_upserts n_deletes (s, body))"
  shows "(case r of
      Val _ \<Rightarrow> \<exists>cs n. list_all plain_call cs \<and>
        srv (calls srv (Execute (lit ''BEGIN'') # cs) s) (Execute (lit ''COMMIT'')) = (Rows n, s')
    | Err e \<Rightarrow> view s' = view s | _ \<Rightarrow> False)"
  using assms(2)
proof (elim disjE exE)
  assume run: "(r, s') = apply_delta srv meta upsert_buf delete_buf n_upserts n_deletes debug s"
  obtain m where m: "direct.only_plain srv m"
    "apply_delta srv meta upsert_buf delete_buf n_upserts n_deletes debug = transact (exec srv) m"
    using apply_delta_plain by blast
  then have t: "transact (exec srv) m s = (r, s')" using run by simp
  show ?thesis
  proof (cases "r = Val ()")
    case True
    then show ?thesis using direct.success_commits [OF m(1)] t by simp
  next
    case False
    then show ?thesis using direct.all_or_nothing [OF assms(1) m(1) t] by auto
  qed
next
  fix body rest
  assume run: "(r, (s', rest)) = apply_delta_streaming srv meta n_upserts n_deletes (s, body)"
  obtain m where m: "streamed.only_plain srv m"
    "apply_delta_streaming srv meta n_upserts n_deletes = transact (\<lambda>c. srv_part (exec srv c)) m"
    using apply_delta_streaming_plain by blast
  then have t: "transact (\<lambda>c. srv_part (exec srv c)) m (s, body) = (r, (s', rest))" using run by simp
  show ?thesis
  proof (cases "r = Val ()")
    case True
    then show ?thesis using streamed.success_commits [OF m(1), of "(s, body)" "(s', rest)"] t by simp
  next
    case False
    then show ?thesis using streamed.all_or_nothing [OF assms(1) m(1) t] by auto
  qed
qed

text \<open>
  A small server for the witness: the committed log of calls, and the log of the open transaction;
  it refuses the end of a \<open>COPY\<close> without data.
\<close>

definition toy_server :: "(call list \<times> call list option) server" where
  "toy_server = (\<lambda>(done, open_tx) c.
     if c = Execute (lit ''BEGIN'') then (Rows 0, (done, Some done))
     else if c = Execute (lit ''COMMIT'') then (Rows 0, (case open_tx of Some w \<Rightarrow> w | None \<Rightarrow> done, None))
     else if c = Execute (lit ''ROLLBACK'') then (Rows 0, (done, None))
     else
       (if c = Copy_Done [] then Refused (lit ''57014'') else Rows 1,
        case open_tx of Some w \<Rightarrow> (done, Some (c # w)) | None \<Rightarrow> (c # done, None)))"

lemma toy_plain: "list_all plain_call cs \<Longrightarrow> \<exists>w'. calls toy_server cs (d, Some w) = (d, Some w')"
proof (induction cs arbitrary: w)
  case (Cons c cs)
  have "plain_call c" using Cons.prems by simp
  then have "snd (toy_server (d, Some w) c) = (d, Some (c # w))" by (auto simp: toy_server_def plain_call_def)
  then show ?case using Cons by simp
qed simp

lemma toy_transactional: "transactional toy_server fst"
  unfolding transactional_def
proof (intro conjI allI impI)
  fix s :: "call list \<times> call list option" and cs
  obtain d w where s: "s = (d, w)" by (cases s)
  assume "list_all plain_call cs"
  then obtain w' where w': "calls toy_server cs (d, Some d) = (d, Some w')" using toy_plain by blast
  have b: "snd (toy_server (d, w) (Execute (lit ''BEGIN''))) = (d, Some d)" by (simp add: toy_server_def)
  show "fst (calls toy_server (Execute (lit ''BEGIN'') # cs @ [Execute (lit ''ROLLBACK'')]) s) = fst s"
    by (simp add: s b w') (simp add: toy_server_def lit_simps)
next
  fix s :: "call list \<times> call list option" and code s'
  assume "toy_server s (Execute (lit ''BEGIN'')) = (Refused code, s')"
  then show "fst s' = fst s" by (simp add: toy_server_def split: prod.splits)
next
  fix s t s' :: "call list \<times> call list option" and cs code
  assume "toy_server t (Execute (lit ''COMMIT'')) = (Refused code, s')"
  then show "fst s' = fst s" by (simp add: toy_server_def lit_simps split: prod.splits)
qed

definition toy_meta :: merge_meta where
  "toy_meta = \<lparr>mm_pg_table = [116], mm_cols_csv = [97, 44, 32, 98], mm_pk_csv = [97], mm_pk_col_names = [[97]]\<rparr>"

theorem failed_merge_changes_nothing_witness:
  "\<exists>e s'. apply_delta toy_server toy_meta [] [] 1 0 False ([], None) = (Err e, s') \<and> fst s' = []"
proof -
  have "fst (apply_delta toy_server toy_meta [] [] 1 0 False ([], None)) \<noteq> Val ()"
    by (simp add: apply_delta_def transact_def pbind_def drop_tmps_def create_tmps_def try_exec_def exec_def
        toy_server_def lit_simps split: prod.split)
  moreover obtain r s' where run: "apply_delta toy_server toy_meta [] [] 1 0 False ([], None) = (r, s')"
    by (cases "apply_delta toy_server toy_meta [] [] 1 0 False ([], None)")
  ultimately show ?thesis
    using failed_merge_changes_nothing [OF toy_transactional disjI1, OF run [symmetric]] by (cases r) auto
qed

theorem build_upsert_sql_correct_witness:
  "\<exists>stem. build_upsert_sql toy_meta [115] =
    (if set [[97], [98]] \<subseteq> set (mm_pk_col_names toy_meta) then stem @ lit ''DO NOTHING''
     else stem @ lit ''DO UPDATE SET '' @
       join (lit '', '') (map (\<lambda>c. c @ lit '' = EXCLUDED.'' @ c) (filter (\<lambda>c. c \<notin> set (mm_pk_col_names toy_meta)) [[97], [98]])))"
proof (rule build_upsert_sql_correct)
  show "list_all no_comma [[97], [98]]" by (simp add: no_comma_def Cons_eq_append_conv)
qed (simp_all add: toy_meta_def lit_simps)

theorem streaming_merge_agrees_witness:
  "\<exists>left. apply_delta_streaming toy_server toy_meta 1 0 (([], None), write_u32_prefixed [1] @ write_u32_prefixed [] @ [9]) =
      (fst (apply_delta toy_server toy_meta [1] [] 1 0 False ([], None)),
       (snd (apply_delta toy_server toy_meta [1] [] 1 0 False ([], None)), left)) \<and>
    (fst (apply_delta toy_server toy_meta [1] [] 1 0 False ([], None)) = Val () \<longrightarrow> left = [9])"
  by (rule streaming_merge_agrees) simp_all

end
