(* ===== verification/Schema.thy ===== *)
theory Schema
  imports Copy_Stream Pk_Flat Merge
begin

text \<open>
  The PostgreSQL schema of a table, \<open>src/src/schema.rs\<close>: the type of a column, the \<open>CREATE TABLE\<close>
  statement, and its change to another table name by the gateway, \<open>src/src/bin/ingest.rs\<close>.
\<close>

section \<open>Types\<close>

definition fb_type_to_pg :: "desc \<Rightarrow> str" where
  "fb_type_to_pg d =
     (let ty = dtype d in
      if ty = DTYPE_TEXT \<or> ty = DTYPE_CSTRING then lit ''VARCHAR('' @ decimal (dlength d) @ lit '')''
      else if ty = DTYPE_VARYING then lit ''VARCHAR('' @ decimal (dlength d - 2) @ lit '')''
      else if ty = DTYPE_SHORT then (if scale d = 0 then lit ''SMALLINT'' else lit ''DOUBLE PRECISION'')
      else if ty = DTYPE_LONG then (if scale d = 0 then lit ''INTEGER'' else lit ''DOUBLE PRECISION'')
      else if ty = DTYPE_INT64 \<or> ty = DTYPE_QUAD then (if scale d = 0 then lit ''BIGINT'' else lit ''DOUBLE PRECISION'')
      else if ty = DTYPE_REAL then lit ''REAL''
      else if ty = DTYPE_DOUBLE \<or> ty = DTYPE_D_FLOAT then lit ''DOUBLE PRECISION''
      else if ty = DTYPE_SQL_DATE then lit ''DATE''
      else if ty = DTYPE_SQL_TIME \<or> ty = DTYPE_SQL_TIME_TZ then lit ''TIME''
      else if ty = DTYPE_TIMESTAMP \<or> ty = DTYPE_TIMESTAMP_TZ then lit ''TIMESTAMP''
      else if ty = DTYPE_BOOLEAN then lit ''BOOLEAN''
      else if ty = DTYPE_DBKEY then lit ''BYTEA''
      else lit ''TEXT'')"

section \<open>The statement\<close>

text \<open>The padding \<open>{:<42}\<close>.\<close>

definition pad :: "nat \<Rightarrow> str \<Rightarrow> str" where
  "pad n s = s @ replicate (n - length s) 32"

definition column_line :: "(str \<Rightarrow> str) \<Rightarrow> desc list \<Rightarrow> nat \<times> str \<Rightarrow> str" where
  "column_line lc descs = (\<lambda>(fid, name).
     let desc = (if fid < length descs then descs ! fid else default_zero)
     in lit ''    '' @ pad 42 (quoted (to_lowercase lc name)) @ lit '' '' @ fb_type_to_pg desc)"

definition create_table_sql_from ::
    "(nat \<Rightarrow> str) \<Rightarrow> (str \<Rightarrow> str) \<Rightarrow> ods \<Rightarrow> str \<Rightarrow> bool \<Rightarrow> str run" where
  "create_table_sql_from uc lc db table unlogged =
     rbind (find_relation_id uc db table) (\<lambda>relation_id.
     rbind (read_format db relation_id 65535) (\<lambda>descs.
     rbind (field_order_of uc db relation_id table descs) (\<lambda>field_order.
     rbind (ok_of (read_primary_key_fields uc db table)) (\<lambda>pks.
     let pk_fields = (case pks of Some v \<Rightarrow> if v = [] then None else Some v | None \<Rightarrow> None);
         pg_table = to_lowercase lc table;
         kw = (if unlogged then lit ''UNLOGGED '' else []);
         lines = map (column_line lc descs) field_order @
           (case pk_fields of
              Some pks \<Rightarrow>
                [lit ''    PRIMARY KEY ('' @ join (lit '', '') (map (\<lambda>n. quoted (to_lowercase lc n)) pks) @ lit '')'']
            | None \<Rightarrow> []);
         body = join (44 # [10]) lines
     in Val (lit ''CREATE '' @ kw @ lit ''TABLE '' @ quoted pg_table @ lit '' ('' @ [10] @ body @ [10] @ lit '');'')))))"

text \<open>\<open>find\<close> and \<open>replacen(.., 1)\<close>: the text around the first occurrence of a pattern.\<close>

fun find_str :: "str \<Rightarrow> str \<Rightarrow> (str \<times> str) option" where
  "find_str pat [] = (if pat = [] then Some ([], []) else None)"
| "find_str pat (c # s) =
     (if take (length pat) (c # s) = pat then Some ([], drop (length pat) (c # s))
      else map_option (\<lambda>(pre, post). (c # pre, post)) (find_str pat s))"

definition retarget_create :: "str \<Rightarrow> str \<Rightarrow> str \<Rightarrow> str option" where
  "retarget_create create_sql from to =
     (let needle = lit ''TABLE '' @ quoted from; repl = lit ''TABLE '' @ quoted to
      in map_option (\<lambda>(pre, post). pre @ repl @ post) (find_str needle create_sql))"

section \<open>Widths of the binary input\<close>

text \<open>
  The number of bytes that the receive function of a fixed-width PostgreSQL type expects, and the
  types that take any number of bytes.
\<close>

definition pg_recv_width :: "str \<Rightarrow> nat option" where
  "pg_recv_width ty =
     (if ty = lit ''BOOLEAN'' then Some 1
      else if ty = lit ''SMALLINT'' then Some 2
      else if ty \<in> {lit ''INTEGER'', lit ''REAL'', lit ''DATE''} then Some 4
      else if ty \<in> {lit ''BIGINT'', lit ''DOUBLE PRECISION'', lit ''TIME'', lit ''TIMESTAMP''} then Some 8
      else None)"

lemma varchar_width: "pg_recv_width (lit ''VARCHAR('' @ x) = None"
  by (simp add: pg_recv_width_def lit_simps)

lemma fixed_types:
  "pg_recv_width (lit ''SMALLINT'') = Some 2" "pg_recv_width (lit ''INTEGER'') = Some 4"
  "pg_recv_width (lit ''BIGINT'') = Some 8" "pg_recv_width (lit ''DOUBLE PRECISION'') = Some 8"
  "pg_recv_width (lit ''REAL'') = Some 4" "pg_recv_width (lit ''DATE'') = Some 4"
  "pg_recv_width (lit ''TIME'') = Some 8" "pg_recv_width (lit ''TIMESTAMP'') = Some 8"
  "pg_recv_width (lit ''BOOLEAN'') = Some 1" "pg_recv_width (lit ''BYTEA'') = None"
  "pg_recv_width (lit ''TEXT'') = None"
  by (simp_all add: pg_recv_width_def lit_simps)

lemma recv_width: "pg_recv_width (fb_type_to_pg d) = payload_width d"
proof -
  have "pg_recv_width (fb_type_to_pg d) =
      (let ty = dtype d in
       if ty = DTYPE_TEXT \<or> ty = DTYPE_CSTRING then None
       else if ty = DTYPE_VARYING then None
       else if ty = DTYPE_SHORT then (if scale d = 0 then Some 2 else Some 8)
       else if ty = DTYPE_LONG then (if scale d = 0 then Some 4 else Some 8)
       else if ty = DTYPE_INT64 \<or> ty = DTYPE_QUAD then (if scale d = 0 then Some 8 else Some 8)
       else if ty = DTYPE_REAL then Some 4
       else if ty = DTYPE_DOUBLE \<or> ty = DTYPE_D_FLOAT then Some 8
       else if ty = DTYPE_SQL_DATE then Some 4
       else if ty = DTYPE_SQL_TIME \<or> ty = DTYPE_SQL_TIME_TZ then Some 8
       else if ty = DTYPE_TIMESTAMP \<or> ty = DTYPE_TIMESTAMP_TZ then Some 8
       else if ty = DTYPE_BOOLEAN then Some 1
       else None)"
    unfolding fb_type_to_pg_def Let_def
    by (simp only: if_distrib [of pg_recv_width] fixed_types varchar_width if_cancel)
  then show ?thesis
    by (cases "dtype d \<in> {1, 2, 3, 8, 9, 10, 11, 12, 13, 14, 15, 16, 19, 20, 21, 25, 26}")
      (auto simp: payload_width_def Let_def dtype_defs)
qed

section \<open>The first occurrence\<close>

lemma find_str_here: "find_str pat (pat @ s) = Some ([], s)"
proof (cases "pat @ s")
  case (Cons c t)
  then have "take (length pat) (c # t) = pat" "drop (length pat) (c # t) = s" by (metis append_eq_conv_conj)+
  then show ?thesis unfolding Cons by simp
qed simp

lemma retarget_created:
  assumes "create_table_sql_from uc lc db table unlogged = Val sql"
  shows "\<exists>head tail. sql = head @ quoted (to_lowercase lc table) @ tail \<and>
    head = lit ''CREATE '' @ (if unlogged then lit ''UNLOGGED '' else []) @ lit ''TABLE '' \<and>
    retarget_create sql (to_lowercase lc table) staging = Some (head @ quoted staging @ tail)"
proof -
  let ?t = "to_lowercase lc table" and ?kw = "if unlogged then lit ''UNLOGGED '' else []"
  obtain tail where sql: "sql = lit ''CREATE '' @ ?kw @ lit ''TABLE '' @ quoted ?t @ tail"
    using assms by (auto simp: create_table_sql_from_def rbind_Val_iff Let_def)
  let ?pat = "lit ''TABLE '' @ quoted ?t"
  have "find_str ?pat (?pat @ tail) = Some ([], tail)" by (rule find_str_here)
  then have "find_str ?pat sql = Some (lit ''CREATE '' @ ?kw, tail)"
    unfolding sql append_assoc
    by (cases unlogged) (simp_all add: lit_simps quoted_def)
  then show ?thesis
    using sql by (intro exI [of _ "lit ''CREATE '' @ ?kw @ lit ''TABLE ''"] exI [of _ tail])
      (simp add: retarget_create_def)
qed

section \<open>Properties\<close>

text \<open>
  C29. Every column is created with a type that takes what the encoder writes into it: when the
  PostgreSQL type of a column has a fixed width, the field that is written is \<open>NULL\<close> or has
  exactly that many bytes of payload, for every type, scale and record.
\<close>

theorem schema_accepts_fields:
  assumes "write_field_binary rec d = Val out" and "pg_recv_width (fb_type_to_pg d) = Some w"
  shows "out = null_field \<or> length out = 4 + w"
  using write_field_width assms recv_width by simp

theorem schema_accepts_fields_witness:
  "write_field_binary [1, 5] (default_zero\<lparr>dtype := DTYPE_BOOLEAN, offset := 1\<rparr>) = Val (len_field [1]) \<and>
   (len_field [1 :: byte] = null_field \<or> length (len_field [1]) = 4 + 1)"
proof
  show w: "write_field_binary [1, 5] (default_zero\<lparr>dtype := DTYPE_BOOLEAN, offset := 1\<rparr>) = Val (len_field [1])"
    by (simp add: write_field_binary_def default_zero_def dtype_defs byte_at_def)
  have "fb_type_to_pg (default_zero\<lparr>dtype := DTYPE_BOOLEAN, offset := 1\<rparr>) = lit ''BOOLEAN''"
    by (simp add: fb_type_to_pg_def default_zero_def dtype_defs)
  then show "len_field [1 :: byte] = null_field \<or> length (len_field [1]) = 4 + 1"
    by (intro schema_accepts_fields [OF w]) (simp add: fixed_types)
qed

text \<open>
  The gateway can always derive the statement for its staging table: from a statement that
  the agent built for a table, retargeting by the lower-case name finds the table's name, and
  changes that name and nothing else, whatever the columns are called.
\<close>

theorem staging_ddl_derivable:
  assumes "create_table_sql_from uc lc db table unlogged = Val sql"
  shows "\<exists>head tail. sql = head @ quoted (to_lowercase lc table) @ tail \<and>
    head = lit ''CREATE '' @ (if unlogged then lit ''UNLOGGED '' else []) @ lit ''TABLE '' \<and>
    retarget_create sql (to_lowercase lc table) staging = Some (head @ quoted staging @ tail)"
  by (rule retarget_created [OF assms])

lemma sample_create: "\<exists>sql. create_table_sql_from uc lc sample_db (lit ''t'') False = Val sql"
  by (simp add: create_table_sql_from_def sample_db_relation sample_db_format field_order_of_def sample_db_no_names Let_def)

theorem staging_ddl_derivable_witness:
  "\<exists>sql head tail. create_table_sql_from (\<lambda>c. []) (\<lambda>s. s) sample_db (lit ''t'') False = Val sql \<and>
    sql = head @ quoted (to_lowercase (\<lambda>s. s) (lit ''t'')) @ tail \<and>
    retarget_create sql (to_lowercase (\<lambda>s. s) (lit ''t'')) [120] = Some (head @ quoted [120] @ tail)"
proof -
  obtain sql where sql: "create_table_sql_from (\<lambda>c. []) (\<lambda>s. s) sample_db (lit ''t'') False = Val sql"
    using sample_create by blast
  from staging_ddl_derivable [OF this, of "[120]"] sql show ?thesis by blast
qed

end
