(* ===== verification/Gateway.thy ===== *)
theory Gateway
  imports Schema
begin

text \<open>
  The push path: the gateway \<open>src/src/bin/ingest.rs\<close>, the remote sink of \<open>src/src/sink.rs\<close> and the full
  push of \<open>src/src/bin/agent.rs\<close>. A connection is the bytes the client sends and the bytes it gets
  back; TLS and the reading of the certificate are parameters (\<open>tenant\<close>), and so are \<open>serde_json\<close>,
  the way the transport cuts its reads (\<open>grant\<close>, \<open>gw_buf\<close>) and the text of an error (\<open>gw_show\<close>).
\<close>

section \<open>The context\<close>

record 's gateway =
  gw_srv :: "'s server"
  gw_lc :: "str \<Rightarrow> str"
  gw_show :: "error \<Rightarrow> str"
  gw_grant :: "nat \<Rightarrow> nat"
  gw_buf :: nat
  gw_tenants :: "str \<Rightarrow> str option"
  gw_dec_full :: "bytes \<Rightarrow> full_header option"
  gw_dec_delta :: "bytes \<Rightarrow> delta_header option"
  gw_enc_resp :: "resp \<Rightarrow> bytes option"

definition of_run :: "'a run \<Rightarrow> ('t, 'a) pgm" where
  "of_run r = (\<lambda>t. (r, t))"

definition parsed :: "'a option \<Rightarrow> ('t, 'a) pgm" where
  "parsed r = of_run (case r of Some h \<Rightarrow> Val h | None \<Rightarrow> Err (InvalidData ''json''))"

section \<open>Handlers\<close>

definition session_sql :: str where
  "session_sql = lit ''SET synchronous_commit = off; SET work_mem = '' @ [39] @ lit ''256MB'' @ [39] @ lit '';''"

definition connect_db :: "'s server \<Rightarrow> str \<Rightarrow> ('s, unit) pgm" where
  "connect_db srv dbname =
     (let into = pbind (exec srv (Connect dbname)) (\<lambda>_. pbind (exec srv (Batch session_sql)) (\<lambda>_. pval ()))
      in pbind (exec srv (Connect (lit ''postgres''))) (\<lambda>_ s.
           case srv s (Execute (lit ''CREATE DATABASE '' @ quoted dbname)) of
             (Refused code, s) \<Rightarrow> if code = lit ''42P04'' then into s else (Err (PgError code), s)
           | (Rows n, s) \<Rightarrow> into s))"

definition staging_of :: "str \<Rightarrow> str" where
  "staging_of pg_table = pg_table @ lit ''__load''"

definition swap_sql :: "str \<Rightarrow> str" where
  "swap_sql pg_table = lit ''BEGIN; DROP TABLE IF EXISTS '' @ quoted pg_table @ lit ''; ALTER TABLE '' @
     quoted (staging_of pg_table) @ lit '' RENAME TO '' @ quoted pg_table @ lit ''; COMMIT;''"

definition copy_staging_sql :: "str \<Rightarrow> str" where
  "copy_staging_sql pg_table = lit ''COPY '' @ quoted (staging_of pg_table) @ lit '' FROM STDIN WITH (FORMAT BINARY)''"

text \<open>\<open>io::copy\<close> from the chunk reader into the writer; whatever fails drops the writer.\<close>

definition relay_chunks :: "'s gateway \<Rightarrow> ('s \<times> bytes, nat) pgm" where
  "relay_chunks gw = (\<lambda>(s, body). case copy_chunks (gw_grant gw) (gw_buf gw) (chunk_reader_new body) of
       Val (data, cr) \<Rightarrow>
         if cr_done cr then srv_part (exec (gw_srv gw) (Copy_Done data)) (s, cr_inner cr)
         else (Err (InvalidData ''body ended before terminator''), (snd (gw_srv gw s Copy_Drop), cr_inner cr))
     | Err e \<Rightarrow> (Err e, (snd (gw_srv gw s Copy_Drop), []))
     | Panic \<Rightarrow> (Panic, (s, body))
     | Hang \<Rightarrow> (Hang, (s, body)))"

definition handle_full :: "'s gateway \<Rightarrow> bytes \<Rightarrow> str \<Rightarrow> ('s \<times> bytes, resp) pgm" where
  "handle_full gw header dbname =
     pbind (parsed (gw_dec_full gw header)) (\<lambda>h.
     let pg_table = to_lowercase (gw_lc gw) (fh_table h); staging = staging_of pg_table; srv = gw_srv gw in
     pbind (srv_part (connect_db srv dbname)) (\<lambda>_.
     case retarget_create (fh_create_sql h) pg_table staging of
       None \<Rightarrow> of_run (Err (InvalidData ''could not derive staging DDL''))
     | Some staging_ddl \<Rightarrow>
         pbind (srv_part (exec srv (Batch (lit ''DROP TABLE IF EXISTS '' @ quoted staging)))) (\<lambda>_.
         pbind (srv_part (exec srv (Batch staging_ddl))) (\<lambda>_.
         pbind (srv_part (exec srv (Copy_In (copy_staging_sql pg_table)))) (\<lambda>_.
         pbind (relay_chunks gw) (\<lambda>rows.
         pbind (srv_part (exec srv (Batch (swap_sql pg_table)))) (\<lambda>_.
         pval \<lparr>r_error = None, r_rows = rows, r_upserts = 0, r_deletes = 0\<rparr>)))))))"

definition delta_meta :: "(str \<Rightarrow> str) \<Rightarrow> delta_header \<Rightarrow> merge_meta" where
  "delta_meta lc h = \<lparr>mm_pg_table = to_lowercase lc (dh_table h), mm_cols_csv = dh_cols_csv h,
     mm_pk_csv = dh_pk_csv h, mm_pk_col_names = dh_pk_col_names h\<rparr>"

definition handle_delta :: "'s gateway \<Rightarrow> bytes \<Rightarrow> str \<Rightarrow> ('s \<times> bytes, resp) pgm" where
  "handle_delta gw header dbname =
     pbind (parsed (gw_dec_delta gw header)) (\<lambda>h.
     pbind (srv_part (connect_db (gw_srv gw) dbname)) (\<lambda>_.
     pbind (apply_delta_streaming (gw_srv gw) (delta_meta (gw_lc gw) h) (dh_n_upserts h) (dh_n_deletes h)) (\<lambda>_.
     pval \<lparr>r_error = None, r_rows = 0, r_upserts = dh_n_upserts h, r_deletes = dh_n_deletes h\<rparr>)))"

fun dispatch :: "'s gateway \<Rightarrow> op \<Rightarrow> bytes \<Rightarrow> str \<Rightarrow> ('s \<times> bytes, resp) pgm" where
  "dispatch gw Full header dbname = handle_full gw header dbname"
| "dispatch gw Delta header dbname = handle_delta gw header dbname"

text \<open>The outcome of the handler, the bytes sent back and the server.\<close>

definition handle_conn :: "'s gateway \<Rightarrow> str run \<Rightarrow> bytes \<Rightarrow> 's \<Rightarrow> unit run \<times> bytes \<times> 's" where
  "handle_conn gw tenant input s =
     (case read_request_header input of
        Val ((op, header), body) \<Rightarrow>
          (case tenant of
             Val cn \<Rightarrow>
               (case gw_tenants gw cn of
                  None \<Rightarrow>
                    (Err (InvalidData ''unknown tenant''),
                     (case write_response (gw_enc_resp gw) (resp_err (lit ''unknown tenant '' @ [39] @ cn @ [39])) of Val out \<Rightarrow> out | _ \<Rightarrow> []),
                     s)
                | Some dbname \<Rightarrow>
                    (case dispatch gw op header dbname (s, body) of
                       (Val resp, (s, body)) \<Rightarrow>
                         (case write_response (gw_enc_resp gw) resp of
                            Val out \<Rightarrow> (Val (), out, s) | Err e \<Rightarrow> (Err e, [], s) | Panic \<Rightarrow> (Panic, [], s) | Hang \<Rightarrow> (Hang, [], s))
                     | (Err e, (s, body)) \<Rightarrow>
                         (case write_response (gw_enc_resp gw) (resp_err (gw_show gw e)) of
                            Val out \<Rightarrow> (Err e, out, s) | Err e \<Rightarrow> (Err e, [], s) | Panic \<Rightarrow> (Panic, [], s) | Hang \<Rightarrow> (Hang, [], s))
                     | (Panic, (s, body)) \<Rightarrow> (Panic, [], s)
                     | (Hang, (s, body)) \<Rightarrow> (Hang, [], s)))
           | Err e \<Rightarrow> (Err e, [], s) | Panic \<Rightarrow> (Panic, [], s) | Hang \<Rightarrow> (Hang, [], s))
      | Err e \<Rightarrow> (Err e, [], s) | Panic \<Rightarrow> (Panic, [], s) | Hang \<Rightarrow> (Hang, [], s))"

section \<open>The client side\<close>

text \<open>
  \<open>dial\<close> is the outcome of opening the connection, \<open>exchange\<close> what the other side does with the
  bytes sent: the bytes it sends back and its next state.
\<close>

type_synonym 's exchange = "bytes \<Rightarrow> 's \<Rightarrow> bytes \<times> 's"

definition read_reply :: "(bytes \<Rightarrow> resp option) \<Rightarrow> bytes \<Rightarrow> resp run" where
  "read_reply dec_resp out =
     rbind (read_response dec_resp out) (\<lambda>resp.
       case r_error resp of Some msg \<Rightarrow> Err (SinkError msg) | None \<Rightarrow> Val resp)"

text \<open>\<open>RemoteSink::apply_delta\<close>\<close>

definition remote_apply_delta ::
    "(delta_header \<Rightarrow> bytes option) \<Rightarrow> (bytes \<Rightarrow> resp option) \<Rightarrow> unit run \<Rightarrow> 's exchange \<Rightarrow>
     merge_meta \<Rightarrow> bytes \<Rightarrow> bytes \<Rightarrow> nat \<Rightarrow> nat \<Rightarrow> ('s, unit) pgm" where
  "remote_apply_delta enc_delta dec_resp dial exchange meta upsert_buf delete_buf n_upserts n_deletes =
     pbind (of_run dial) (\<lambda>_.
     pbind (parsed (enc_delta \<lparr>dh_table = mm_pg_table meta, dh_cols_csv = mm_cols_csv meta, dh_pk_csv = mm_pk_csv meta,
         dh_pk_col_names = mm_pk_col_names meta, dh_n_upserts = n_upserts, dh_n_deletes = n_deletes\<rparr>)) (\<lambda>header s.
     case exchange (write_request_header Delta header @ write_u32_prefixed upsert_buf @ write_u32_prefixed delete_buf) s of
       (out, s) \<Rightarrow> pbind (of_run (read_reply dec_resp out)) (\<lambda>_. pval ()) s))"

text \<open>
  \<open>push_full\<close>. \<open>pieces\<close> is how the buffered writer cuts the stream; when the extraction fails, \<open>sent\<close>
  is what it had let through by then. The result is the number of rows read, of rows the gateway
  accepted and of bytes on the wire.
\<close>

definition push_full ::
    "(nat \<Rightarrow> str) \<Rightarrow> (str \<Rightarrow> str) \<Rightarrow> (full_header \<Rightarrow> bytes option) \<Rightarrow> (bytes \<Rightarrow> resp option) \<Rightarrow>
     (bytes \<Rightarrow> bytes list) \<Rightarrow> bytes list \<Rightarrow> unit run \<Rightarrow> 's exchange \<Rightarrow> ods \<Rightarrow> str \<Rightarrow> bool \<Rightarrow> ('s, nat \<times> nat \<times> nat) pgm" where
  "push_full uc lc enc_full dec_resp pieces sent dial exchange db table unlogged =
     pbind (of_run (create_table_sql_from uc lc db table unlogged)) (\<lambda>create_sql.
     pbind (of_run (find_relation_id uc db table)) (\<lambda>relation_id.
     pbind (of_run (copy_slots uc db relation_id table)) (\<lambda>(field_order, n_fields).
     pbind (of_run dial) (\<lambda>_.
     pbind (parsed (enc_full \<lparr>fh_table = table, fh_create_sql = create_sql\<rparr>)) (\<lambda>header s.
     let request = write_request_header Full header in
     case write_copy_stream db relation_id field_order n_fields of
       Val (stream, rows_read) \<Rightarrow>
         (let chunker = fold chunk_write (pieces stream) (chunk_writer_new []) in
          case exchange (request @ chunk_finish chunker) s of
            (out, s) \<Rightarrow> pbind (of_run (read_reply dec_resp out)) (\<lambda>resp. pval (rows_read, r_rows resp, cw_written chunker)) s)
     | Err e \<Rightarrow> (Err e, snd (exchange (request @ cw_inner (fold chunk_write sent (chunk_writer_new []))) s))
     | Panic \<Rightarrow> (Panic, snd (exchange (request @ cw_inner (fold chunk_write sent (chunk_writer_new []))) s))
     | Hang \<Rightarrow> (Hang, s))))))"

section \<open>Following a connection\<close>

lemma pbind_of_run [simp]: "pbind (of_run (Val x)) f = f x" "pbind (of_run (Err e)) f s = (Err e, s)"
  by (simp_all add: pbind_def of_run_def)

lemma parsed_simps [simp]: "parsed (Some h) = of_run (Val h)" "parsed None = of_run (Err (InvalidData ''json''))"
  by (simp_all add: parsed_def)

lemma pbind_step: "m s = (Val x, t) \<Longrightarrow> pbind m f s = f x t"
  by (simp add: pbind_def)

lemma pbind_fails: "m s = (Err e, t) \<Longrightarrow> pbind m f s = (Err e, t)"
  by (simp add: pbind_def)

lemma srv_part_step: "m s = (r, t) \<Longrightarrow> srv_part m (s, body) = (r, (t, body))"
  by (simp add: srv_part_def)

text \<open>A call succeeds with the reply of the server, or fails; both reach the server.\<close>

lemma exec_cases:
  obtains n where "exec srv c s = (Val n, snd (srv s c))" | e where "exec srv c s = (Err e, snd (srv s c))"
  by (cases "srv s c", cases "fst (srv s c)") (auto simp: exec_def)

definition full_calls :: "str \<Rightarrow> str \<Rightarrow> call list" where
  "full_calls pg_table ddl =
     [Batch (lit ''DROP TABLE IF EXISTS '' @ quoted (staging_of pg_table)), Batch ddl, Copy_In (copy_staging_sql pg_table)]"

lemma exec_prefix:
  assumes "exec srv c s = (r, t)"
  shows "t = snd (srv s c)" and "(\<exists>n. r = Val n) \<or> (\<exists>e. r = Err e)"
  using assms by (auto simp: exec_def split: prod.splits reply.splits)

text \<open>
  A full load after the connection: with a complete body the calls end with the swap, with a
  broken one they end with the writer dropped.
\<close>

lemma handle_full_complete:
  assumes "gw_dec_full gw header = Some h" and "connect_db (gw_srv gw) dbname s = (Val (), s1)"
    and "pg_table = to_lowercase (gw_lc gw) (fh_table h)"
    and "retarget_create (fh_create_sql h) pg_table (staging_of pg_table) = Some ddl"
    and "copy_chunks (gw_grant gw) (gw_buf gw) (chunk_reader_new body) = Val (data, cr)" and "cr_done cr"
    and "handle_full gw header dbname (s, body) = (Val resp, (s', left))"
  shows "s' = calls (gw_srv gw) (full_calls pg_table ddl @ [Copy_Done data, Batch (swap_sql pg_table)]) s1"
proof -
  let ?srv = "gw_srv gw"
  let ?drop = "Batch (lit ''DROP TABLE IF EXISTS '' @ quoted (staging_of pg_table))" and ?ddl = "Batch ddl"
    and ?copy = "Copy_In (copy_staging_sql pg_table)" and ?done = "Copy_Done data" and ?swap = "Batch (swap_sql pg_table)"
  obtain r2 s2 where c2: "exec ?srv ?drop s1 = (r2, s2)" by (cases "exec ?srv ?drop s1")
  obtain r3 s3 where c3: "exec ?srv ?ddl s2 = (r3, s3)" by (cases "exec ?srv ?ddl s2")
  obtain r4 s4 where c4: "exec ?srv ?copy s3 = (r4, s4)" by (cases "exec ?srv ?copy s3")
  obtain r5 s5 where c5: "exec ?srv ?done s4 = (r5, s5)" by (cases "exec ?srv ?done s4")
  obtain r6 s6 where c6: "exec ?srv ?swap s5 = (r6, s6)" by (cases "exec ?srv ?swap s5")
  note steps = c2 c3 c4 c5 c6
  have "s' = s6"
    using assms steps exec_prefix(2) [OF c2] exec_prefix(2) [OF c3] exec_prefix(2) [OF c4] exec_prefix(2) [OF c5]
      exec_prefix(2) [OF c6]
    by (auto simp: handle_full_def srv_part_def pbind_def relay_chunks_def pval_def of_run_def Let_def)
  then show ?thesis
    using exec_prefix(1) [OF c2] exec_prefix(1) [OF c3] exec_prefix(1) [OF c4] exec_prefix(1) [OF c5]
      exec_prefix(1) [OF c6] by (simp add: full_calls_def)
qed

lemma handle_full_broken:
  assumes "gw_dec_full gw header = Some h" and "connect_db (gw_srv gw) dbname s = (Val (), s1)"
    and "pg_table = to_lowercase (gw_lc gw) (fh_table h)"
    and "retarget_create (fh_create_sql h) pg_table (staging_of pg_table) = Some ddl"
    and "copy_chunks (gw_grant gw) (gw_buf gw) (chunk_reader_new body) = Err e"
  shows "\<exists>e n left. handle_full gw header dbname (s, body) =
    (Err e, (calls (gw_srv gw) (take n (full_calls pg_table ddl @ [Copy_Drop])) s1, left))"
proof -
  let ?srv = "gw_srv gw"
  let ?drop = "Batch (lit ''DROP TABLE IF EXISTS '' @ quoted (staging_of pg_table))" and ?ddl = "Batch ddl"
    and ?copy = "Copy_In (copy_staging_sql pg_table)"
  obtain r2 s2 where c2: "exec ?srv ?drop s1 = (r2, s2)" by (cases "exec ?srv ?drop s1")
  obtain r3 s3 where c3: "exec ?srv ?ddl s2 = (r3, s3)" by (cases "exec ?srv ?ddl s2")
  obtain r4 s4 where c4: "exec ?srv ?copy s3 = (r4, s4)" by (cases "exec ?srv ?copy s3")
  have start: "handle_full gw header dbname (s, body) =
      pbind (srv_part (exec ?srv ?drop)) (\<lambda>_. pbind (srv_part (exec ?srv ?ddl)) (\<lambda>_.
        pbind (srv_part (exec ?srv ?copy)) (\<lambda>_. pbind (relay_chunks gw) (\<lambda>rows.
        pbind (srv_part (exec ?srv (Batch (swap_sql pg_table)))) (\<lambda>_.
        pval \<lparr>r_error = None, r_rows = rows, r_upserts = 0, r_deletes = 0\<rparr>))))) (s1, body)"
    using assms(1,3,4) pbind_step [where m = "srv_part (connect_db (gw_srv gw) dbname)" and s = "(s, body)" and t = "(s1, body)"]
      srv_part_step [where m = "connect_db (gw_srv gw) dbname" and s = s and t = s1 and body = body] assms(2)
    by (simp add: handle_full_def Let_def)
  consider (drop) e' where "r2 = Err e'" | (ddl) n e' where "r2 = Val n" "r3 = Err e'"
    | (copy) n m e' where "r2 = Val n" "r3 = Val m" "r4 = Err e'" | (relay) n m k where "r2 = Val n" "r3 = Val m" "r4 = Val k"
    using exec_prefix(2) [OF c2] exec_prefix(2) [OF c3] exec_prefix(2) [OF c4] by blast
  then show ?thesis
  proof cases
    case drop
    then show ?thesis using c2 exec_prefix(1) [OF c2] unfolding start
      by (intro exI [of _ e'] exI [of _ 1] exI [of _ body]) (simp add: pbind_def srv_part_def full_calls_def)
  next
    case ddl
    then show ?thesis using c2 c3 exec_prefix(1) [OF c2] exec_prefix(1) [OF c3] unfolding start
      by (intro exI [of _ e'] exI [of _ 2] exI [of _ body])
        (simp add: pbind_def srv_part_def full_calls_def numeral_2_eq_2)
  next
    case copy
    then show ?thesis using c2 c3 c4 exec_prefix(1) [OF c2] exec_prefix(1) [OF c3] exec_prefix(1) [OF c4] unfolding start
      by (intro exI [of _ e'] exI [of _ 3] exI [of _ body])
        (simp add: pbind_def srv_part_def full_calls_def numeral_3_eq_3)
  next
    case relay
    then show ?thesis using c2 c3 c4 exec_prefix(1) [OF c2] exec_prefix(1) [OF c3] exec_prefix(1) [OF c4] assms(5) unfolding start
      by (intro exI [of _ e] exI [of _ 4] exI [of _ "[]"])
        (simp add: pbind_def srv_part_def full_calls_def relay_chunks_def)
  qed
qed

text \<open>The other end of a connection to the gateway.\<close>

definition gateway_exchange :: "'s gateway \<Rightarrow> str run \<Rightarrow> 's exchange" where
  "gateway_exchange gw tenant = (\<lambda>request s. case handle_conn gw tenant request s of (r, out, s') \<Rightarrow> (out, s'))"

lemma read_reply_written:
  assumes "enc r = Some j" and "dec j = Some r" and "length j < 2 ^ 32"
  shows "\<exists>out. write_response enc r = Val out \<and>
    read_reply dec out = (case r_error r of Some msg \<Rightarrow> Err (SinkError msg) | None \<Rightarrow> Val r)"
  using read_written_response [of enc r j dec] assms by (auto simp: read_reply_def)

lemma remote_apply_is_local:
  assumes "enc_delta \<lparr>dh_table = mm_pg_table meta, dh_cols_csv = mm_cols_csv meta, dh_pk_csv = mm_pk_csv meta,
      dh_pk_col_names = mm_pk_col_names meta, dh_n_upserts = n_upserts, dh_n_deletes = n_deletes\<rparr> = Some j"
    and "gw_dec_delta gw j = Some \<lparr>dh_table = mm_pg_table meta, dh_cols_csv = mm_cols_csv meta, dh_pk_csv = mm_pk_csv meta,
      dh_pk_col_names = mm_pk_col_names meta, dh_n_upserts = n_upserts, dh_n_deletes = n_deletes\<rparr>"
    and "length j < 2 ^ 32" and "length u < 2 ^ 32" and "length d < 2 ^ 32"
    and "to_lowercase (gw_lc gw) (mm_pg_table meta) = mm_pg_table meta"
    and "tenant = Val cn" and "gw_tenants gw cn = Some dbname" and "connect_db (gw_srv gw) dbname s = (Val (), s1)"
    and "apply_delta (gw_srv gw) meta u d n_upserts n_deletes False s1 = (r, s2)"
    and "answer = (case r of Err e \<Rightarrow> resp_err (gw_show gw e)
      | _ \<Rightarrow> \<lparr>r_error = None, r_rows = 0, r_upserts = n_upserts, r_deletes = n_deletes\<rparr>)"
    and "gw_enc_resp gw answer = Some k" and "dec_resp k = Some answer" and "length k < 2 ^ 32"
  shows "remote_apply_delta enc_delta dec_resp (Val ()) (gateway_exchange gw tenant) meta u d n_upserts n_deletes s =
    ((case r of Err e \<Rightarrow> Err (SinkError (gw_show gw e)) | _ \<Rightarrow> Val ()), s2)"
proof -
  let ?h = "\<lparr>dh_table = mm_pg_table meta, dh_cols_csv = mm_cols_csv meta, dh_pk_csv = mm_pk_csv meta,
      dh_pk_col_names = mm_pk_col_names meta, dh_n_upserts = n_upserts, dh_n_deletes = n_deletes\<rparr>"
  let ?request = "write_request_header Delta j @ write_u32_prefixed u @ write_u32_prefixed d"
  have meta: "delta_meta (gw_lc gw) ?h = meta" using assms(6) by (simp add: delta_meta_def)
  obtain left where stream: "apply_delta_streaming (gw_srv gw) meta n_upserts n_deletes
      (s1, write_u32_prefixed u @ write_u32_prefixed d) = (r, (s2, left))"
    using apply_delta_streaming_framed [OF assms(4,5), of "gw_srv gw" meta n_upserts n_deletes s1 "[]"] assms(10) by auto
  have connect: "srv_part (connect_db (gw_srv gw) dbname) (s, b) = (Val (), (s1, b))" for b
    using assms(9) by (simp add: srv_part_def)
  obtain out where out: "write_response (gw_enc_resp gw) answer = Val out"
    "read_reply dec_resp out = (case r_error answer of Some msg \<Rightarrow> Err (SinkError msg) | None \<Rightarrow> Val answer)"
    using read_reply_written [of "gw_enc_resp gw" answer k dec_resp] assms(12-14) by blast
  have "safe r" using apply_delta_safe [of "gw_srv gw" meta u d n_upserts n_deletes False s1] assms(10) by simp
  then consider "r = Val ()" | e where "r = Err e" by (cases r) auto
  then have "gateway_exchange gw tenant ?request s = (out, s2)"
  proof cases
    case 1
    then have "handle_delta gw j dbname (s, write_u32_prefixed u @ write_u32_prefixed d) = (Val answer, (s2, left))"
      using assms(2,11) connect stream meta
      by (simp add: handle_delta_def pbind_def of_run_def pval_def)
    then show ?thesis
      using out assms(3,7,8) by (simp add: gateway_exchange_def handle_conn_def read_written_request)
  next
    case 2
    then have "handle_delta gw j dbname (s, write_u32_prefixed u @ write_u32_prefixed d) = (Err e, (s2, left))"
      using assms(2) connect stream meta
      by (simp add: handle_delta_def pbind_def of_run_def)
    then show ?thesis
      using 2 out assms(3,7,8,11) by (simp add: gateway_exchange_def handle_conn_def read_written_request)
  qed
  then show ?thesis
    using assms(1,11) out(2) \<open>safe r\<close>
    by (cases r) (simp_all add: remote_apply_delta_def pval_def resp_err_def)
qed

section \<open>Properties\<close>

text \<open>
  C11. The remote sink is the local sink at a distance: a delta that goes through the wire and the
  gateway leaves the server in the state in which applying it directly would, with the same outcome,
  for every server, every delta below 4 GiB and every JSON codec that reads back the two messages
  exchanged; an error comes back as the text the gateway made of it.
\<close>

theorem remote_delta_equals_local:
  assumes "enc_delta \<lparr>dh_table = mm_pg_table meta, dh_cols_csv = mm_cols_csv meta, dh_pk_csv = mm_pk_csv meta,
      dh_pk_col_names = mm_pk_col_names meta, dh_n_upserts = n_upserts, dh_n_deletes = n_deletes\<rparr> = Some j"
    and "gw_dec_delta gw j = Some \<lparr>dh_table = mm_pg_table meta, dh_cols_csv = mm_cols_csv meta, dh_pk_csv = mm_pk_csv meta,
      dh_pk_col_names = mm_pk_col_names meta, dh_n_upserts = n_upserts, dh_n_deletes = n_deletes\<rparr>"
    and "length j < 2 ^ 32" and "length u < 2 ^ 32" and "length d < 2 ^ 32"
    and "to_lowercase (gw_lc gw) (mm_pg_table meta) = mm_pg_table meta"
    and "tenant = Val cn" and "gw_tenants gw cn = Some dbname" and "connect_db (gw_srv gw) dbname s = (Val (), s1)"
    and "apply_delta (gw_srv gw) meta u d n_upserts n_deletes False s1 = (r, s2)"
    and "answer = (case r of Err e \<Rightarrow> resp_err (gw_show gw e)
      | _ \<Rightarrow> \<lparr>r_error = None, r_rows = 0, r_upserts = n_upserts, r_deletes = n_deletes\<rparr>)"
    and "gw_enc_resp gw answer = Some k" and "dec_resp k = Some answer" and "length k < 2 ^ 32"
  shows "remote_apply_delta enc_delta dec_resp (Val ()) (gateway_exchange gw tenant) meta u d n_upserts n_deletes s =
    ((case r of Err e \<Rightarrow> Err (SinkError (gw_show gw e)) | _ \<Rightarrow> Val ()), s2)"
  by (rule remote_apply_is_local [where enc_delta = enc_delta and dec_resp = dec_resp and gw = gw and meta = meta and u = u and d = d and s = s and tenant = tenant and 
      j = j and k = k and answer = answer and r = r and ?s1.0 = s1, OF assms])

text \<open>
  C17. A full load that breaks off never replaces the table: whatever part of the request reaches
  the gateway after the header, as long as it is not the whole body, the handler fails and the calls
  that the server gets end before the swap of the staging table.
\<close>

theorem interrupted_full_keeps_table:
  assumes "gw_dec_full gw j = Some h" and "length j < 2 ^ 32"
    and "tenant = Val cn" and "gw_tenants gw cn = Some dbname" and "connect_db (gw_srv gw) dbname s = (Val (), s1)"
    and "pg_table = to_lowercase (gw_lc gw) (fh_table h)"
    and "retarget_create (fh_create_sql h) pg_table (staging_of pg_table) = Some ddl"
    and "\<forall>b \<in> set bufs. length b < 2 ^ 32" and "0 < gw_buf gw"
    and "p @ q = chunk_finish (fold chunk_write bufs (chunk_writer_new []))" and "q \<noteq> []"
  shows "\<exists>r out n. handle_conn gw tenant (write_request_header Full j @ p) s =
      (r, out, calls (gw_srv gw) (take n (full_calls pg_table ddl @ [Copy_Drop])) s1) \<and> \<not> returns r"
proof -
  have "copy_chunks (gw_grant gw) (gw_buf gw) (chunk_reader_new p) = Err UnexpectedEof"
    by (rule copy_chunks_short [OF assms(8-11)])
  from handle_full_broken [OF assms(1,5,6,7) this] obtain e n left where
    full: "handle_full gw j dbname (s, p) = (Err e, (calls (gw_srv gw) (take n (full_calls pg_table ddl @ [Copy_Drop])) s1, left))"
    by blast
  define t where "t = calls (gw_srv gw) (take n (full_calls pg_table ddl @ [Copy_Drop])) s1"
  have "\<exists>r out. handle_conn gw tenant (write_request_header Full j @ p) s = (r, out, t) \<and> \<not> returns r"
    using assms(2-4) full [folded t_def] by (cases "write_response (gw_enc_resp gw) (resp_err (gw_show gw e))")
      (simp_all add: handle_conn_def read_written_request)
  then show ?thesis unfolding t_def by blast
qed

text \<open>
  C12. A full push that succeeds has loaded the table: between the extraction in the agent and the
  server behind the gateway, the staging table gets the retargeted statement and exactly the
  extracted stream, and then takes the place of the table; the reported rows are those of the
  stream.
\<close>

theorem full_push_loads_table:
  assumes "push_full uc lc enc_full dec_resp pieces sent dial (gateway_exchange gw tenant) db table unlogged s =
      (Val (rows_read, rows_sent, n), s')"
    and "\<And>h k. enc_full h = Some k \<Longrightarrow> gw_dec_full gw k = Some h \<and> length k < 2 ^ 32"
    and "\<And>r k. gw_enc_resp gw r = Some k \<Longrightarrow> dec_resp k = Some r \<and> length k < 2 ^ 32"
    and "\<And>b. concat (pieces b) = b \<and> (\<forall>x \<in> set (pieces b). length x < 2 ^ 32)" and "0 < gw_buf gw" and "gw_lc gw = lc"
    and "tenant = Val cn" and "gw_tenants gw cn = Some dbname" and "connect_db (gw_srv gw) dbname s = (Val (), s1)"
  shows "\<exists>sql relation_id field_order n_fields stream ddl.
    create_table_sql_from uc lc db table unlogged = Val sql \<and> find_relation_id uc db table = Val relation_id \<and>
    copy_slots uc db relation_id table = Val (field_order, n_fields) \<and>
    write_copy_stream db relation_id field_order n_fields = Val (stream, rows_read) \<and>
    retarget_create sql (to_lowercase lc table) (staging_of (to_lowercase lc table)) = Some ddl \<and>
    s' = calls (gw_srv gw) (full_calls (to_lowercase lc table) ddl @
      [Copy_Done stream, Batch (swap_sql (to_lowercase lc table))]) s1"
proof -
  let ?t = "to_lowercase lc table"
  obtain sql relation_id field_order n_fields j where pre: "create_table_sql_from uc lc db table unlogged = Val sql"
    "find_relation_id uc db table = Val relation_id" "copy_slots uc db relation_id table = Val (field_order, n_fields)"
    "enc_full \<lparr>fh_table = table, fh_create_sql = sql\<rparr> = Some j"
    using assms(1) by (auto simp: push_full_def pbind_def of_run_def parsed_def split: run.splits prod.splits option.splits)
  let ?h = "\<lparr>fh_table = table, fh_create_sql = sql\<rparr>" and ?request = "write_request_header Full j"
  have dial: "dial = Val ()"
    using assms(1) pre by (cases dial) (auto simp: push_full_def pbind_def of_run_def)
  obtain stream where stream: "write_copy_stream db relation_id field_order n_fields = Val (stream, rows_read)"
    using assms(1) pre dial
    by (auto simp: push_full_def pbind_def of_run_def pval_def Let_def split: run.splits prod.splits)
  let ?body = "chunk_finish (fold chunk_write (pieces stream) (chunk_writer_new []))"
  obtain out where out: "gateway_exchange gw tenant (?request @ ?body) s = (out, s')" "returns (read_reply dec_resp out)"
    using assms(1) pre dial stream
    by (auto simp: push_full_def pbind_def of_run_def pval_def Let_def split: run.splits prod.splits)
  obtain q t left where full: "handle_full gw j dbname (s, ?body) = (q, (t, left))"
    by (cases "handle_full gw j dbname (s, ?body)") auto
  have conn: "gateway_exchange gw tenant (?request @ ?body) s = (case q of
       Val resp \<Rightarrow> (case write_response (gw_enc_resp gw) resp of Val out \<Rightarrow> (out, t) | _ \<Rightarrow> ([], t))
     | Err e \<Rightarrow> (case write_response (gw_enc_resp gw) (resp_err (gw_show gw e)) of Val out \<Rightarrow> (out, t) | _ \<Rightarrow> ([], t))
     | _ \<Rightarrow> ([], t))"
    using assms(2) [OF pre(4)] assms(7,8) full
    by (auto simp: gateway_exchange_def handle_conn_def read_written_request split: run.split)
  have silent: "\<not> returns (read_reply dec_resp [])"
    by (simp add: read_reply_def read_response_def read_exact_def)
  have refused: "\<not> returns (read_reply dec_resp o')" if w: "write_response (gw_enc_resp gw) (resp_err msg) = Val o'" for msg o'
  proof -
    obtain k where "gw_enc_resp gw (resp_err msg) = Some k"
      using w by (cases "gw_enc_resp gw (resp_err msg)") (simp_all add: write_response_def)
    then show ?thesis
      using w read_reply_written [of "gw_enc_resp gw" "resp_err msg" k dec_resp] assms(3) by (auto simp: resp_err_def)
  qed
  obtain resp where q: "q = Val resp"
    using out conn silent refused by (cases q) (auto split: run.splits)
  have "s' = t" using out(1) conn q by (auto split: run.splits)
  have chunks: "copy_chunks (gw_grant gw) (gw_buf gw) (chunk_reader_new ?body) =
      Val (stream, \<lparr>cr_inner = [], cr_remaining = 0, cr_done = True\<rparr>)"
    using copy_chunks_written [of "pieces stream" "gw_buf gw" "gw_grant gw" "[]"] assms(4,5) by simp
  have dec: "gw_dec_full gw j = Some ?h" using assms(2) [OF pre(4)] by simp
  obtain ddl where ddl: "retarget_create sql ?t (staging_of ?t) = Some ddl"
  proof (cases "retarget_create sql ?t (staging_of ?t)")
    case None
    then have "q = Err (InvalidData ''could not derive staging DDL'')"
      using full dec assms(6,9) by (simp add: handle_full_def pbind_def of_run_def srv_part_def Let_def)
    with q show ?thesis by simp
  qed (rule that)
  have "t = calls (gw_srv gw) (full_calls ?t ddl @ [Copy_Done stream, Batch (swap_sql ?t)]) s1"
    using handle_full_complete [OF dec assms(9) _ _ chunks _ full [unfolded q], of ?t ddl] ddl assms(6) by simp
  with \<open>s' = t\<close> show ?thesis using pre stream ddl by blast
qed

section \<open>Witnesses\<close>

text \<open>A server that accepts every call and logs it, and a gateway for one table and two messages.\<close>

definition accept_server :: "call list server" where
  "accept_server = (\<lambda>log c. (Rows 1, log @ [c]))"

definition toy_header :: delta_header where
  "toy_header = \<lparr>dh_table = [116], dh_cols_csv = [97, 44, 32, 98], dh_pk_csv = [97], dh_pk_col_names = [[97]],
     dh_n_upserts = 1, dh_n_deletes = 0\<rparr>"

definition toy_full :: full_header where
  "toy_full = \<lparr>fh_table = lit ''t'',
     fh_create_sql = (case create_table_sql_from (\<lambda>c. []) (\<lambda>s. s) sample_db (lit ''t'') False of Val sql \<Rightarrow> sql | _ \<Rightarrow> [])\<rparr>"

definition toy_gateway :: "resp \<Rightarrow> call list gateway" where
  "toy_gateway ok = \<lparr>gw_srv = accept_server, gw_lc = (\<lambda>s. s), gw_show = (\<lambda>e. []), gw_grant = (\<lambda>n. n), gw_buf = 8,
     gw_tenants = [[97] \<mapsto> [98]], gw_dec_full = (\<lambda>j. Some toy_full), gw_dec_delta = (\<lambda>j. Some toy_header),
     gw_enc_resp = (\<lambda>r. if r = ok then Some [7] else None)\<rparr>"

lemma accept_exec: "exec accept_server c s = (Val 1, s @ [c])" "try_exec accept_server c s = (Val (), s @ [c])"
  by (simp_all add: exec_def try_exec_def accept_server_def)

lemma accept_connect:
  "connect_db accept_server db s = (Val (), s @ [Connect (lit ''postgres''), Execute (lit ''CREATE DATABASE '' @ quoted db),
     Connect db, Batch session_sql])"
  by (simp add: connect_db_def pbind_def accept_exec pval_def) (simp add: accept_server_def accept_exec pbind_def pval_def)

lemma accept_apply: "fst (apply_delta accept_server toy_meta [1] [] 1 0 False s) = Val ()"
  by (simp add: apply_delta_def transact_def pbind_def drop_tmps_def create_tmps_def accept_exec apply_upserts_def pval_def)

theorem remote_delta_equals_local_witness:
  "remote_apply_delta (\<lambda>h. Some [5]) (\<lambda>k. Some \<lparr>r_error = None, r_rows = 0, r_upserts = 1, r_deletes = 0\<rparr>) (Val ())
      (gateway_exchange (toy_gateway \<lparr>r_error = None, r_rows = 0, r_upserts = 1, r_deletes = 0\<rparr>) (Val [97])) toy_meta [1] [] 1 0 [] =
    (Val (), snd (apply_delta accept_server toy_meta [1] [] 1 0 False
      [Connect (lit ''postgres''), Execute (lit ''CREATE DATABASE '' @ quoted [98]), Connect [98], Batch session_sql]))"
proof -
  let ?ok = "\<lparr>r_error = None, r_rows = 0, r_upserts = 1, r_deletes = 0\<rparr>"
  let ?s1 = "[Connect (lit ''postgres''), Execute (lit ''CREATE DATABASE '' @ quoted [98]), Connect [98], Batch session_sql]"
  let ?out = "apply_delta accept_server toy_meta [1] [] 1 0 False ?s1"
  have "remote_apply_delta (\<lambda>h. Some [5]) (\<lambda>k. Some ?ok) (Val ()) (gateway_exchange (toy_gateway ?ok) (Val [97])) toy_meta [1] [] 1 0 [] =
      ((case Val () of Err e \<Rightarrow> Err (SinkError (gw_show (toy_gateway ?ok) e)) | _ \<Rightarrow> Val ()), snd ?out)"
  proof (rule remote_delta_equals_local [where j = "[5]" and k = "[7]" and answer = ?ok and cn = "[97]" and dbname = "[98]" and ?s1.0 = ?s1])
    show "apply_delta (gw_srv (toy_gateway ?ok)) toy_meta [1] [] 1 0 False ?s1 = (Val (), snd ?out)"
      using accept_apply [of ?s1] by (simp add: toy_gateway_def prod_eq_iff)
    show "connect_db (gw_srv (toy_gateway ?ok)) [98] [] = (Val (), ?s1)" by (simp add: toy_gateway_def accept_connect)
  qed (simp_all add: toy_gateway_def toy_header_def toy_meta_def to_lowercase_def ascii_lower_def)
  then show ?thesis by simp
qed

lemma toy_full_ddl:
  "\<exists>ddl. retarget_create (fh_create_sql toy_full) (to_lowercase (\<lambda>s. s) (lit ''t'')) staging = Some ddl"
proof -
  obtain sql where sql: "create_table_sql_from (\<lambda>c. []) (\<lambda>s. s) sample_db (lit ''t'') False = Val sql" using sample_create by blast
  from retarget_created [OF this, of staging] sql show ?thesis by (auto simp: toy_full_def)
qed

theorem interrupted_full_keeps_table_witness:
  "\<exists>ddl r out n. handle_conn (toy_gateway (resp_err [])) (Val [97]) (write_request_header Full [5] @ [0, 0, 0, 1, 7, 0]) [] =
      (r, out, calls accept_server (take n (full_calls (to_lowercase (\<lambda>s. s) (lit ''t'')) ddl @ [Copy_Drop]))
        [Connect (lit ''postgres''), Execute (lit ''CREATE DATABASE '' @ quoted [98]), Connect [98], Batch session_sql]) \<and>
    \<not> returns r"
proof -
  let ?gw = "toy_gateway (resp_err [])" and ?t = "to_lowercase (\<lambda>s. s) (lit ''t'')"
  obtain ddl where ddl: "retarget_create (fh_create_sql toy_full) ?t (staging_of ?t) = Some ddl" using toy_full_ddl by blast
  have "\<exists>r out n. handle_conn ?gw (Val [97]) (write_request_header Full [5] @ [0, 0, 0, 1, 7, 0]) [] =
      (r, out, calls (gw_srv ?gw) (take n (full_calls ?t ddl @ [Copy_Drop]))
        [Connect (lit ''postgres''), Execute (lit ''CREATE DATABASE '' @ quoted [98]), Connect [98], Batch session_sql]) \<and>
    \<not> returns r"
  proof (rule interrupted_full_keeps_table [where bufs = "[[7]]" and q = "[0, 0, 0]" and h = toy_full and cn = "[97]" and dbname = "[98]"])
    show "retarget_create (fh_create_sql toy_full) ?t (staging_of ?t) = Some ddl" by (rule ddl)
    show "[0, 0, 0, 1, 7, 0] @ [0, 0, 0] = chunk_finish (fold chunk_write [[7]] (chunk_writer_new []))"
      by (simp add: chunk_writer_new_def chunk_write_def chunk_finish_def be_bytes_4)
  qed (simp_all add: toy_gateway_def accept_connect, simp add: toy_full_def)
  then show ?thesis by (auto simp: toy_gateway_def)
qed

text \<open>A push of the sample table.\<close>

definition toy_ok :: resp where
  "toy_ok = \<lparr>r_error = None, r_rows = 1, r_upserts = 0, r_deletes = 0\<rparr>"

lemma sample_slots: "copy_slots uc sample_db 9 (lit ''t'') = Val ([(0, lit ''col_'' @ decimal 0)], 1)"
  by (simp add: copy_slots_def sample_db_format field_order_of_def sample_db_no_names)

lemma toy_handle_full:
  assumes "copy_chunks (\<lambda>n. n) 8 (chunk_reader_new body) = Val (data, \<lparr>cr_inner = [], cr_remaining = 0, cr_done = True\<rparr>)"
  shows "\<exists>t. handle_full (toy_gateway toy_ok) j [98] ([], body) = (Val toy_ok, (t, []))"
proof -
  obtain ddl where "retarget_create (fh_create_sql toy_full) (to_lowercase (\<lambda>s. s) (lit ''t''))
      (staging_of (to_lowercase (\<lambda>s. s) (lit ''t''))) = Some ddl"
    using toy_full_ddl by blast
  moreover have "fh_table toy_full = lit ''t''" by (simp add: toy_full_def)
  ultimately show ?thesis
    using assms by (simp add: handle_full_def toy_gateway_def Let_def pbind_def of_run_def pval_def srv_part_def
        accept_connect accept_exec relay_chunks_def toy_ok_def)
qed

abbreviation toy_push :: "(nat \<times> nat \<times> nat) run \<times> call list" where
  "toy_push \<equiv> push_full (\<lambda>c. []) (\<lambda>s. s) (\<lambda>h. if h = toy_full then Some [5] else None) (\<lambda>k. Some toy_ok) (map (\<lambda>x. [x])) []
     (Val ()) (gateway_exchange (toy_gateway toy_ok) (Val [97])) sample_db (lit ''t'') False []"

lemma toy_push_ok: "\<exists>n s'. toy_push = (Val (1, 1, n), s')"
proof -
  obtain sql where sql: "create_table_sql_from (\<lambda>c. []) (\<lambda>s. s) sample_db (lit ''t'') False = Val sql" using sample_create by blast
  then have h: "\<lparr>fh_table = lit ''t'', fh_create_sql = sql\<rparr> = toy_full" by (simp add: toy_full_def)
  define stream where "stream = pgcopy_header @ [0, 1, 0, 0, 0, 2, 0, 7] @ [255, 255]"
  have written: "write_copy_stream sample_db 9 [(0, lit ''col_'' @ decimal 0)] 1 = Val (stream, 1)"
    using sample_stream [of "lit ''col_'' @ decimal 0"] by (simp add: stream_def pgcopy_header_def)
  define pieces where "pieces = map (\<lambda>x. [x]) stream"
  have cut: "\<forall>b \<in> set pieces. length b < 2 ^ 32" "concat pieces = stream"
    by (simp_all add: pieces_def)
  define body where "body = chunk_finish (fold chunk_write pieces (chunk_writer_new []))"
  obtain t where t: "handle_full (toy_gateway toy_ok) [5] [98] ([], body) = (Val toy_ok, (t, []))"
    using toy_handle_full [of body stream "[5]"] copy_chunks_written [OF cut(1), of 8 "\<lambda>n. n" "[]"] cut(2)
    by (auto simp: body_def)
  obtain out where out: "write_response (gw_enc_resp (toy_gateway toy_ok)) toy_ok = Val out"
    "read_reply (\<lambda>k. Some toy_ok) out = Val toy_ok"
    using read_reply_written [of "gw_enc_resp (toy_gateway toy_ok)" toy_ok "[7]" "\<lambda>k. Some toy_ok"]
    by (auto simp: toy_gateway_def toy_ok_def)
  have "gateway_exchange (toy_gateway toy_ok) (Val [97]) (write_request_header Full [5] @ body) [] = (out, t)"
    using t out(1) by (simp add: gateway_exchange_def handle_conn_def read_written_request) (simp add: toy_gateway_def)
  then show ?thesis
    using sql h out(2) written
    by (simp add: push_full_def pbind_def of_run_def sample_db_relation sample_slots pval_def toy_ok_def
        pieces_def [symmetric] body_def [symmetric])
qed

theorem full_push_loads_table_witness:
  "\<exists>n s' stream ddl. toy_push = (Val (1, 1, n), s') \<and>
    s' = calls accept_server (full_calls (to_lowercase (\<lambda>s. s) (lit ''t'')) ddl @
        [Copy_Done stream, Batch (swap_sql (to_lowercase (\<lambda>s. s) (lit ''t'')))])
      [Connect (lit ''postgres''), Execute (lit ''CREATE DATABASE '' @ quoted [98]), Connect [98], Batch session_sql]"
proof -
  obtain n s' where push: "toy_push = (Val (1, 1, n), s')" using toy_push_ok by blast
  let ?gw = "toy_gateway toy_ok"
  let ?s1 = "[Connect (lit ''postgres''), Execute (lit ''CREATE DATABASE '' @ quoted [98]), Connect [98], Batch session_sql]"
  have enc: "gw_dec_full ?gw k = Some h \<and> length k < 2 ^ 32" if "(if h = toy_full then Some [5] else None) = Some k" for h k
    using that by (auto simp: toy_gateway_def split: if_splits)
  have resp: "Some toy_ok = Some r \<and> length k < 2 ^ 32" if "gw_enc_resp ?gw r = Some k" for r k
    using that by (auto simp: toy_gateway_def split: if_splits)
  have cut: "concat (map (\<lambda>x. [x]) b) = b \<and> (\<forall>x \<in> set (map (\<lambda>x. [x]) b). length x < 2 ^ 32)" for b :: bytes
    by simp
  have tenant: "gw_tenants ?gw [97] = Some [98]" and buf: "0 < gw_buf ?gw" and lc: "gw_lc ?gw = (\<lambda>s. s)"
    by (simp_all add: toy_gateway_def)
  have conn: "connect_db (gw_srv ?gw) [98] [] = (Val (), ?s1)" by (simp add: toy_gateway_def accept_connect)
  note full_push_loads_table [OF push enc resp cut buf lc _ tenant conn]
  then show ?thesis using push by (auto simp: toy_gateway_def)
qed

end
