(* ===== verification/Cdc_Sync.thy ===== *)
theory Cdc_Sync
  imports Cdc_Scan Gateway
begin

text \<open>
  One table in a cycle of the change capture: \<open>sync_table\<close> of \<open>src/src/cdc.rs\<close> with the sinks of
  \<open>src/src/sink.rs\<close> it hands a delta to. A sink is a record of its two methods over a state of its
  own. Timings are left out.
\<close>

section \<open>Sinks\<close>

record 's delta_sink =
  ds_apply :: "merge_meta \<Rightarrow> bytes \<Rightarrow> bytes \<Rightarrow> nat \<Rightarrow> nat \<Rightarrow> bool \<Rightarrow> ('s, unit) pgm"
  ds_reconnect :: "('s, unit) pgm"

definition connect_to :: "'s server \<Rightarrow> str \<Rightarrow> ('s, unit) pgm" where
  "connect_to srv dbname = pbind (exec srv (Connect dbname)) (\<lambda>_. pbind (exec srv (Batch session_sql)) (\<lambda>_. pval ()))"

definition local_sink :: "'s server \<Rightarrow> str \<Rightarrow> 's delta_sink" where
  "local_sink srv dbname = \<lparr>ds_apply = apply_delta srv, ds_reconnect = connect_to srv dbname\<rparr>"

definition remote_sink ::
    "(delta_header \<Rightarrow> bytes option) \<Rightarrow> (bytes \<Rightarrow> resp option) \<Rightarrow> ('s \<Rightarrow> unit run) \<Rightarrow> 's exchange \<Rightarrow> 's delta_sink" where
  "remote_sink enc_delta dec_resp dial exchange =
     \<lparr>ds_apply = (\<lambda>meta upsert_buf delete_buf n_upserts n_deletes debug s.
        remote_apply_delta enc_delta dec_resp (dial s) exchange meta upsert_buf delete_buf n_upserts n_deletes s),
      ds_reconnect = pval ()\<rparr>"

section \<open>The cache of a table\<close>

definition generation :: "ods \<Rightarrow> nat \<Rightarrow> nat run" where
  "generation db n = rbind (page db n) (\<lambda>raw. u32_at raw 4)"

fun format_slots :: "ods \<Rightarrow> nat \<Rightarrow> (nat \<times> str) list \<Rightarrow> nat list \<Rightarrow> slot_info list option list run" where
  "format_slots db relation_id field_order [] = Val []"
| "format_slots db relation_id field_order (v # vs) =
     rbind (ok_of (read_format db relation_id v)) (\<lambda>d.
     rbind (format_slots db relation_id field_order vs) (\<lambda>rest.
       Val (map_option (build_slots field_order) d # rest)))"

primrec position :: "('a \<Rightarrow> bool) \<Rightarrow> 'a list \<Rightarrow> nat option" where
  "position P [] = None"
| "position P (x # xs) = (if P x then Some 0 else map_option Suc (position P xs))"

definition pk_index :: "(nat \<times> str) list \<Rightarrow> str \<Rightarrow> nat option" where
  "pk_index field_order pk = position (\<lambda>(fid, n). eq_ignore_ascii_case n pk) field_order"

definition table_pages :: "ods \<Rightarrow> nat \<Rightarrow> (nat option \<times> nat \<times> nat list) run" where
  "table_pages db relation_id =
     rbind (find_first_pp db relation_id) (\<lambda>first_pp. case first_pp of
       Some pp \<Rightarrow>
         rbind (generation db pp) (\<lambda>gen.
         rbind (data_pages_for db pp) (\<lambda>data_pages. Val (first_pp, gen, data_pages)))
     | None \<Rightarrow> Val (None, 0, []))"

definition new_cache ::
    "(nat \<Rightarrow> str) \<Rightarrow> (str \<Rightarrow> str) \<Rightarrow> ods \<Rightarrow> str \<Rightarrow> str list \<Rightarrow> (nat \<times> bytes) list option \<Rightarrow> table_cache run" where
  "new_cache uc lc db table pk_fields snapshot_init =
     rbind (find_relation_id uc db table) (\<lambda>relation_id.
     rbind (read_format db relation_id 65535) (\<lambda>descs.
     rbind (field_order_of uc db relation_id table descs) (\<lambda>field_order.
     let slots = build_slots field_order descs in
     rbind (format_slots db relation_id field_order [0..<256]) (\<lambda>fmt_slots.
     let pk_indices = map (pk_index field_order) pk_fields in
     rbind (pk_pgcopy_stride pk_indices slots) (\<lambda>pk_byte_len.
     rbind (table_pages db relation_id) (\<lambda>(first_pp, pp_gen, data_pages).
       Val \<lparr>tc_relation_id = relation_id, tc_slots = slots, tc_fmt_slots = fmt_slots,
         tc_col_names = map (\<lambda>(fid, n). quoted (to_lowercase lc n)) field_order,
         tc_pk_col_names = map (\<lambda>n. quoted (to_lowercase lc n)) pk_fields,
         tc_n_fields = length slots mod 2 ^ 16, tc_n_pk = length pk_indices mod 2 ^ 16,
         tc_pk_indices = pk_indices, tc_first_pp = first_pp, tc_pp_gen = pp_gen, tc_data_pages = data_pages,
         tc_prev_pks = (case snapshot_init of Some snap \<Rightarrow> if pk_byte_len > 0 then snap else [] | None \<Rightarrow> []),
         tc_pk_tracked = list_all (\<lambda>i. i \<noteq> None) pk_indices, tc_pk_byte_len = pk_byte_len\<rparr>))))))"

text \<open>The page list of this cycle and whether it was read again; \<open>None\<close> is a table that has no pages yet.\<close>

definition refresh_pages :: "ods \<Rightarrow> table_cache \<Rightarrow> (table_cache \<times> bool) option run" where
  "refresh_pages db c =
     (case tc_first_pp c of
        None \<Rightarrow>
          rbind (table_pages db (tc_relation_id c)) (\<lambda>(first_pp, gen, data_pages). case first_pp of
            Some pp \<Rightarrow> Val (Some (c\<lparr>tc_first_pp := Some pp, tc_pp_gen := gen, tc_data_pages := data_pages\<rparr>, True))
          | None \<Rightarrow> Val None)
      | Some pp \<Rightarrow>
          rbind (generation db pp) (\<lambda>cur_gen.
          if cur_gen \<noteq> tc_pp_gen c
          then rbind (data_pages_for db pp) (\<lambda>data_pages.
            Val (Some (c\<lparr>tc_data_pages := data_pages, tc_pp_gen := cur_gen\<rparr>, True)))
          else Val (Some (c, False))))"

section \<open>Synchronising a table\<close>

record delta_stats =
  dl_upserts :: nat
  dl_deletes :: nat
  dl_max_txn :: nat
  dl_pages_total :: nat
  dl_pages_skipped :: nat
  dl_pages_scanned :: nat
  dl_records_checked :: nat
  dl_express_deletes :: nat

definition idle_stats :: "nat \<Rightarrow> delta_stats" where
  "idle_stats last_txn = \<lparr>dl_upserts = 0, dl_deletes = 0, dl_max_txn = last_txn, dl_pages_total = 0,
     dl_pages_skipped = 0, dl_pages_scanned = 0, dl_records_checked = 0, dl_express_deletes = 0\<rparr>"

definition stats_of :: "scan_output \<Rightarrow> delta_stats" where
  "stats_of scan = \<lparr>dl_upserts = so_upserts scan, dl_deletes = so_deletes scan, dl_max_txn = so_max_txn scan,
     dl_pages_total = so_pages_total scan, dl_pages_skipped = so_pages_skipped scan,
     dl_pages_scanned = so_pages_total scan - so_pages_skipped scan, dl_records_checked = so_records_checked scan,
     dl_express_deletes = so_express_deletes scan\<rparr>"

definition table_meta :: "(str \<Rightarrow> str) \<Rightarrow> str \<Rightarrow> table_cache \<Rightarrow> merge_meta" where
  "table_meta lc table c = \<lparr>mm_pg_table = to_lowercase lc table, mm_cols_csv = join (lit '', '') (tc_col_names c),
     mm_pk_csv = join (lit '', '') (tc_pk_col_names c), mm_pk_col_names = tc_pk_col_names c\<rparr>"

text \<open>The delta goes to the sink unless it is empty.\<close>

definition hand_over ::
    "(str \<Rightarrow> str) \<Rightarrow> 's delta_sink \<Rightarrow> str \<Rightarrow> bool \<Rightarrow> table_cache \<Rightarrow> scan_output \<Rightarrow> ('s, unit) pgm" where
  "hand_over lc sink table debug c scan =
     (if so_upserts scan > 0 \<or> so_deletes scan > 0
      then ds_apply sink (table_meta lc table c) (so_upsert_out scan) (so_delete_buf scan)
             (so_upserts scan) (so_deletes scan) debug
      else pval ())"

text \<open>What a successful cycle leaves: the generations and the snapshot, cut down to the live pages after a refresh.\<close>

definition settle_gens :: "bool \<Rightarrow> nat list \<Rightarrow> scan_output \<Rightarrow> (nat \<Rightarrow> nat option) \<Rightarrow> nat \<Rightarrow> nat option" where
  "settle_gens refreshed live scan gens =
     (let gens = gens ++ so_new_gens scan in if refreshed then gens |` set live else gens)"

definition settle_cache :: "bool \<Rightarrow> scan_output \<Rightarrow> table_cache \<Rightarrow> table_cache" where
  "settle_cache refreshed scan c =
     (let pks = (if tc_pk_byte_len c > 0 then advance_snapshot (tc_prev_pks c) (so_new_pks scan) else tc_prev_pks c)
      in c\<lparr>tc_prev_pks := (if refreshed then filter (\<lambda>(n, f). n \<in> set (tc_data_pages c)) pks else pks)\<rparr>)"

text \<open>The outcome, the generations, the cache and the state of the sink.\<close>

definition sync_cached ::
    "(str \<Rightarrow> str) \<Rightarrow> 's delta_sink \<Rightarrow> ods \<Rightarrow> str \<Rightarrow> nat \<Rightarrow> (nat \<Rightarrow> nat option) \<Rightarrow> table_cache \<Rightarrow> bool \<Rightarrow> 's \<Rightarrow>
     delta_stats run \<times> (nat \<Rightarrow> nat option) \<times> table_cache option \<times> 's" where
  "sync_cached lc sink db table last_txn gens c debug s =
     (case refresh_pages db c of
        Val None \<Rightarrow> (Val (idle_stats last_txn), gens, Some c, s)
      | Val (Some (c, refreshed)) \<Rightarrow>
          (case scan_changes_into db c last_txn gens of
             Val scan \<Rightarrow>
               (case hand_over lc sink table debug c scan s of
                  (Val _, s) \<Rightarrow>
                    (Val (stats_of scan), settle_gens refreshed (tc_data_pages c) scan gens,
                     Some (settle_cache refreshed scan c), s)
                | (Err e, s) \<Rightarrow> (Err e, gens, Some c, s)
                | (Panic, s) \<Rightarrow> (Panic, gens, Some c, s)
                | (Hang, s) \<Rightarrow> (Hang, gens, Some c, s))
           | Err e \<Rightarrow> (Err e, gens, Some c, s) | Panic \<Rightarrow> (Panic, gens, Some c, s) | Hang \<Rightarrow> (Hang, gens, Some c, s))
      | Err e \<Rightarrow> (Err e, gens, Some c, s) | Panic \<Rightarrow> (Panic, gens, Some c, s) | Hang \<Rightarrow> (Hang, gens, Some c, s))"

definition sync_table ::
    "(nat \<Rightarrow> str) \<Rightarrow> (str \<Rightarrow> str) \<Rightarrow> ods \<Rightarrow> 's delta_sink \<Rightarrow> str \<Rightarrow> nat \<Rightarrow> str list \<Rightarrow> (nat \<Rightarrow> nat option) \<Rightarrow>
     table_cache option \<Rightarrow> (nat \<times> bytes) list option \<Rightarrow> bool \<Rightarrow> 's \<Rightarrow>
     delta_stats run \<times> (nat \<Rightarrow> nat option) \<times> table_cache option \<times> 's" where
  "sync_table uc lc db sink table last_txn pk_fields gens cache snapshot_init debug s =
     (case (case cache of Some c \<Rightarrow> Val c | None \<Rightarrow> new_cache uc lc db table pk_fields snapshot_init) of
        Val c \<Rightarrow> sync_cached lc sink db table last_txn gens c debug s
      | Err e \<Rightarrow> (Err e, gens, None, s) | Panic \<Rightarrow> (Panic, gens, None, s) | Hang \<Rightarrow> (Hang, gens, None, s))"

section \<open>After a refresh\<close>

lemma table_pages_Some:
  assumes "table_pages db r = Val (Some pp, gen, dps)"
  shows "generation db pp = Val gen" "data_pages_for db pp = Val dps"
  using assms by (auto simp: table_pages_def rbind_Val_iff split: option.splits)

lemma refresh_again:
  assumes "refresh_pages db c = Val (Some (c1, refreshed))"
  shows "refresh_pages db c1 = Val (Some (c1, False))"
  using assms
  by (auto simp: refresh_pages_def rbind_Val_iff table_pages_Some split: option.splits prod.splits if_splits)

lemma refresh_fields:
  assumes "refresh_pages db c = Val (Some (c1, refreshed))"
  shows "tc_prev_pks c1 = tc_prev_pks c \<and> tc_pk_byte_len c1 = tc_pk_byte_len c \<and> tc_slots c1 = tc_slots c \<and>
    tc_fmt_slots c1 = tc_fmt_slots c \<and> tc_col_names c1 = tc_col_names c \<and> tc_pk_col_names c1 = tc_pk_col_names c \<and>
    tc_n_fields c1 = tc_n_fields c \<and> tc_n_pk c1 = tc_n_pk c \<and> tc_pk_indices c1 = tc_pk_indices c \<and>
    tc_pk_tracked c1 = tc_pk_tracked c"
  using assms by (auto simp: refresh_pages_def rbind_Val_iff split: option.splits prod.splits if_splits)

lemma sync_cached_Val:
  assumes "sync_cached lc sink db table last_txn gens c debug s = (Val stats, gens', cache', s')"
  shows "refresh_pages db c = Val None \<and> stats = idle_stats last_txn \<and> gens' = gens \<and> cache' = Some c \<and> s' = s \<or>
    (\<exists>c1 refreshed scan. refresh_pages db c = Val (Some (c1, refreshed)) \<and> scan_changes_into db c1 last_txn gens = Val scan \<and>
      hand_over lc sink table debug c1 scan s = (Val (), s') \<and> stats = stats_of scan \<and>
      gens' = settle_gens refreshed (tc_data_pages c1) scan gens \<and> cache' = Some (settle_cache refreshed scan c1))"
  using assms by (auto simp: sync_cached_def split: run.splits option.splits prod.splits)

text \<open>The cache after a success is read again without a refresh.\<close>

lemma refresh_settled:
  assumes "refresh_pages db c = Val (Some (c1, refreshed))"
  shows "refresh_pages db (settle_cache r scan c1) = Val (Some (settle_cache r scan c1, False))"
proof -
  have "refresh_pages db c1 = Val (Some (c1, False))" by (rule refresh_again [OF assms])
  then show ?thesis
    by (auto simp: refresh_pages_def settle_cache_def Let_def rbind_Val_iff split: option.splits prod.splits if_splits)
qed

lemma settle_nothing:
  assumes "so_new_pks scan = []" and "so_new_gens scan = Map.empty"
  shows "settle_gens False live scan gens = gens" "settle_cache False scan c = c"
  using assms by (simp_all add: settle_gens_def settle_cache_def)

section \<open>Where express deletes come from\<close>

lemma new_pks_live:
  assumes "scan_changes_into db c last_txn gens = Val so"
  shows "fst ` set (so_new_pks so) \<subseteq> set (tc_data_pages c)"
  using assms
proof (cases rule: scan_changes_cases)
  case (1 ps gone)
  have "fst ` set (ps_new_pks ps) \<subseteq> set (tc_data_pages c)"
  proof (rule rfold_invariant [OF 1(1), where P = "\<lambda>p. fst ` set (ps_new_pks p) \<subseteq> set (tc_data_pages c)"])
    fix n p p'
    assume n: "n \<in> set (tc_data_pages c)" and p: "fst ` set (ps_new_pks p) \<subseteq> set (tc_data_pages c)"
      and "scan_cdc_page db c last_txn gens (is_first_cycle c) n p = Val p'"
    from this(3) show "fst ` set (ps_new_pks p') \<subseteq> set (tc_data_pages c)"
    proof (cases rule: scan_cdc_page_cases)
      case (data dp gen cnt pc rb st new_pks)
      then show ?thesis using n p by (auto simp: set_put_page split: if_splits)
    qed (use p in simp)
  qed (simp add: scan_init_def)
  then show ?thesis using 1(3) by simp
qed

lemma set_advance_subset: "set (advance_snapshot prev new) \<subseteq> set new \<union> set prev"
proof (induction new arbitrary: prev)
  case (Cons p new)
  have "set (put_page (fst p) (snd p) prev) \<subseteq> insert p (set prev)" by (auto simp: set_put_page)
  then show ?case using Cons [of "put_page (fst p) (snd p) prev"] by (cases p) auto
qed simp

lemma express_deletes_pages:
  assumes "express_deletes S prev new = Val gone"
  shows "set gone \<subseteq> (\<Union>p \<in> {p \<in> set prev. fst p \<in> fst ` set new}. set (chunks S (snd p)))"
  using assms by (auto simp: express_deletes_def rbind_Val_iff case_prod_beta dest!: express_keys_subset)

lemma scan_gone:
  assumes "scan_changes_into db c last_txn gens = Val so"
  obtains stubs gone where
    "so_delete_buf so = stubs @ concat (map (\<lambda>pk. be_bytes 2 (tc_n_pk c) @ pk) gone) @ pgcopy_trailer"
    and "length gone = so_express_deletes so"
    and "set gone \<subseteq> (\<Union>p \<in> {p \<in> set (tc_prev_pks c). fst p \<in> set (tc_data_pages c)}. set (chunks (tc_pk_byte_len c) (snd p)))"
  using assms
proof (cases rule: scan_changes_cases)
  case (1 ps gone)
  have live: "fst ` set (ps_new_pks ps) \<subseteq> set (tc_data_pages c)" using new_pks_live [OF assms] 1(3) by simp
  have "gone = [] \<or> express_deletes (tc_pk_byte_len c) (tc_prev_pks c) (ps_new_pks ps) = Val gone"
    using 1(2) by (simp split: if_splits)
  then have "set gone \<subseteq> (\<Union>p \<in> {p \<in> set (tc_prev_pks c). fst p \<in> fst ` set (ps_new_pks ps)}. set (chunks (tc_pk_byte_len c) (snd p)))"
    by (elim disjE) (simp, rule express_deletes_pages)
  also have "\<dots> \<subseteq> (\<Union>p \<in> {p \<in> set (tc_prev_pks c). fst p \<in> set (tc_data_pages c)}. set (chunks (tc_pk_byte_len c) (snd p)))"
    using live by (intro UN_mono) auto
  finally have gone: "set gone \<subseteq> (\<Union>p \<in> {p \<in> set (tc_prev_pks c). fst p \<in> set (tc_data_pages c)}. set (chunks (tc_pk_byte_len c) (snd p)))" .
  have "so_delete_buf so = rs_delete_buf (ps_rec ps) @ concat (map (\<lambda>pk. be_bytes 2 (tc_n_pk c) @ pk) gone) @ pgcopy_trailer"
    "length gone = so_express_deletes so"
    by (simp_all only: 1(3) scan_output.simps)
  from that [OF this gone] show ?thesis .
qed

section \<open>The cache stays sound\<close>

text \<open>
  \<open>sound_cache\<close>: every format has a slot for each column and the key has as many columns as names;
  \<open>fits\<close>: the numbers of columns fit the 16 bits of a row header.
\<close>

definition slot_row :: "nat \<Rightarrow> slot_info list \<Rightarrow> bool" where
  "slot_row n slots \<longleftrightarrow> length slots = n \<and> (\<forall>s \<in> set slots. dlength (slot_desc s) < 2 ^ 16)"

definition fits :: "table_cache \<Rightarrow> bool" where
  "fits c \<longleftrightarrow> length (tc_col_names c) < 2 ^ 15 \<and> length (tc_pk_col_names c) < 2 ^ 15"

definition sound_cache :: "table_cache \<Rightarrow> bool" where
  "sound_cache c \<longleftrightarrow> tc_n_fields c = length (tc_col_names c) mod 2 ^ 16 \<and>
     length (tc_pk_indices c) = length (tc_pk_col_names c) \<and> tc_n_pk c = length (tc_pk_indices c) mod 2 ^ 16 \<and>
     (\<forall>fmt. slot_row (length (tc_col_names c)) (slots_for c fmt)) \<and>
     (fits c \<longrightarrow> valid_snapshot c (tc_prev_pks c))"

lemma build_slots_row: "good_descs ds \<Longrightarrow> slot_row (length fo) (build_slots fo ds)"
  by (auto simp: slot_row_def build_slots_def good_descs_def default_zero_def)

lemma format_slots_row:
  "format_slots db r fo vs = Val fs \<Longrightarrow> Some slots \<in> set fs \<Longrightarrow> slot_row (length fo) slots"
proof (induction vs arbitrary: fs)
  case (Cons v vs)
  from Cons.prems(1) obtain d rest where d: "ok_of (read_format db r v) = Val d"
    "format_slots db r fo vs = Val rest" "fs = map_option (build_slots fo) d # rest"
    by (auto simp: rbind_Val_iff)
  show ?case
  proof (cases "Some slots = map_option (build_slots fo) d")
    case True
    then obtain ds where "d = Some ds" "slots = build_slots fo ds" by (cases d) auto
    then show ?thesis using d(1) read_format_good by (auto simp: ok_of_Val intro!: build_slots_row)
  next
    case False
    then show ?thesis using Cons.IH [OF d(2)] Cons.prems(2) d(3) by auto
  qed
qed simp

lemma new_cache_sound:
  assumes "new_cache uc lc db table pk_fields None = Val c"
  shows "sound_cache c \<and> tc_prev_pks c = []"
proof -
  obtain r descs fo fs S first_pp gen dps where n: "read_format db r 65535 = Val descs"
    "format_slots db r fo [0..<256] = Val fs"
    and c: "c = \<lparr>tc_relation_id = r, tc_slots = build_slots fo descs, tc_fmt_slots = fs,
         tc_col_names = map (\<lambda>(fid, n). quoted (to_lowercase lc n)) fo,
         tc_pk_col_names = map (\<lambda>n. quoted (to_lowercase lc n)) pk_fields,
         tc_n_fields = length (build_slots fo descs) mod 2 ^ 16, tc_n_pk = length (map (pk_index fo) pk_fields) mod 2 ^ 16,
         tc_pk_indices = map (pk_index fo) pk_fields, tc_first_pp = first_pp, tc_pp_gen = gen, tc_data_pages = dps,
         tc_prev_pks = [], tc_pk_tracked = list_all (\<lambda>i. i \<noteq> None) (map (pk_index fo) pk_fields), tc_pk_byte_len = S\<rparr>"
    using assms by (auto simp: new_cache_def rbind_Val_iff Let_def)
  have row: "slot_row (length fo) (build_slots fo descs)" using read_format_good [OF n(1)] by (rule build_slots_row)
  have "slot_row (length fo) (slots_for c fmt)" for fmt
  proof (cases "fmt < length fs")
    case True
    then have "fs ! fmt = Some slots \<Longrightarrow> slot_row (length fo) slots" for slots
      by (intro format_slots_row [OF n(2)]) (metis nth_mem)
    then show ?thesis using True row by (simp add: slots_for_def c split: option.split)
  qed (simp add: slots_for_def c row)
  moreover have "length (build_slots fo descs) = length fo" using row by (simp add: slot_row_def)
  ultimately show ?thesis by (simp add: sound_cache_def c)
qed

text \<open>The changes of a cycle keep it.\<close>

lemma sound_good: "sound_cache c \<Longrightarrow> fits c \<Longrightarrow> good_cache c"
  by (auto simp: sound_cache_def fits_def good_cache_def slot_row_def)

lemma slots_for_cong: "tc_slots c = tc_slots d \<Longrightarrow> tc_fmt_slots c = tc_fmt_slots d \<Longrightarrow> slots_for c = slots_for d"
  by (rule ext) (simp add: slots_for_def split: option.split)

lemma valid_snapshot_cong:
  "tc_pk_byte_len c = tc_pk_byte_len d \<Longrightarrow> tc_n_pk c = tc_n_pk d \<Longrightarrow> valid_snapshot c ps = valid_snapshot d ps"
  by (simp add: valid_snapshot_def)

lemma new_cache_init:
  assumes "new_cache uc lc db table pk_fields init = Val c" and "fits c \<longrightarrow> valid_snapshot c (tc_prev_pks c)"
  shows "sound_cache c"
proof -
  obtain c0 ps where c0: "new_cache uc lc db table pk_fields None = Val c0" and c: "c = c0\<lparr>tc_prev_pks := ps\<rparr>"
    using assms(1) by (auto simp: new_cache_def rbind_Val_iff Let_def)
  have "slots_for c = slots_for c0" unfolding c by (rule slots_for_cong) simp_all
  moreover have "sound_cache c0" using new_cache_sound [OF c0] by blast
  ultimately show ?thesis using assms(2) by (simp add: sound_cache_def c)
qed

lemma refresh_sound:
  assumes "refresh_pages db c = Val (Some (c1, refreshed))" and "sound_cache c"
  shows "sound_cache c1"
proof -
  note same = refresh_fields [OF assms(1)]
  have "slots_for c1 = slots_for c" by (rule slots_for_cong) (simp_all add: same)
  moreover have "valid_snapshot c1 ps = valid_snapshot c ps" for ps by (rule valid_snapshot_cong) (simp_all add: same)
  moreover have "fits c1 = fits c" by (simp add: fits_def same)
  ultimately show ?thesis using same assms(2) by (simp add: sound_cache_def)
qed

lemma valid_snapshot_filter: "valid_snapshot c ps \<Longrightarrow> valid_snapshot c (filter P ps)"
  by (auto simp: valid_snapshot_def distinct_map_filter snap_whole_filter set_keys_of)

lemma settle_sound:
  assumes "sound_cache c" and "scan_changes_into db c last_txn gens = Val scan"
  shows "sound_cache (settle_cache refreshed scan c)"
proof -
  let ?c = "settle_cache refreshed scan c"
  have same: "slots_for ?c = slots_for c" "valid_snapshot ?c = valid_snapshot c" "fits ?c = fits c"
    by (auto simp: settle_cache_def Let_def slots_for_def fits_def fun_eq_iff valid_snapshot_def split: option.split)
  have "valid_snapshot c (tc_prev_pks ?c)" if "fits c"
  proof -
    have "valid_snapshot c (tc_prev_pks c)" using assms(1) that by (simp add: sound_cache_def)
    moreover have "valid_snapshot c (advance_snapshot (tc_prev_pks c) (so_new_pks scan))"
      using scan_streams [OF sound_good [OF assms(1) that] _ assms(2)] calculation by blast
    ultimately show ?thesis by (simp add: settle_cache_def Let_def valid_snapshot_filter)
  qed
  then show ?thesis using assms(1) same by (simp add: sound_cache_def settle_cache_def Let_def)
qed

section \<open>What a sink is given\<close>

text \<open>
  A delta is well formed: both streams are complete \<open>COPY BINARY\<close> streams, with as many rows as
  announced, of the widths of the two column lists.
\<close>

definition stream_rows :: "bytes \<Rightarrow> nat \<Rightarrow> nat \<Rightarrow> bool" where
  "stream_rows b n_rows width \<longleftrightarrow>
     (\<exists>rows. parse_pgcopy b = Some rows \<and> length rows = n_rows \<and> (\<forall>r \<in> set rows. length r = width))"

definition wf_delta :: "merge_meta \<Rightarrow> bytes \<Rightarrow> bytes \<Rightarrow> nat \<Rightarrow> nat \<Rightarrow> bool" where
  "wf_delta meta upserts deletes n_upserts n_deletes \<longleftrightarrow>
     (\<exists>cols. mm_cols_csv meta = join (lit '', '') cols \<and> mm_pk_csv meta = join (lit '', '') (mm_pk_col_names meta) \<and>
       (length cols < 2 ^ 15 \<and> length (mm_pk_col_names meta) < 2 ^ 15 \<longrightarrow>
          stream_rows upserts n_upserts (length cols) \<and> stream_rows deletes n_deletes (length (mm_pk_col_names meta))))"

lemma scan_wf_delta:
  assumes "sound_cache c" and "scan_changes_into db c last_txn gens = Val scan"
  shows "wf_delta (table_meta lc table c) (so_upsert_out scan) (so_delete_buf scan) (so_upserts scan) (so_deletes scan)"
proof -
  have "stream_rows (so_upsert_out scan) (so_upserts scan) (length (tc_col_names c)) \<and>
      stream_rows (so_delete_buf scan) (so_deletes scan) (length (tc_pk_col_names c))" if "fits c"
  proof -
    have "tc_n_fields c = length (tc_col_names c)" "tc_n_pk c = length (tc_pk_col_names c)"
      "valid_snapshot c (tc_prev_pks c)"
      using assms(1) that by (simp_all add: sound_cache_def fits_def)
    then show ?thesis
      using scan_streams [OF sound_good [OF assms(1) that] _ assms(2)] by (simp add: stream_rows_def)
  qed
  then show ?thesis by (auto simp: wf_delta_def table_meta_def fits_def)
qed

text \<open>
  What a sink promises to its caller, for a predicate of its state: each of its methods keeps it,
  when the deltas it is given are well formed.
\<close>

locale sink_contract =
  fixes sink :: "'s delta_sink" and keeps_ok :: "'s \<Rightarrow> bool"
  assumes apply_keeps: "wf_delta meta upserts deletes n_upserts n_deletes \<Longrightarrow> keeps_ok s \<Longrightarrow>
      keeps_ok (snd (ds_apply sink meta upserts deletes n_upserts n_deletes debug s))"
    and reconnect_keeps: "keeps_ok s \<Longrightarrow> keeps_ok (snd (ds_reconnect sink s))"
begin

lemma hand_over_keeps:
  assumes "sound_cache c" and "scan_changes_into db c last_txn gens = Val scan" and "keeps_ok s"
  shows "keeps_ok (snd (hand_over lc sink table debug c scan s))"
  using assms apply_keeps [OF scan_wf_delta] by (simp add: hand_over_def pval_def)

lemma sync_cached_keeps:
  assumes "sync_cached lc sink db table last_txn gens c debug s = (r, gens', cache', s')"
    and "sound_cache c" and "keeps_ok s"
  shows "(\<exists>c'. cache' = Some c' \<and> sound_cache c') \<and> keeps_ok s'"
proof (cases "\<exists>c1 refreshed scan. refresh_pages db c = Val (Some (c1, refreshed)) \<and>
    scan_changes_into db c1 last_txn gens = Val scan")
  case True
  then obtain c1 refreshed scan where r: "refresh_pages db c = Val (Some (c1, refreshed))"
    and scan: "scan_changes_into db c1 last_txn gens = Val scan" by blast
  have c1: "sound_cache c1" by (rule refresh_sound [OF r assms(2)])
  obtain q t where h: "hand_over lc sink table debug c1 scan s = (q, t)"
    by (cases "hand_over lc sink table debug c1 scan s")
  have "keeps_ok t" using hand_over_keeps [OF c1 scan assms(3), of lc table debug] h by simp
  moreover have "s' = t \<and> (cache' = Some c1 \<or> cache' = Some (settle_cache refreshed scan c1))"
    using assms(1) r scan h by (cases q) (auto simp: sync_cached_def)
  ultimately show ?thesis using c1 settle_sound [OF c1 scan] by auto
next
  case False
  then have "s' = s \<and> (cache' = Some c \<or> (\<exists>c1 refreshed. refresh_pages db c = Val (Some (c1, refreshed)) \<and> cache' = Some c1))"
    using assms(1) by (auto simp: sync_cached_def split: run.splits option.splits)
  then show ?thesis using assms(2,3) refresh_sound by blast
qed

lemma sync_table_keeps:
  assumes "sync_table uc lc db sink table last_txn pk_fields gens cache init debug s = (r, gens', cache', s')"
    and "\<And>c. cache = Some c \<Longrightarrow> sound_cache c" and "keeps_ok s"
    and "\<And>snap c. init = Some snap \<Longrightarrow> new_cache uc lc db table pk_fields init = Val c \<Longrightarrow> fits c \<Longrightarrow>
      valid_snapshot c (tc_prev_pks c)"
  shows "(\<forall>c'. cache' = Some c' \<longrightarrow> sound_cache c') \<and> keeps_ok s'"
proof (cases "case cache of Some c \<Rightarrow> Val c | None \<Rightarrow> new_cache uc lc db table pk_fields init")
  case (Val c)
  have "sound_cache c" if "new_cache uc lc db table pk_fields init = Val c"
    using that new_cache_sound new_cache_init [OF that] assms(4) by (cases init) auto
  then have "sound_cache c" using Val assms(2) by (cases cache) auto
  moreover have "sync_cached lc sink db table last_txn gens c debug s = (r, gens', cache', s')"
    using assms(1) Val by (simp add: sync_table_def)
  ultimately show ?thesis using sync_cached_keeps assms(3) by blast
qed (use assms(1,3) in \<open>simp_all add: sync_table_def\<close>)

end

text \<open>A sink with a log of the deltas it has been given, for any sink.\<close>

type_synonym delivery = "merge_meta \<times> bytes \<times> bytes \<times> nat \<times> nat"

definition recording :: "'s delta_sink \<Rightarrow> ('s \<times> delivery list) delta_sink" where
  "recording sink =
     \<lparr>ds_apply = (\<lambda>meta upserts deletes n_upserts n_deletes debug (s, log).
        case ds_apply sink meta upserts deletes n_upserts n_deletes debug s of
          (r, s) \<Rightarrow> (r, (s, log @ [(meta, upserts, deletes, n_upserts, n_deletes)]))),
      ds_reconnect = (\<lambda>(s, log). case ds_reconnect sink s of (r, s) \<Rightarrow> (r, (s, log)))\<rparr>"

definition wf_log :: "'s \<times> delivery list \<Rightarrow> bool" where
  "wf_log w \<longleftrightarrow> list_all (\<lambda>(meta, upserts, deletes, n_upserts, n_deletes). wf_delta meta upserts deletes n_upserts n_deletes) (snd w)"

interpretation recorded: sink_contract "recording sink" wf_log for sink :: "'s delta_sink"
  by unfold_locales (auto simp: recording_def wf_log_def split: prod.splits)

section \<open>The sample table\<close>

text \<open>A sink that counts its calls and accepts or refuses all of them.\<close>

definition toy_sink :: "bool \<Rightarrow> nat delta_sink" where
  "toy_sink ok = \<lparr>ds_apply = (\<lambda>meta upserts deletes n_upserts n_deletes debug n.
     (if ok then Val () else Err (SinkError []), n + 1)), ds_reconnect = pval ()\<rparr>"

lemma cdc_refresh: "refresh_pages (cdc_db f) (cdc_cache prev) = Val (Some (cdc_cache prev, False))"
  by (simp add: refresh_pages_def cdc_cache_def generation_def cdc_db_page)

lemma cdc_released:
  "refresh_pages (cdc_db f) (cdc_cache prev\<lparr>tc_pp_gen := 4\<rparr>) = Val (Some (cdc_cache prev\<lparr>tc_data_pages := []\<rparr>, True))"
  by (simp add: refresh_pages_def cdc_cache_def generation_def cdc_db_page data_pages_for_def)

lemma no_pages_scan:
  assumes "tc_data_pages c = []"
  shows "\<exists>so. scan_changes_into db c last_txn gens = Val so \<and> so_upserts so = 0 \<and> so_deletes so = 0"
  using assms by (simp add: scan_changes_into_def scan_init_def)

section \<open>A refusal\<close>

lemma recording_log:
  assumes "hand_over lc (recording sink) table debug c scan (s, ds) = (r, (s', ds'))"
  shows "ds' = (if so_upserts scan > 0 \<or> so_deletes scan > 0
    then ds @ [(table_meta lc table c, so_upsert_out scan, so_delete_buf scan, so_upserts scan, so_deletes scan)] else ds)"
  using assms by (auto simp: hand_over_def recording_def pval_def split: prod.splits if_splits)

lemma sync_cached_log:
  assumes "refresh_pages db c = Val (Some (c1, refreshed))" and "scan_changes_into db c1 last_txn gens = Val scan"
    and "sync_cached lc (recording sink) db table last_txn gens c debug (s, ds) = (r, gens', cache', (s', ds'))"
  shows "ds' = (if so_upserts scan > 0 \<or> so_deletes scan > 0
    then ds @ [(table_meta lc table c1, so_upsert_out scan, so_delete_buf scan, so_upserts scan, so_deletes scan)] else ds)"
proof -
  obtain q t l where hand: "hand_over lc (recording sink) table debug c1 scan (s, ds) = (q, (t, l))"
    by (metis surj_pair)
  then have "ds' = l" using assms by (cases q) (simp_all add: sync_cached_def)
  then show ?thesis using recording_log [OF hand] by simp
qed

text \<open>An error after the sink has been given a delta is the sink's.\<close>

lemma refused_by_sink:
  assumes "sync_cached lc (recording sink) db table last_txn gens c debug (s, []) = (Err e, gens', cache', (s', [d]))"
  obtains c1 refreshed scan where "refresh_pages db c = Val (Some (c1, refreshed))"
    and "scan_changes_into db c1 last_txn gens = Val scan" and "gens' = gens" and "cache' = Some c1"
proof -
  obtain c1 refreshed where r: "refresh_pages db c = Val (Some (c1, refreshed))"
    using assms by (cases "refresh_pages db c") (auto simp: sync_cached_def split: option.splits)
  then obtain scan where scan: "scan_changes_into db c1 last_txn gens = Val scan"
    using assms by (cases "scan_changes_into db c1 last_txn gens") (simp_all add: sync_cached_def)
  obtain q t l where "hand_over lc (recording sink) table debug c1 scan (s, []) = (q, (t, l))" by (metis surj_pair)
  then have "gens' = gens" "cache' = Some c1" using assms r scan by (cases q; simp add: sync_cached_def)+
  with r scan show thesis by (rule that)
qed

section \<open>Properties\<close>

text \<open>
  C8. A delta that the sink refuses is not ticked off: the page generations and the key snapshot stay
  as they were, and the next call of \<open>sync_table\<close> that gets what this call has left, the same
  content of the file and the same watermark, gives the sink, which may be another one by then, the
  very same delta. This is about \<open>sync_table\<close> alone; when the loop makes such a call, and with which
  watermark, is what \<open>Cdc_Watch\<close> shows, where a refused delta can be lost.
\<close>

theorem refused_delta_is_kept:
  assumes "sync_table uc lc db (recording sink) table last_txn pk_fields gens (Some c) snap debug (s, []) =
      (Err e, gens', cache', (s', [d]))"
  shows "gens' = gens \<and> map_option tc_prev_pks cache' = Some (tc_prev_pks c) \<and>
    (\<exists>r gens'' cache'' t'. sync_table uc lc db (recording sink') table last_txn pk_fields gens' cache' snap' debug' (t, []) =
      (r, gens'', cache'', (t', [d])))"
proof -
  have first: "sync_cached lc (recording sink) db table last_txn gens c debug (s, []) = (Err e, gens', cache', (s', [d]))"
    using assms by (simp add: sync_table_def)
  obtain c1 refreshed scan where r: "refresh_pages db c = Val (Some (c1, refreshed))"
    and scan: "scan_changes_into db c1 last_txn gens = Val scan" and same: "gens' = gens" "cache' = Some c1"
    using refused_by_sink [OF first] by blast
  obtain q gens'' cache'' t' ds where again:
    "sync_cached lc (recording sink') db table last_txn gens c1 debug' (t, []) = (q, gens'', cache'', (t', ds))"
    by (metis surj_pair)
  have "ds = [d]"
    using sync_cached_log [OF r scan first] sync_cached_log [OF refresh_again [OF r] scan again] by simp
  then show ?thesis using again same refresh_fields [OF r] by (simp add: sync_table_def)
qed

theorem refused_delta_is_kept_witness:
  "\<exists>d. snd (snd (snd (sync_table (\<lambda>c. []) (\<lambda>s. s) (cdc_db 0) (recording (toy_sink False)) [116] 0 [] Map.empty
      (Some (cdc_cache [])) None False (0, [])))) = (1, [d]) \<and>
    (\<exists>r gens'' cache'' t'. sync_table (\<lambda>c. []) (\<lambda>s. s) (cdc_db 0) (recording (toy_sink True)) [116] 0 [] Map.empty
      (Some (cdc_cache [])) None False (0, []) = (r, gens'', cache'', (t', [d])))"
proof -
  obtain scan where scan: "scan_changes_into (cdc_db 0) (cdc_cache []) 0 Map.empty = Val scan" "so_upserts scan = 1"
    using cdc_scan by blast
  let ?d = "(table_meta (\<lambda>s. s) [116] (cdc_cache []), so_upsert_out scan, so_delete_buf scan, so_upserts scan, so_deletes scan)"
  have refused: "sync_table (\<lambda>c. []) (\<lambda>s. s) (cdc_db 0) (recording (toy_sink False)) [116] 0 [] Map.empty
      (Some (cdc_cache [])) None False (0, []) = (Err (SinkError []), Map.empty, Some (cdc_cache []), (1, [?d]))"
    using scan by (simp add: sync_table_def sync_cached_def cdc_refresh hand_over_def recording_def toy_sink_def)
  from refused_delta_is_kept [OF this, of "toy_sink True" None False 0] refused show ?thesis by simp
qed

text \<open>
  C9. A delta is handed over once: after a success the same table on the same file gives nothing,
  the sink is not called, and generations, cache and watermark stay as they are. (An emptied
  snapshot of a table that has pages would make the next cycle a first one.)
\<close>

theorem sync_settles:
  assumes "sync_table uc lc db sink table last_txn pk_fields gens cache snap debug s = (Val stats, gens', Some c', s')"
    and "tc_data_pages c' = [] \<or> \<not> is_first_cycle c'"
  shows "\<exists>stats'. sync_table uc lc db sink' table (dl_max_txn stats) pk_fields gens' (Some c') snap' debug t =
      (Val stats', gens', Some c', t) \<and>
    dl_upserts stats' = 0 \<and> dl_deletes stats' = 0 \<and> dl_max_txn stats' = dl_max_txn stats"
proof -
  obtain c where "sync_cached lc sink db table last_txn gens c debug s = (Val stats, gens', Some c', s')"
    using assms(1) by (auto simp: sync_table_def split: option.splits run.splits)
  from sync_cached_Val [OF this] show ?thesis
  proof (elim disjE exE conjE)
    assume "refresh_pages db c = Val None" "stats = idle_stats last_txn" "Some c' = Some c"
    then show ?thesis by (simp add: sync_table_def sync_cached_def idle_stats_def)
  next
    fix c1 refreshed scan
    assume r: "refresh_pages db c = Val (Some (c1, refreshed))" and scan: "scan_changes_into db c1 last_txn gens = Val scan"
      and st: "stats = stats_of scan" and g: "gens' = settle_gens refreshed (tc_data_pages c1) scan gens"
      and c': "Some c' = Some (settle_cache refreshed scan c1)"
    have pages: "tc_data_pages c' = tc_data_pages c1" using c' by (simp add: settle_cache_def Let_def)
    have gens: "\<forall>n \<in> set (tc_data_pages c1). gens' n = (gens ++ so_new_gens scan) n"
      using g by (simp add: settle_gens_def Let_def)
    obtain so where so: "scan_changes_into db c' (so_max_txn scan) gens' = Val so" "so_upserts so = 0" "so_deletes so = 0"
      "so_max_txn so = so_max_txn scan" "so_new_pks so = []" "so_new_gens so = Map.empty"
      using rescan_quiet [OF scan pages gens] assms(2) pages by auto
    have "refresh_pages db c' = Val (Some (c', False))" using refresh_settled [OF r] c' by simp
    then show ?thesis
      using so st by (simp add: sync_table_def sync_cached_def hand_over_def pval_def settle_nothing stats_of_def)
  qed
qed

theorem sync_settles_witness:
  "\<exists>stats gens' c' stats'. sync_table (\<lambda>c. []) (\<lambda>s. s) (cdc_db 0) (toy_sink True) [116] 0 [] Map.empty (Some (cdc_cache [])) None False 0 =
      (Val stats, gens', Some c', 1) \<and> dl_upserts stats = 1 \<and>
    sync_table (\<lambda>c. []) (\<lambda>s. s) (cdc_db 0) (toy_sink True) [116] (dl_max_txn stats) [] gens' (Some c') None False 1 = (Val stats', gens', Some c', 1) \<and>
    dl_upserts stats' = 0"
proof -
  obtain scan where scan: "scan_changes_into (cdc_db 0) (cdc_cache []) 0 Map.empty = Val scan" "so_upserts scan = 1"
    "so_new_pks scan \<noteq> []"
    using cdc_scan by auto
  let ?gens = "settle_gens False (tc_data_pages (cdc_cache [])) scan Map.empty" and ?c = "settle_cache False scan (cdc_cache [])"
  have run: "sync_table (\<lambda>c. []) (\<lambda>s. s) (cdc_db 0) (toy_sink True) [116] 0 [] Map.empty (Some (cdc_cache [])) None False 0 =
      (Val (stats_of scan), ?gens, Some ?c, 1)"
    using scan by (simp add: sync_table_def sync_cached_def cdc_refresh hand_over_def toy_sink_def)
  have "\<not> is_first_cycle ?c"
    using scan(3) by (simp add: is_first_cycle_def settle_cache_def cdc_cache_def)
  then have "tc_data_pages ?c = [] \<or> \<not> is_first_cycle ?c" by simp
  from sync_settles [OF run this, of "toy_sink True" None 1] run scan(2) show ?thesis
    by (auto simp: stats_of_def)
qed

text \<open>
  C35. Rows whose data page has been released stay in the target for good. When the page list is
  read again and no page that held the key is on it, the key is not among the vanished ones, and
  the new snapshot has forgotten it unless it was found elsewhere: no later cycle can report it. A
  table that is emptied and swept between two cycles keeps all its rows in PostgreSQL.
\<close>

theorem released_pages_keep_rows:
  assumes "refresh_pages db c = Val (Some (c1, True))" and "scan_changes_into db c1 last_txn gens = Val scan"
    and "hand_over lc sink table debug c1 scan s = (Val (), s')"
    and "\<forall>(n, f) \<in> set (tc_prev_pks c). k \<in> set (chunks (tc_pk_byte_len c) f) \<longrightarrow> n \<notin> set (tc_data_pages c1)"
  shows "\<exists>stubs gone stats gens' c'.
    so_delete_buf scan = stubs @ concat (map (\<lambda>pk. be_bytes 2 (tc_n_pk c1) @ pk) gone) @ pgcopy_trailer \<and>
    length gone = so_express_deletes scan \<and> k \<notin> set gone \<and>
    sync_table uc lc db sink table last_txn pk_fields gens (Some c) snap debug s = (Val stats, gens', Some c', s') \<and>
    (k \<in> set (keys_of (tc_pk_byte_len c) (tc_prev_pks c')) \<longrightarrow> k \<in> set (keys_of (tc_pk_byte_len c) (so_new_pks scan)))"
proof -
  have same: "tc_prev_pks c1 = tc_prev_pks c" "tc_pk_byte_len c1 = tc_pk_byte_len c"
    using refresh_fields [OF assms(1)] by simp_all
  obtain stubs gone where gone: "so_delete_buf scan = stubs @ concat (map (\<lambda>pk. be_bytes 2 (tc_n_pk c1) @ pk) gone) @ pgcopy_trailer"
    "length gone = so_express_deletes scan"
    "set gone \<subseteq> (\<Union>p \<in> {p \<in> set (tc_prev_pks c1). fst p \<in> set (tc_data_pages c1)}. set (chunks (tc_pk_byte_len c1) (snd p)))"
    using scan_gone [OF assms(2)] by blast
  have "k \<notin> set gone" using gone(3) assms(4) same by (auto simp: case_prod_beta)
  moreover have "k \<in> set (keys_of (tc_pk_byte_len c) (so_new_pks scan))"
    if "k \<in> set (keys_of (tc_pk_byte_len c) (tc_prev_pks (settle_cache True scan c1)))"
  proof -
    have "set (tc_prev_pks (settle_cache True scan c1)) \<subseteq>
        set (so_new_pks scan) \<union> {p \<in> set (tc_prev_pks c). fst p \<in> set (tc_data_pages c1)}"
      using same set_advance_subset [of "tc_prev_pks c" "so_new_pks scan"]
      by (auto simp: settle_cache_def Let_def split: if_splits)
    then show ?thesis using that assms(4) by (fastforce simp: set_keys_of case_prod_beta)
  qed
  ultimately show ?thesis
    using gone(1,2) assms(1-3) by (simp add: sync_table_def sync_cached_def) blast
qed

theorem released_pages_keep_rows_witness:
  "\<exists>stubs gone stats gens' c' scan.
    scan_changes_into (cdc_db 0) (cdc_cache [(0, len_field [1])]\<lparr>tc_data_pages := []\<rparr>) 0 Map.empty = Val scan \<and>
    so_delete_buf scan = stubs @ concat (map (\<lambda>pk. be_bytes 2 1 @ pk) gone) @ pgcopy_trailer \<and>
    len_field [1] \<notin> set gone \<and>
    sync_table (\<lambda>c. []) (\<lambda>s. s) (cdc_db 0) (toy_sink True) [116] 0 [] Map.empty
      (Some (cdc_cache [(0, len_field [1])]\<lparr>tc_pp_gen := 4\<rparr>)) None False 0 = (Val stats, gens', Some c', 0)"
proof -
  let ?c = "cdc_cache [(0, len_field [1])]\<lparr>tc_pp_gen := 4\<rparr>" and ?c1 = "cdc_cache [(0, len_field [1])]\<lparr>tc_data_pages := []\<rparr>"
  obtain scan where scan: "scan_changes_into (cdc_db 0) ?c1 0 Map.empty = Val scan" "so_upserts scan = 0" "so_deletes scan = 0"
    using no_pages_scan [of ?c1 "cdc_db 0" 0 Map.empty] by auto
  then have none: "hand_over (\<lambda>s. s) (toy_sink True) [116] False ?c1 scan 0 = (Val (), 0)" by (simp add: hand_over_def pval_def)
  have "\<forall>(n, f) \<in> set (tc_prev_pks ?c). len_field [1] \<in> set (chunks (tc_pk_byte_len ?c) f) \<longrightarrow> n \<notin> set (tc_data_pages ?c1)"
    by simp
  note lost = released_pages_keep_rows [OF cdc_released scan(1) none this, of "\<lambda>c. []" "[]" None]
  have n: "tc_n_pk ?c1 = 1" by (simp add: cdc_cache_def)
  from lost [unfolded n] scan(1) show ?thesis by blast
qed

end
