(* ===== verification/Pg_Load.thy ===== *)
theory Pg_Load
  imports Cdc_Sync
begin

text \<open>
  The direct load into PostgreSQL, \<open>src/src/pg.rs\<close>: the load of one table and of a list of tables.
  The writers around the \<open>COPY\<close> only buffer and count, so the data go to the server with the call
  that ends it; what stops the extraction drops the writer. Timings and output are left out.
\<close>

section \<open>One table\<close>

definition ensure_database :: "'s server \<Rightarrow> str \<Rightarrow> ('s, unit) pgm" where
  "ensure_database srv pg_db =
     pbind (connect_to srv (lit ''postgres'')) (\<lambda>_ s.
       case srv s (Execute (lit ''CREATE DATABASE '' @ quoted pg_db)) of
         (Refused code, s) \<Rightarrow> (if code = lit ''42P04'' then Val () else Err (PgError code), s)
       | (Rows n, s) \<Rightarrow> (Val (), s))"

definition drop_sql :: "str \<Rightarrow> str" where
  "drop_sql pg_table = lit ''DROP TABLE IF EXISTS '' @ quoted pg_table"

definition copy_sql :: "str \<Rightarrow> str" where
  "copy_sql pg_table = lit ''COPY '' @ quoted pg_table @ lit '' FROM STDIN WITH (FORMAT BINARY)''"

record migrate_stats =
  mg_rows :: nat
  mg_bytes :: nat

definition migrate_table ::
    "(nat \<Rightarrow> str) \<Rightarrow> (str \<Rightarrow> str) \<Rightarrow> 's server \<Rightarrow> ods \<Rightarrow> str \<Rightarrow> bool \<Rightarrow> bool \<Rightarrow> ('s, migrate_stats) pgm" where
  "migrate_table uc lc srv db table drop_first unlogged =
     (let pg_table = to_lowercase lc table in
      pbind (if drop_first then exec srv (Execute (drop_sql pg_table)) else pval 0) (\<lambda>_.
      pbind (of_run (create_table_sql_from uc lc db table unlogged)) (\<lambda>create_sql.
      pbind (exec srv (Batch create_sql)) (\<lambda>_.
      pbind (of_run (find_relation_id uc db table)) (\<lambda>relation_id.
      pbind (of_run (copy_slots uc db relation_id table)) (\<lambda>(field_order, n_fields).
      pbind (exec srv (Copy_In (copy_sql pg_table))) (\<lambda>_ s.
      case write_copy_stream db relation_id field_order n_fields of
        Val (stream, n_rows) \<Rightarrow>
          pbind (exec srv (Copy_Done stream)) (\<lambda>_. pval \<lparr>mg_rows = n_rows, mg_bytes = length stream\<rparr>) s
      | Err e \<Rightarrow> (Err e, snd (srv s Copy_Drop))
      | Panic \<Rightarrow> (Panic, snd (srv s Copy_Drop))
      | Hang \<Rightarrow> (Hang, s))))))))"

section \<open>A list of tables\<close>

record load_args =
  la_file :: bytes
  la_pg_db :: str
  la_drop :: bool
  la_unlogged :: bool

record load_totals =
  lt_rows :: nat
  lt_bytes :: nat
  lt_ok :: nat
  lt_failed :: nat

definition no_totals :: load_totals where
  "no_totals = \<lparr>lt_rows = 0, lt_bytes = 0, lt_ok = 0, lt_failed = 0\<rparr>"

text \<open>A table that fails is counted, and the connection is opened anew if that works.\<close>

fun load_each ::
    "(nat \<Rightarrow> str) \<Rightarrow> (str \<Rightarrow> str) \<Rightarrow> 's server \<Rightarrow> load_args \<Rightarrow> ods \<Rightarrow> str list \<Rightarrow> load_totals \<Rightarrow> ('s, load_totals) pgm" where
  "load_each uc lc srv args db [] t s = (Val t, s)"
| "load_each uc lc srv args db (table # tables) t s =
     (case migrate_table uc lc srv db table (la_drop args) (la_unlogged args) s of
        (Val m, s) \<Rightarrow>
          load_each uc lc srv args db tables
            (t\<lparr>lt_rows := lt_rows t + mg_rows m, lt_bytes := lt_bytes t + mg_bytes m, lt_ok := lt_ok t + 1\<rparr>) s
      | (Err e, s) \<Rightarrow>
          load_each uc lc srv args db tables (t\<lparr>lt_failed := lt_failed t + 1\<rparr>) (snd (connect_to srv (la_pg_db args) s))
      | (Panic, s) \<Rightarrow> (Panic, s)
      | (Hang, s) \<Rightarrow> (Hang, s))"

definition run_table_list ::
    "(nat \<Rightarrow> str) \<Rightarrow> (str \<Rightarrow> str) \<Rightarrow> 's server \<Rightarrow> load_args \<Rightarrow> str list \<Rightarrow> ('s, load_totals) pgm" where
  "run_table_list uc lc srv args tables =
     pbind (ensure_database srv (la_pg_db args)) (\<lambda>_.
     pbind (of_run (ods_open (la_file args))) (\<lambda>db.
     pbind (connect_to srv (la_pg_db args)) (\<lambda>_.
     load_each uc lc srv args db tables no_totals)))"

definition migrate ::
    "(nat \<Rightarrow> str) \<Rightarrow> (str \<Rightarrow> str) \<Rightarrow> 's server \<Rightarrow> load_args \<Rightarrow> str \<Rightarrow> ('s, migrate_stats) pgm" where
  "migrate uc lc srv args table =
     pbind (ensure_database srv (la_pg_db args)) (\<lambda>_.
     pbind (of_run (ods_open (la_file args))) (\<lambda>db.
     pbind (connect_to srv (la_pg_db args)) (\<lambda>_.
     migrate_table uc lc srv db table (la_drop args) (la_unlogged args))))"

definition migrate_all :: "(nat \<Rightarrow> str) \<Rightarrow> (str \<Rightarrow> str) \<Rightarrow> 's server \<Rightarrow> load_args \<Rightarrow> ('s, load_totals) pgm" where
  "migrate_all uc lc srv args =
     pbind (of_run (ods_open (la_file args))) (\<lambda>db.
     pbind (of_run (list_tables db)) (\<lambda>tables.
     if tables = [] then pval no_totals else run_table_list uc lc srv args tables))"

section \<open>Properties\<close>

lemma of_run_Val: "of_run r s = (Val x, t) \<longleftrightarrow> r = Val x \<and> t = s"
  by (auto simp: of_run_def)

text \<open>The sample table, loaded into a server that accepts everything.\<close>

lemma sample_migrates:
  "\<exists>m s'. migrate_table (\<lambda>c. []) (\<lambda>s. s) accept_server sample_db (lit ''t'') True False [] = (Val m, s') \<and> mg_rows m = 1"
proof -
  obtain sql where sql: "create_table_sql_from (\<lambda>c. []) (\<lambda>s. s) sample_db (lit ''t'') False = Val sql" using sample_create by blast
  show ?thesis
    using sql sample_stream [of "lit ''col_'' @ decimal 0"]
    by (simp add: migrate_table_def Let_def pbind_def of_run_def accept_exec sample_db_relation sample_slots pval_def)
qed

text \<open>
  A direct load that succeeds has sent the table: after the optional drop, the server gets the
  \<open>CREATE TABLE\<close> statement and exactly the extracted stream, nothing else, and the reported numbers
  are the rows and the bytes of that stream.
\<close>

theorem load_sends_table:
  assumes "migrate_table uc lc srv db table drop_first unlogged s = (Val m, s')"
  shows "\<exists>sql relation_id field_order n_fields stream.
    create_table_sql_from uc lc db table unlogged = Val sql \<and> find_relation_id uc db table = Val relation_id \<and>
    copy_slots uc db relation_id table = Val (field_order, n_fields) \<and>
    write_copy_stream db relation_id field_order n_fields = Val (stream, mg_rows m) \<and> mg_bytes m = length stream \<and>
    s' = calls srv ((if drop_first then [Execute (drop_sql (to_lowercase lc table))] else []) @
      [Batch sql, Copy_In (copy_sql (to_lowercase lc table)), Copy_Done stream]) s"
proof -
  let ?t = "to_lowercase lc table"
  obtain n0 s0 where d: "(if drop_first then exec srv (Execute (drop_sql ?t)) else pval 0) s = (Val n0, s0)"
    and 1: "pbind (of_run (create_table_sql_from uc lc db table unlogged)) (\<lambda>create_sql.
      pbind (exec srv (Batch create_sql)) (\<lambda>_.
      pbind (of_run (find_relation_id uc db table)) (\<lambda>relation_id.
      pbind (of_run (copy_slots uc db relation_id table)) (\<lambda>(field_order, n_fields).
      pbind (exec srv (Copy_In (copy_sql ?t))) (\<lambda>_ s.
      case write_copy_stream db relation_id field_order n_fields of
        Val (stream, n_rows) \<Rightarrow>
          pbind (exec srv (Copy_Done stream)) (\<lambda>_. pval \<lparr>mg_rows = n_rows, mg_bytes = length stream\<rparr>) s
      | Err e \<Rightarrow> (Err e, snd (srv s Copy_Drop))
      | Panic \<Rightarrow> (Panic, snd (srv s Copy_Drop))
      | Hang \<Rightarrow> (Hang, s)))))) s0 = (Val m, s')"
    using assms unfolding migrate_table_def Let_def by (rule pbind_ValE)
  have s0: "s0 = calls srv (if drop_first then [Execute (drop_sql ?t)] else []) s"
    using d exec_prefix(1) by (cases drop_first) (fastforce simp: pval_def)+
  from 1 obtain sql where sql: "create_table_sql_from uc lc db table unlogged = Val sql"
    by (elim pbind_ValE) (auto simp: of_run_Val)
  obtain rel where rel: "find_relation_id uc db table = Val rel"
    using 1 sql by (elim pbind_ValE) (auto simp: of_run_Val)
  obtain fo n where slots: "copy_slots uc db rel table = Val (fo, n)"
    using 1 sql rel by (elim pbind_ValE) (auto simp: of_run_Val)
  from 1 sql rel slots obtain n1 s1 n2 s2 where c: "exec srv (Batch sql) s0 = (Val n1, s1)"
    "exec srv (Copy_In (copy_sql ?t)) s1 = (Val n2, s2)"
    "(case write_copy_stream db rel fo n of
        Val (stream, n_rows) \<Rightarrow>
          pbind (exec srv (Copy_Done stream)) (\<lambda>_. pval \<lparr>mg_rows = n_rows, mg_bytes = length stream\<rparr>) s2
      | Err e \<Rightarrow> (Err e, snd (srv s2 Copy_Drop))
      | Panic \<Rightarrow> (Panic, snd (srv s2 Copy_Drop))
      | Hang \<Rightarrow> (Hang, s2)) = (Val m, s')"
    by (auto simp: of_run_Val elim!: pbind_ValE)
  obtain stream n_rows where w: "write_copy_stream db rel fo n = Val (stream, n_rows)"
    using c(3) by (auto split: run.splits)
  then obtain n3 where c3: "exec srv (Copy_Done stream) s2 = (Val n3, s')" "m = \<lparr>mg_rows = n_rows, mg_bytes = length stream\<rparr>"
    using c(3) by (auto simp: pval_def elim!: pbind_ValE)
  have "s' = calls srv ((if drop_first then [Execute (drop_sql ?t)] else []) @ [Batch sql, Copy_In (copy_sql ?t), Copy_Done stream]) s"
    using exec_prefix(1) [OF c(1)] exec_prefix(1) [OF c(2)] exec_prefix(1) [OF c3(1)] s0 by simp
  then show ?thesis using sql rel slots w c3(2) by auto
qed

theorem load_sends_table_witness:
  "\<exists>m sql stream. migrate_table (\<lambda>c. []) (\<lambda>s. s) accept_server sample_db (lit ''t'') True False [] =
      (Val m, calls accept_server [Execute (drop_sql (to_lowercase (\<lambda>s. s) (lit ''t''))), Batch sql,
        Copy_In (copy_sql (to_lowercase (\<lambda>s. s) (lit ''t''))), Copy_Done stream] []) \<and>
    mg_rows m = 1 \<and> mg_bytes m = length stream"
proof -
  obtain m s' where m: "migrate_table (\<lambda>c. []) (\<lambda>s. s) accept_server sample_db (lit ''t'') True False [] = (Val m, s')"
    "mg_rows m = 1" using sample_migrates by blast
  from load_sends_table [OF m(1)] m show ?thesis by auto
qed

text \<open>
  Every table of the list is attempted exactly once and in order, whatever happens to the
  others: there is an outcome for each, the totals are their sums, and after a failure the next table
  starts on a new connection.
\<close>

definition after_table :: "'s server \<Rightarrow> load_args \<Rightarrow> migrate_stats run \<times> 's \<Rightarrow> 's" where
  "after_table srv args = (\<lambda>(r, s). if returns r then s else snd (connect_to srv (la_pg_db args) s))"

fun outcomes ::
    "(nat \<Rightarrow> str) \<Rightarrow> (str \<Rightarrow> str) \<Rightarrow> 's server \<Rightarrow> load_args \<Rightarrow> ods \<Rightarrow> str list \<Rightarrow> 's \<Rightarrow> (migrate_stats run \<times> 's) list" where
  "outcomes uc lc srv args db [] s = []"
| "outcomes uc lc srv args db (table # tables) s =
     (let o1 = migrate_table uc lc srv db table (la_drop args) (la_unlogged args) s
      in o1 # outcomes uc lc srv args db tables (after_table srv args o1))"

definition loaded :: "(migrate_stats run \<times> 's) list \<Rightarrow> migrate_stats list" where
  "loaded os = [m. (Val m, s) \<leftarrow> os]"

lemma loaded_simps [simp]:
  "loaded [] = []" "loaded ((Val m, s) # os) = m # loaded os" "loaded ((Err e, s) # os) = loaded os"
  by (simp_all add: loaded_def)

lemma length_outcomes: "length (outcomes uc lc srv args db tables s) = length tables"
  by (induction tables arbitrary: s) (simp_all add: Let_def)

lemma load_each_totals:
  assumes "load_each uc lc srv args db tables t s = (Val t', s')"
  shows "lt_ok t' = lt_ok t + length (loaded (outcomes uc lc srv args db tables s)) \<and>
    lt_failed t' + length (loaded (outcomes uc lc srv args db tables s)) = lt_failed t + length tables \<and>
    lt_rows t' = lt_rows t + sum_list (map mg_rows (loaded (outcomes uc lc srv args db tables s))) \<and>
    lt_bytes t' = lt_bytes t + sum_list (map mg_bytes (loaded (outcomes uc lc srv args db tables s))) \<and>
    s' = (case rev (outcomes uc lc srv args db tables s) of [] \<Rightarrow> s | o1 # os \<Rightarrow> after_table srv args o1)"
  using assms
proof (induction tables arbitrary: t s)
  case (Cons table tables)
  let ?m = "migrate_table uc lc srv db table (la_drop args) (la_unlogged args) s"
  obtain r u where m: "?m = (r, u)" by (cases ?m)
  have rest: "load_each uc lc srv args db tables (case r of
        Val m \<Rightarrow> t\<lparr>lt_rows := lt_rows t + mg_rows m, lt_bytes := lt_bytes t + mg_bytes m, lt_ok := lt_ok t + 1\<rparr>
      | _ \<Rightarrow> t\<lparr>lt_failed := lt_failed t + 1\<rparr>) (after_table srv args (r, u)) = (Val t', s')"
    and r: "(\<exists>m. r = Val m) \<or> (\<exists>e. r = Err e)"
    using Cons.prems m by (auto simp: after_table_def split: run.splits)
  let ?os = "outcomes uc lc srv args db tables (after_table srv args (r, u))"
  have os: "outcomes uc lc srv args db (table # tables) s = (r, u) # ?os" by (simp add: m Let_def)
  have last: "(case rev ((r, u) # ?os) of [] \<Rightarrow> s | o1 # os \<Rightarrow> after_table srv args o1) =
      (case rev ?os of [] \<Rightarrow> after_table srv args (r, u) | o1 # os \<Rightarrow> after_table srv args o1)"
    by (cases "rev ?os") simp_all
  show ?case unfolding os last using Cons.IH [OF rest] r by auto
qed simp

theorem every_table_is_tried:
  assumes "run_table_list uc lc srv args tables s = (Val t, s')"
  shows "\<exists>db s1. ods_open (la_file args) = Val db \<and>
    (let os = outcomes uc lc srv args db tables s1 in
     length os = length tables \<and> lt_ok t = length (loaded os) \<and> lt_ok t + lt_failed t = length tables \<and>
     lt_rows t = sum_list (map mg_rows (loaded os)) \<and> lt_bytes t = sum_list (map mg_bytes (loaded os)))"
proof -
  obtain db s1 where db: "ods_open (la_file args) = Val db" "load_each uc lc srv args db tables no_totals s1 = (Val t, s')"
    using assms by (auto simp: run_table_list_def of_run_Val elim!: pbind_ValE)
  from load_each_totals [OF db(2)] db(1) show ?thesis
    by (auto simp: no_totals_def length_outcomes Let_def intro!: exI [of _ db] exI [of _ s1])
qed

theorem every_table_is_tried_witness:
  "\<exists>t s'. run_table_list uc lc accept_server \<lparr>la_file = empty_file, la_pg_db = [112], la_drop = False, la_unlogged = False\<rparr>
      [[97], [98]] [] = (Val t, s') \<and> lt_ok t + lt_failed t = length [[97 :: nat], [98]] \<and> lt_failed t = 2"
proof -
  let ?args = "\<lparr>la_file = empty_file, la_pg_db = [112], la_drop = False, la_unlogged = False\<rparr>"
  let ?db = "\<lparr>mmap = empty_file, page_size = 1024, ods_ver = 13\<rparr>"
  have fails: "migrate_table uc lc accept_server ?db table False False s = (Err (MissingPointerPage 6), s)" for table s
    by (simp add: migrate_table_def create_table_sql_from_def empty_file_no_tables pbind_def of_run_def pval_def Let_def)
  have "\<exists>t s'. run_table_list uc lc accept_server ?args [[97], [98]] [] = (Val t, s') \<and> lt_failed t = 2"
    by (simp add: run_table_list_def ensure_database_def connect_to_def empty_file_open fails pbind_def of_run_def pval_def
        accept_exec no_totals_def) (simp add: accept_server_def pbind_def pval_def exec_def)
  then obtain t s' where t: "run_table_list uc lc accept_server ?args [[97], [98]] [] = (Val t, s')" "lt_failed t = 2" by blast
  from every_table_is_tried [OF t(1)] have "lt_ok t + lt_failed t = length [[97 :: nat], [98]]"
    by (auto simp: Let_def)
  then show ?thesis using t by blast
qed

end
