(* ===== verification/Cdc_Watch.thy ===== *)
theory Cdc_Watch
  imports Cdc_Sync "HOL-Library.AList"
begin

text \<open>
  The watch loop, \<open>run_watch\<close> of \<open>src/src/cdc.rs\<close>: a cycle over the tables, one turn of the loop,
  and the runs of the loop as a step relation. The content of the database file at the moment of a
  turn comes from outside; it does not change during a turn. Writing the state files succeeds;
  \<open>serde_json\<close> is a parameter, and so is the order in which a hash map that was read is iterated
  (\<open>wa_order\<close>). Output and the sleep between turns are left out.
\<close>

section \<open>State\<close>

record 's watcher =
  wa_uc :: "nat \<Rightarrow> str"
  wa_lc :: "str \<Rightarrow> str"
  wa_sink :: "'s delta_sink"
  wa_tables :: "str list"
  wa_state_path :: str
  wa_to_json :: "cdc_state \<Rightarrow> bytes option"
  wa_from_json :: "bytes \<Rightarrow> cdc_state option"
  wa_order :: "(nat \<Rightarrow> bytes option) \<Rightarrow> (nat \<times> bytes) list"
  wa_debug :: bool

record 's watch =
  w_state :: cdc_state
  w_pending :: "str \<Rightarrow> snapshot option"
  w_last_hdr_gen :: "nat option"
  w_table_caches :: "(str \<times> table_cache option) list"
  w_db :: ods
  w_db_filesize :: nat
  w_fs :: fs
  w_sink :: 's

definition snap_path :: "str \<Rightarrow> str" where
  "snap_path path = path @ lit ''.snap''"

definition watch_init :: "'s watcher \<Rightarrow> bytes \<Rightarrow> fs \<Rightarrow> 's \<Rightarrow> 's watch run" where
  "watch_init wa fdb fs s =
     rbind (load_snapshots (fs (snap_path (wa_state_path wa)))) (\<lambda>pending.
     rbind (ods_open fdb) (\<lambda>db.
       Val \<lparr>w_state = load_state (wa_from_json wa) fs (wa_state_path wa), w_pending = pending, w_last_hdr_gen = None,
         w_table_caches = [], w_db = db, w_db_filesize = length fdb, w_fs = fs, w_sink = s\<rparr>))"

section \<open>One table\<close>

record 's cycle =
  cy_state :: cdc_state
  cy_pending :: "str \<Rightarrow> snapshot option"
  cy_caches :: "(str \<times> table_cache option) list"
  cy_upserts :: nat
  cy_deletes :: nat
  cy_new_max :: nat
  cy_dirty :: bool
  cy_sink :: 's

definition table_of :: "cdc_state \<Rightarrow> str \<Rightarrow> table_state" where
  "table_of st table = (case sv_tables st table of Some ts \<Rightarrow> ts | None \<Rightarrow> \<lparr>ts_last_txn = 0, ts_pk_fields = []\<rparr>)"

definition put_table :: "str \<Rightarrow> table_state \<Rightarrow> cdc_state \<Rightarrow> cdc_state" where
  "put_table table ts st = st\<lparr>sv_tables := (sv_tables st)(table := Some ts)\<rparr>"

definition put_gens :: "str \<Rightarrow> (nat \<Rightarrow> nat option) \<Rightarrow> cdc_state \<Rightarrow> cdc_state" where
  "put_gens table gens st = st\<lparr>sv_page_gens := (sv_page_gens st)(table := Some gens)\<rparr>"

definition table_watermark :: "cdc_state \<Rightarrow> str \<Rightarrow> nat" where
  "table_watermark st table = max (ts_last_txn (table_of st table)) (sv_last_txn st)"

definition cache_of :: "(str \<times> table_cache option) list \<Rightarrow> str \<Rightarrow> table_cache option" where
  "cache_of caches table = (case map_of caches table of Some c \<Rightarrow> c | None \<Rightarrow> None)"

definition primary_key :: "'s watcher \<Rightarrow> ods \<Rightarrow> str \<Rightarrow> table_state \<Rightarrow> str list option run" where
  "primary_key wa db table ts =
     (if ts_pk_fields ts = [] then ok_of (read_primary_key_fields (wa_uc wa) db table) else Val (Some (ts_pk_fields ts)))"

text \<open>The call of \<open>sync_table\<close> with what the loop keeps for the table.\<close>

definition run_sync ::
    "'s watcher \<Rightarrow> ods \<Rightarrow> str \<Rightarrow> str list \<Rightarrow> 's cycle \<Rightarrow>
     delta_stats run \<times> (nat \<Rightarrow> nat option) \<times> table_cache option \<times> 's" where
  "run_sync wa db table pk_fields cy =
     (let cache = cache_of (cy_caches cy) table;
          gens = (case sv_page_gens (cy_state cy) table of Some g \<Rightarrow> g | None \<Rightarrow> Map.empty);
          snap_init = (if cache = None then map_option (\<lambda>(width, m). wa_order wa m) (cy_pending cy table) else None)
      in sync_table (wa_uc wa) (wa_lc wa) db (wa_sink wa) table (table_watermark (cy_state cy) table) pk_fields gens cache
           snap_init (wa_debug wa) (cy_sink cy))"

definition take_pending :: "str \<Rightarrow> 's cycle \<Rightarrow> str \<Rightarrow> snapshot option" where
  "take_pending table cy =
     (if cache_of (cy_caches cy) table = None then (cy_pending cy)(table := None) else cy_pending cy)"

definition table_turn :: "'s watcher \<Rightarrow> ods \<Rightarrow> str \<Rightarrow> 's cycle \<Rightarrow> 's cycle run" where
  "table_turn wa db table cy =
     (let ts = table_of (cy_state cy) table in
      rbind (primary_key wa db table ts) (\<lambda>pk. case pk of
        None \<Rightarrow> Val (cy\<lparr>cy_state := put_table table ts (cy_state cy)\<rparr>)
      | Some pk_fields \<Rightarrow>
          (let ts = ts\<lparr>ts_pk_fields := pk_fields\<rparr>; last = table_watermark (cy_state cy) table in
           case run_sync wa db table pk_fields cy of (r, gens, cache, s) \<Rightarrow>
             let cy' = cy\<lparr>cy_state := put_gens table gens (put_table table ts (cy_state cy)),
                   cy_pending := take_pending table cy, cy_caches := AList.update table cache (cy_caches cy), cy_sink := s\<rparr> in
             case r of
               Val stats \<Rightarrow>
                 Val (cy'\<lparr>cy_state := put_table table (ts\<lparr>ts_last_txn := dl_max_txn stats\<rparr>) (cy_state cy'),
                   cy_upserts := cy_upserts cy + dl_upserts stats, cy_deletes := cy_deletes cy + dl_deletes stats,
                   cy_new_max := max (cy_new_max cy) (dl_max_txn stats),
                   cy_dirty := (cy_dirty cy \<or> dl_pages_scanned stats > 0 \<or> dl_max_txn stats > last)\<rparr>)
             | Err e \<Rightarrow>
                 (case ds_reconnect (wa_sink wa) s of
                    (Panic, s) \<Rightarrow> Panic | (Hang, s) \<Rightarrow> Hang | (r, s) \<Rightarrow> Val (cy'\<lparr>cy_sink := s\<rparr>))
             | Panic \<Rightarrow> Panic
             | Hang \<Rightarrow> Hang)))"

section \<open>One turn of the loop\<close>

text \<open>Both state files are replaced; this is also what a stop does.\<close>

definition save_watch :: "'s watcher \<Rightarrow> 's watch \<Rightarrow> unit run \<times> 's watch" where
  "save_watch wa w =
     (case save_state (wa_to_json wa) (w_state w) (wa_state_path wa) of
        Val steps \<Rightarrow>
          (Val (), w\<lparr>w_fs := fold fs_apply
             (steps @ replace_file (snap_path (wa_state_path wa)) (save_snapshots (w_table_caches w))) (w_fs w)\<rparr>)
      | Err e \<Rightarrow> (Err e, w) | Panic \<Rightarrow> (Panic, w) | Hang \<Rightarrow> (Hang, w))"

definition start_cycle :: "'s watch \<Rightarrow> 's cycle" where
  "start_cycle w = \<lparr>cy_state = w_state w, cy_pending = w_pending w, cy_caches = w_table_caches w, cy_upserts = 0,
     cy_deletes = 0, cy_new_max = sv_last_txn (w_state w), cy_dirty = False, cy_sink = w_sink w\<rparr>"

definition close_cycle :: "'s watcher \<Rightarrow> 's cycle \<Rightarrow> 's watch \<Rightarrow> unit run \<times> 's watch" where
  "close_cycle wa cy w =
     (let moved = (cy_upserts cy > 0 \<or> cy_deletes cy > 0);
          state = (if moved then (cy_state cy)\<lparr>sv_last_txn := cy_new_max cy\<rparr> else cy_state cy);
          w = w\<lparr>w_state := state, w_pending := cy_pending cy, w_table_caches := cy_caches cy, w_sink := cy_sink cy\<rparr>
      in if moved \<or> cy_dirty cy then save_watch wa w else (Val (), w))"

definition watch_cycle :: "'s watcher \<Rightarrow> 's watch \<Rightarrow> unit run \<times> 's watch" where
  "watch_cycle wa w =
     (case rfold (table_turn wa (w_db w)) (wa_tables wa) (start_cycle w) of
        Val cy \<Rightarrow> close_cycle wa cy w
      | Err e \<Rightarrow> (Err e, w) | Panic \<Rightarrow> (Panic, w) | Hang \<Rightarrow> (Hang, w))"

text \<open>The file is mapped again when its size has changed; else the mapping shows its new content.\<close>

definition remap :: "bytes \<Rightarrow> 's watch \<Rightarrow> 's watch run" where
  "remap fdb w =
     (if length fdb \<noteq> w_db_filesize w
      then rbind (ods_open fdb) (\<lambda>db. Val (w\<lparr>w_db := db, w_db_filesize := length fdb, w_table_caches := []\<rparr>))
      else Val (w\<lparr>w_db := (w_db w)\<lparr>mmap := fdb\<rparr>\<rparr>))"

definition watch_turn :: "'s watcher \<Rightarrow> bytes \<Rightarrow> 's watch \<Rightarrow> unit run \<times> 's watch" where
  "watch_turn wa fdb w =
     (case rbind (remap fdb w) (\<lambda>w. rbind (generation (w_db w) 0) (\<lambda>gen. Val (w, gen))) of
        Val (w, cur_hdr_gen) \<Rightarrow>
          if w_last_hdr_gen w \<noteq> Some cur_hdr_gen
          then watch_cycle wa (w\<lparr>w_last_hdr_gen := Some cur_hdr_gen\<rparr>)
          else (Val (), w)
      | Err e \<Rightarrow> (Err e, w) | Panic \<Rightarrow> (Panic, w) | Hang \<Rightarrow> (Hang, w))"

section \<open>Runs of the loop\<close>

datatype 's status = Running "'s watch" | Ended "unit run" "'s watch"

inductive watch_step :: "'s watcher \<Rightarrow> 's status \<Rightarrow> 's status \<Rightarrow> bool" for wa where
  polled: "watch_turn wa fdb w = (Val (), w') \<Longrightarrow> watch_step wa (Running w) (Running w')"
| failed: "watch_turn wa fdb w = (r, w') \<Longrightarrow> \<not> returns r \<Longrightarrow> watch_step wa (Running w) (Ended r w')"
| stopped: "save_watch wa w = (r, w') \<Longrightarrow> watch_step wa (Running w) (Ended r w')"

inductive_cases watch_stepE [consumes 1, case_names polled failed stopped]: "watch_step wa x y"
inductive_simps watch_step_Ended [simp]: "watch_step wa (Ended r w) y"

fun watch_of :: "'s status \<Rightarrow> 's watch" where
  "watch_of (Running w) = w"
| "watch_of (Ended r w) = w"

section \<open>What a turn leaves alone\<close>

lemma save_watch_frame:
  assumes "save_watch wa w = (r, w')"
  shows "w_db w' = w_db w \<and> w_db_filesize w' = w_db_filesize w \<and> w_last_hdr_gen w' = w_last_hdr_gen w \<and>
    w_state w' = w_state w \<and> w_pending w' = w_pending w \<and> w_table_caches w' = w_table_caches w \<and> w_sink w' = w_sink w"
  using assms by (auto simp: save_watch_def split: run.splits)

lemma close_cycle_frame:
  assumes "close_cycle wa cy w = (r, w')"
  shows "w_db w' = w_db w \<and> w_db_filesize w' = w_db_filesize w \<and> w_last_hdr_gen w' = w_last_hdr_gen w \<and>
    w_pending w' = cy_pending cy \<and> w_table_caches w' = cy_caches cy \<and> w_sink w' = cy_sink cy \<and>
    w_state w' = (if cy_upserts cy > 0 \<or> cy_deletes cy > 0 then (cy_state cy)\<lparr>sv_last_txn := cy_new_max cy\<rparr> else cy_state cy)"
proof -
  define state where "state = (if cy_upserts cy > 0 \<or> cy_deletes cy > 0 then (cy_state cy)\<lparr>sv_last_txn := cy_new_max cy\<rparr> else cy_state cy)"
  let ?w = "w\<lparr>w_state := state, w_pending := cy_pending cy, w_table_caches := cy_caches cy, w_sink := cy_sink cy\<rparr>"
  have "save_watch wa ?w = (r, w') \<or> w' = ?w"
    using assms by (auto simp: close_cycle_def state_def Let_def split: if_splits)
  then show ?thesis using save_watch_frame [of wa ?w r w'] by (auto simp: state_def)
qed

lemma watch_turn_Val:
  assumes "watch_turn wa fdb w = (Val (), w')"
  obtains w1 gen where "remap fdb w = Val w1" and "generation (w_db w1) 0 = Val gen"
    and "if w_last_hdr_gen w1 = Some gen then w' = w1
         else \<exists>cy. rfold (table_turn wa (w_db w1)) (wa_tables wa) (start_cycle (w1\<lparr>w_last_hdr_gen := Some gen\<rparr>)) = Val cy \<and>
           close_cycle wa cy (w1\<lparr>w_last_hdr_gen := Some gen\<rparr>) = (Val (), w')"
proof -
  obtain w1 gen where w1: "remap fdb w = Val w1" "generation (w_db w1) 0 = Val gen"
    using assms by (cases "remap fdb w"; cases "generation (w_db (case remap fdb w of Val w1 \<Rightarrow> w1 | _ \<Rightarrow> w)) 0")
      (auto simp: watch_turn_def)
  then have "if w_last_hdr_gen w1 = Some gen then w' = w1
      else watch_cycle wa (w1\<lparr>w_last_hdr_gen := Some gen\<rparr>) = (Val (), w')"
    using assms by (auto simp: watch_turn_def split: if_splits)
  then show ?thesis using that [OF w1] by (auto simp: watch_cycle_def split: if_splits run.splits)
qed

lemma remap_fields:
  assumes "remap fdb w = Val w1"
  shows "mmap (w_db w1) = fdb" "w_db_filesize w1 = length fdb" "w_last_hdr_gen w1 = w_last_hdr_gen w" "w_pending w1 = w_pending w"
    "w_sink w1 = w_sink w" "w_state w1 = w_state w" "w_table_caches w1 = w_table_caches w \<or> w_table_caches w1 = []"
  using assms by (auto simp: remap_def rbind_Val_iff ods_open_def Let_def split: if_splits)

lemma remap_same:
  assumes "mmap (w_db w) = fdb" and "w_db_filesize w = length fdb"
  shows "remap fdb w = Val w"
  using assms by (simp add: remap_def)

section \<open>Invariants of a run\<close>

definition sound_caches :: "(str \<times> table_cache option) list \<Rightarrow> bool" where
  "sound_caches caches \<longleftrightarrow> (\<forall>(t, copt) \<in> set caches. \<forall>c. copt = Some c \<longrightarrow> sound_cache c)"

lemma sound_caches_of: "sound_caches caches \<Longrightarrow> cache_of caches t = Some c \<Longrightarrow> sound_cache c"
  by (auto simp: sound_caches_def cache_of_def dest!: map_of_SomeD split: option.splits)

lemma sound_caches_update:
  "sound_caches caches \<Longrightarrow> (\<And>c. copt = Some c \<Longrightarrow> sound_cache c) \<Longrightarrow> sound_caches (AList.update t copt caches)"
  by (induction caches) (auto simp: sound_caches_def)

text \<open>
  The snapshots read from the snapshot file fit a set of contents of the database file when, for
  each of these contents, a cache that is built on it and takes over the snapshot of its table holds
  a valid snapshot: whole keys of the width of the table's key and with its number of fields. The
  code does not check this. Without a snapshot file there is nothing to fit.
\<close>

definition pending_fits :: "'s watcher \<Rightarrow> bytes set \<Rightarrow> (str \<Rightarrow> snapshot option) \<Rightarrow> bool" where
  "pending_fits wa F pending \<longleftrightarrow> (\<forall>table width m db pk_fields c. pending table = Some (width, m) \<longrightarrow> mmap db \<in> F \<longrightarrow>
     new_cache (wa_uc wa) (wa_lc wa) db table pk_fields (Some (wa_order wa m)) = Val c \<longrightarrow> fits c \<longrightarrow>
     valid_snapshot c (tc_prev_pks c))"

lemma pending_fits_empty [simp]: "pending_fits wa F Map.empty"
  by (simp add: pending_fits_def)

lemma pending_fits_remove: "pending_fits wa F pending \<Longrightarrow> pending_fits wa F (pending(table := None))"
  by (auto simp: pending_fits_def)

text \<open>Steps that are polled only with contents of a given set.\<close>

definition step_on :: "bytes set \<Rightarrow> 's watcher \<Rightarrow> 's status \<Rightarrow> 's status \<Rightarrow> bool" where
  "step_on F wa x y \<longleftrightarrow> watch_step wa x y \<and> mmap (w_db (watch_of y)) \<in> F"


context sink_contract
begin

definition cycle_ok :: "bytes set \<Rightarrow> 's watcher \<Rightarrow> 's cycle \<Rightarrow> bool" where
  "cycle_ok F wa cy \<longleftrightarrow> keeps_ok (cy_sink cy) \<and> pending_fits wa F (cy_pending cy) \<and> sound_caches (cy_caches cy)"

definition watch_ok :: "bytes set \<Rightarrow> 's watcher \<Rightarrow> 's watch \<Rightarrow> bool" where
  "watch_ok F wa w \<longleftrightarrow> keeps_ok (w_sink w) \<and> pending_fits wa F (w_pending w) \<and> sound_caches (w_table_caches w)"

lemma run_sync_keeps:
  assumes "run_sync wa db table pk_fields cy = (r, gens, cache, s)" and "wa_sink wa = sink" and "cycle_ok F wa cy"
    and "mmap db \<in> F"
  shows "(\<forall>c. cache = Some c \<longrightarrow> sound_cache c) \<and> keeps_ok s"
proof -
  let ?cache = "cache_of (cy_caches cy) table"
  let ?init = "if ?cache = None then map_option (\<lambda>(width, m). wa_order wa m) (cy_pending cy table) else None"
  have ok: "pending_fits wa F (cy_pending cy)" "keeps_ok (cy_sink cy)" using assms(3) by (simp_all add: cycle_ok_def)
  have "valid_snapshot c (tc_prev_pks c)"
    if "?init = Some snap" "new_cache (wa_uc wa) (wa_lc wa) db table pk_fields ?init = Val c" "fits c" for snap c
  proof -
    have "?cache = None" "cy_pending cy table \<noteq> None" using that(1) by (auto split: if_splits)
    then obtain width m where m: "cy_pending cy table = Some (width, m)" "?init = Some (wa_order wa m)" by auto
    show ?thesis using that(2,3) ok(1) assms(4) m unfolding m(2) pending_fits_def by blast
  qed
  moreover have "\<And>c. ?cache = Some c \<Longrightarrow> sound_cache c"
    using assms(3) sound_caches_of unfolding cycle_ok_def by blast
  ultimately show ?thesis
    using assms(1,2) ok(2) by (intro sync_table_keeps) (auto simp: run_sync_def Let_def)
qed

lemma table_turn_keeps:
  assumes "table_turn wa db table cy = Val cy'" and "wa_sink wa = sink" and "cycle_ok F wa cy" and "mmap db \<in> F"
  shows "cycle_ok F wa cy'"
proof -
  let ?ts = "table_of (cy_state cy) table"
  obtain pk where pk: "primary_key wa db table ?ts = Val pk"
    using assms(1) by (auto simp: table_turn_def Let_def rbind_Val_iff)
  show ?thesis
  proof (cases pk)
    case None
    then show ?thesis using assms pk by (auto simp: table_turn_def Let_def cycle_ok_def)
  next
    case (Some pk_fields)
    obtain r gens cache s where run: "run_sync wa db table pk_fields cy = (r, gens, cache, s)"
      by (cases "run_sync wa db table pk_fields cy")
    note kept = run_sync_keeps [OF run assms(2,3,4)]
    have caches: "sound_caches (AList.update table cache (cy_caches cy))" and pending: "pending_fits wa F (take_pending table cy)"
      using kept assms(3) by (simp_all add: cycle_ok_def sound_caches_update take_pending_def pending_fits_remove)
    obtain q t where rc: "ds_reconnect sink s = (q, t)" by (cases "ds_reconnect sink s")
    have "keeps_ok t" using reconnect_keeps kept rc by (metis snd_conv)
    have "cy_pending cy' = take_pending table cy \<and> cy_caches cy' = AList.update table cache (cy_caches cy) \<and>
        (cy_sink cy' = s \<or> cy_sink cy' = t)"
      using assms(1,2) pk Some run rc
      by (cases r; cases q) (auto simp: table_turn_def Let_def put_gens_def put_table_def)
    then show ?thesis using caches pending kept \<open>keeps_ok t\<close> by (auto simp: cycle_ok_def)
  qed
qed

lemma watch_cycle_keeps:
  assumes "watch_cycle wa w = (r, w')" and "wa_sink wa = sink" and "watch_ok F wa w"
    and "mmap (w_db w') \<in> F"
  shows "watch_ok F wa w'"
proof (cases "rfold (table_turn wa (w_db w)) (wa_tables wa) (start_cycle w)")
  case (Val cy)
  have close: "close_cycle wa cy w = (r, w')" using assms(1) Val by (simp add: watch_cycle_def)
  then have db: "mmap (w_db w) \<in> F" using assms(4) close_cycle_frame by metis
  have "cycle_ok F wa (start_cycle w)" using assms(3) by (simp add: watch_ok_def cycle_ok_def start_cycle_def)
  then have "cycle_ok F wa cy"
    by (rule rfold_invariant [where P = "cycle_ok F wa", OF Val]) (rule table_turn_keeps [OF _ assms(2) _ db])
  then show ?thesis using close_cycle_frame [OF close] by (fastforce simp: cycle_ok_def watch_ok_def)
qed (use assms in \<open>simp_all add: watch_cycle_def\<close>)

lemma watch_turn_keeps:
  assumes "watch_turn wa fdb w = (r, w')" and "wa_sink wa = sink" and "watch_ok F wa w"
    and "mmap (w_db w') \<in> F"
  shows "watch_ok F wa w'"
proof (cases "rbind (remap fdb w) (\<lambda>w. rbind (generation (w_db w) 0) (\<lambda>gen. Val (w, gen)))")
  case (Val p)
  then obtain w1 gen where w1: "remap fdb w = Val w1" "p = (w1, gen)" by (auto simp: rbind_Val_iff)
  have "sound_caches (w_table_caches w1)"
    using remap_fields(7) [OF w1(1)] assms(3) unfolding watch_ok_def
    by (elim disjE) (simp_all add: sound_caches_def)
  then have "watch_ok F wa w1" using remap_fields [OF w1(1)] assms(3) by (simp add: watch_ok_def)
  then have "watch_ok F wa (w1\<lparr>w_last_hdr_gen := Some gen\<rparr>)" "watch_ok F wa w1" by (simp_all add: watch_ok_def)
  then show ?thesis using assms(1,2,4) Val w1(2) watch_cycle_keeps
    by (auto simp: watch_turn_def split: if_splits)
qed (use assms in \<open>simp_all add: watch_turn_def\<close>)

lemma watch_step_keeps:
  assumes "step_on F wa x y" and "wa_sink wa = sink" and "watch_ok F wa (watch_of x)"
  shows "watch_ok F wa (watch_of y)"
proof -
  have "watch_step wa x y" "mmap (w_db (watch_of y)) \<in> F" using assms(1) by (simp_all add: step_on_def)
  then show ?thesis
  proof (cases rule: watch_stepE)
    case (stopped w r w')
    then show ?thesis using assms(3) save_watch_frame [OF stopped(3)] by (simp add: watch_ok_def)
  qed (use assms(2,3) watch_turn_keeps in auto)
qed

lemma watch_run_keeps:
  assumes "(step_on F wa)\<^sup>*\<^sup>* x y" and "wa_sink wa = sink" and "watch_ok F wa (watch_of x)"
  shows "watch_ok F wa (watch_of y)"
  using assms(1)
  by (induction rule: rtranclp_induct) (use assms(3) watch_step_keeps [OF _ assms(2)] in auto)

end

section \<open>A sample run\<close>

text \<open>A watcher of the sample table, whose sink accepts and logs everything.\<close>

definition toy_watcher :: "(cdc_state \<Rightarrow> bytes option) \<Rightarrow> (bytes \<Rightarrow> cdc_state option) \<Rightarrow> (nat \<times> delivery list) watcher" where
  "toy_watcher enc dec = \<lparr>wa_uc = (\<lambda>c. []), wa_lc = (\<lambda>s. s), wa_sink = recording (toy_sink True), wa_tables = [[116]],
     wa_state_path = [115], wa_to_json = enc, wa_from_json = dec, wa_order = (\<lambda>m. []), wa_debug = False\<rparr>"

definition toy_state :: cdc_state where
  "toy_state = \<lparr>sv_version = 1, sv_last_txn = 0, sv_tables = [[116] \<mapsto> \<lparr>ts_last_txn = 0, ts_pk_fields = [[99]]\<rparr>],
     sv_page_gens = Map.empty\<rparr>"

definition toy_watch :: "(nat \<times> delivery list) watch" where
  "toy_watch = \<lparr>w_state = toy_state, w_pending = Map.empty, w_last_hdr_gen = None,
     w_table_caches = [([116], Some (cdc_cache []))], w_db = cdc_db 0, w_db_filesize = 43, w_fs = Map.empty, w_sink = (0, [])\<rparr>"

lemma cdc_db_mmap: "(cdc_db 0)\<lparr>mmap := cdc_page 0\<rparr> = cdc_db 0"
  by (simp add: cdc_db_def)


lemma toy_cycle:
  "\<exists>cy meta ups dels. rfold (table_turn (toy_watcher enc dec) (cdc_db 0)) [[116]]
      (start_cycle (toy_watch\<lparr>w_last_hdr_gen := g\<rparr>)) = Val cy \<and>
    cy_upserts cy = 1 \<and> cy_new_max cy = 7 \<and> cy_sink cy = (1, [(meta, ups, dels, 1, 0)])"
proof -
  obtain scan where scan: "scan_changes_into (cdc_db 0) (cdc_cache []) 0 Map.empty = Val scan" "so_upserts scan = 1"
    "so_deletes scan = 0" "so_max_txn scan = 7"
    using cdc_scan by auto
  let ?wa = "toy_watcher enc dec" and ?cy = "start_cycle (toy_watch\<lparr>w_last_hdr_gen := g\<rparr>)"
  let ?m = "table_meta (\<lambda>s. s) [116] (cdc_cache [])"
  have cache: "cache_of (cy_caches ?cy) [116] = Some (cdc_cache [])"
    by (simp add: cache_of_def start_cycle_def toy_watch_def)
  have mark: "table_watermark (cy_state ?cy) [116] = 0" "table_of (cy_state ?cy) [116] = \<lparr>ts_last_txn = 0, ts_pk_fields = [[99]]\<rparr>"
    "sv_page_gens (cy_state ?cy) [116] = None" "cy_sink ?cy = (0, [])" "cy_upserts ?cy = 0" "cy_new_max ?cy = 0"
    by (simp_all add: table_watermark_def table_of_def start_cycle_def toy_watch_def toy_state_def)
  have hand: "hand_over (\<lambda>s. s) (recording (toy_sink True)) [116] False (cdc_cache []) scan (0, []) =
      (Val (), (1, [(?m, so_upsert_out scan, so_delete_buf scan, 1, 0)]))"
    using scan by (simp add: hand_over_def recording_def toy_sink_def)
  have run: "run_sync ?wa (cdc_db 0) [116] [[99]] ?cy =
      (Val (stats_of scan), settle_gens False (tc_data_pages (cdc_cache [])) scan Map.empty,
       Some (settle_cache False scan (cdc_cache [])), (1, [(?m, so_upsert_out scan, so_delete_buf scan, 1, 0)]))"
    using scan(1) hand
    by (simp add: run_sync_def cache mark sync_table_def sync_cached_def cdc_refresh toy_watcher_def)
  show ?thesis
    using scan by (simp add: table_turn_def mark primary_key_def run) (simp add: stats_of_def)
qed

lemma toy_turn:
  assumes "enc = (\<lambda>st. Some [7])"
  shows "\<exists>w' meta ups dels. watch_turn (toy_watcher enc dec) (cdc_page 0) toy_watch = (Val (), w') \<and>
    w_sink w' = (1, [(meta, ups, dels, 1, 0)])"
proof -
  let ?w = "toy_watch\<lparr>w_last_hdr_gen := Some 3\<rparr>"
  obtain cy meta ups dels where cy: "rfold (table_turn (toy_watcher enc dec) (cdc_db 0)) [[116]] (start_cycle ?w) = Val cy"
    "cy_sink cy = (1, [(meta, ups, dels, 1, 0)])"
    using toy_cycle by blast
  have "remap (cdc_page 0) toy_watch = Val toy_watch"
    using cdc_db_mmap by (simp add: remap_def toy_watch_def)
  moreover have "generation (w_db toy_watch) 0 = Val 3" by (simp add: generation_def toy_watch_def cdc_db_page)
  moreover have "w_last_hdr_gen toy_watch = None" "w_db ?w = cdc_db 0" "wa_tables (toy_watcher enc dec) = [[116]]"
    by (simp_all add: toy_watch_def toy_watcher_def)
  ultimately have turn: "watch_turn (toy_watcher enc dec) (cdc_page 0) toy_watch = close_cycle (toy_watcher enc dec) cy ?w"
    using cy(1) by (simp add: watch_turn_def watch_cycle_def)
  obtain r w' where close: "close_cycle (toy_watcher enc dec) cy ?w = (r, w')" by (cases "close_cycle (toy_watcher enc dec) cy ?w")
  then have "r = Val ()"
    using assms by (auto simp: close_cycle_def save_watch_def save_state_def toy_watcher_def Let_def split: if_splits)
  then show ?thesis using turn close close_cycle_frame [OF close] cy(2) by auto
qed

section \<open>Properties\<close>



text \<open>
  C18. A turn on an unchanged file does nothing at all: after a turn, the same content of the file
  leaves the whole state as it is. This is also so when tables have failed in the first turn: their
  changes are not tried again before the header page changes.
\<close>

theorem turn_is_idempotent:
  assumes "watch_turn wa fdb w = (Val (), w')"
  shows "watch_turn wa fdb w' = (Val (), w')"
  using assms
proof (cases rule: watch_turn_Val)
  case (1 w1 gen)
  note f = remap_fields [OF 1(1)]
  have same: "w_db w' = w_db w1 \<and> w_db_filesize w' = w_db_filesize w1 \<and> w_last_hdr_gen w' = Some gen"
  proof (cases "w_last_hdr_gen w1 = Some gen")
    case False
    then obtain cy where "close_cycle wa cy (w1\<lparr>w_last_hdr_gen := Some gen\<rparr>) = (Val (), w')" using 1(3) by auto
    from close_cycle_frame [OF this] show ?thesis by simp
  qed (use 1(3) in simp)
  then have "remap fdb w' = Val w'" using f by (intro remap_same) simp_all
  then show ?thesis using same 1(2) by (simp add: watch_turn_def)
qed

theorem turn_is_idempotent_witness:
  "\<exists>w'. watch_turn (toy_watcher (\<lambda>st. Some [7]) (\<lambda>j. None)) (cdc_page 0) toy_watch = (Val (), w') \<and>
    watch_turn (toy_watcher (\<lambda>st. Some [7]) (\<lambda>j. None)) (cdc_page 0) w' = (Val (), w') \<and> fst (w_sink w') = 1"
proof -
  obtain w' meta ups dels where w': "watch_turn (toy_watcher (\<lambda>st. Some [7]) (\<lambda>j. None)) (cdc_page 0) toy_watch = (Val (), w')"
    "w_sink w' = (1, [(meta, ups, dels, 1, 0)])"
    using toy_turn [OF refl] by blast
  from turn_is_idempotent [OF w'(1)] w' show ?thesis by auto
qed

text \<open>
  C33. One table that moves raises the watermark of all. After a cycle that has found a change
  anywhere, no record up to the highest transaction of the cycle is ever written again, for any
  table: also not for a table whose delta was refused in that cycle, and not for a transaction that
  writes later than one with a higher number. Such changes are lost.
\<close>

theorem watermark_is_global:
  assumes "rfold (table_turn wa db) tables (start_cycle w) = Val cy" and "cy_upserts cy > 0 \<or> cy_deletes cy > 0"
    and "close_cycle wa cy w = (r, w')" and "record_transaction raw = Val (Some txn)" and "txn \<le> cy_new_max cy"
    and "scan_record db' c (table_watermark (w_state w') table) page_changed rebuild raw st = Val st'"
  shows "rs_upsert_out st' = rs_upsert_out st \<and> rs_delete_buf st' = rs_delete_buf st"
proof -
  have "w_state w' = (cy_state cy)\<lparr>sv_last_txn := cy_new_max cy\<rparr>"
    using close_cycle_frame [OF assms(3)] assms(2) by auto
  then have le: "txn \<le> table_watermark (w_state w') table" using assms(5) by (simp add: table_watermark_def)
  from scan_record_step [OF assms(6)] show ?thesis
  proof (cases rule: record_stepE)
    case (old txn' u buf)
    then show ?thesis
      by (auto simp: keyed_def snapshot_key_def rbind_Val_iff split: if_splits option.splits)
  qed (use assms(4) le in auto)
qed

theorem watermark_is_global_witness:
  "\<exists>cy w' st'. rfold (table_turn (toy_watcher (\<lambda>st. Some [7]) (\<lambda>j. None)) (cdc_db 0)) [[116]] (start_cycle toy_watch) = Val cy \<and>
    close_cycle (toy_watcher (\<lambda>st. Some [7]) (\<lambda>j. None)) cy toy_watch = (Val (), w') \<and>
    scan_record (cdc_db 0) (cdc_cache []) (table_watermark (w_state w') [117]) True False (cdc_raw 0) (ps_rec (scan_init 0)) = Val st' \<and>
    rs_upsert_out st' = rs_upsert_out (ps_rec (scan_init 0))"
proof -
  let ?wa = "toy_watcher (\<lambda>st. Some [7]) (\<lambda>j. None)"
  obtain cy where cy: "rfold (table_turn ?wa (cdc_db 0)) [[116]] (start_cycle (toy_watch\<lparr>w_last_hdr_gen := None\<rparr>)) = Val cy"
    "cy_upserts cy = 1" "cy_new_max cy = 7"
    using toy_cycle by blast
  have w: "toy_watch\<lparr>w_last_hdr_gen := None\<rparr> = toy_watch" by (simp add: toy_watch_def)
  have moved: "cy_upserts cy > 0 \<or> cy_deletes cy > 0" and le: "7 \<le> cy_new_max cy" using cy(2,3) by simp_all
  have txn: "record_transaction (cdc_raw 0) = Val (Some 7)" by (simp add: cdc_raw_live)
  obtain w' where close: "close_cycle ?wa cy toy_watch = (Val (), w')"
    using cy(2) by (simp add: close_cycle_def save_watch_def save_state_def toy_watcher_def)
  then have "w_state w' = (cy_state cy)\<lparr>sv_last_txn := cy_new_max cy\<rparr>"
    using close_cycle_frame [OF close] moved by auto
  then have "7 \<le> table_watermark (w_state w') [117]" using le by (simp add: table_watermark_def)
  then obtain st' where st': "scan_record (cdc_db 0) (cdc_cache []) (table_watermark (w_state w') [117]) True False (cdc_raw 0)
      (ps_rec (scan_init 0)) = Val st'"
    by (simp add: scan_record_def cdc_raw_live rhd_flags_def)
  from watermark_is_global [OF cy(1) [unfolded w] moved close txn le st'] cy(1) close st' show ?thesis
    unfolding w by blast
qed

text \<open>
  C10. A stop and a restart resume where the watcher was: the state that is loaded is the one that
  was saved, and the pending snapshots are exactly those of the caches, for every codec that reads
  back the saved state. (The sizes the snapshot file stores in 32 and 64 bits must fit.)
\<close>

theorem restart_resumes:
  assumes "save_watch wa w = (Val (), w')"
    and "Option.bind (wa_to_json wa (w_state w)) (wa_from_json wa) = Some (w_state w)"
    and "distinct (map fst (w_table_caches w))" and "length (w_table_caches w) < 2 ^ 61"
    and "\<forall>(name, c) \<in> set (tracked (w_table_caches w)). snap_ok name c" and "ods_open fdb = Val db"
  shows "\<exists>w''. watch_init wa fdb (w_fs w') s = Val w'' \<and> w_state w'' = w_state w \<and>
    (\<forall>table. w_pending w'' table = snapshot_of (w_table_caches w) table) \<and> w_db w'' = db \<and> w_sink w'' = s"
proof -
  let ?p = "wa_state_path wa" and ?b = "save_snapshots (w_table_caches w)"
  obtain j where j: "wa_to_json wa (w_state w) = Some j" "wa_from_json wa j = Some (w_state w)"
    using assms(2) by (auto simp: bind_eq_Some_conv)
  have ne: "?p @ lit ''.tmp'' \<noteq> ?p" "snap_path ?p \<noteq> ?p" "snap_path ?p @ lit ''.tmp'' \<noteq> ?p"
    "snap_path ?p @ lit ''.tmp'' \<noteq> snap_path ?p"
    by (simp_all add: snap_path_def lit_def)
  have fs: "w_fs w' ?p = Some j" "w_fs w' (snap_path ?p) = Some ?b"
    using assms(1) j ne by (auto simp: save_watch_def save_state_def replace_file_def)
  obtain m where m: "load_snapshots (Some ?b) = Val m" "\<forall>name. m name = snapshot_of (w_table_caches w) name"
    using snapshots_reload [OF assms(3-5)] by blast
  then show ?thesis using fs j(2) assms(6) by (simp add: watch_init_def load_state_def)
qed

theorem restart_resumes_witness:
  "\<exists>w' w''. save_watch (toy_watcher (\<lambda>st. Some [7]) (\<lambda>j. Some toy_state)) (toy_watch\<lparr>w_table_caches := [([84], Some sample_cache)]\<rparr>) =
      (Val (), w') \<and>
    watch_init (toy_watcher (\<lambda>st. Some [7]) (\<lambda>j. Some toy_state)) empty_file (w_fs w') (0, []) = Val w'' \<and>
    w_state w'' = toy_state \<and> w_pending w'' [84] = Some (6, [4 \<mapsto> [0, 0, 0, 2, 0, 8]])"
proof -
  let ?wa = "toy_watcher (\<lambda>st. Some [7]) (\<lambda>j. Some toy_state)" and ?w = "toy_watch\<lparr>w_table_caches := [([84], Some sample_cache)]\<rparr>"
  have "\<exists>w'. save_watch ?wa ?w = (Val (), w')" by (simp add: save_watch_def save_state_def toy_watcher_def)
  then obtain w' where w': "save_watch ?wa ?w = (Val (), w')" by blast
  have state: "w_state ?w = toy_state" by (simp add: toy_watch_def)
  have codec: "Option.bind (wa_to_json ?wa (w_state ?w)) (wa_from_json ?wa) = Some (w_state ?w)"
    by (simp add: toy_watcher_def state)
  have one: "w_table_caches ?w = [([84], Some sample_cache)]" by simp
  have "\<forall>(name, c) \<in> set (tracked (w_table_caches ?w)). snap_ok name c"
    by (simp add: snap_tracked_def sample_cache_def snap_ok_def page_ok_def scalar_def utf8_encode_def utf8_char_def)
  moreover have "distinct (map fst (w_table_caches ?w))" "length (w_table_caches ?w) < 2 ^ 61" by (simp_all add: one)
  ultimately obtain w'' where "watch_init ?wa empty_file (w_fs w') (0, []) = Val w''" "w_state w'' = w_state ?w"
    "\<forall>table. w_pending w'' table = snapshot_of (w_table_caches ?w) table"
    using restart_resumes [OF w' codec _ _ _ empty_file_open, of "(0, [])"] by blast
  moreover have "snapshot_of (w_table_caches ?w) [84] = Some (6, [4 \<mapsto> [0, 0, 0, 2, 0, 8]])"
    by (simp add: snapshot_of_def snap_tracked_def) (simp add: sample_cache_def)
  ultimately show ?thesis using w' state by auto
qed

end
