(* ===== verification/Commands.thy ===== *)
theory Commands
  imports Pg_Load Cdc_Watch
begin

text \<open>
  The commands: the dispatch of the command line tool and its slot report (\<open>src/src/lib.rs\<close>), the
  extraction into a file (\<open>src/src/extract.rs\<close>), the start of the local watcher (\<open>src/src/cdc.rs\<close>),
  the agent (\<open>src/src/bin/agent.rs\<close>) and the tenants of the gateway (\<open>src/src/bin/ingest.rs\<close>).
  Arguments are records of what has been parsed, the files a map from paths to contents; what is
  only printed is left out, except for the report.
\<close>

section \<open>Arguments\<close>

record args =
  ar_database :: "str option"
  ar_table :: "str option"
  ar_output :: "str option"
  ar_list_tables :: bool
  ar_create_table :: bool
  ar_bench :: bool
  ar_pg_database :: "str option"
  ar_all_tables :: bool
  ar_tables :: "str list"
  ar_drop :: bool
  ar_unlogged :: bool
  ar_watch :: bool
  ar_state_file :: "str option"
  ar_debug :: bool
  ar_inspect :: bool

definition required :: "string \<Rightarrow> 'a option \<Rightarrow> 'a run" where
  "required msg x = (case x of Some v \<Rightarrow> Val v | None \<Rightarrow> Err (InvalidData msg))"

definition unwrap :: "'a option \<Rightarrow> 'a run" where
  "unwrap x = (case x of Some v \<Rightarrow> Val v | None \<Rightarrow> Panic)"

definition open_path :: "fs \<Rightarrow> str \<Rightarrow> ods run" where
  "open_path files path = rbind (required ''open'' (files path)) ods_open"

section \<open>The slot report\<close>

datatype slot_report =
    Slot_Empty
  | Slot_OOB nat nat
  | Slot_Short nat
  | Slot_Record nat nat nat nat nat nat

text \<open>A record is shown with its transaction, flags, format, back pointer and length.\<close>

definition inspect_slot :: "ods \<Rightarrow> bytes \<Rightarrow> nat \<Rightarrow> slot_report run" where
  "inspect_slot db dp s =
     rbind (u16_at dp (24 + s * 4)) (\<lambda>off.
     rbind (u16_at dp (26 + s * 4)) (\<lambda>len.
     if off = 0 \<or> len = 0 then Val Slot_Empty
     else if off + len > page_size db then Val (Slot_OOB off len)
     else
       rbind (slice dp off (off + len)) (\<lambda>raw.
       if length raw < 13 then Val (Slot_Short (length raw))
       else
         rbind (u32_at raw 0) (\<lambda>lo.
         rbind (u32_at raw 4) (\<lambda>bp.
         rbind (u16_at raw 8) (\<lambda>bl.
         rbind (u16_at raw 10) (\<lambda>fl.
         rbind (byte_at raw 12) (\<lambda>fmt.
         rbind (if has_flag fl 1024 \<and> length raw \<ge> 16
                then rbind (u16_at raw 14) (\<lambda>hi. Val (or (push_bit 32 hi) lo)) else Val lo) (\<lambda>txn.
           Val (Slot_Record txn fl (unat fmt) bp bl (length raw)))))))))))"

fun inspect_slots :: "ods \<Rightarrow> bytes \<Rightarrow> nat list \<Rightarrow> slot_report list run" where
  "inspect_slots db dp [] = Val []"
| "inspect_slots db dp (s # ss) =
     rbind (inspect_slot db dp s) (\<lambda>r. rbind (inspect_slots db dp ss) (\<lambda>rs. Val (r # rs)))"

fun inspect_pages :: "ods \<Rightarrow> nat list \<Rightarrow> (nat \<times> nat \<times> slot_report list) list run" where
  "inspect_pages db [] = Val []"
| "inspect_pages db (dp_n # dps) =
     rbind (page db dp_n) (\<lambda>dp.
     rbind (byte_at dp 0) (\<lambda>ty.
     if ty \<noteq> PAG_DATA then inspect_pages db dps
     else
       rbind (u32_at dp 4) (\<lambda>gen.
       rbind (u16_at dp 22) (\<lambda>cnt.
       rbind (inspect_slots db dp [0..<cnt]) (\<lambda>rs.
       rbind (inspect_pages db dps) (\<lambda>rest. Val ((dp_n, gen, rs) # rest)))))))"

definition inspect_relation :: "(nat \<Rightarrow> str) \<Rightarrow> fs \<Rightarrow> args \<Rightarrow> (nat \<times> nat \<times> slot_report list) list run" where
  "inspect_relation uc files args =
     rbind (required ''--database required'' (ar_database args)) (\<lambda>db_path.
     rbind (required ''--table TABLE required for --inspect'' (ar_table args)) (\<lambda>table.
     rbind (open_path files db_path) (\<lambda>db.
     rbind (find_relation_id uc db table) (\<lambda>rid.
     rbind (find_first_pp db rid) (\<lambda>pp. case pp of
       None \<Rightarrow> Val []
     | Some pp \<Rightarrow> rbind (data_pages_for db pp) (\<lambda>pages. inspect_pages db pages))))))"

section \<open>Extraction into a file\<close>

text \<open>The name of the output (\<open>-\<close> for the standard output), its content and the number of rows.\<close>

definition output_of :: "(str \<Rightarrow> str) \<Rightarrow> args \<Rightarrow> str \<Rightarrow> str" where
  "output_of lc args table =
     (case ar_output args of Some f \<Rightarrow> f | None \<Rightarrow> to_lowercase lc table @ lit ''.bin'')"

definition extract_ods_binary :: "(nat \<Rightarrow> str) \<Rightarrow> (str \<Rightarrow> str) \<Rightarrow> fs \<Rightarrow> args \<Rightarrow> (str \<times> bytes \<times> nat) run" where
  "extract_ods_binary uc lc files args =
     rbind (unwrap (ar_table args)) (\<lambda>table.
     rbind (unwrap (ar_database args)) (\<lambda>path.
     rbind (open_path files path) (\<lambda>db.
     rbind (find_relation_id uc db table) (\<lambda>relation_id.
     rbind (copy_slots uc db relation_id table) (\<lambda>(field_order, n_fields).
     rbind (write_copy_stream db relation_id field_order n_fields) (\<lambda>(stream, n_rows).
       Val (output_of lc args table, stream, n_rows)))))))"

section \<open>The command line tool\<close>

datatype command =
    Run_Bench
  | Run_Watch
  | Run_Inspect
  | Run_Constraints str
  | Run_List_Tables str
  | Run_Create_Table
  | Run_Migrate_All
  | Run_Migrate_List "str list"
  | Run_Migrate str
  | Run_Extract str str

definition debug_prefix :: str where
  "debug_prefix = lit ''__debug_constraints:''"

definition starts_with :: "str \<Rightarrow> str \<Rightarrow> bool" where
  "starts_with pre s \<longleftrightarrow> take (length pre) s = pre"

text \<open>The name after the prefix of a hidden debug command.\<close>

definition debug_name :: "args \<Rightarrow> str option" where
  "debug_name args =
     (case ar_table args of
        Some tbl \<Rightarrow> if starts_with debug_prefix tbl then Some (drop (length debug_prefix) tbl) else None
      | None \<Rightarrow> None)"

definition run_cli :: "(str \<Rightarrow> str) \<Rightarrow> args \<Rightarrow> command run" where
  "run_cli lc args =
     (if ar_bench args then Val Run_Bench
      else if ar_watch args then Val Run_Watch
      else if ar_inspect args then Val Run_Inspect
      else (case debug_name args of
           Some name \<Rightarrow> Val (Run_Constraints name)
         | None \<Rightarrow>
           if ar_list_tables args
           then rbind (required ''--database required'' (ar_database args)) (\<lambda>path. Val (Run_List_Tables path))
           else if ar_create_table args then Val Run_Create_Table
           else if ar_pg_database args \<noteq> None
           then if ar_all_tables args then Val Run_Migrate_All
                else if ar_tables args \<noteq> [] then Val (Run_Migrate_List (ar_tables args))
                else rbind (required ''Provide --table TABLE, --tables T1 T2 ..., or --all-tables'' (ar_table args)) (\<lambda>table.
                  Val (Run_Migrate table))
           else rbind (required ''Provide --table TABLE or --list-tables'' (ar_table args)) (\<lambda>table.
             Val (Run_Extract table (output_of lc args table)))))"

section \<open>Starting the watcher\<close>

text \<open>The tables to work on; both programs choose them alike.\<close>

definition chosen_tables :: "bool \<Rightarrow> str list \<Rightarrow> str option \<Rightarrow> ods run \<Rightarrow> str list run" where
  "chosen_tables all_tables tables table db =
     (if all_tables then rbind db list_tables
      else if tables \<noteq> [] then Val tables
      else rbind (required ''Provide --table, --tables, or --all-tables'' table) (\<lambda>t. Val [t]))"

definition state_path_of :: "str option \<Rightarrow> str \<Rightarrow> str" where
  "state_path_of state_file db_path = (case state_file of Some p \<Rightarrow> p | None \<Rightarrow> db_path @ lit ''.cdc.json'')"

record codec =
  co_uc :: "nat \<Rightarrow> str"
  co_lc :: "str \<Rightarrow> str"
  co_to_json :: "cdc_state \<Rightarrow> bytes option"
  co_from_json :: "bytes \<Rightarrow> cdc_state option"
  co_order :: "(nat \<Rightarrow> bytes option) \<Rightarrow> (nat \<times> bytes) list"

definition watcher_of :: "codec \<Rightarrow> 's delta_sink \<Rightarrow> str list \<Rightarrow> str \<Rightarrow> bool \<Rightarrow> 's watcher" where
  "watcher_of co sink tables state_path debug =
     \<lparr>wa_uc = co_uc co, wa_lc = co_lc co, wa_sink = sink, wa_tables = tables, wa_state_path = state_path,
      wa_to_json = co_to_json co, wa_from_json = co_from_json co, wa_order = co_order co, wa_debug = debug\<rparr>"

text \<open>The start of \<open>run_watch\<close> on the file at a path.\<close>

definition start_watch :: "'s watcher \<Rightarrow> str \<Rightarrow> fs \<Rightarrow> 's \<Rightarrow> 's watch run" where
  "start_watch wa db_path files s =
     (case files db_path of
        Some fdb \<Rightarrow> watch_init wa fdb files s
      | None \<Rightarrow> rbind (load_snapshots (files (snap_path (wa_state_path wa)))) (\<lambda>_. Err (InvalidData ''open'')))"

definition cdc_watch :: "codec \<Rightarrow> 's server \<Rightarrow> fs \<Rightarrow> args \<Rightarrow> ('s, 's watcher \<times> 's watch) pgm" where
  "cdc_watch co srv files args =
     pbind (of_run (unwrap (ar_database args))) (\<lambda>db_path.
     pbind (of_run (unwrap (ar_pg_database args))) (\<lambda>pg_db.
     pbind (of_run (chosen_tables (ar_all_tables args) (ar_tables args) (ar_table args) (open_path files db_path))) (\<lambda>tables.
     pbind (connect_to srv pg_db) (\<lambda>_ s.
       let wa = watcher_of co (local_sink srv pg_db) tables (state_path_of (ar_state_file args) db_path) (ar_debug args)
       in pbind (of_run (start_watch wa db_path files s)) (\<lambda>w. pval (wa, w)) s))))"

section \<open>The agent\<close>

record agent_args =
  aa_database :: str
  aa_table :: "str option"
  aa_tables :: "str list"
  aa_all_tables :: bool
  aa_unlogged :: bool
  aa_watch :: bool
  aa_state_file :: "str option"

record push_totals =
  pt_ok :: nat
  pt_failed :: nat
  pt_rows_read :: nat
  pt_rows_sent :: nat
  pt_bytes :: nat

definition no_push :: push_totals where
  "no_push = \<lparr>pt_ok = 0, pt_failed = 0, pt_rows_read = 0, pt_rows_sent = 0, pt_bytes = 0\<rparr>"

text \<open>\<open>push\<close> pushes one table, on a connection of its own.\<close>

fun push_each :: "(str \<Rightarrow> ('s, nat \<times> nat \<times> nat) pgm) \<Rightarrow> str list \<Rightarrow> push_totals \<Rightarrow> ('s, push_totals) pgm" where
  "push_each push [] t s = (Val t, s)"
| "push_each push (table # tables) t s =
     (case push table s of
        (Val (n_read, n_sent, n), s) \<Rightarrow>
          push_each push tables (t\<lparr>pt_ok := pt_ok t + 1, pt_rows_read := pt_rows_read t + n_read,
            pt_rows_sent := pt_rows_sent t + n_sent, pt_bytes := pt_bytes t + n\<rparr>) s
      | (Err e, s) \<Rightarrow> push_each push tables (t\<lparr>pt_failed := pt_failed t + 1\<rparr>) s
      | (Panic, s) \<Rightarrow> (Panic, s)
      | (Hang, s) \<Rightarrow> (Hang, s))"

text \<open>How the agent ends, or the watcher it goes on with.\<close>

datatype 's agent_end = Exit nat | Watching "'s watcher" "'s watch"

definition agent_main ::
    "codec \<Rightarrow> 's delta_sink \<Rightarrow> (ods \<Rightarrow> bool \<Rightarrow> str \<Rightarrow> ('s, nat \<times> nat \<times> nat) pgm) \<Rightarrow> fs \<Rightarrow> agent_args \<Rightarrow>
     ('s, push_totals \<times> 's agent_end) pgm" where
  "agent_main co sink push files args =
     pbind (of_run (open_path files (aa_database args))) (\<lambda>db.
     pbind (of_run (chosen_tables (aa_all_tables args) (aa_tables args) (aa_table args) (Val db))) (\<lambda>tables.
     pbind (push_each (push db (aa_unlogged args)) tables no_push) (\<lambda>t s.
     if pt_failed t > 0 then (Val (t, Exit 1), s)
     else if aa_watch args then
       (let wa = watcher_of co sink tables (state_path_of (aa_state_file args) (aa_database args)) False
        in pbind (of_run (start_watch wa (aa_database args) files s)) (\<lambda>w. pval (t, Watching wa w)) s)
     else (Val (t, Exit 0), s))))"

section \<open>The tenants of the gateway\<close>

text \<open>\<open>split_once('=')\<close>, and the map from tenants to databases, where a later entry wins.\<close>

definition split_eq :: "str \<Rightarrow> (str \<times> str) option" where
  "split_eq s = (if 61 \<in> set s then Some (takeWhile (\<lambda>c. c \<noteq> 61) s, drop 1 (dropWhile (\<lambda>c. c \<noteq> 61) s)) else None)"

fun parse_tenants :: "str list \<Rightarrow> (str \<Rightarrow> str option) \<Rightarrow> (str \<Rightarrow> str option) run" where
  "parse_tenants [] m = Val m"
| "parse_tenants (t # ts) m =
     (case split_eq t of
        None \<Rightarrow> Err (InvalidData ''bad --tenant, expected tenant=database'')
      | Some (cn, db) \<Rightarrow> parse_tenants ts (m(cn := Some db)))"

section \<open>Properties\<close>

text \<open>What the report shows of a slot is what the scans see of it.\<close>

lemma inspect_slot_val:
  assumes "u16_at dp (24 + s * 4) = Val off" and "u16_at dp (26 + s * 4) = Val len"
    and "length dp = page_size db"
  shows "slot_raw db dp s = Val (if off = 0 \<or> len = 0 \<or> off + len > page_size db then None else Some (take len (drop off dp)))"
    and "\<exists>r. inspect_slot db dp s = Val r \<and>
      (if off = 0 \<or> len = 0 then r = Slot_Empty
       else if off + len > page_size db then r = Slot_OOB off len
       else if len < 13 then r = Slot_Short len
       else \<exists>txn fmt bp bl. r = Slot_Record txn (flags_of (take len (drop off dp))) fmt bp bl len \<and>
         (\<forall>t. record_transaction (take len (drop off dp)) = Val (Some t) \<longrightarrow> txn = t))"
proof -
  have eq: "26 + s * 4 = 24 + s * 4 + 2" by simp
  show "slot_raw db dp s = Val (if off = 0 \<or> len = 0 \<or> off + len > page_size db then None else Some (take len (drop off dp)))"
    using assms by (simp add: slot_raw_def slot_bounds_def slice_def)
  let ?raw = "take len (drop off dp)"
  show "\<exists>r. inspect_slot db dp s = Val r \<and>
      (if off = 0 \<or> len = 0 then r = Slot_Empty
       else if off + len > page_size db then r = Slot_OOB off len
       else if len < 13 then r = Slot_Short len
       else \<exists>txn fmt bp bl. r = Slot_Record txn (flags_of ?raw) fmt bp bl len \<and>
         (\<forall>t. record_transaction ?raw = Val (Some t) \<longrightarrow> txn = t))"
  proof (cases "off = 0 \<or> len = 0 \<or> off + len > page_size db \<or> len < 13")
    case True
    then show ?thesis using assms by (auto simp: inspect_slot_def slice_def)
  next
    case False
    then have raw: "slice dp off (off + len) = Val ?raw" "length ?raw = len" "13 \<le> len" using assms by (auto simp: slice_def min_def)
    have fl: "u16_at ?raw 10 = Val (flags_of ?raw)" using raw by (simp add: flags_of_def)
    let ?txn = "if has_flag (flags_of ?raw) 1024 \<and> len \<ge> 16 then 2 ^ 32 * le_at 2 ?raw 14 + le_at 4 ?raw 0 else le_at 4 ?raw 0"
    have "inspect_slot db dp s = Val (Slot_Record ?txn (flags_of ?raw) (unat (?raw ! 12)) (le_at 4 ?raw 4) (le_at 2 ?raw 8) len)"
      using assms False raw fl le_at_bound [where n = 4 and b = ?raw and i = 0]
      by (simp add: inspect_slot_def or_push_bit_add)
    moreover have "?txn = t" if "record_transaction ?raw = Val (Some t)" for t
      using that raw by (auto simp: record_transaction_val RHD_LONG_TRANUM_def split: if_splits)
    ultimately show ?thesis using False by auto
  qed
qed

text \<open>
  The slot report and the scans agree: for a data page of full size, the report shows a record
  for exactly the slots that hand the scans at least 13 bytes, with their flags, and the transaction
  it shows is the one the change capture compares with its watermark.
\<close>

theorem report_agrees_with_scan:
  assumes "length dp = page_size db" and "24 + s * 4 + 4 \<le> length dp"
  shows "\<exists>r raw. inspect_slot db dp s = Val r \<and> slot_raw db dp s = Val raw \<and>
    ((\<exists>txn fl fmt bp bl n. r = Slot_Record txn fl fmt bp bl n) \<longleftrightarrow> (\<exists>b. raw = Some b \<and> 13 \<le> length b)) \<and>
    (\<forall>txn fl fmt bp bl n b. r = Slot_Record txn fl fmt bp bl n \<longrightarrow> raw = Some b \<longrightarrow>
       fl = flags_of b \<and> n = length b \<and> (\<forall>t. record_transaction b = Val (Some t) \<longrightarrow> txn = t))"
proof -
  obtain off len where w: "u16_at dp (24 + s * 4) = Val off" "u16_at dp (26 + s * 4) = Val len"
    using assms(2) by simp
  note raw = inspect_slot_val(1) [OF w assms(1)]
  obtain r where r: "inspect_slot db dp s = Val r"
    "if off = 0 \<or> len = 0 then r = Slot_Empty
     else if off + len > page_size db then r = Slot_OOB off len
     else if len < 13 then r = Slot_Short len
     else \<exists>txn fmt bp bl. r = Slot_Record txn (flags_of (take len (drop off dp))) fmt bp bl len \<and>
       (\<forall>t. record_transaction (take len (drop off dp)) = Val (Some t) \<longrightarrow> txn = t)"
    using inspect_slot_val(2) [OF w assms(1)] by blast
  show ?thesis
  proof (cases "off = 0 \<or> len = 0 \<or> off + len > page_size db")
    case True
    then have "r = Slot_Empty \<or> r = Slot_OOB off len" using r(2) by (auto split: if_splits)
    then show ?thesis using raw True r(1) by (intro exI [of _ r] exI [of _ None]) auto
  next
    case False
    define b where "b = take len (drop off dp)"
    have b: "slot_raw db dp s = Val (Some b)" "length b = len" using raw False assms(1) by (auto simp: b_def min_def)
    have "r = Slot_Short len \<and> len < 13 \<or> 13 \<le> len \<and> (\<exists>txn fmt bp bl. r = Slot_Record txn (flags_of b) fmt bp bl len \<and>
        (\<forall>t. record_transaction b = Val (Some t) \<longrightarrow> txn = t))"
      using r(2) False unfolding b_def [symmetric] by (cases "len < 13") simp_all
    then show ?thesis
    proof (elim disjE conjE exE)
      assume "r = Slot_Short len" "len < 13"
      then show ?thesis using b r(1) by (intro exI [of _ r] exI [of _ "Some b"]) simp
    next
      fix txn fmt bp bl
      assume "13 \<le> len" "r = Slot_Record txn (flags_of b) fmt bp bl len" "\<forall>t. record_transaction b = Val (Some t) \<longrightarrow> txn = t"
      then show ?thesis using b r(1) by (intro exI [of _ r] exI [of _ "Some b"]) simp
    qed
  qed
qed

theorem report_agrees_with_scan_witness:
  "\<exists>r raw. inspect_slot (cdc_db 0) (cdc_page 0) 0 = Val r \<and> slot_raw (cdc_db 0) (cdc_page 0) 0 = Val raw \<and>
    (\<exists>txn fl fmt bp bl n. r = Slot_Record txn fl fmt bp bl n)"
proof -
  have "length (cdc_page 0) = page_size (cdc_db 0)" "24 + 0 * 4 + 4 \<le> length (cdc_page 0)" by (simp_all add: cdc_db_def)
  from report_agrees_with_scan [OF this] obtain r raw where r: "inspect_slot (cdc_db 0) (cdc_page 0) 0 = Val r"
    "slot_raw (cdc_db 0) (cdc_page 0) 0 = Val raw"
    "(\<exists>txn fl fmt bp bl n. r = Slot_Record txn fl fmt bp bl n) \<longleftrightarrow> (\<exists>b. raw = Some b \<and> 13 \<le> length b)"
    by (elim exE conjE) (rule that)
  have "raw = Some (cdc_raw 0)" using cdc_db_page(5) [of 0] r(2) by simp
  then have "\<exists>txn fl fmt bp bl n. r = Slot_Record txn fl fmt bp bl n" using r(3) by simp
  with r(1,2) show ?thesis by blast
qed

lemma push_each_totals:
  assumes "push_each push tables t s = (Val t', s')"
  shows "pt_ok t' + pt_failed t' = pt_ok t + pt_failed t + length tables \<and> pt_failed t \<le> pt_failed t'"
  using assms
proof (induction tables arbitrary: t s)
  case (Cons table tables)
  then show ?case by (fastforce split: prod.splits run.splits)
qed simp

lemma agent_main_watching:
  assumes "agent_main co sink push files args s = (Val (t, Watching wa w), s')"
  shows "\<exists>db. open_path files (aa_database args) = Val db \<and>
    chosen_tables (aa_all_tables args) (aa_tables args) (aa_table args) (Val db) = Val (wa_tables wa) \<and>
    push_each (push db (aa_unlogged args)) (wa_tables wa) no_push s = (Val t, s') \<and>
    aa_watch args \<and> pt_failed t = 0 \<and> pt_ok t = length (wa_tables wa) \<and> wa_sink wa = sink"
proof -
  obtain db tables t1 s1 where run: "open_path files (aa_database args) = Val db"
    "chosen_tables (aa_all_tables args) (aa_tables args) (aa_table args) (Val db) = Val tables"
    "push_each (push db (aa_unlogged args)) tables no_push s = (Val t1, s1)"
    and rest: "(if pt_failed t1 > 0 then (Val (t1, Exit 1), s1)
     else if aa_watch args then
       (let wa = watcher_of co sink tables (state_path_of (aa_state_file args) (aa_database args)) False
        in pbind (of_run (start_watch wa (aa_database args) files s1)) (\<lambda>w. pval (t1, Watching wa w)) s1)
     else (Val (t1, Exit 0), s1)) = (Val (t, Watching wa w), s')"
    using assms by (auto simp: agent_main_def of_run_Val elim!: pbind_ValE)
  then have "pt_failed t1 = 0" "aa_watch args" "t = t1" "s' = s1"
    "wa = watcher_of co sink tables (state_path_of (aa_state_file args) (aa_database args)) False"
    by (auto simp: Let_def pval_def of_run_Val elim!: pbind_ValE split: if_splits)
  then show ?thesis using run push_each_totals [OF run(3)] by (simp add: no_push_def watcher_of_def)
qed

text \<open>
  The agent starts to watch only after it has seeded the target: when it goes on with a watcher,
  every table has been pushed in full without a failure, and the watcher is over the same tables.
\<close>

theorem agent_watches_only_seeded:
  assumes "agent_main co sink push files args s = (Val (t, Watching wa w), s')"
  shows "\<exists>db. open_path files (aa_database args) = Val db \<and>
    chosen_tables (aa_all_tables args) (aa_tables args) (aa_table args) (Val db) = Val (wa_tables wa) \<and>
    aa_watch args \<and> pt_failed t = 0 \<and> pt_ok t = length (wa_tables wa) \<and> wa_sink wa = sink"
  using agent_main_watching [OF assms] by blast

theorem agent_watches_only_seeded_witness:
  "\<exists>t wa w s'. agent_main \<lparr>co_uc = (\<lambda>c. []), co_lc = (\<lambda>s. s), co_to_json = (\<lambda>st. None), co_from_json = (\<lambda>j. None), co_order = (\<lambda>m. [])\<rparr>
      (toy_sink True) (\<lambda>db unlogged table n. (Val (3, 3, 40), n + 1)) [[100] \<mapsto> empty_file]
      \<lparr>aa_database = [100], aa_table = None, aa_tables = [[97], [98]], aa_all_tables = False, aa_unlogged = False, aa_watch = True,
       aa_state_file = Some [115]\<rparr> 0 = (Val (t, Watching wa w), s') \<and> pt_ok t = 2 \<and> wa_tables wa = [[97], [98]]"
    (is "\<exists>t wa w s'. ?main = _ \<and> _ \<and> _")
proof -
  have "\<exists>t wa w s'. ?main = (Val (t, Watching wa w), s')"
    by (simp add: agent_main_def open_path_def required_def chosen_tables_def empty_file_open pbind_def of_run_def no_push_def
        start_watch_def watch_init_def watcher_of_def snap_path_def lit_def load_snapshots_def pval_def Let_def state_path_of_def)
  then obtain t wa w s' where main: "?main = (Val (t, Watching wa w), s')" by blast
  from agent_watches_only_seeded [OF main] have "wa_tables wa = [[97], [98]]" "pt_ok t = length (wa_tables wa)"
    by (auto simp: chosen_tables_def)
  then show ?thesis using main by auto
qed

end
