(* ===== verification/Pki.thy ===== *)
theory Pki
  imports Commands
begin

text \<open>
  Certificates: the generation of the private authority and of what it signs
  (\<open>src/src/certgen.rs\<close>), the TLS configurations and the tenant of a peer (\<open>src/src/tlsauth.rs\<close>),
  and the commands of the gateway around them (\<open>src/src/bin/ingest.rs\<close>). rcgen, rustls,
  rustls_pemfile and x509_parser are parameters: records of the functions that are called.
\<close>

section \<open>Issuing\<close>

datatype key_usage = KeyCertSign | CrlSign | DigitalSignature

datatype extended_usage = ClientAuth | ServerAuth

text \<open>\<open>CertificateParams\<close>, as far as the sources set it.\<close>

record cert_params =
  cp_sans :: "str list"
  cp_common_name :: str
  cp_is_ca :: bool
  cp_key_usages :: "key_usage list"
  cp_extended_usages :: "extended_usage list"

record ('c, 'k) rcgen =
  cr_key_of_pem :: "str \<Rightarrow> 'k option"
  cr_key_pem :: "'k \<Rightarrow> str"
  cr_new_params :: "str list \<Rightarrow> cert_params option"
  cr_params_of_ca :: "str \<Rightarrow> cert_params option"
  cr_self_signed :: "cert_params \<Rightarrow> 'k \<Rightarrow> 'c option"
  cr_signed_by :: "cert_params \<Rightarrow> 'k \<Rightarrow> 'c \<Rightarrow> 'k \<Rightarrow> 'c option"
  cr_cert_pem :: "'c \<Rightarrow> str"

record pem =
  cert_pem :: str
  key_pem :: str

text \<open>The argument \<open>fresh\<close> is what \<open>KeyPair::generate\<close> gives.\<close>

definition generate_ca :: "('c, 'k) rcgen \<Rightarrow> 'k option \<Rightarrow> str \<Rightarrow> pem run" where
  "generate_ca cr fresh common_name =
     rbind (required ''generate CA key'' fresh) (\<lambda>key.
     rbind (required ''CA params'' (cr_new_params cr [])) (\<lambda>params.
     let params = params\<lparr>cp_common_name := common_name, cp_is_ca := True,
       cp_key_usages := [KeyCertSign, CrlSign, DigitalSignature]\<rparr> in
     rbind (required ''self-sign CA'' (cr_self_signed cr params key)) (\<lambda>cert.
     Val \<lparr>cert_pem = cr_cert_pem cr cert, key_pem = cr_key_pem cr key\<rparr>)))"

definition load_ca :: "('c, 'k) rcgen \<Rightarrow> str \<Rightarrow> str \<Rightarrow> ('c \<times> 'k) run" where
  "load_ca cr ca_cert_pem ca_key_pem =
     rbind (required ''parse CA key'' (cr_key_of_pem cr ca_key_pem)) (\<lambda>key.
     rbind (required ''parse CA cert'' (cr_params_of_ca cr ca_cert_pem)) (\<lambda>params.
     rbind (required ''rebuild CA handle'' (cr_self_signed cr params key)) (\<lambda>cert.
     Val (cert, key))))"

definition issue_client :: "('c, 'k) rcgen \<Rightarrow> 'k option \<Rightarrow> str \<Rightarrow> str \<Rightarrow> str \<Rightarrow> pem run" where
  "issue_client cr fresh ca_cert_pem ca_key_pem tenant =
     rbind (load_ca cr ca_cert_pem ca_key_pem) (\<lambda>(ca, ca_key).
     rbind (required ''generate client key'' fresh) (\<lambda>key.
     rbind (required ''client params'' (cr_new_params cr [])) (\<lambda>params.
     let params = params\<lparr>cp_common_name := tenant, cp_is_ca := False,
       cp_key_usages := [DigitalSignature], cp_extended_usages := [ClientAuth]\<rparr> in
     rbind (required ''sign client cert'' (cr_signed_by cr params key ca ca_key)) (\<lambda>cert.
     Val \<lparr>cert_pem = cr_cert_pem cr cert, key_pem = cr_key_pem cr key\<rparr>))))"

definition issue_server :: "('c, 'k) rcgen \<Rightarrow> 'k option \<Rightarrow> str \<Rightarrow> str \<Rightarrow> str list \<Rightarrow> pem run" where
  "issue_server cr fresh ca_cert_pem ca_key_pem sans =
     (case sans of
        [] \<Rightarrow> Err (InvalidData ''server cert needs at least one SAN (host/IP)'')
      | san # rest \<Rightarrow>
          rbind (load_ca cr ca_cert_pem ca_key_pem) (\<lambda>(ca, ca_key).
          rbind (required ''generate server key'' fresh) (\<lambda>key.
          rbind (required ''server params'' (cr_new_params cr sans)) (\<lambda>params.
          let params = params\<lparr>cp_common_name := san, cp_is_ca := False,
            cp_key_usages := [DigitalSignature], cp_extended_usages := [ServerAuth]\<rparr> in
          rbind (required ''sign server cert'' (cr_signed_by cr params key ca ca_key)) (\<lambda>cert.
          Val \<lparr>cert_pem = cr_cert_pem cr cert, key_pem = cr_key_pem cr key\<rparr>)))))"

section \<open>The commands\<close>

text \<open>\<open>Path::join\<close>, \<open>read_to_string\<close>, and \<open>write_pem\<close> as the files it leaves.\<close>

definition join_path :: "str \<Rightarrow> str \<Rightarrow> str" where
  "join_path dir p =
     (if p \<noteq> [] \<and> hd p = 47 then p
      else if dir = [] \<or> last dir = 47 then dir @ p
      else dir @ [47] @ p)"

definition read_text :: "fs \<Rightarrow> str \<Rightarrow> str run" where
  "read_text files path = rbind (required ''read'' (files path)) (\<lambda>b. required ''read'' (utf8_decode b))"

definition write_pem :: "str \<Rightarrow> str \<Rightarrow> pem \<Rightarrow> fs \<Rightarrow> fs" where
  "write_pem dir stem pem files =
     fold fs_apply
       [Write_File (join_path dir (stem @ lit ''.crt'')) (utf8_encode (cert_pem pem)),
        Write_File (join_path dir (stem @ lit ''.key'')) (utf8_encode (key_pem pem))] files"

definition ca_init :: "('c, 'k) rcgen \<Rightarrow> 'k option \<Rightarrow> str \<Rightarrow> str \<Rightarrow> fs \<Rightarrow> fs run" where
  "ca_init cr fresh cn out_dir files =
     rbind (generate_ca cr fresh cn) (\<lambda>ca. Val (write_pem out_dir (lit ''ca'') ca files))"

definition issue_server_cmd :: "('c, 'k) rcgen \<Rightarrow> 'k option \<Rightarrow> str \<Rightarrow> str list \<Rightarrow> str \<Rightarrow> fs \<Rightarrow> fs run" where
  "issue_server_cmd cr fresh pki sans out_dir files =
     rbind (read_text files (join_path pki (lit ''ca.crt''))) (\<lambda>ca_crt.
     rbind (read_text files (join_path pki (lit ''ca.key''))) (\<lambda>ca_key.
     rbind (issue_server cr fresh ca_crt ca_key sans) (\<lambda>pem.
     Val (write_pem out_dir (lit ''server'') pem files))))"

definition issue_client_cmd :: "('c, 'k) rcgen \<Rightarrow> 'k option \<Rightarrow> str \<Rightarrow> str \<Rightarrow> str \<Rightarrow> fs \<Rightarrow> fs run" where
  "issue_client_cmd cr fresh pki tenant out_dir files =
     rbind (read_text files (join_path pki (lit ''ca.crt''))) (\<lambda>ca_crt.
     rbind (read_text files (join_path pki (lit ''ca.key''))) (\<lambda>ca_key.
     rbind (issue_client cr fresh ca_crt ca_key tenant) (\<lambda>pem.
     Val (write_pem out_dir tenant pem files))))"

section \<open>TLS configurations\<close>

record tls_lib =
  ts_certs :: "str \<Rightarrow> bytes list option"
  ts_key :: "str \<Rightarrow> bytes option option"
  ts_root_ok :: "bytes \<Rightarrow> bool"
  ts_verifier_ok :: "bytes list \<Rightarrow> bool"
  ts_pair_ok :: "bytes list \<Rightarrow> bytes \<Rightarrow> bool"
  ts_common_names :: "bytes \<Rightarrow> str option list option"

record tls_config =
  tl_roots :: "bytes list"
  tl_chain :: "bytes list"
  tl_private_key :: bytes

definition load_certs :: "tls_lib \<Rightarrow> str \<Rightarrow> bytes list run" where
  "load_certs ts pem =
     rbind (required ''parse certificate PEM'' (ts_certs ts pem)) (\<lambda>certs.
     if certs = [] then Err (InvalidData ''no certificates found in PEM'') else Val certs)"

definition load_key :: "tls_lib \<Rightarrow> str \<Rightarrow> bytes run" where
  "load_key ts pem =
     rbind (required ''parse private key PEM'' (ts_key ts pem)) (\<lambda>key.
     required ''no private key found in PEM'' key)"

definition root_store :: "tls_lib \<Rightarrow> str \<Rightarrow> bytes list run" where
  "root_store ts ca_pem =
     rbind (load_certs ts ca_pem) (\<lambda>certs.
     rfold (\<lambda>c roots. if ts_root_ok ts c then Val (roots @ [c]) else Err (InvalidData ''add CA to root store'')) certs [])"

definition server_config :: "tls_lib \<Rightarrow> str \<Rightarrow> str \<Rightarrow> str \<Rightarrow> tls_config run" where
  "server_config ts ca_pem server_cert_pem server_key_pem =
     rbind (root_store ts ca_pem) (\<lambda>roots.
     if \<not> ts_verifier_ok ts roots then Err (InvalidData ''build client cert verifier'')
     else
       rbind (load_certs ts server_cert_pem) (\<lambda>certs.
       rbind (load_key ts server_key_pem) (\<lambda>key.
       if \<not> ts_pair_ok ts certs key then Err (InvalidData ''server config with cert'')
       else Val \<lparr>tl_roots = roots, tl_chain = certs, tl_private_key = key\<rparr>)))"

definition client_config :: "tls_lib \<Rightarrow> str \<Rightarrow> str \<Rightarrow> str \<Rightarrow> tls_config run" where
  "client_config ts ca_pem client_cert_pem client_key_pem =
     rbind (root_store ts ca_pem) (\<lambda>roots.
     rbind (load_certs ts client_cert_pem) (\<lambda>certs.
     rbind (load_key ts client_key_pem) (\<lambda>key.
     if \<not> ts_pair_ok ts certs key then Err (InvalidData ''client config with cert'')
     else Val \<lparr>tl_roots = roots, tl_chain = certs, tl_private_key = key\<rparr>)))"

section \<open>The tenant of a connection\<close>

text \<open>The first common name counts, and only when it is a string.\<close>

definition tenant_from_cert :: "tls_lib \<Rightarrow> bytes \<Rightarrow> str run" where
  "tenant_from_cert ts cert =
     rbind (required ''parse peer cert'' (ts_common_names ts cert)) (\<lambda>names.
     case names of Some cn # _ \<Rightarrow> Val cn | _ \<Rightarrow> Err (InvalidData ''peer cert has no CN''))"

definition peer_tenant :: "tls_lib \<Rightarrow> bytes list option \<Rightarrow> str run" where
  "peer_tenant ts certs =
     (case certs of
        None \<Rightarrow> Err (InvalidData ''client presented no certificate'')
      | Some [] \<Rightarrow> Err (InvalidData ''empty client cert chain'')
      | Some (c # cs) \<Rightarrow> tenant_from_cert ts c)"

record serve_args =
  sa_bind :: str
  sa_ca :: str
  sa_cert :: str
  sa_key :: str
  sa_pg_host :: str
  sa_pg_port :: nat
  sa_pg_user :: str
  sa_pg_password :: str
  sa_tenants :: "str list"

record serve_ctx =
  sx_tls :: tls_config
  sx_pg_host :: str
  sx_pg_port :: nat
  sx_pg_user :: str
  sx_pg_pass :: str
  sx_tenants :: "str \<Rightarrow> str option"

text \<open>\<open>serve\<close> up to the listener; \<open>env_password\<close> is \<open>PGPASSWORD\<close>, empty when it is not set.\<close>

definition serve :: "tls_lib \<Rightarrow> fs \<Rightarrow> str \<Rightarrow> serve_args \<Rightarrow> serve_ctx run" where
  "serve ts files env_password a =
     rbind (read_text files (sa_ca a)) (\<lambda>ca.
     rbind (read_text files (sa_cert a)) (\<lambda>cert.
     rbind (read_text files (sa_key a)) (\<lambda>key.
     rbind (server_config ts ca cert key) (\<lambda>tls.
     rbind (parse_tenants (sa_tenants a) Map.empty) (\<lambda>tenants.
     Val \<lparr>sx_tls = tls, sx_pg_host = sa_pg_host a, sx_pg_port = sa_pg_port a, sx_pg_user = sa_pg_user a,
          sx_pg_pass = (if sa_pg_password a = [] then env_password else sa_pg_password a),
          sx_tenants = tenants\<rparr>)))))"

section \<open>Which database a tenant gets\<close>

definition database_of :: "str list \<Rightarrow> str \<Rightarrow> str option" where
  "database_of args cn =
     (case rev (filter (\<lambda>p. fst p = cn) (concat (map (\<lambda>t. case split_eq t of Some p \<Rightarrow> [p] | None \<Rightarrow> []) args))) of
        [] \<Rightarrow> None
      | p # ps \<Rightarrow> Some (snd p))"

lemma parse_tenants_database:
  "parse_tenants args m = Val m' \<Longrightarrow>
   m' cn = (case database_of args cn of Some db \<Rightarrow> Some db | None \<Rightarrow> m cn)"
proof (induction args m rule: parse_tenants.induct)
  case (2 t ts m)
  then obtain c db where t: "split_eq t = Some (c, db)" "parse_tenants ts (m(c := Some db)) = Val m'"
    by (auto split: option.splits)
  from "2.IH" [OF t(1) refl t(2)] show ?case
    using t(1) by (auto simp: database_of_def split: list.splits option.splits)
qed (simp add: database_of_def)

lemma join_path_names: "join_path dir (stem @ lit ''.crt'') \<noteq> join_path dir (stem @ lit ''.key'')"
  by (cases stem) (auto simp: join_path_def lit_def)

text \<open>What is documented of the libraries: a certificate that was signed reads back with its name.\<close>

definition names_read_back :: "('c, 'k) rcgen \<Rightarrow> tls_lib \<Rightarrow> bool" where
  "names_read_back cr ts \<longleftrightarrow>
     (\<forall>p k ca ca_key cert. cr_signed_by cr p k ca ca_key = Some cert \<longrightarrow>
        list_all scalar (cr_cert_pem cr cert) \<and>
        (\<exists>der. ts_certs ts (cr_cert_pem cr cert) = Some [der] \<and> ts_common_names ts der = Some [Some (cp_common_name p)]))"

lemma issue_client_named:
  assumes "names_read_back cr ts" and "issue_client cr fresh ca_crt ca_key tenant = Val pem"
  shows "list_all scalar (cert_pem pem) \<and>
    (\<exists>der. load_certs ts (cert_pem pem) = Val [der] \<and> tenant_from_cert ts der = Val tenant)"
proof -
  obtain p k ca ck cert where sign: "cr_signed_by cr p k ca ck = Some cert" "cp_common_name p = tenant"
    "cert_pem pem = cr_cert_pem cr cert"
    using assms(2) by (fastforce simp: issue_client_def rbind_Val_iff required_def Let_def split: option.splits prod.splits)
  then obtain der where "list_all scalar (cr_cert_pem cr cert)" "ts_certs ts (cr_cert_pem cr cert) = Some [der]"
    "ts_common_names ts der = Some [Some tenant]"
    using assms(1) unfolding names_read_back_def by blast
  then show ?thesis
    using sign(3) by (simp add: load_certs_def tenant_from_cert_def required_def)
qed

lemma handle_conn_unknown:
  assumes "gw_tenants gw cn = None"
  shows "\<not> returns (fst (handle_conn gw (Val cn) input s)) \<and> snd (snd (handle_conn gw (Val cn) input s)) = s"
  using assms by (auto simp: handle_conn_def split: run.splits prod.splits)

section \<open>A sample authority\<close>

definition toy_params :: "str \<Rightarrow> cert_params" where
  "toy_params cn = \<lparr>cp_sans = [], cp_common_name = cn, cp_is_ca = False, cp_key_usages = [], cp_extended_usages = []\<rparr>"

definition toy_rcgen :: "(cert_params, nat) rcgen" where
  "toy_rcgen = \<lparr>cr_key_of_pem = (\<lambda>s. Some (length s)), cr_key_pem = (\<lambda>k. replicate k 107), cr_new_params = (\<lambda>sans. Some (toy_params [])),
     cr_params_of_ca = (\<lambda>s. Some (toy_params s)), cr_self_signed = (\<lambda>p k. Some p),
     cr_signed_by = (\<lambda>p k ca ca_key. if list_all scalar (cp_common_name p) then Some p else None), cr_cert_pem = cp_common_name\<rparr>"

definition toy_tls :: tls_lib where
  "toy_tls = \<lparr>ts_certs = (\<lambda>s. Some [utf8_encode s]), ts_key = (\<lambda>s. Some (Some [1])), ts_root_ok = (\<lambda>c. True),
     ts_verifier_ok = (\<lambda>cs. True), ts_pair_ok = (\<lambda>cs k. True), ts_common_names = (\<lambda>der. Some [utf8_decode der])\<rparr>"

lemma toy_names_read_back: "names_read_back toy_rcgen toy_tls"
  by (auto simp: names_read_back_def toy_rcgen_def toy_tls_def utf8_decode_encode split: if_splits)

definition toy_files :: fs where
  "toy_files = (\<lambda>path. Some [120])"

definition toy_serve :: serve_args where
  "toy_serve = \<lparr>sa_bind = [48], sa_ca = [49], sa_cert = [50], sa_key = [51], sa_pg_host = [104], sa_pg_port = 5432,
     sa_pg_user = [117], sa_pg_password = [], sa_tenants = [[97, 61, 98], [97, 61, 99]]\<rparr>"

lemma toy_issue: "\<exists>files'. issue_client_cmd toy_rcgen (Some 3) [112] [97] [111] toy_files = Val files'"
  by (simp add: issue_client_cmd_def read_text_def toy_files_def required_def checked_def scalar_def issue_client_def load_ca_def
      toy_rcgen_def toy_params_def)

lemma toy_serving: "\<exists>sx. serve toy_tls toy_files [112] toy_serve = Val sx"
  by (simp add: serve_def toy_serve_def read_text_def toy_files_def required_def checked_def scalar_def server_config_def
      root_store_def load_certs_def load_key_def toy_tls_def split_eq_def)

section \<open>Properties\<close>

text \<open>
  C38. A client certificate opens the database of its tenant and no other: the file that the
  authority writes for a tenant holds one certificate, a peer that presents it is taken for exactly
  that tenant, the gateway maps it to the database of the last \<open>--tenant\<close> that names it, and
  without one the connection is refused and the server is left alone.
\<close>

theorem issued_tenant_is_served:
  assumes "names_read_back cr ts" and "issue_client_cmd cr fresh pki tenant out_dir files = Val files'"
    and "serve ts files'' env_password a = Val sx" and "gw_tenants gw = sx_tenants sx"
  shows "\<exists>text der. read_text files' (join_path out_dir (tenant @ lit ''.crt'')) = Val text \<and>
    load_certs ts text = Val [der] \<and> peer_tenant ts (Some [der]) = Val tenant \<and>
    gw_tenants gw tenant = database_of (sa_tenants a) tenant \<and>
    (database_of (sa_tenants a) tenant = None \<longrightarrow>
       \<not> returns (fst (handle_conn gw (peer_tenant ts (Some [der])) input s)) \<and>
       snd (snd (handle_conn gw (peer_tenant ts (Some [der])) input s)) = s)"
proof -
  obtain ca_crt ca_key pem where issued: "issue_client cr fresh ca_crt ca_key tenant = Val pem"
    "files' = write_pem out_dir tenant pem files"
    using assms(2) by (auto simp: issue_client_cmd_def elim!: rbind_ValE)
  from issue_client_named [OF assms(1) issued(1)] obtain der where
    named: "list_all scalar (cert_pem pem)" "load_certs ts (cert_pem pem) = Val [der]" "tenant_from_cert ts der = Val tenant"
    by blast
  have "files' (join_path out_dir (tenant @ lit ''.crt'')) = Some (utf8_encode (cert_pem pem))"
    using join_path_names [of out_dir tenant] by (simp add: issued(2) write_pem_def)
  then have content: "read_text files' (join_path out_dir (tenant @ lit ''.crt'')) = Val (cert_pem pem)"
    using named(1) by (simp add: read_text_def required_def utf8_decode_encode)
  have peer: "peer_tenant ts (Some [der]) = Val tenant" using named(3) by (simp add: peer_tenant_def)
  have "parse_tenants (sa_tenants a) Map.empty = Val (gw_tenants gw)"
    using assms(3,4) by (auto simp: serve_def elim!: rbind_ValE)
  from parse_tenants_database [OF this, of tenant]
  have db: "gw_tenants gw tenant = database_of (sa_tenants a) tenant" by (simp split: option.splits)
  then show ?thesis
    using content named(2) peer handle_conn_unknown [of gw tenant input s]
    by (intro exI [of _ "cert_pem pem"] exI [of _ der]) simp
qed

theorem issued_tenant_is_served_witness:
  "\<exists>files' sx content der. issue_client_cmd toy_rcgen (Some 3) [112] [97] [111] toy_files = Val files' \<and>
    serve toy_tls toy_files [112] toy_serve = Val sx \<and>
    read_text files' (join_path [111] ([97] @ lit ''.crt'')) = Val content \<and> load_certs toy_tls content = Val [der] \<and>
    peer_tenant toy_tls (Some [der]) = Val [97] \<and> sx_tenants sx [97] = Some [99]"
proof -
  obtain files' sx where run: "issue_client_cmd toy_rcgen (Some 3) [112] [97] [111] toy_files = Val files'"
    "serve toy_tls toy_files [112] toy_serve = Val sx"
    using toy_issue toy_serving by blast
  let ?gw = "(toy_gateway toy_ok)\<lparr>gw_tenants := sx_tenants sx\<rparr>"
  have "database_of (sa_tenants toy_serve) [97] = Some [99]" by (simp add: database_of_def toy_serve_def split_eq_def)
  then show ?thesis
    using issued_tenant_is_served [OF toy_names_read_back run(1,2), of ?gw "[]" "[]"] run by auto
qed

end
