(* ===== verification/Sessions.thy ===== *)
theory Sessions
  imports Pki
begin

text \<open>
  The gateway with many connections: the accept loop of \<open>serve\<close> in \<open>src/src/bin/ingest.rs\<close>, which
  gives each connection a thread that runs \<open>handle_conn\<close>. The threads share the PostgreSQL server
  and nothing else, and their calls reach it in any order. A thread is run one call at a time by
  replaying, so what it does with its replies is \<open>handle_conn\<close> by definition: the handler runs against
  the replies that the thread has got so far, and the first call beyond them is the one it makes next.
\<close>

section \<open>The accept loop\<close>

text \<open>A server that gives the recorded replies, refuses when there is none left, and logs the calls.\<close>

type_synonym replayed = "reply list \<times> call list"

fun next_reply :: "reply list \<Rightarrow> reply" where
  "next_reply [] = Refused []"
| "next_reply (r # rs) = r"

definition replayer :: "replayed server" where
  "replayer = (\<lambda>(rs, cs) c. (next_reply rs, (tl rs, cs @ [c])))"

text \<open>A thread: its peer, its input, the calls it made with their replies, and its end.\<close>

record session =
  ss_tenant :: "str run"
  ss_input :: bytes
  ss_calls :: "(call \<times> reply) list"
  ss_answer :: "(unit run \<times> bytes) option"

definition replay_session :: "replayed gateway \<Rightarrow> session \<Rightarrow> unit run \<times> bytes \<times> replayed" where
  "replay_session gw ss = handle_conn gw (ss_tenant ss) (ss_input ss) (map snd (ss_calls ss), [])"

definition next_call :: "replayed gateway \<Rightarrow> session \<Rightarrow> call option" where
  "next_call gw ss =
     (case replay_session gw ss of (r, out, rs, cs) \<Rightarrow>
        if length (ss_calls ss) < length cs then Some (cs ! length (ss_calls ss)) else None)"

text \<open>
  The gateway's threads and the server. \<open>Accepted\<close> and \<open>Accept_Failed\<close> are the two arms of the
  loop over the incoming connections, \<open>Scheduled i\<close> lets thread \<open>i\<close> make its next call or end.
\<close>

record 's gate =
  ga_srv :: 's
  ga_sessions :: "session list"

datatype gate_event =
    Accepted "str run" bytes
  | Accept_Failed
  | Scheduled nat

definition thread_turn :: "replayed gateway \<Rightarrow> 's server \<Rightarrow> session \<Rightarrow> 's \<Rightarrow> session \<times> 's" where
  "thread_turn gw srv ss s =
     (case ss_answer ss of
        Some a \<Rightarrow> (ss, s)
      | None \<Rightarrow>
          (case next_call gw ss of
             Some c \<Rightarrow> (case srv s c of (reply, s) \<Rightarrow> (ss\<lparr>ss_calls := ss_calls ss @ [(c, reply)]\<rparr>, s))
           | None \<Rightarrow> (case replay_session gw ss of (r, out, rs, cs) \<Rightarrow> (ss\<lparr>ss_answer := Some (r, out)\<rparr>, s))))"

fun serve_event :: "replayed gateway \<Rightarrow> (nat \<Rightarrow> 's server) \<Rightarrow> gate_event \<Rightarrow> 's gate \<Rightarrow> 's gate" where
  "serve_event gw srv (Accepted tenant input) g =
     g\<lparr>ga_sessions := ga_sessions g @ [\<lparr>ss_tenant = tenant, ss_input = input, ss_calls = [], ss_answer = None\<rparr>]\<rparr>"
| "serve_event gw srv Accept_Failed g = g"
| "serve_event gw srv (Scheduled i) g =
     (if i < length (ga_sessions g)
      then (case thread_turn gw (srv i) (ga_sessions g ! i) (ga_srv g) of
              (ss, s) \<Rightarrow> g\<lparr>ga_srv := s, ga_sessions := (ga_sessions g)[i := ss]\<rparr>)
      else g)"

definition serve_events :: "replayed gateway \<Rightarrow> (nat \<Rightarrow> 's server) \<Rightarrow> gate_event list \<Rightarrow> 's \<Rightarrow> 's gate" where
  "serve_events gw srv evs s = fold (serve_event gw srv) evs \<lparr>ga_srv = s, ga_sessions = []\<rparr>"

section \<open>Programs as trees of calls\<close>

text \<open>
  A program that reaches its server by calls only is a tree that branches over the replies. What
  such a program does depends on no reply that it has not got.
\<close>

datatype 'r tree = Ret 'r | Ask call "reply \<Rightarrow> 'r tree"

primrec tree_calls :: "'r tree \<Rightarrow> reply list \<Rightarrow> call list" where
  "tree_calls (Ret r) = (\<lambda>rs. [])"
| "tree_calls (Ask c k) = (\<lambda>rs. c # tree_calls (k (next_reply rs)) (tl rs))"

primrec tree_result :: "'r tree \<Rightarrow> reply list \<Rightarrow> 'r" where
  "tree_result (Ret r) = (\<lambda>rs. r)"
| "tree_result (Ask c k) = (\<lambda>rs. tree_result (k (next_reply rs)) (tl rs))"

primrec tree_all :: "(call \<Rightarrow> bool) \<Rightarrow> 'r tree \<Rightarrow> bool" where
  "tree_all P (Ret r) = True"
| "tree_all P (Ask c k) = (P c \<and> (\<forall>r. tree_all P (k r)))"

primrec tree_bind :: "'r tree \<Rightarrow> ('r \<Rightarrow> 'q tree) \<Rightarrow> 'q tree" where
  "tree_bind (Ret r) f = f r"
| "tree_bind (Ask c k) f = Ask c (\<lambda>r. tree_bind (k r) f)"

definition tree_run :: "'r tree \<Rightarrow> replayed \<Rightarrow> 'r \<times> replayed" where
  "tree_run t s = (tree_result t (fst s), (drop (length (tree_calls t (fst s))) (fst s), snd s @ tree_calls t (fst s)))"

lemma tree_run_simps [simp]:
  "tree_run (Ret r) s = (r, s)"
  "tree_run (Ask c k) s = tree_run (k (fst (replayer s c))) (snd (replayer s c))"
  by (simp_all add: tree_run_def replayer_def split: prod.split) (simp add: drop_Suc)

lemma tree_run_bind: "tree_run (tree_bind t f) s = (case tree_run t s of (r, s') \<Rightarrow> tree_run (f r) s')"
  by (induction t arbitrary: s) simp_all

lemma tree_all_bind: "tree_all P t \<Longrightarrow> (\<And>r. tree_all P (f r)) \<Longrightarrow> tree_all P (tree_bind t f)"
  by (induction t) simp_all

lemma tree_all_calls: "tree_all P t \<Longrightarrow> list_all P (tree_calls t rs)"
  by (induction t arbitrary: rs) simp_all

lemma next_reply_append: "rs \<noteq> [] \<Longrightarrow> next_reply (rs @ rest) = next_reply rs"
  by (cases rs) simp_all

lemma tree_calls_known:
  "length (tree_calls t rs) \<le> length rs \<Longrightarrow> tree_calls t (rs @ rest) = tree_calls t rs \<and> tree_result t (rs @ rest) = tree_result t rs"
proof (induction t arbitrary: rs)
  case (Ask c k)
  then have "rs \<noteq> []" by (cases rs) simp_all
  then show ?case using Ask.IH [OF rangeI, of "next_reply rs" "tl rs"] Ask.prems by (simp add: next_reply_append)
qed simp

lemma tree_calls_next:
  "length rs < length (tree_calls t rs) \<Longrightarrow>
   take (Suc (length rs)) (tree_calls t (rs @ rest)) = take (Suc (length rs)) (tree_calls t rs)"
proof (induction t arbitrary: rs)
  case (Ask c k)
  show ?case
  proof (cases rs)
    case (Cons r rs')
    then show ?thesis using Ask.IH [OF rangeI, of rs' r] Ask.prems by simp
  qed simp
qed simp

text \<open>
  A protocol: the calls that come first, in this order, each with the replies after which the next
  one follows, and then calls that all satisfy \<open>P\<close>. After any other reply there is no call. \<open>follows\<close>
  is this for a list of calls with their replies, which may end anywhere, \<open>tree_opens\<close> for a program.
\<close>

type_synonym protocol = "(call \<times> (reply \<Rightarrow> bool)) list"

fun follows :: "(call \<Rightarrow> bool) \<Rightarrow> protocol \<Rightarrow> (call \<times> reply) list \<Rightarrow> bool" where
  "follows P [] crs = list_all (\<lambda>(c, r). P c) crs"
| "follows P ((d, on) # ds) [] = True"
| "follows P ((d, on) # ds) ((c, r) # crs) = (c = d \<and> (if on r then follows P ds crs else crs = []))"

primrec tree_opens :: "(call \<Rightarrow> bool) \<Rightarrow> 'r tree \<Rightarrow> protocol \<Rightarrow> bool" where
  "tree_opens P (Ret r) = (\<lambda>ds. True)"
| "tree_opens P (Ask c k) = (\<lambda>ds. case ds of
     [] \<Rightarrow> tree_all P (Ask c k)
   | (d, on) # ds \<Rightarrow> c = d \<and> (\<forall>r. if on r then tree_opens P (k r) ds else \<exists>x. k r = Ret x))"

lemma tree_opens_Nil [simp]: "tree_opens P t [] = tree_all P t"
  by (cases t) simp_all

lemma tree_opens_bind:
  assumes "tree_opens P t ds" and "\<And>r. \<exists>q. f r = Ret q"
  shows "tree_opens P (tree_bind t f) ds"
  using assms(1)
proof (induction t arbitrary: ds)
  case (Ret r)
  then show ?case using assms(2) [of r] by auto
next
  case (Ask c k)
  show ?case
  proof (cases ds)
    case Nil
    have "tree_all P (f r)" for r using assms(2) [of r] by auto
    then show ?thesis using Ask.prems Nil tree_all_bind [of P "Ask c k" f] by simp
  next
    case (Cons d ds')
    obtain e on where d: "d = (e, on)" by (cases d)
    have "\<exists>x. tree_bind (k r) f = Ret x" if "\<exists>x. k r = Ret x" for r using that assms(2) by auto
    then show ?thesis using Ask Cons d by (auto split: if_splits)
  qed
qed

lemma tree_follows:
  "tree_opens P t ds \<Longrightarrow> map fst crs = take (length crs) (tree_calls t (map snd crs)) \<Longrightarrow> follows P ds crs"
proof (induction crs arbitrary: t ds)
  case Nil
  then show ?case by (cases ds) auto
next
  case (Cons cr crs)
  obtain c r where cr: "cr = (c, r)" by (cases cr)
  obtain k where t: "t = Ask c k" "map fst crs = take (length crs) (tree_calls (k r) (map snd crs))"
    using Cons.prems(2) cr by (cases t) auto
  show ?case
  proof (cases ds)
    case Nil
    then have "P c" "tree_opens P (k r) []" using Cons.prems(1) t(1) by auto
    then show ?thesis using Cons.IH [of "k r" "[]"] t(2) cr Nil by simp
  next
    case (Cons d ds')
    obtain e on where d: "d = (e, on)" by (cases d)
    have "c = e" and k: "if on r then tree_opens P (k r) ds' else \<exists>x. k r = Ret x"
      using Cons.prems(1) t(1) \<open>ds = d # ds'\<close> d by auto
    then show ?thesis using Cons.IH [of "k r" ds'] t(2) cr \<open>ds = d # ds'\<close> d by (auto split: if_splits)
  qed
qed

section \<open>The handler is a tree\<close>

definition as_tree :: "(call \<Rightarrow> bool) \<Rightarrow> (replayed \<times> 'x, 'a) pgm \<Rightarrow> bool" where
  "as_tree P m \<longleftrightarrow> (\<forall>x. \<exists>t. tree_all P t \<and> (\<forall>s. m (s, x) = (case tree_run t s of ((r, x'), s') \<Rightarrow> (r, (s', x')))))"

lemma as_treeI:
  "(\<And>x. tree_all P (t x)) \<Longrightarrow> (\<And>s x. m (s, x) = (case tree_run (t x) s of ((r, x'), s') \<Rightarrow> (r, (s', x')))) \<Longrightarrow> as_tree P m"
  unfolding as_tree_def by blast

definition pthen :: "('t, 'a) pgm \<Rightarrow> ('a run \<Rightarrow> ('t, 'b) pgm) \<Rightarrow> ('t, 'b) pgm" where
  "pthen m f = (\<lambda>s. case m s of (r, s') \<Rightarrow> f r s')"

lemma as_tree_pthen:
  assumes "as_tree P m" and "\<And>r. as_tree P (f r)"
  shows "as_tree P (pthen m f)"
  unfolding as_tree_def
proof
  fix x
  obtain t where t: "tree_all P t" "\<And>s. m (s, x) = (case tree_run t s of ((r, x'), s') \<Rightarrow> (r, (s', x')))"
    using assms(1) unfolding as_tree_def by blast
  have "\<forall>q. \<exists>u. tree_all P u \<and> (\<forall>s. f (fst q) (s, snd q) = (case tree_run u s of ((r, x'), s') \<Rightarrow> (r, (s', x'))))"
    using assms(2) unfolding as_tree_def by blast
  then obtain u where u: "\<And>q. tree_all P (u q)"
    "\<And>q s. f (fst q) (s, snd q) = (case tree_run (u q) s of ((r, x'), s') \<Rightarrow> (r, (s', x')))"
    by metis
  have "pthen m f (s, x) = (case tree_run (tree_bind t u) s of ((r, x'), s') \<Rightarrow> (r, (s', x')))" for s
    using u(2) [of "fst (tree_run t s)" "snd (tree_run t s)"]
    by (simp add: pthen_def t(2) tree_run_bind case_prod_beta)
  then show "\<exists>t. tree_all P t \<and> (\<forall>s. pthen m f (s, x) = (case tree_run t s of ((r, x'), s') \<Rightarrow> (r, (s', x'))))"
    using tree_all_bind [OF t(1), of u] u(1) by blast
qed

lemma as_tree_of_run: "as_tree P (of_run r)"
  by (rule as_treeI [of P "\<lambda>x. Ret (r, x)"]) (simp_all add: of_run_def)

lemma as_tree_pval: "as_tree P (pval x)"
  using as_tree_of_run [of P "Val x"] by (simp add: of_run_def pval_def)

lemma as_tree_exec:
  assumes "P c"
  shows "as_tree P (srv_part (exec replayer c))"
  by (rule as_treeI [of P "\<lambda>x. Ask c (\<lambda>r. Ret (case r of Rows n \<Rightarrow> Val n | Refused code \<Rightarrow> Err (PgError code), x))"])
    (simp_all add: assms exec_def srv_part_def split: prod.split reply.split)

lemma as_tree_try:
  assumes "P c"
  shows "as_tree P (srv_part (try_exec replayer c))"
  by (rule as_treeI [of P "\<lambda>x. Ask c (\<lambda>r. Ret (Val (), x))"])
    (simp_all add: assms try_exec_def srv_part_def split: prod.split)

lemma pbind_pthen:
  "pbind m f = pthen m (\<lambda>r. case r of Val x \<Rightarrow> f x | Err e \<Rightarrow> of_run (Err e) | Panic \<Rightarrow> of_run Panic | Hang \<Rightarrow> of_run Hang)"
  by (rule ext) (simp add: pbind_def pthen_def of_run_def split: prod.split run.split)

lemma as_tree_pbind:
  assumes "as_tree P m" and "\<And>x. as_tree P (f x)"
  shows "as_tree P (pbind m f)"
  unfolding pbind_pthen using assms by (intro as_tree_pthen) (simp_all add: as_tree_of_run split: run.split)

lemma srv_part_pbind: "srv_part (pbind m f) = pbind (srv_part m) (\<lambda>x. srv_part (f x))"
  by (rule ext) (auto simp: srv_part_def pbind_def split: prod.split run.split)

lemma srv_part_pval: "srv_part (pval x) = pval x"
  by (rule ext) (simp add: srv_part_def pval_def split: prod.split)

lemma as_tree_if: "(b \<Longrightarrow> as_tree P m) \<Longrightarrow> (\<not> b \<Longrightarrow> as_tree P n) \<Longrightarrow> as_tree P (if b then m else n)"
  by simp

text \<open>Steps that only touch the bytes of the connection, or drop the writer.\<close>

lemma as_tree_bytes: "as_tree P (\<lambda>(s, x). (f x, (s, g x)))"
  by (rule as_treeI [of P "\<lambda>x. Ret (f x, g x)"]) simp_all

lemma as_tree_on: "(\<And>x. \<exists>m. as_tree P m \<and> (\<forall>s. n (s, x) = m (s, h x))) \<Longrightarrow> as_tree P n"
  unfolding as_tree_def by metis

lemmas as_tree_intros = as_tree_pbind as_tree_pval as_tree_of_run as_tree_exec as_tree_try as_tree_if

lemma as_tree_dropped: "P Copy_Drop \<Longrightarrow> as_tree P (\<lambda>(s, x). (r, (snd (replayer s Copy_Drop), x)))"
  by (rule as_treeI [of P "\<lambda>x. Ask Copy_Drop (\<lambda>q. Ret (r, x))"]) simp_all

lemma as_tree_relay_body:
  assumes "\<And>data. P (Copy_Done data)" and "P Copy_Drop"
  shows "as_tree P (relay_body replayer)"
proof (rule as_tree_on)
  fix x
  obtain r data rest where c: "copy_u32_prefixed x = (r, data, rest)" by (cases "copy_u32_prefixed x")
  show "\<exists>m. as_tree P m \<and> (\<forall>s. relay_body replayer (s, x) = m (s, snd (snd (copy_u32_prefixed x))))"
  proof (cases r)
    case (Val n)
    then show ?thesis using c as_tree_exec [of P, OF assms(1) [of data]] by (auto simp: relay_body_def)
  next
    case (Err e)
    then show ?thesis using c as_tree_dropped [of P, OF assms(2), of "Err e"]
      by (intro exI [of _ "\<lambda>(s, x). (Err e, (snd (replayer s Copy_Drop), x))"]) (simp add: relay_body_def)
  next
    case Panic
    then show ?thesis using c as_tree_of_run by (auto simp: relay_body_def of_run_def)
  next
    case Hang
    then show ?thesis using c as_tree_of_run by (auto simp: relay_body_def of_run_def)
  qed
qed

lemma as_tree_relay_chunks:
  assumes "gw_srv gw = replayer" and "\<And>data. P (Copy_Done data)" and "P Copy_Drop"
  shows "as_tree P (relay_chunks gw)"
proof (rule as_tree_on)
  fix x
  show "\<exists>m. as_tree P m \<and> (\<forall>s. relay_chunks gw (s, x) = m (s, case copy_chunks (gw_grant gw) (gw_buf gw) (chunk_reader_new x) of
      Val (data, cr) \<Rightarrow> cr_inner cr | Err e \<Rightarrow> [] | _ \<Rightarrow> x))"
  proof (cases "copy_chunks (gw_grant gw) (gw_buf gw) (chunk_reader_new x)")
    case (Val q)
    obtain data cr where q: "q = (data, cr)" by (cases q)
    let ?broken = "Err (InvalidData ''body ended before terminator'')"
    show ?thesis
    proof (cases "cr_done cr")
      case True
      then show ?thesis using Val q as_tree_exec [of P, OF assms(2) [of data]] by (auto simp: relay_chunks_def assms(1))
    next
      case False
      then show ?thesis using Val q as_tree_dropped [of P, OF assms(3), of ?broken]
        by (intro exI [of _ "\<lambda>(s, x). (?broken, (snd (replayer s Copy_Drop), x))"]) (simp add: relay_chunks_def assms(1))
    qed
  next
    case (Err e)
    then show ?thesis using as_tree_dropped [of P, OF assms(3), of "Err e"]
      by (intro exI [of _ "\<lambda>(s, x). (Err e, (snd (replayer s Copy_Drop), x))"]) (simp add: relay_chunks_def assms(1))
  next
    case Panic
    then show ?thesis using as_tree_of_run by (auto simp: relay_chunks_def of_run_def)
  next
    case Hang
    then show ?thesis using as_tree_of_run by (auto simp: relay_chunks_def of_run_def)
  qed
qed

lemma srv_part_of_run: "srv_part (of_run r) = of_run r"
  by (rule ext) (simp add: srv_part_def of_run_def split: prod.split)

lemma srv_part_pthen: "srv_part (pthen m f) = pthen (srv_part m) (\<lambda>r. srv_part (f r))"
  by (rule ext) (auto simp: srv_part_def pthen_def split: prod.split)

lemma transact_pthen:
  "transact cl m = pbind (cl (Execute (lit ''BEGIN''))) (\<lambda>_. pthen m (\<lambda>r. case r of
      Val _ \<Rightarrow> pbind (cl (Execute (lit ''COMMIT''))) (\<lambda>_. pval ())
    | Err e \<Rightarrow> pthen (cl (Execute (lit ''ROLLBACK''))) (\<lambda>_. of_run (Err e))
    | Panic \<Rightarrow> of_run Panic | Hang \<Rightarrow> of_run Hang))"
  unfolding transact_def
  by (rule arg_cong [where f = "pbind (cl (Execute (lit ''BEGIN'')))"])
    (auto simp: pthen_def of_run_def fun_eq_iff split: prod.split run.split)

lemma as_tree_transact:
  assumes "as_tree P m" and "\<And>sql. P (Execute sql)"
  shows "as_tree P (transact (\<lambda>c. srv_part (exec replayer c)) m)"
proof -
  let ?cl = "\<lambda>c. srv_part (exec replayer c)"
  have "as_tree P (case r of Val _ \<Rightarrow> pbind (?cl (Execute (lit ''COMMIT''))) (\<lambda>_. pval ())
      | Err e \<Rightarrow> pthen (?cl (Execute (lit ''ROLLBACK''))) (\<lambda>_. of_run (Err e)) | Panic \<Rightarrow> of_run Panic | Hang \<Rightarrow> of_run Hang)"
    for r :: "unit run"
    by (cases r) (simp_all add: as_tree_intros as_tree_pthen assms(2))
  then show ?thesis
    unfolding transact_pthen by (intro as_tree_pbind as_tree_pthen as_tree_exec assms)
qed

definition enter_db :: "str \<Rightarrow> (replayed, unit) pgm" where
  "enter_db dbname = pbind (exec replayer (Connect dbname)) (\<lambda>_. pbind (exec replayer (Batch session_sql)) (\<lambda>_. pval ()))"

lemma connect_db_pthen:
  "connect_db replayer dbname = pbind (exec replayer (Connect (lit ''postgres''))) (\<lambda>_.
     pthen (exec replayer (Execute (lit ''CREATE DATABASE '' @ quoted dbname)))
       (\<lambda>r. if returns r \<or> r = Err (PgError (lit ''42P04'')) then enter_db dbname else of_run (rbind r (\<lambda>_. Val ()))))"
  unfolding connect_db_def Let_def enter_db_def [symmetric]
  by (rule arg_cong [where f = "pbind (exec replayer (Connect (lit ''postgres'')))"])
    (auto simp: pthen_def of_run_def exec_def fun_eq_iff split: prod.split reply.split)

text \<open>
  The calls that open the tenant's database: \<open>CREATE DATABASE\<close> from the database \<open>postgres\<close>, which
  may fail because there is one, then a session in the database itself.
\<close>

definition accepted :: "reply \<Rightarrow> bool" where
  "accepted r \<longleftrightarrow> (\<exists>n. r = Rows n)"

definition open_calls :: "str \<Rightarrow> protocol" where
  "open_calls dbname =
     [(Connect (lit ''postgres''), accepted),
      (Execute (lit ''CREATE DATABASE '' @ quoted dbname), \<lambda>r. accepted r \<or> r = Refused (lit ''42P04'')),
      (Connect dbname, accepted), (Batch session_sql, accepted)]"

fun stays :: "call \<Rightarrow> bool" where
  "stays (Connect db) = False"
| "stays c = True"

definition opens :: "protocol \<Rightarrow> (replayed \<times> 'x, 'a) pgm \<Rightarrow> bool" where
  "opens ds m \<longleftrightarrow> (\<forall>x. \<exists>t. tree_opens stays t ds \<and> (\<forall>s. m (s, x) = (case tree_run t s of ((r, x'), s') \<Rightarrow> (r, (s', x')))))"

lemma opens_Nil: "opens [] m = as_tree stays m"
  by (simp add: opens_def as_tree_def)

lemma opens_of_run: "opens ds (of_run r)"
  unfolding opens_def of_run_def by (intro allI exI [of _ "Ret (r, x)" for x]) simp

lemma opens_parsed: "(\<And>h. opens ds (f h)) \<Longrightarrow> opens ds (pbind (of_run r) f)"
proof (cases r)
  case (Val h)
  assume "\<And>h. opens ds (f h)"
  moreover have "pbind (of_run r) f = f h" unfolding Val by (rule ext) (simp add: pbind_def of_run_def)
  ultimately show ?thesis by simp
next
  case (Err e)
  have "pbind (of_run r) f = of_run (Err e)" unfolding Err by (rule ext) (simp add: pbind_def of_run_def)
  then show ?thesis by (simp add: opens_of_run)
next
  case Panic
  have "pbind (of_run r) f = of_run Panic" unfolding Panic by (rule ext) (simp add: pbind_def of_run_def)
  then show ?thesis by (simp add: opens_of_run)
next
  case Hang
  have "pbind (of_run r) f = of_run Hang" unfolding Hang by (rule ext) (simp add: pbind_def of_run_def)
  then show ?thesis by (simp add: opens_of_run)
qed

text \<open>A call of the protocol.\<close>

lemma opens_exec:
  assumes "\<And>n. on (Rows n) \<Longrightarrow> opens ds (f (Val n))" and "\<And>code. on (Refused code) \<Longrightarrow> opens ds (f (Err (PgError code)))"
    and "\<And>n. \<not> on (Rows n) \<Longrightarrow> \<exists>r. f (Val n) = of_run r" and "\<And>code. \<not> on (Refused code) \<Longrightarrow> \<exists>r. f (Err (PgError code)) = of_run r"
  shows "opens ((c, on) # ds) (pthen (srv_part (exec replayer c)) f)"
  unfolding opens_def
proof
  fix x
  let ?f = "\<lambda>q. f (case q of Rows n \<Rightarrow> Val n | Refused code \<Rightarrow> Err (PgError code))"
  have "\<exists>t. (if on q then tree_opens stays t ds else \<exists>y. t = Ret y) \<and>
      (\<forall>s. ?f q (s, x) = (case tree_run t s of ((r, x'), s') \<Rightarrow> (r, (s', x'))))" for q
  proof (cases "on q")
    case True
    then have "opens ds (?f q)" using assms(1,2) by (cases q) simp_all
    then show ?thesis using True unfolding opens_def by simp
  next
    case False
    then obtain r where "?f q = of_run r" using assms(3,4) by (cases q) auto
    then show ?thesis using False by (intro exI [of _ "Ret (r, x)"]) (simp add: of_run_def)
  qed
  then obtain k where k: "\<And>q. if on q then tree_opens stays (k q) ds else \<exists>y. k q = Ret y"
    "\<And>q s. ?f q (s, x) = (case tree_run (k q) s of ((r, x'), s') \<Rightarrow> (r, (s', x')))"
    by metis
  have "pthen (srv_part (exec replayer c)) f (s, x) = (case tree_run (Ask c k) s of ((r, x'), s') \<Rightarrow> (r, (s', x')))" for s
    by (simp add: pthen_def srv_part_def exec_def k(2) [symmetric] split: prod.split reply.split)
  moreover have "tree_opens stays (Ask c k) ((c, on) # ds)"
    unfolding tree_opens.simps list.case prod.case using k(1) by blast
  ultimately show "\<exists>t. tree_opens stays t ((c, on) # ds) \<and>
      (\<forall>s. pthen (srv_part (exec replayer c)) f (s, x) = (case tree_run t s of ((r, x'), s') \<Rightarrow> (r, (s', x'))))"
    by blast
qed

lemma opens_call: "(\<And>n. opens ds (f n)) \<Longrightarrow> opens ((c, accepted) # ds) (pbind (srv_part (exec replayer c)) f)"
  unfolding pbind_pthen by (rule opens_exec) (auto simp: accepted_def)

lemma pbind_assoc: "pbind (pbind m f) g = pbind m (\<lambda>x. pbind (f x) g)"
  by (rule ext) (auto simp: pbind_def split: prod.split run.split)

lemma pbind_of_pthen: "pbind (pthen m f) g = pthen m (\<lambda>r. pbind (f r) g)"
  by (rule ext) (simp add: pbind_def pthen_def split: prod.split)

lemma opens_connect:
  assumes "as_tree stays (f ())"
  shows "opens (open_calls dbname) (pbind (srv_part (connect_db replayer dbname)) f)"
proof -
  have enter: "opens [(Connect dbname, accepted), (Batch session_sql, accepted)] (pbind (srv_part (enter_db dbname)) f)"
    unfolding enter_db_def srv_part_pbind srv_part_pval pbind_assoc
    using assms by (intro opens_call) (simp add: opens_Nil pbind_def pval_def)
  have failed: "pbind (of_run (Err e)) f = of_run (Err e)" for e
    by (rule ext) (simp add: pbind_def of_run_def)
  show ?thesis
    unfolding connect_db_pthen srv_part_pbind srv_part_pthen pbind_assoc pbind_of_pthen open_calls_def
    by (intro opens_call opens_exec) (auto simp: accepted_def enter srv_part_of_run failed)
qed

lemma as_tree_drain: "as_tree P drain_body"
  using as_tree_bytes [of P "\<lambda>x. fst (copy_u32_prefixed x)" "\<lambda>x. snd (snd (copy_u32_prefixed x))"]
  by (simp add: drain_body_def case_prod_beta)

lemma as_tree_streaming: "as_tree stays (apply_delta_streaming replayer meta n_upserts n_deletes)"
  unfolding apply_delta_streaming_def drop_tmps_def create_tmps_def apply_upserts_def
  by (simp only: srv_part_pbind srv_part_pval if_distrib [of srv_part])
    (intro as_tree_transact as_tree_intros as_tree_relay_body as_tree_drain; simp)

lemma opens_handle_full:
  assumes "gw_srv gw = replayer"
  shows "opens (open_calls db) (handle_full gw header db)"
proof -
  have "as_tree stays (case d of None \<Rightarrow> of_run (Err e) | Some ddl \<Rightarrow> f ddl)"
    if "\<And>ddl. as_tree stays (f ddl)" for d :: "str option" and e and f :: "str \<Rightarrow> (replayed \<times> bytes, resp) pgm"
    using that by (cases d) (simp_all add: as_tree_of_run)
  note cased = this
  show ?thesis
    unfolding handle_full_def parsed_def Let_def assms
    by (intro opens_parsed opens_connect cased as_tree_intros as_tree_relay_chunks assms; simp)
qed

lemma opens_handle_delta:
  assumes "gw_srv gw = replayer"
  shows "opens (open_calls db) (handle_delta gw header db)"
  unfolding handle_delta_def parsed_def assms
  by (intro opens_parsed opens_connect as_tree_intros as_tree_streaming; simp)

lemma opens_dispatch: "gw_srv gw = replayer \<Longrightarrow> opens (open_calls db) (dispatch gw op header db)"
  by (cases op) (simp_all add: opens_handle_full opens_handle_delta)

text \<open>A thread opens the database of its tenant, or calls nothing.\<close>

definition keeps_to :: "replayed gateway \<Rightarrow> str run \<Rightarrow> 'r tree \<Rightarrow> bool" where
  "keeps_to gw tenant t \<longleftrightarrow> (\<exists>x. t = Ret x) \<or>
     (\<exists>cn db. tenant = Val cn \<and> gw_tenants gw cn = Some db \<and> tree_opens stays t (open_calls db))"

lemma handle_conn_tree:
  assumes "gw_srv gw = replayer"
  shows "\<exists>t. keeps_to gw tenant t \<and>
    (\<forall>s. handle_conn gw tenant input s = (case tree_run t s of ((r, out), s') \<Rightarrow> (r, out, s')))"
proof -
  let ?at = "handle_conn gw tenant input ([], [])"
  have quiet: ?thesis if "\<And>s. handle_conn gw tenant input s = (fst ?at, fst (snd ?at), s)"
    by (rule exI [of _ "Ret (fst ?at, fst (snd ?at))"]) (subst that, simp add: keeps_to_def)
  show ?thesis
  proof (cases "read_request_header input")
    case (Val q)
    obtain op header body where q: "q = ((op, header), body)" by (cases q) auto
    show ?thesis
    proof (cases tenant)
      case (Val cn)
      note tenant = this
      show ?thesis
      proof (cases "gw_tenants gw cn")
        case None
        show ?thesis
          by (rule quiet) (simp add: handle_conn_def \<open>read_request_header input = Val q\<close> q tenant None)
      next
        case (Some db)
        obtain t where t: "tree_opens stays t (open_calls db)"
          "\<And>s. dispatch gw op header db (s, body) = (case tree_run t s of ((r, x'), s') \<Rightarrow> (r, (s', x')))"
          using opens_dispatch [OF assms, of db op header] unfolding opens_def by blast
        define answer where "answer = (\<lambda>q :: resp run \<times> bytes. Ret (case fst q of
            Val resp \<Rightarrow> (case write_response (gw_enc_resp gw) resp of
               Val out \<Rightarrow> (Val (), out) | Err e \<Rightarrow> (Err e, []) | Panic \<Rightarrow> (Panic, []) | Hang \<Rightarrow> (Hang, []))
          | Err e \<Rightarrow> (case write_response (gw_enc_resp gw) (resp_err (gw_show gw e)) of
               Val out \<Rightarrow> (Err e, out) | Err e \<Rightarrow> (Err e, []) | Panic \<Rightarrow> (Panic, []) | Hang \<Rightarrow> (Hang, []))
          | Panic \<Rightarrow> (Panic, []) | Hang \<Rightarrow> (Hang, [])))"
        have "handle_conn gw tenant input s = (case tree_run (tree_bind t answer) s of ((r, out), s') \<Rightarrow> (r, out, s'))" for s
          using \<open>read_request_header input = Val q\<close> q tenant Some
          by (simp add: handle_conn_def t(2) tree_run_bind answer_def split: prod.split run.split)
        moreover have "keeps_to gw tenant (tree_bind t answer)"
          using tree_opens_bind [OF t(1), of answer] tenant Some by (auto simp: keeps_to_def answer_def)
        ultimately show ?thesis by blast
      qed
    qed (rule quiet, simp add: handle_conn_def Val q)+
  qed (rule quiet, simp add: handle_conn_def)+
qed

section \<open>A thread makes the calls of its handler\<close>

text \<open>
  The calls of a thread are the first calls of its handler on the replies it got, in that order, and
  its answer is that of the handler after all its calls. That the other threads do not matter for
  this is the construction of the model, which follows that threads share nothing but the server.
\<close>

definition runs_alone :: "replayed gateway \<Rightarrow> session \<Rightarrow> bool" where
  "runs_alone gw ss \<longleftrightarrow>
     (case replay_session gw ss of (r, out, rs, cs) \<Rightarrow>
        map fst (ss_calls ss) = take (length (ss_calls ss)) cs \<and> length (ss_calls ss) \<le> length cs \<and>
        (\<forall>a. ss_answer ss = Some a \<longrightarrow> a = (r, out) \<and> length cs = length (ss_calls ss)))"

lemma session_new: "runs_alone gw \<lparr>ss_tenant = tenant, ss_input = input, ss_calls = [], ss_answer = None\<rparr>"
  by (simp add: runs_alone_def split: prod.split)

lemma thread_turn_keeps:
  assumes "gw_srv gw = replayer" and "runs_alone gw ss" and "thread_turn gw srv ss s = (ss', s')"
  shows "runs_alone gw ss'"
proof -
  let ?rs = "map snd (ss_calls ss)" and ?n = "length (ss_calls ss)"
  obtain t where t: "\<And>s. handle_conn gw (ss_tenant ss) (ss_input ss) s = (case tree_run t s of ((r, out), s') \<Rightarrow> (r, out, s'))"
    using handle_conn_tree [OF assms(1)] by blast
  have now: "replay_session gw ss = (fst (tree_result t ?rs), snd (tree_result t ?rs),
      drop (length (tree_calls t ?rs)) ?rs, tree_calls t ?rs)"
    by (simp add: replay_session_def t tree_run_def split: prod.split)
  show ?thesis
  proof (cases "ss_answer ss")
    case (Some a)
    then show ?thesis using assms(2,3) by (simp add: thread_turn_def)
  next
    case None
    note open_ss = this
    show ?thesis
    proof (cases "?n < length (tree_calls t ?rs)")
      case True
      let ?c = "tree_calls t ?rs ! ?n"
      obtain reply where ss': "ss' = ss\<lparr>ss_calls := ss_calls ss @ [(?c, reply)]\<rparr>"
        using assms(3) open_ss True now by (auto simp: thread_turn_def next_call_def split: prod.splits)
      let ?rs' = "?rs @ [reply]"
      have next': "replay_session gw ss' = (fst (tree_result t ?rs'), snd (tree_result t ?rs'),
          drop (length (tree_calls t ?rs')) ?rs', tree_calls t ?rs')"
        by (simp add: ss' replay_session_def t tree_run_def split: prod.split)
      have same: "take (Suc ?n) (tree_calls t ?rs') = take (Suc ?n) (tree_calls t ?rs)"
        using tree_calls_next [of ?rs t "[reply]"] True by simp
      have "length (take (Suc ?n) (tree_calls t ?rs')) = Suc ?n" unfolding same using True by simp
      then have "Suc ?n \<le> length (tree_calls t ?rs')" by simp
      moreover have "map fst (ss_calls ss) @ [?c] = take (Suc ?n) (tree_calls t ?rs)"
        using assms(2) now True by (simp add: runs_alone_def take_Suc_conv_app_nth)
      ultimately show ?thesis
        using open_ss next' same by (simp add: runs_alone_def ss')
    next
      case False
      then have "ss' = ss\<lparr>ss_answer := Some (tree_result t ?rs)\<rparr>"
        using assms(3) open_ss now by (auto simp: thread_turn_def next_call_def split: prod.splits)
      then show ?thesis
        using assms(2) False now by (simp add: runs_alone_def replay_session_def)
    qed
  qed
qed

lemma serve_event_keeps:
  assumes "gw_srv gw = replayer" and "list_all (runs_alone gw) (ga_sessions g)"
  shows "list_all (runs_alone gw) (ga_sessions (serve_event gw srv ev g))"
proof (cases ev)
  case (Accepted tenant input)
  then show ?thesis using assms(2) session_new [of gw] by simp
next
  case (Scheduled i)
  show ?thesis
  proof (cases "i < length (ga_sessions g)")
    case True
    obtain ss s where turned: "thread_turn gw (srv i) (ga_sessions g ! i) (ga_srv g) = (ss, s)"
      by (cases "thread_turn gw (srv i) (ga_sessions g ! i) (ga_srv g)")
    have "runs_alone gw (ga_sessions g ! i)" using assms(2) True by (simp add: list_all_length)
    then have "runs_alone gw ss"
      using thread_turn_keeps [OF assms(1) _ turned] by blast
    then show ?thesis
      using assms(2) True turned Scheduled by (auto simp: list_all_iff dest!: set_mp [OF set_update_subset_insert])
  qed (use Scheduled assms(2) in simp)
qed (use assms(2) in simp)

lemma serve_events_keep:
  "gw_srv gw = replayer \<Longrightarrow> list_all (runs_alone gw) (ga_sessions (serve_events gw srv evs s))"
  unfolding serve_events_def
  by (induction evs rule: rev_induct) (simp_all add: serve_event_keeps)

lemma serve_tenants:
  assumes "serve ts files env_password a = Val sx" and "gw_tenants gw = sx_tenants sx"
  shows "gw_tenants gw cn = database_of (sa_tenants a) cn"
proof -
  have "parse_tenants (sa_tenants a) Map.empty = Val (gw_tenants gw)"
    using assms by (auto simp: serve_def elim!: rbind_ValE)
  from parse_tenants_database [OF this, of cn] show ?thesis by (simp split: option.splits)
qed

section \<open>Properties\<close>

text \<open>
  C13. However the calls of the gateway's threads interleave on the server and whatever the server
  replies, with failed accepts in between, a thread calls nothing unless its certificate names a
  tenant of the command line. If it does, it connects to \<open>postgres\<close>, where its only call is
  \<open>CREATE DATABASE\<close> for the database of the last \<open>--tenant\<close> of its name; then, if that was accepted
  or the database existed, it connects to this database and sets up the session; and when this has
  been accepted too, it makes all its other calls, among them the SQL that comes from the client,
  there and connects nowhere else. What that SQL says is not restricted.
\<close>

theorem threads_keep_to_their_database:
  assumes "serve ts files env_password a = Val sx" and "gw_tenants gw = sx_tenants sx" and "gw_srv gw = replayer"
    and "ss \<in> set (ga_sessions (serve_events gw srv evs s))"
  shows "ss_calls ss = [] \<or>
    (\<exists>cn db. ss_tenant ss = Val cn \<and> database_of (sa_tenants a) cn = Some db \<and> follows stays (open_calls db) (ss_calls ss))"
proof -
  obtain t where t: "keeps_to gw (ss_tenant ss) t"
    "\<And>s. handle_conn gw (ss_tenant ss) (ss_input ss) s = (case tree_run t s of ((r, out), s') \<Rightarrow> (r, out, s'))"
    using handle_conn_tree [OF assms(3)] by blast
  have "runs_alone gw ss"
    using serve_events_keep [OF assms(3), of srv evs s] assms(4) by (simp add: list_all_iff)
  then have calls: "map fst (ss_calls ss) = take (length (ss_calls ss)) (tree_calls t (map snd (ss_calls ss)))"
    by (simp add: runs_alone_def replay_session_def t(2) tree_run_def split: prod.splits)
  from t(1) show ?thesis
    unfolding keeps_to_def
  proof (elim disjE exE conjE)
    fix x assume "t = Ret x"
    then show ?thesis using calls by simp
  next
    fix cn db assume "ss_tenant ss = Val cn" "gw_tenants gw cn = Some db" "tree_opens stays t (open_calls db)"
    then show ?thesis
      using tree_follows [of stays t "open_calls db", OF _ calls] serve_tenants [OF assms(1,2), of cn] by auto
  qed
qed

text \<open>Two connections, one of them without a certificate; the first thread gets three turns.\<close>

definition toy_sessions :: "(str \<Rightarrow> str option) \<Rightarrow> replayed gateway" where
  "toy_sessions tenants = \<lparr>gw_srv = replayer, gw_lc = (\<lambda>s. s), gw_show = (\<lambda>e. []), gw_grant = (\<lambda>n. n), gw_buf = 8,
     gw_tenants = tenants, gw_dec_full = (\<lambda>j. Some toy_full), gw_dec_delta = (\<lambda>j. Some toy_header), gw_enc_resp = (\<lambda>r. Some [7])\<rparr>"

definition toy_events :: "gate_event list" where
  "toy_events = [Accepted (Val [97]) (write_request_header Delta [5]), Accept_Failed,
     Accepted (Err (InvalidData ''client presented no certificate'')) (write_request_header Delta [5]),
     Scheduled 0, Scheduled 1, Scheduled 0, Scheduled 0]"

abbreviation toy_thread :: "(call \<times> reply) list \<Rightarrow> session" where
  "toy_thread cs \<equiv> \<lparr>ss_tenant = Val [97], ss_input = write_request_header Delta [5], ss_calls = cs, ss_answer = None\<rparr>"

lemma toy_next:
  assumes "tenants [97] = Some [99]"
  shows "next_call (toy_sessions tenants) (toy_thread []) = Some (Connect (lit ''postgres''))"
    "next_call (toy_sessions tenants) (toy_thread [(c, Rows n)]) = Some (Execute (lit ''CREATE DATABASE '' @ quoted [99]))"
    "next_call (toy_sessions tenants) (toy_thread [(c, Rows n), (d, Rows m)]) = Some (Connect [99])"
  using assms read_written_request [of "[5]" Delta "[]"]
  by (simp_all add: next_call_def replay_session_def handle_conn_def toy_sessions_def handle_delta_def parsed_def of_run_def
     pbind_def srv_part_def connect_db_def exec_def replayer_def Let_def split: run.split)

lemma toy_run:
  assumes "tenants [97] = Some [99]"
  shows "toy_thread [(Connect (lit ''postgres''), Rows 1), (Execute (lit ''CREATE DATABASE '' @ quoted [99]), Rows 1), (Connect [99], Rows 1)]
    \<in> set (ga_sessions (serve_events (toy_sessions tenants) (\<lambda>i. accept_server) toy_events []))"
proof -
  let ?gw = "toy_sessions tenants"
  let ?other = "\<lparr>ss_tenant = Err (InvalidData ''client presented no certificate''), ss_input = write_request_header Delta [5],
    ss_calls = [], ss_answer = None\<rparr>"
  have other: "\<exists>q. thread_turn ?gw accept_server ?other s = (q, s)" for s
    using read_written_request [of "[5]" Delta "[]"]
    by (simp add: thread_turn_def next_call_def replay_session_def handle_conn_def)
  obtain q where q: "thread_turn ?gw accept_server ?other [Connect (lit ''postgres'')] = (q, [Connect (lit ''postgres'')])"
    using other by blast
  show ?thesis
    by (simp add: serve_events_def toy_events_def thread_turn_def [of ?gw accept_server "toy_thread cs" for cs] toy_next [of tenants, OF assms]
        accept_server_def [THEN fun_cong, THEN fun_cong] q)
qed

theorem threads_keep_to_their_database_witness:
  "\<exists>sx ss cn db. serve toy_tls toy_files [112] toy_serve = Val sx \<and>
    ss \<in> set (ga_sessions (serve_events (toy_sessions (sx_tenants sx)) (\<lambda>i. accept_server) toy_events [])) \<and>
    length (ss_calls ss) = 3 \<and> ss_tenant ss = Val cn \<and> database_of (sa_tenants toy_serve) cn = Some db \<and>
    follows stays (open_calls db) (ss_calls ss)"
proof -
  obtain sx where sx: "serve toy_tls toy_files [112] toy_serve = Val sx" using toy_serving by blast
  let ?gw = "toy_sessions (sx_tenants sx)"
  have gw: "gw_tenants ?gw = sx_tenants sx" "gw_srv ?gw = replayer" by (simp_all add: toy_sessions_def)
  have "sx_tenants sx [97] = Some [99]"
    using serve_tenants [OF sx gw(1), of "[97]"] by (simp add: gw(1) database_of_def toy_serve_def split_eq_def)
  from toy_run [of "sx_tenants sx", OF this] obtain ss where
    ss: "ss \<in> set (ga_sessions (serve_events ?gw (\<lambda>i. accept_server) toy_events []))" "length (ss_calls ss) = 3"
    by fastforce
  from threads_keep_to_their_database [OF sx gw ss(1)] ss sx show ?thesis by auto
qed

end
