(* ===== verification/Agent.thy ===== *)
theory Agent
  imports Pki
begin

text \<open>
  The agent as a program (\<open>src/src/bin/agent.rs\<close>): its TLS configuration, the connections it opens
  for its full pushes and, with the remote sink of \<open>src/src/sink.rs\<close>, for its deltas, and \<open>main\<close>
  over them. The network is a parameter: which names and addresses are good, and what the other
  end of a connection does with the bytes that it gets.
\<close>

section \<open>Opening connections\<close>

record 's net =
  nt_server_name :: "str \<Rightarrow> bool"
  nt_session :: "tls_config \<Rightarrow> str \<Rightarrow> bool"
  nt_tcp :: "str \<Rightarrow> 's \<Rightarrow> bool"
  nt_exchange :: "tls_config \<Rightarrow> str \<Rightarrow> 's exchange"

text \<open>\<open>RemoteSink::open\<close>, and \<open>connect\<close> of the agent.\<close>

definition remote_open :: "'s net \<Rightarrow> tls_config \<Rightarrow> str \<Rightarrow> str \<Rightarrow> 's \<Rightarrow> unit run" where
  "remote_open net cfg gateway server_name s =
     (if \<not> nt_server_name net server_name then Err (InvalidData ''invalid server name'')
      else if \<not> nt_session net cfg server_name then Err (InvalidData ''tls'')
      else if \<not> nt_tcp net gateway s then Err (InvalidData ''tcp'')
      else Val ())"

definition agent_connect :: "'s net \<Rightarrow> tls_config \<Rightarrow> str \<Rightarrow> str \<Rightarrow> 's \<Rightarrow> unit run" where
  "agent_connect net cfg gateway server_name s =
     (if \<not> nt_server_name net server_name then Err (InvalidData ''invalid server name'')
      else if \<not> nt_session net cfg server_name then Err (InvalidData ''new TLS session'')
      else if \<not> nt_tcp net gateway s then Err (InvalidData ''connect'')
      else Val ())"

text \<open>The messages of both programs as bytes, and how the buffered writer cuts a stream.\<close>

record wire_codec =
  wc_full :: "full_header \<Rightarrow> bytes option"
  wc_delta :: "delta_header \<Rightarrow> bytes option"
  wc_resp :: "bytes \<Rightarrow> resp option"
  wc_pieces :: "bytes \<Rightarrow> bytes list"
  wc_sent :: "str \<Rightarrow> bytes list"

definition remote_sink_new :: "wire_codec \<Rightarrow> 's net \<Rightarrow> tls_config \<Rightarrow> str \<Rightarrow> str \<Rightarrow> 's delta_sink" where
  "remote_sink_new wc net cfg gateway server_name =
     remote_sink (wc_delta wc) (wc_resp wc) (remote_open net cfg gateway server_name) (nt_exchange net cfg gateway)"

section \<open>The program\<close>

record agent_cli = agent_args +
  ac_gateway :: str
  ac_server_name :: str
  ac_ca :: str
  ac_cert :: str
  ac_key :: str

definition agent_push ::
    "codec \<Rightarrow> wire_codec \<Rightarrow> 's net \<Rightarrow> tls_config \<Rightarrow> agent_cli \<Rightarrow> ods \<Rightarrow> bool \<Rightarrow> str \<Rightarrow> ('s, nat \<times> nat \<times> nat) pgm" where
  "agent_push co wc net cfg args db unlogged table s =
     push_full (co_uc co) (co_lc co) (wc_full wc) (wc_resp wc) (wc_pieces wc) (wc_sent wc table)
       (agent_connect net cfg (ac_gateway args) (ac_server_name args) s)
       (nt_exchange net cfg (ac_gateway args)) db table unlogged s"

definition agent ::
    "tls_lib \<Rightarrow> codec \<Rightarrow> wire_codec \<Rightarrow> 's net \<Rightarrow> fs \<Rightarrow> agent_cli \<Rightarrow> ('s, push_totals \<times> 's agent_end) pgm" where
  "agent ts co wc net files args =
     pbind (of_run (read_text files (ac_ca args))) (\<lambda>ca.
     pbind (of_run (read_text files (ac_cert args))) (\<lambda>cert.
     pbind (of_run (read_text files (ac_key args))) (\<lambda>key.
     pbind (of_run (client_config ts ca cert key)) (\<lambda>cfg.
     agent_main co (remote_sink_new wc net cfg (ac_gateway args) (ac_server_name args)) (agent_push co wc net cfg args)
       files (agent_args.truncate args)))))"

section \<open>Seeding\<close>

text \<open>The states between the pushes, when none of them fails.\<close>

fun all_pushed :: "(str \<Rightarrow> ('s, nat \<times> nat \<times> nat) pgm) \<Rightarrow> str list \<Rightarrow> 's \<Rightarrow> 's \<Rightarrow> bool" where
  "all_pushed push [] s s' \<longleftrightarrow> s' = s"
| "all_pushed push (table # tables) s s' \<longleftrightarrow> (\<exists>n t. push table s = (Val n, t) \<and> all_pushed push tables t s')"

lemma truncated_args [simp]:
  "aa_database (agent_args.truncate args) = aa_database args" "aa_unlogged (agent_args.truncate args) = aa_unlogged args"
  "aa_watch (agent_args.truncate args) = aa_watch args"
  by (simp_all add: agent_args.truncate_def)

lemma push_each_failures: "push_each push tables t s = (Val t', s') \<Longrightarrow> pt_failed t \<le> pt_failed t'"
  using push_each_totals [of push tables t s t' s'] by simp

lemma push_each_all:
  assumes "push_each push tables t s = (Val t', s')" and "pt_failed t' = 0"
  shows "all_pushed push tables s s'"
  using assms(1)
proof (induction tables arbitrary: t s)
  case (Cons table tables)
  obtain r u where p: "push table s = (r, u)" by (cases "push table s")
  show ?case
  proof (cases r)
    case (Val n)
    then show ?thesis using Cons p by (cases n) auto
  next
    case (Err e)
    then have "push_each push tables (t\<lparr>pt_failed := pt_failed t + 1\<rparr>) u = (Val t', s')" using Cons.prems p by simp
    from push_each_failures [OF this] show ?thesis using assms(2) by simp
  qed (use Cons.prems p in simp_all)
qed simp

section \<open>Properties\<close>

text \<open>
  C39. The agent watches only what it has seeded. It sends nothing before the three files of its
  TLS configuration are read and the configuration is made; and when it goes on with a watcher,
  every table that the watcher is over has been pushed in full, one after the other and each over
  a connection that opened, and the deltas go to the same gateway with the same configuration.
\<close>

theorem agent_seeds_before_watching:
  assumes "agent ts co wc net files args s = (r, s')"
  shows "((\<nexists>ca cert key cfg. read_text files (ac_ca args) = Val ca \<and> read_text files (ac_cert args) = Val cert \<and>
        read_text files (ac_key args) = Val key \<and> client_config ts ca cert key = Val cfg) \<longrightarrow> s' = s \<and> \<not> returns r) \<and>
    (\<forall>t wa w. r = Val (t, Watching wa w) \<longrightarrow>
      (\<exists>ca cert key cfg db. client_config ts ca cert key = Val cfg \<and> open_path files (aa_database args) = Val db \<and>
         aa_watch args \<and> pt_ok t = length (wa_tables wa) \<and>
         all_pushed (agent_push co wc net cfg args db (aa_unlogged args)) (wa_tables wa) s s' \<and>
         wa_sink wa = remote_sink_new wc net cfg (ac_gateway args) (ac_server_name args)))"
proof (rule conjI; (intro impI allI)?)
  assume bad: "\<nexists>ca cert key cfg. read_text files (ac_ca args) = Val ca \<and> read_text files (ac_cert args) = Val cert \<and>
        read_text files (ac_key args) = Val key \<and> client_config ts ca cert key = Val cfg"
  show "s' = s \<and> \<not> returns r"
  proof (cases "read_text files (ac_ca args)")
    case (Val ca)
    note ca = this
    show ?thesis
    proof (cases "read_text files (ac_cert args)")
      case (Val cert)
      note cert = this
      show ?thesis
      proof (cases "read_text files (ac_key args)")
        case (Val key)
        then have "\<not> returns (client_config ts ca cert key)" using bad ca cert by (auto simp: returns_iff)
        then show ?thesis
          using assms ca cert Val by (cases "client_config ts ca cert key") (auto simp: agent_def pbind_def of_run_def)
      qed (use assms ca cert in \<open>auto simp: agent_def pbind_def of_run_def\<close>)
    qed (use assms ca in \<open>auto simp: agent_def pbind_def of_run_def\<close>)
  qed (use assms in \<open>auto simp: agent_def pbind_def of_run_def\<close>)
next
  fix t wa w assume "r = Val (t, Watching wa w)"
  then obtain ca cert key cfg where cfg: "client_config ts ca cert key = Val cfg"
    and main: "agent_main co (remote_sink_new wc net cfg (ac_gateway args) (ac_server_name args)) (agent_push co wc net cfg args)
       files (agent_args.truncate args) s = (Val (t, Watching wa w), s')"
    using assms by (auto simp: agent_def of_run_Val elim!: pbind_ValE)
  from agent_main_watching [OF main] obtain db where run: "open_path files (aa_database args) = Val db"
    "push_each (agent_push co wc net cfg args db (aa_unlogged args)) (wa_tables wa) no_push s = (Val t, s')"
    "aa_watch args" "pt_failed t = 0" "pt_ok t = length (wa_tables wa)"
    "wa_sink wa = remote_sink_new wc net cfg (ac_gateway args) (ac_server_name args)"
    by auto
  from push_each_all [OF run(2,4)] show "\<exists>ca cert key cfg db. client_config ts ca cert key = Val cfg \<and>
      open_path files (aa_database args) = Val db \<and> aa_watch args \<and> pt_ok t = length (wa_tables wa) \<and>
      all_pushed (agent_push co wc net cfg args db (aa_unlogged args)) (wa_tables wa) s s' \<and>
      wa_sink wa = remote_sink_new wc net cfg (ac_gateway args) (ac_server_name args)"
    using cfg run by (intro exI [of _ ca] exI [of _ cert] exI [of _ key] exI [of _ cfg] exI [of _ db]) simp
qed

text \<open>An agent for all tables of a file that has none, with a network without peers.\<close>

definition toy_net :: "nat net" where
  "toy_net = \<lparr>nt_server_name = (\<lambda>n. True), nt_session = (\<lambda>cfg n. True), nt_tcp = (\<lambda>g s. True), nt_exchange = (\<lambda>cfg g b s. ([], s + 1))\<rparr>"

definition toy_wire :: wire_codec where
  "toy_wire = \<lparr>wc_full = (\<lambda>h. None), wc_delta = (\<lambda>h. None), wc_resp = (\<lambda>b. None), wc_pieces = (\<lambda>b. [b]), wc_sent = (\<lambda>t. [])\<rparr>"

definition toy_codec :: codec where
  "toy_codec = \<lparr>co_uc = (\<lambda>c. []), co_lc = (\<lambda>s. s), co_to_json = (\<lambda>st. None), co_from_json = (\<lambda>j. None), co_order = (\<lambda>m. [])\<rparr>"

definition toy_cli :: agent_cli where
  "toy_cli = \<lparr>aa_database = [100], aa_table = None, aa_tables = [], aa_all_tables = True, aa_unlogged = False, aa_watch = True,
     aa_state_file = Some [115], ac_gateway = [103], ac_server_name = [110], ac_ca = [97], ac_cert = [98], ac_key = [99]\<rparr>"

definition toy_disk :: fs where
  "toy_disk = [[100] \<mapsto> empty_file, [97] \<mapsto> [120], [98] \<mapsto> [120], [99] \<mapsto> [120]]"

lemma empty_file_lists: "list_tables \<lparr>mmap = empty_file, page_size = 1024, ods_ver = 13\<rparr> = Val []"
proof -
  let ?db = "\<lparr>mmap = empty_file, page_size = 1024, ods_ver = 13\<rparr>"
  have "length empty_file = 1024" "le_at 4 empty_file 20 = 0" by (simp_all add: empty_file_def)
  then have "hdr_pages ?db = Val 0" by (simp add: hdr_pages_def page_def slice_def)
  then show ?thesis by (simp add: list_tables_def find_first_pp_def data_pages_for_def scan_pages_def)
qed

lemma toy_agent_main: "\<exists>t wa w. agent_main toy_codec sink push toy_disk (agent_args.truncate toy_cli) 0 = (Val (t, Watching wa w), 0)"
proof -
  have "open_path toy_disk [100] = Val \<lparr>mmap = empty_file, page_size = 1024, ods_ver = 13\<rparr>" "toy_disk [100] = Some empty_file"
    by (simp_all add: open_path_def toy_disk_def required_def empty_file_open)
  moreover have "load_snapshots (toy_disk (snap_path [115])) = Val Map.empty"
    by (simp add: toy_disk_def snap_path_def lit_def load_snapshots_def)
  ultimately show ?thesis
    by (simp add: agent_main_def agent_args.truncate_def toy_cli_def chosen_tables_def empty_file_lists pbind_def of_run_def no_push_def
        start_watch_def watch_init_def watcher_of_def toy_codec_def empty_file_open pval_def Let_def state_path_of_def)
qed

theorem agent_seeds_before_watching_witness:
  "(\<exists>t wa w cfg s. agent toy_tls toy_codec toy_wire toy_net toy_disk toy_cli 0 = (Val (t, Watching wa w), s) \<and>
      wa_sink wa = remote_sink_new toy_wire toy_net cfg [103] [110]) \<and>
   snd (agent toy_tls toy_codec toy_wire toy_net (toy_disk([98] := None)) toy_cli 0) = 0"
proof -
  have read: "read_text toy_disk [97] = Val [120]" "read_text toy_disk [98] = Val [120]" "read_text toy_disk [99] = Val [120]"
    by (simp_all add: read_text_def toy_disk_def required_def checked_def scalar_def)
  have "\<exists>cfg. client_config toy_tls [120] [120] [120] = Val cfg"
    by (simp add: client_config_def root_store_def load_certs_def load_key_def toy_tls_def required_def)
  then obtain cfg where "client_config toy_tls [120] [120] [120] = Val cfg" by blast
  then have "agent toy_tls toy_codec toy_wire toy_net toy_disk toy_cli 0 =
      agent_main toy_codec (remote_sink_new toy_wire toy_net cfg [103] [110]) (agent_push toy_codec toy_wire toy_net cfg toy_cli)
        toy_disk (agent_args.truncate toy_cli) 0"
    using read by (simp add: agent_def toy_cli_def)
  then obtain t wa w where run: "agent toy_tls toy_codec toy_wire toy_net toy_disk toy_cli 0 = (Val (t, Watching wa w), 0)"
    using toy_agent_main by metis
  have "wa_sink wa \<in> range (\<lambda>cfg. remote_sink_new toy_wire toy_net cfg [103] [110])"
    using agent_seeds_before_watching [OF run] by (auto simp: toy_cli_def)
  moreover have "read_text (toy_disk([98] := None)) (ac_cert toy_cli) \<noteq> Val c" for c
    by (simp add: read_text_def toy_cli_def required_def)
  then have "snd (agent toy_tls toy_codec toy_wire toy_net (toy_disk([98] := None)) toy_cli 0) = 0"
    using agent_seeds_before_watching [where ts = toy_tls and co = toy_codec and wc = toy_wire and net = toy_net and
        files = "toy_disk([98] := None)" and args = toy_cli and s = 0, OF prod.collapse [symmetric]]
    by blast
  ultimately show ?thesis using run by blast
qed

end
