(* ===== verification/Replica.thy ===== *)
theory Replica
  imports Cdc_Scan
begin

text \<open>
  What the deltas of the change capture are for: a replica of the table, and its specification. A
  replica maps the bytes of a key to the bytes of a row; a delta deletes the keys of its delete
  stream and then puts the rows of its upsert stream, which is what the statements of
  \<open>src/src/merge.rs\<close> do with their two streams, in this order. The table in the file is the list
  of its live rows, read directly off the slots of its pages, without any loop of the program.
\<close>

section \<open>Replaying a delta\<close>

definition row_bytes :: "row \<Rightarrow> bytes" where
  "row_bytes r = concat (map encode_field r)"

definition row_key :: "table_cache \<Rightarrow> row \<Rightarrow> bytes" where
  "row_key c r = concat (map (\<lambda>i. case i of Some i \<Rightarrow> encode_field (r ! i) | None \<Rightarrow> []) (tc_pk_indices c))"

definition cut_rows :: "row list \<Rightarrow> (bytes \<Rightarrow> bytes option) \<Rightarrow> bytes \<Rightarrow> bytes option" where
  "cut_rows rows M = (\<lambda>k. if k \<in> row_bytes ` set rows then None else M k)"

definition put_rows :: "table_cache \<Rightarrow> row list \<Rightarrow> (bytes \<Rightarrow> bytes option) \<Rightarrow> bytes \<Rightarrow> bytes option" where
  "put_rows c rows M = fold (\<lambda>r M. M(row_key c r \<mapsto> row_bytes r)) rows M"

definition replay :: "table_cache \<Rightarrow> bytes \<Rightarrow> bytes \<Rightarrow> (bytes \<Rightarrow> bytes option) \<Rightarrow> (bytes \<Rightarrow> bytes option) option" where
  "replay c upserts deletes M =
     (case parse_pgcopy upserts of
        Some us \<Rightarrow>
          (case parse_pgcopy deletes of
             Some ds \<Rightarrow> Some (put_rows c us (cut_rows ds M))
           | None \<Rightarrow> None)
      | None \<Rightarrow> None)"

section \<open>The table in the file\<close>

definition is_data_page :: "ods \<Rightarrow> nat \<Rightarrow> bool" where
  "is_data_page db n \<longleftrightarrow> (case page db n of Val dp \<Rightarrow> byte_at dp 0 = Val PAG_DATA | _ \<Rightarrow> False)"

definition page_slots :: "ods \<Rightarrow> nat \<Rightarrow> bytes list" where
  "page_slots db n =
     (case page db n of
        Val dp \<Rightarrow>
          if byte_at dp 0 = Val PAG_DATA
          then (case u16_at dp 22 of
              Val cnt \<Rightarrow> concat (map (\<lambda>s. case slot_raw db dp s of Val (Some raw) \<Rightarrow> [raw] | _ \<Rightarrow> []) [0..<cnt])
            | _ \<Rightarrow> [])
          else []
      | _ \<Rightarrow> [])"

text \<open>
  The transaction, the key and the row of a slot that is a live record with a key of the full width.
  A record that is split into fragments, or whose key has a \<open>NULL\<close>, is not among them.
\<close>

definition live_row :: "table_cache \<Rightarrow> bytes \<Rightarrow> (nat \<times> bytes \<times> bytes run) list" where
  "live_row c raw =
     (if length raw < 13 \<or> has_flag (flags_of raw) pk_skip then []
      else case record_transaction raw of
          Val (Some txn) \<Rightarrow>
            (case payload (data_start (flags_of raw)) raw of
               Some rec \<Rightarrow>
                 (case encode_pk_pgcopy rec c (unat (raw ! 12)) of
                    Val pk \<Rightarrow>
                      if length pk = tc_pk_byte_len c
                      then [(txn, pk, upsert_fields rec (slots_for c (unat (raw ! 12))))] else []
                  | _ \<Rightarrow> [])
             | None \<Rightarrow> [])
        | _ \<Rightarrow> [])"

definition page_live :: "ods \<Rightarrow> table_cache \<Rightarrow> nat \<Rightarrow> (nat \<times> bytes \<times> bytes run) list" where
  "page_live db c n = concat (map (live_row c) (page_slots db n))"

definition table_rows :: "ods \<Rightarrow> table_cache \<Rightarrow> (bytes \<times> bytes run) list" where
  "table_rows db c = concat (map (\<lambda>n. map snd (page_live db c n)) (tc_data_pages c))"

definition mirrors :: "ods \<Rightarrow> table_cache \<Rightarrow> (bytes \<Rightarrow> bytes option) \<Rightarrow> bool" where
  "mirrors db c M \<longleftrightarrow> dom M = fst ` set (table_rows db c) \<and>
     (\<forall>(k, r) \<in> set (table_rows db c). map_option Val (M k) = Some r)"

text \<open>The key that a deletion stub above the watermark resolves to.\<close>

definition stub_key :: "ods \<Rightarrow> table_cache \<Rightarrow> nat \<Rightarrow> bytes \<Rightarrow> bytes list" where
  "stub_key db c last_txn raw =
     (if length raw < 13 \<or> \<not> has_flag (flags_of raw) RHD_DELETED \<or> \<not> tc_pk_tracked c \<or>
         payload (data_start (flags_of raw)) raw = None
      then []
      else case record_transaction raw of
          Val (Some txn) \<Rightarrow>
            if txn \<le> last_txn then []
            else (case (u32_at raw 4, u16_at raw 8) of
                (Val pg, Val line) \<Rightarrow>
                  if pg = 0 then []
                  else (case chain_follow MAX_CHAIN_DEPTH db pg line [] of
                      Val (Some fmt, rec) \<Rightarrow>
                        (case delete_key rec (slots_for c fmt) (tc_pk_indices c) of Val k \<Rightarrow> [k] | _ \<Rightarrow> [])
                    | _ \<Rightarrow> [])
              | _ \<Rightarrow> [])
        | _ \<Rightarrow> [])"

definition table_stubs :: "ods \<Rightarrow> table_cache \<Rightarrow> nat \<Rightarrow> bytes list" where
  "table_stubs db c last_txn =
     concat (map (\<lambda>n. concat (map (stub_key db c last_txn) (page_slots db n))) (tc_data_pages c))"

section \<open>Rows and their keys\<close>

definition row_for :: "table_cache \<Rightarrow> nat \<times> bytes \<Rightarrow> row \<Rightarrow> bool" where
  "row_for c = (\<lambda>(fmt, rec) r. row_ok r \<and> length r = tc_n_fields c \<and>
     upsert_fields rec (slots_for c fmt) = Val (row_bytes r) \<and>
     (\<forall>pk. encode_pk_pgcopy rec c fmt = Val pk \<longrightarrow> pk = row_key c r))"

lemma upsert_fields_row:
  "upsert_fields rec slots = Val b \<Longrightarrow> \<forall>s \<in> set slots. dlength (slot_desc s) < 2 ^ 16 \<Longrightarrow>
   \<exists>r. list_all field_ok r \<and> length r = length slots \<and> b = row_bytes r \<and>
     (\<forall>i < length slots. slot_field rec (slots ! i) = Val (encode_field (r ! i)))"
proof (induction slots arbitrary: b)
  case (Cons s slots)
  then obtain x y where xy: "slot_field rec s = Val x" "upsert_fields rec slots = Val y" "b = x @ y"
    by (auto simp: rbind_Val_iff)
  obtain f where f: "field_ok f" "x = encode_field f" using slot_field_encoded [OF xy(1)] Cons.prems(2) by auto
  obtain r where r: "list_all field_ok r" "length r = length slots" "y = row_bytes r"
    "\<forall>i < length slots. slot_field rec (slots ! i) = Val (encode_field (r ! i))"
    using Cons.IH [OF xy(2)] Cons.prems(2) by auto
  show ?case
    using f r xy by (intro exI [of _ "f # r"]) (auto simp: row_bytes_def nth_Cons split: nat.splits)
qed (simp add: row_bytes_def)

lemma delete_key_row:
  "delete_key rec slots ixs = Val k \<Longrightarrow> \<forall>i < length slots. slot_field rec (slots ! i) = Val (encode_field (r ! i)) \<Longrightarrow>
   k = concat (map (\<lambda>i. case i of Some i \<Rightarrow> encode_field (r ! i) | None \<Rightarrow> []) ixs)"
proof (induction rec slots ixs arbitrary: k rule: delete_key.induct)
  case (3 rec slots ix ixs)
  then obtain s x y where k: "byte_at slots ix = Val s" "slot_field rec s = Val x" "delete_key rec slots ixs = Val y" "k = x @ y"
    by (auto simp: rbind_Val_iff)
  then have "ix < length slots" "s = slots ! ix" by (auto simp: byte_at_def split: if_splits)
  then have "x = encode_field (r ! ix)" using "3.prems"(2) k(2) by auto
  then show ?case using "3.IH" [OF k(1,2,3) "3.prems"(2)] k(4) by simp
qed simp_all

lemma row_for_exists:
  assumes "good_cache c" and "upsert_fields rec (slots_for c fmt) = Val b"
  shows "\<exists>r. row_for c (fmt, rec) r \<and> b = row_bytes r"
proof -
  have s: "\<forall>s \<in> set (slots_for c fmt). dlength (slot_desc s) < 2 ^ 16" "length (slots_for c fmt) = tc_n_fields c"
    "tc_n_fields c < 2 ^ 15"
    using assms(1) by (auto simp: good_cache_def)
  obtain r where r: "list_all field_ok r" "length r = length (slots_for c fmt)" "b = row_bytes r"
    "\<forall>i < length (slots_for c fmt). slot_field rec (slots_for c fmt ! i) = Val (encode_field (r ! i))"
    using upsert_fields_row [OF assms(2) s(1)] by blast
  have "pk = row_key c r" if "encode_pk_pgcopy rec c fmt = Val pk" for pk
    using that r(4) delete_key_row [of rec "slots_for c fmt" "tc_pk_indices c" pk r]
    by (simp add: encode_pk_pgcopy_def encode_pk_loop_delete_key row_key_def)
  then show ?thesis using r s assms(2) by (intro exI [of _ r]) (simp add: row_for_def row_ok_def)
qed

lemma rows_for_exist:
  assumes "good_cache c" and "list_all2 (\<lambda>(fmt, rec) b. upsert_fields rec (slots_for c fmt) = Val b) rows bs"
  shows "\<exists>rs. list_all2 (row_for c) rows rs \<and> bs = map row_bytes rs"
  using assms(2)
proof (induction rule: list_all2_induct)
  case (Cons p rows b bs)
  then obtain rs where "list_all2 (row_for c) rows rs" "bs = map row_bytes rs" by blast
  moreover obtain r where "row_for c p r" "b = row_bytes r"
    using Cons.hyps(1) row_for_exists [OF assms(1), of "snd p" "fst p" b] by (auto simp: case_prod_beta)
  ultimately show ?case by (intro exI [of _ "r # rs"]) simp
qed (intro exI [of _ "[]"], simp)

lemma encode_rows_bytes:
  "\<forall>r \<in> set rs. length r = n \<Longrightarrow> concat (map encode_row rs) = concat (map (\<lambda>b. be_bytes 2 n @ b) (map row_bytes rs))"
  by (induction rs) (simp_all add: encode_row_def row_bytes_def)

section \<open>What the record loop collects\<close>

definition live_keys :: "table_cache \<Rightarrow> bytes \<Rightarrow> bytes list" where
  "live_keys c raw = map (\<lambda>(txn, k, r). k) (live_row c raw)"

lemma pk_skip_flags:
  "has_flag flags pk_skip \<longleftrightarrow> has_flag flags RHD_DELETED \<or> has_flag flags RHD_CHAIN \<or> has_flag flags RHD_FRAGMENT \<or>
     has_flag flags RHD_INCOMPLETE \<or> has_flag flags RHD_BLOB"
  by (simp add: pk_skip_def has_flag_or)

lemma keyed_keys:
  assumes "keyed c True raw u st st'" and "rs_buf st = buf" and "13 \<le> length raw"
    and "record_transaction raw = Val (Some txn)" and "unpack_record_cdc raw b = Val (u, buf)"
  shows "rs_page_pks st' = rs_page_pks st @ concat (live_keys c raw)"
proof (cases "wants_key True raw \<and> u = Some False")
  case True
  then have skip: "\<not> has_flag (flags_of raw) pk_skip" by (simp add: wants_key_def)
  have p: "payload (data_start (flags_of raw)) raw = Some buf" using assms(5) True by (simp add: unpack_record_cdc_Some)
  have "snapshot_key c (unat (raw ! 12)) st = Val st'" using assms(1) True by (simp add: keyed_def)
  then show ?thesis
    using assms(2-4) skip p
    by (cases "encode_pk_pgcopy buf c (unat (raw ! 12))")
      (auto simp: snapshot_key_def live_keys_def live_row_def split: if_splits)
next
  case False
  then have st': "st' = st" using assms(1) by (simp add: keyed_def)
  have "live_row c raw = []"
  proof (cases "wants_key True raw")
    case True
    then have skip: "\<not> has_flag (flags_of raw) pk_skip" by (simp add: wants_key_def)
    then have "payload (data_start (flags_of raw)) raw = None"
      using False True assms(3,5) unpack_record_cdc_val [of raw b]
      by (auto simp: pk_skip_flags split: option.splits)
    then show ?thesis using skip assms(3,4) by (simp add: live_row_def)
  qed (simp add: wants_key_def live_row_def)
  then show ?thesis using st' by (simp add: live_keys_def)
qed

lemma changed_page_pks: "changed db c pc raw u st st' \<Longrightarrow> rs_page_pks st' = rs_page_pks st"
  using scan_delete_outcomes [of db c raw st st']
  by (auto simp: changed_def scan_upsert_def rbind_Val_iff split: option.splits if_splits)

lemma record_step_keys:
  assumes "record_step db c last_txn pc True raw st st'"
  shows "rs_page_pks st' = rs_page_pks st @ concat (live_keys c raw)"
  using assms
proof (cases rule: record_stepE)
  case (old txn u buf)
  then show ?thesis using keyed_keys [OF old(6) _ old(1,2,5)] by simp
next
  case (new txn u buf st1)
  then show ?thesis using keyed_keys [OF new(6) _ new(1,2,5)] changed_page_pks [OF new(7)] by simp
qed (simp_all add: live_keys_def live_row_def wants_key_def)

text \<open>The deletions.\<close>

lemma chain_follow_buf:
  "chain_follow k db pg line buf = Val (Some fmt, rec) \<Longrightarrow> chain_follow k db pg line buf' = Val (Some fmt, rec)"
proof (induction k db pg line buf arbitrary: buf' rule: chain_follow.induct)
  case (2 k db pg line buf)
  from "2.prems" obtain older where older: "read_slot_raw db pg line = Val (Some older)"
    by (auto simp: rbind_Val_iff split: option.splits)
  obtain u b where u: "unpack_record_cdc older buf = Val (u, b)"
    using unpack_record_cdc_returns [of older buf] by (auto simp: returns_iff)
  show ?case
  proof (cases u)
    case (Some d)
    then have "unpack_record_cdc older buf' = Val (Some d, b)" using u by (simp add: unpack_record_cdc_Some)
    then show ?thesis using "2.prems" older u Some by simp
  next
    case None
    have "\<exists>b'. unpack_record_cdc older buf' = Val (None, b')"
    proof -
      obtain u' b' where u': "unpack_record_cdc older buf' = Val (u', b')"
        using unpack_record_cdc_returns [of older buf'] by (auto simp: returns_iff)
      have "u' = None"
      proof (rule ccontr)
        assume "u' \<noteq> None"
        then obtain d where "u' = Some d" by blast
        then have "unpack_record_cdc older buf = Val (Some d, b')" using u' by (simp add: unpack_record_cdc_Some)
        then show False using u None by simp
      qed
      then show ?thesis using u' by blast
    qed
    then obtain b' where u': "unpack_record_cdc older buf' = Val (None, b')" by blast
    from "2.prems" older u None obtain fl pg' line' where step: "\<not> length older < 13" "rhd_flags older = Val fl"
      "has_flag fl (or RHD_CHAIN RHD_DELETED)" "u32_at older 4 = Val pg'" "u16_at older 8 = Val line'"
      "chain_follow k db pg' line' b = Val (Some fmt, rec)"
      by (auto simp: rbind_Val_iff split: if_splits)
    have "chain_follow k db pg' line' b' = Val (Some fmt, rec)"
      using "2.IH" older u None step by blast
    then show ?thesis using older u' step by simp
  qed
qed simp

definition delete_rows :: "table_cache \<Rightarrow> bytes list \<Rightarrow> bytes" where
  "delete_rows c ks = concat (map (\<lambda>k. be_bytes 2 (tc_n_pk c) @ k) ks)"

lemma delete_rows_simps [simp]:
  "delete_rows c [] = []" "delete_rows c (k # ks) = be_bytes 2 (tc_n_pk c) @ k @ delete_rows c ks"
  "delete_rows c (ks @ ls) = delete_rows c ks @ delete_rows c ls"
  by (simp_all add: delete_rows_def)

lemma scan_delete_stub:
  assumes "scan_delete db c raw st = Val st'" and "13 \<le> length raw" and "has_flag (flags_of raw) RHD_DELETED"
    and "payload (data_start (flags_of raw)) raw \<noteq> None" and "record_transaction raw = Val (Some txn)" and "last_txn < txn"
  shows "rs_delete_buf st' = rs_delete_buf st @ delete_rows c (stub_key db c last_txn raw)"
proof (cases "tc_pk_tracked c")
  case True
  then obtain pg line where *: "u32_at raw 4 = Val pg" "u16_at raw 8 = Val line"
    using assms(1) by (auto simp: scan_delete_def rbind_Val_iff)
  note stub = stub_key_def [of db c last_txn raw]
  show ?thesis
  proof (cases "pg = 0")
    case True
    then show ?thesis using assms \<open>tc_pk_tracked c\<close> * by (simp add: scan_delete_def stub)
  next
    case False
    then obtain r buf where follow: "chain_follow MAX_CHAIN_DEPTH db pg line (rs_buf st) = Val (r, buf)"
      and rest: "(case r of None \<Rightarrow> Val (st\<lparr>rs_buf := buf\<rparr>)
          | Some fmt \<Rightarrow>
              rbind (delete_key buf (slots_for c fmt) (tc_pk_indices c)) (\<lambda>key.
                Val (st\<lparr>rs_buf := buf, rs_delete_buf := rs_delete_buf st @ be_bytes 2 (tc_n_pk c) @ key,
                       rs_deletes := rs_deletes st + 1\<rparr>))) = Val st'"
      using assms(1) True * by (auto simp: scan_delete_def elim!: rbind_ValE)
    show ?thesis
    proof (cases r)
      case None
      have "chain_follow MAX_CHAIN_DEPTH db pg line [] \<noteq> Val (Some fmt, rec)" for fmt rec
        using chain_follow_buf [of MAX_CHAIN_DEPTH db pg line "[]" fmt rec "rs_buf st"] follow None by auto
      then have "stub_key db c last_txn raw = []"
        using assms(2-6) * False by (auto simp: stub split: run.splits option.splits)
      then show ?thesis using rest None by auto
    next
      case (Some fmt)
      then obtain key where key: "delete_key buf (slots_for c fmt) (tc_pk_indices c) = Val key"
        "st' = st\<lparr>rs_buf := buf, rs_delete_buf := rs_delete_buf st @ be_bytes 2 (tc_n_pk c) @ key, rs_deletes := rs_deletes st + 1\<rparr>"
        using rest by (auto elim!: rbind_ValE)
      have "chain_follow MAX_CHAIN_DEPTH db pg line [] = Val (Some fmt, buf)"
        using follow Some by (auto intro: chain_follow_buf)
      then have "stub_key db c last_txn raw = [key]" using assms(2-6) * False True key(1) by (auto simp: stub)
      then show ?thesis using key(2) by simp
    qed
  qed
next
  case False
  then show ?thesis using assms(1) by (simp add: scan_delete_def stub_key_def)
qed

lemma keyed_deletes: "keyed c rb raw u st st' \<Longrightarrow> rs_delete_buf st' = rs_delete_buf st"
  by (auto simp: keyed_def snapshot_key_def rbind_Val_iff split: if_splits option.splits)

lemma scan_upsert_deletes: "scan_upsert c fmt st = Val st' \<Longrightarrow> rs_delete_buf st' = rs_delete_buf st"
  by (auto simp: scan_upsert_def rbind_Val_iff)

lemma record_step_dels:
  assumes "record_step db c last_txn pc rb raw st st'"
  shows "rs_delete_buf st' = rs_delete_buf st @ delete_rows c (stub_key db c last_txn raw)"
  using assms
proof (cases rule: record_stepE)
  case (old txn u buf)
  then show ?thesis using keyed_deletes [OF old(6)] by (simp add: stub_key_def)
next
  case (new txn u buf st1)
  note same = keyed_deletes [OF new(6)]
  have flags: "\<not> has_flag (flags_of raw) RHD_FRAGMENT" "\<not> has_flag (flags_of raw) RHD_INCOMPLETE"
    "\<not> has_flag (flags_of raw) RHD_BLOB"
    using new(1,2) record_transaction_val [of raw] by (auto split: if_splits)
  show ?thesis
  proof (cases "u = Some True")
    case True
    then have d: "has_flag (flags_of raw) RHD_DELETED" "payload (data_start (flags_of raw)) raw \<noteq> None"
      using new(5) by (simp_all add: unpack_record_cdc_Some)
    have "scan_delete db c raw (st1\<lparr>rs_max_txn := max txn (rs_max_txn st1)\<rparr>) = Val st'"
      using new(7) True by (simp add: changed_def)
    from scan_delete_stub [OF this new(1) d new(2,3)] same show ?thesis by simp
  next
    case False
    then have "rs_delete_buf st' = rs_delete_buf st1"
      using new(7) by (auto simp: changed_def dest: scan_upsert_deletes split: option.splits if_splits)
    moreover have "\<not> has_flag (flags_of raw) RHD_DELETED \<or> payload (data_start (flags_of raw)) raw = None"
      using False new(1,5) flags unpack_record_cdc_val [of raw "rs_buf st"] by (auto split: option.splits)
    then have "stub_key db c last_txn raw = []" by (auto simp: stub_key_def)
    ultimately show ?thesis using same by simp
  qed
qed (simp_all add: stub_key_def)

section \<open>What the pages collect\<close>

definition rebuilt :: "ods \<Rightarrow> table_cache \<Rightarrow> (nat \<Rightarrow> nat option) \<Rightarrow> nat \<Rightarrow> bool" where
  "rebuilt db c gens n \<longleftrightarrow> is_data_page db n \<and> (gens n \<noteq> page_gen db n \<or> is_first_cycle c)"

definition page_keys :: "ods \<Rightarrow> table_cache \<Rightarrow> nat \<Rightarrow> bytes list" where
  "page_keys db c n = concat (map (live_keys c) (page_slots db n))"

text \<open>The state of the pass after the pages \<open>ns\<close>.\<close>

definition seen ::
    "ods \<Rightarrow> table_cache \<Rightarrow> nat \<Rightarrow> (nat \<Rightarrow> nat option) \<Rightarrow> nat list \<Rightarrow> page_state \<Rightarrow> bool" where
  "seen db c last_txn gens ns ps \<longleftrightarrow>
     rs_delete_buf (ps_rec ps) =
       pgcopy_header @ delete_rows c (concat (map (\<lambda>n. concat (map (stub_key db c last_txn) (page_slots db n))) ns)) \<and>
     fst ` set (ps_new_pks ps) = {n \<in> set ns. rebuilt db c gens n} \<and>
     (\<forall>(n, f) \<in> set (ps_new_pks ps). set (chunks (tc_pk_byte_len c) f) = set (page_keys db c n)) \<and>
     (\<forall>n. ps_new_gens ps n =
       (if n \<in> set ns \<and> is_data_page db n \<and> gens n \<noteq> page_gen db n then page_gen db n else None)) \<and>
     (\<forall>n \<in> set ns. is_data_page db n \<longrightarrow> page_gen db n \<noteq> None)"

lemma live_keys_uniform: "uniform (tc_pk_byte_len c) (live_keys c raw)"
  by (auto simp: live_keys_def live_row_def uniform_def split: run.splits option.splits)

lemma scan_cdc_page_seen:
  assumes "scan_cdc_page db c last_txn gens (is_first_cycle c) n ps = Val ps'" and "seen db c last_txn gens ns ps"
    and "0 < tc_pk_byte_len c"
  shows "seen db c last_txn gens (ns @ [n]) ps'"
  using assms(1)
proof (cases rule: scan_cdc_page_cases)
  case (other dp)
  then have "page_slots db n = []" "\<not> rebuilt db c gens n" "\<not> is_data_page db n"
    by (simp_all add: page_slots_def rebuilt_def is_data_page_def)
  then show ?thesis using assms(2) other by (auto simp: seen_def)
next
  case (data dp gen cnt pc rb st new_pks)
  have dpage: "is_data_page db n" "page_gen db n = Some gen" using data(1-3) by (simp_all add: is_data_page_def page_gen_def)
  have rb: "rb \<longleftrightarrow> rebuilt db c gens n" using data(5,6) dpage assms(3) by (auto simp: rebuilt_def)
  let ?s = "\<lambda>s. case slot_raw db dp s of Val (Some raw) \<Rightarrow> [raw] | _ \<Rightarrow> []"
  have slots: "page_slots db n = concat (map ?s [0..<cnt])" using data(1,2,4) by (simp add: page_slots_def)
  let ?st0 = "(ps_rec ps)\<lparr>rs_page_pks := []\<rparr>"
  have "rs_delete_buf st = rs_delete_buf ?st0 @ delete_rows c (concat (map (stub_key db c last_txn) (concat (map ?s [0..<cnt])))) \<and>
      (rb \<longrightarrow> rs_page_pks st = concat (concat (map (live_keys c) (concat (map ?s [0..<cnt])))))"
  proof (rule rfold_collects [OF data(7), where R = "\<lambda>acc t.
      rs_delete_buf t = rs_delete_buf ?st0 @ delete_rows c (concat (map (stub_key db c last_txn) acc)) \<and>
      (rb \<longrightarrow> rs_page_pks t = concat (concat (map (live_keys c) acc)))"])
    fix s t t' acc
    assume acc: "rs_delete_buf t = rs_delete_buf ?st0 @ delete_rows c (concat (map (stub_key db c last_txn) acc)) \<and>
      (rb \<longrightarrow> rs_page_pks t = concat (concat (map (live_keys c) acc)))"
      and turn: "rbind (slot_raw db dp s) (\<lambda>r. case r of None \<Rightarrow> Val t
           | Some raw \<Rightarrow> scan_record db c last_txn pc rb raw t) = Val t'"
    then obtain r where r: "slot_raw db dp s = Val r" by (auto simp: rbind_Val_iff)
    show "rs_delete_buf t' = rs_delete_buf ?st0 @ delete_rows c (concat (map (stub_key db c last_txn) (acc @ ?s s))) \<and>
      (rb \<longrightarrow> rs_page_pks t' = concat (concat (map (live_keys c) (acc @ ?s s))))"
    proof (cases r)
      case None
      then show ?thesis using turn r acc by simp
    next
      case (Some raw)
      then have step: "record_step db c last_txn pc rb raw t t'" using turn r scan_record_step by simp
      then have "rb \<longrightarrow> rs_page_pks t' = rs_page_pks t @ concat (live_keys c raw)" using record_step_keys by auto
      then show ?thesis using record_step_dels [OF step] acc r Some by simp
    qed
  qed simp
  then have del: "rs_delete_buf st = rs_delete_buf (ps_rec ps) @ delete_rows c (concat (map (stub_key db c last_txn) (page_slots db n)))"
    and pks: "rb \<Longrightarrow> rs_page_pks st = concat (page_keys db c n)"
    by (simp_all add: slots page_keys_def)
  have "fst ` set new_pks = {m \<in> set (ns @ [n]). rebuilt db c gens m} \<and>
      (\<forall>(m, f) \<in> set new_pks. set (chunks (tc_pk_byte_len c) f) = set (page_keys db c m))"
  proof (cases rb)
    case True
    then obtain flat where f: "flat_pk_sort_dedup (concat (page_keys db c n)) (tc_pk_byte_len c) = Val flat"
      "new_pks = put_page n flat (ps_new_pks ps)" using data(8) pks by auto
    have "uniform (tc_pk_byte_len c) (page_keys db c n)"
      using live_keys_uniform by (auto simp: page_keys_def uniform_def)
    from sort_keeps_keys [OF f(1) this assms(3)] obtain ds where ds: "flat = concat ds"
      "uniform (tc_pk_byte_len c) ds" "set ds = set (page_keys db c n)" by blast
    have keys: "set (chunks (tc_pk_byte_len c) flat) = set (page_keys db c n)"
      using chunks_concat [OF ds(2) assms(3)] ds(1,3) by simp
    have "fst ` set new_pks = insert n (fst ` set (ps_new_pks ps))"
      unfolding f(2) set_put_page by force
    moreover have "\<forall>(m, f) \<in> set new_pks. set (chunks (tc_pk_byte_len c) f) = set (page_keys db c m)"
      using assms(2) keys unfolding f(2) set_put_page seen_def by auto
    ultimately show ?thesis using assms(2) True rb by (auto simp: seen_def)
  next
    case False
    then show ?thesis using assms(2) data(8) rb by (auto simp: seen_def)
  qed
  moreover have "ps_new_gens ps' m =
      (if m \<in> set (ns @ [n]) \<and> is_data_page db m \<and> gens m \<noteq> page_gen db m then page_gen db m else None)" for m
    using assms(2) data(5,9) dpage by (auto simp: seen_def)
  ultimately show ?thesis using del assms(2) data(9) dpage by (simp add: seen_def)
qed

lemma pass_seen:
  assumes "rfold (scan_cdc_page db c last_txn gens (is_first_cycle c)) (tc_data_pages c) (scan_init last_txn) = Val ps"
    and "0 < tc_pk_byte_len c"
  shows "seen db c last_txn gens (tc_data_pages c) ps"
proof -
  have init: "seen db c last_txn gens [] (scan_init last_txn)" by (simp add: seen_def scan_init_def)
  have "seen db c last_txn gens (concat (map (\<lambda>n. [n]) (tc_data_pages c))) ps"
    by (rule rfold_collects [where R = "seen db c last_txn gens", OF assms(1) init]) (rule scan_cdc_page_seen [OF _ _ assms(2)])
  then show ?thesis by simp
qed

lemma scan_new_pks:
  assumes "scan_changes_into db c last_txn gens = Val so" and "0 < tc_pk_byte_len c"
  shows "fst ` set (so_new_pks so) = {n \<in> set (tc_data_pages c). rebuilt db c gens n}"
    and "\<forall>(n, f) \<in> set (so_new_pks so). set (chunks (tc_pk_byte_len c) f) = set (page_keys db c n)"
  using assms(1) by (cases rule: scan_changes_cases; use pass_seen assms(2) in \<open>force simp: seen_def\<close>)+

lemma scan_new_gens:
  assumes "scan_changes_into db c last_txn gens = Val so" and "0 < tc_pk_byte_len c"
  shows "so_new_gens so n =
      (if n \<in> set (tc_data_pages c) \<and> is_data_page db n \<and> gens n \<noteq> page_gen db n then page_gen db n else None)"
    and "n \<in> set (tc_data_pages c) \<Longrightarrow> is_data_page db n \<Longrightarrow> page_gen db n \<noteq> None"
  using assms(1) by (cases rule: scan_changes_cases; use pass_seen assms(2) in \<open>force simp: seen_def\<close>)+

lemma scan_deletes:
  assumes "scan_changes_into db c last_txn gens = Val so" and "0 < tc_pk_byte_len c"
  shows "\<exists>gone. so_delete_buf so = pgcopy_header @ delete_rows c (table_stubs db c last_txn @ gone) @ pgcopy_trailer \<and>
    (if \<not> is_first_cycle c \<and> so_new_pks so \<noteq> []
     then express_deletes (tc_pk_byte_len c) (tc_prev_pks c) (so_new_pks so) = Val gone else gone = [])"
  using assms(1)
proof (cases rule: scan_changes_cases)
  case (1 ps gone)
  then show ?thesis using pass_seen [OF 1(1) assms(2)] assms(2)
    by (intro exI [of _ gone]) (auto simp: seen_def table_stubs_def delete_rows_def split: if_splits)
qed

lemma scan_snapshot_valid:
  assumes "good_cache c" and "scan_changes_into db c last_txn gens = Val so"
  shows "valid_snapshot c (so_new_pks so)"
  using assms(2)
proof (cases rule: scan_changes_cases)
  case (1 ps gone)
  have "page_inv c (scan_init last_txn)" by (simp add: page_inv_def scan_init_def copy_rows_header)
  then have "page_inv c ps"
    by (rule rfold_invariant [where P = "page_inv c", OF 1(1)]) (rule scan_cdc_page_inv [OF assms(1)])
  then show ?thesis using 1(3) by (simp add: page_inv_def)
qed

section \<open>The snapshot and the table\<close>

text \<open>
  The snapshot before a pass fits the file: it has no page that has left the table, and what
  it says of the pages that the pass does not read again is still so.
\<close>

definition snapshot_fits :: "ods \<Rightarrow> table_cache \<Rightarrow> (nat \<Rightarrow> nat option) \<Rightarrow> bool" where
  "snapshot_fits db c gens \<longleftrightarrow>
     (\<forall>(n, f) \<in> set (tc_prev_pks c). n \<in> set (tc_data_pages c) \<and> is_data_page db n) \<and>
     (\<forall>n \<in> set (tc_data_pages c). is_data_page db n \<and> \<not> rebuilt db c gens n \<longrightarrow>
        (\<exists>f. (n, f) \<in> set (tc_prev_pks c) \<and> set (chunks (tc_pk_byte_len c) f) = set (page_keys db c n)))"

lemma set_page_keys: "set (page_keys db c n) = (\<lambda>(txn, k, r). k) ` set (page_live db c n)"
  by (force simp: page_keys_def page_live_def live_keys_def)

lemma table_keys: "fst ` set (table_rows db c) = (\<Union>n \<in> set (tc_data_pages c). set (page_keys db c n))"
  by (force simp: table_rows_def set_page_keys)

lemma page_keys_other: "\<not> is_data_page db n \<Longrightarrow> page_keys db c n = []"
  by (cases "page db n") (simp_all add: page_keys_def page_slots_def is_data_page_def)

lemma snapshot_is_table:
  assumes "good_cache c" and "valid_snapshot c (tc_prev_pks c)" and "0 < tc_pk_byte_len c"
    and "snapshot_fits db c gens" and "scan_changes_into db c last_txn gens = Val so"
  shows "set (keys_of (tc_pk_byte_len c) (advance_snapshot (tc_prev_pks c) (so_new_pks so))) = fst ` set (table_rows db c)"
proof -
  let ?S = "tc_pk_byte_len c" and ?new = "so_new_pks so" and ?prev = "tc_prev_pks c"
  note dom = scan_new_pks(1) [OF assms(5,3)] and new = scan_new_pks(2) [OF assms(5,3)]
  have d: "distinct (map fst ?new)" "distinct (map fst ?prev)"
    using scan_snapshot_valid [OF assms(1,5)] assms(2) by (simp_all add: valid_snapshot_def)
  have old: "set (chunks ?S f) = set (page_keys db c n) \<and> n \<in> set (tc_data_pages c)"
    if "(n, f) \<in> set ?prev" "n \<notin> fst ` set ?new" for n f
  proof -
    have n: "n \<in> set (tc_data_pages c)" "is_data_page db n" using assms(4) that(1) by (auto simp: snapshot_fits_def)
    then have "\<not> rebuilt db c gens n" using that(2) dom by blast
    then obtain f' where "(n, f') \<in> set ?prev" "set (chunks ?S f') = set (page_keys db c n)"
      using assms(4) n by (auto simp: snapshot_fits_def)
    then show ?thesis using n that(1) d(2) by (metis eq_key_imp_eq_value)
  qed
  show ?thesis
  proof (intro equalityI subsetI)
    fix k assume "k \<in> set (keys_of ?S (advance_snapshot ?prev ?new))"
    then obtain p where p: "k \<in> set (chunks ?S (snd p))" "p \<in> set ?new \<or> p \<in> set ?prev \<and> fst p \<notin> fst ` set ?new"
      unfolding set_keys_of set_advance [OF d(1)] by blast
    obtain n f where nf: "p = (n, f)" by (cases p)
    have "k \<in> set (page_keys db c n) \<and> n \<in> set (tc_data_pages c)"
    proof (cases "p \<in> set ?new")
      case True
      then have "n \<in> fst ` set ?new" using nf by force
      then show ?thesis using True p(1) nf new dom by auto
    next
      case False
      then show ?thesis using p nf old [of n f] by auto
    qed
    then show "k \<in> fst ` set (table_rows db c)" unfolding table_keys by blast
  next
    fix k assume "k \<in> fst ` set (table_rows db c)"
    then obtain n where n: "n \<in> set (tc_data_pages c)" "k \<in> set (page_keys db c n)" unfolding table_keys by blast
    then have dp: "is_data_page db n" using page_keys_other by fastforce
    have "\<exists>f. (n, f) \<in> set (advance_snapshot ?prev ?new) \<and> set (chunks ?S f) = set (page_keys db c n)"
    proof (cases "rebuilt db c gens n")
      case True
      then have "n \<in> fst ` set ?new" using n dom by blast
      then obtain f where "(n, f) \<in> set ?new" by auto
      then show ?thesis using new unfolding set_advance [OF d(1)] by blast
    next
      case False
      then obtain f where f: "(n, f) \<in> set ?prev" "set (chunks ?S f) = set (page_keys db c n)"
        using assms(4) n(1) dp by (auto simp: snapshot_fits_def)
      moreover have "n \<notin> fst ` set ?new" using dom False by blast
      ultimately show ?thesis unfolding set_advance [OF d(1)] by auto
    qed
    then show "k \<in> set (keys_of ?S (advance_snapshot ?prev ?new))" using n(2) unfolding set_keys_of by force
  qed
qed

section \<open>The replica after a delta\<close>

text \<open>What the replica has to know before: every row that is not above the watermark on a changed page.\<close>

definition knows_old_rows :: "ods \<Rightarrow> table_cache \<Rightarrow> nat \<Rightarrow> (nat \<Rightarrow> nat option) \<Rightarrow> (bytes \<Rightarrow> bytes option) \<Rightarrow> bool" where
  "knows_old_rows db c last_txn gens M \<longleftrightarrow>
     (\<forall>n \<in> set (tc_data_pages c). \<forall>(txn, k, r) \<in> set (page_live db c n).
        txn \<le> last_txn \<or> gens n = page_gen db n \<longrightarrow> map_option Val (M k) = Some r)"

text \<open>No back version, and no row without a complete key, is among the rows that are sent.\<close>

definition sends_live_rows :: "ods \<Rightarrow> table_cache \<Rightarrow> nat \<Rightarrow> (nat \<Rightarrow> nat option) \<Rightarrow> bool" where
  "sends_live_rows db c last_txn gens \<longleftrightarrow>
     (\<forall>n \<in> set (tc_data_pages c). gens n \<noteq> page_gen db n \<longrightarrow>
        (\<forall>raw \<in> set (page_slots db n). row_of last_txn raw \<noteq> [] \<longrightarrow> live_row c raw \<noteq> []))"

text \<open>A key that a stub deletes lives on only in rows that are sent.\<close>

definition stubs_superseded :: "ods \<Rightarrow> table_cache \<Rightarrow> nat \<Rightarrow> (nat \<Rightarrow> nat option) \<Rightarrow> bool" where
  "stubs_superseded db c last_txn gens \<longleftrightarrow>
     (\<forall>n \<in> set (tc_data_pages c). \<forall>(txn, k, r) \<in> set (page_live db c n).
        k \<in> set (table_stubs db c last_txn) \<longrightarrow> last_txn < txn \<and> gens n \<noteq> page_gen db n)"

lemma page_rows_slots: "page_rows db last_txn n = concat (map (row_of last_txn) (page_slots db n))"
proof -
  have "concat (map (\<lambda>s. case slot_raw db dp s of Val (Some raw) \<Rightarrow> row_of last_txn raw | _ \<Rightarrow> []) ss) =
      concat (map (row_of last_txn) (concat (map (\<lambda>s. case slot_raw db dp s of Val (Some raw) \<Rightarrow> [raw] | _ \<Rightarrow> []) ss)))" for dp ss
    by (induction ss) (auto split: run.splits option.splits)
  then show ?thesis by (simp add: page_rows_def page_slots_def split: run.splits)
qed

lemma live_row_sent:
  assumes "(txn, k, r) \<in> set (live_row c raw)" and "last_txn < txn"
  obtains rec where "row_of last_txn raw = [(unat (raw ! 12), rec)]" and "encode_pk_pgcopy rec c (unat (raw ! 12)) = Val k"
    and "r = upsert_fields rec (slots_for c (unat (raw ! 12)))"
proof -
  have skip: "13 \<le> length raw" "\<not> has_flag (flags_of raw) pk_skip"
    using assms(1) by (auto simp: live_row_def split: if_splits)
  obtain rec where p: "payload (data_start (flags_of raw)) raw = Some rec"
    using assms(1) skip
    by (cases "payload (data_start (flags_of raw)) raw") (auto simp: live_row_def split: run.splits option.splits)
  have rec: "record_transaction raw = Val (Some txn)" "payload (data_start (flags_of raw)) raw = Some rec"
    "encode_pk_pgcopy rec c (unat (raw ! 12)) = Val k" "r = upsert_fields rec (slots_for c (unat (raw ! 12)))"
    using assms(1) skip p by (auto simp: live_row_def split: if_splits run.splits option.splits)
  show ?thesis
    by (rule that [OF _ rec(3,4)]) (use skip rec(1,2) assms(2) in \<open>auto simp: row_of_def pk_skip_flags\<close>)
qed

lemma row_of_cases:
  obtains (none) "row_of last_txn raw = []"
  | (row) txn rec where "record_transaction raw = Val (Some txn)" and "payload (data_start (flags_of raw)) raw = Some rec"
    and "row_of last_txn raw = [(unat (raw ! 12), rec)]"
proof -
  obtain t where t: "record_transaction raw = Val t" using record_transaction_val by blast
  show ?thesis
  proof (cases "row_of last_txn raw = []")
    case False
    then obtain txn where txn: "t = Some txn" using t by (cases t) (simp_all add: row_of_def split: if_splits)
    then obtain rec where rec: "payload (data_start (flags_of raw)) raw = Some rec"
      using False t by (cases "payload (data_start (flags_of raw)) raw") (simp_all add: row_of_def split: if_splits)
    then have "row_of last_txn raw = [(unat (raw ! 12), rec)]"
      using False t txn by (simp add: row_of_def split: if_splits)
    then show ?thesis using row t txn rec by blast
  qed (rule none)
qed

lemma sent_row_live:
  assumes "(fmt, rec) \<in> set (row_of last_txn raw)" and "live_row c raw \<noteq> []"
  obtains txn k where "live_row c raw = [(txn, k, upsert_fields rec (slots_for c fmt))]" and "encode_pk_pgcopy rec c fmt = Val k"
proof -
  obtain txn where rec: "fmt = unat (raw ! 12)" "payload (data_start (flags_of raw)) raw = Some rec"
    and txn: "record_transaction raw = Val (Some txn)"
    using assms(1) by (cases rule: row_of_cases [of last_txn raw]) auto
  obtain k where k: "encode_pk_pgcopy rec c fmt = Val k"
    using assms(2) rec txn by (cases "encode_pk_pgcopy rec c fmt") (auto simp: live_row_def split: if_splits)
  have "\<not> length raw < 13" "\<not> has_flag (flags_of raw) pk_skip" "length k = tc_pk_byte_len c"
    using assms(2) rec txn k by (auto simp: live_row_def split: if_splits)
  then have "live_row c raw = [(txn, k, upsert_fields rec (slots_for c fmt))]"
    using rec txn k by (simp add: live_row_def)
  then show ?thesis using that k by blast
qed

lemma put_rows_simps [simp]:
  "put_rows c [] M = M" "put_rows c (r # rows) M = put_rows c rows (M(row_key c r \<mapsto> row_bytes r))"
  by (simp_all add: put_rows_def)

lemma put_rows_other: "k \<notin> row_key c ` set rows \<Longrightarrow> put_rows c rows M k = M k"
  by (induction rows arbitrary: M) auto

lemma put_rows_some:
  "k \<in> row_key c ` set rows \<Longrightarrow> \<exists>r \<in> set rows. row_key c r = k \<and> put_rows c rows M k = Some (row_bytes r)"
proof (induction rows arbitrary: M)
  case (Cons r rows)
  show ?case
  proof (cases "k \<in> row_key c ` set rows")
    case True
    then obtain r' where "r' \<in> set rows" "row_key c r' = k"
      "put_rows c rows (M(row_key c r \<mapsto> row_bytes r)) k = Some (row_bytes r')"
      using Cons.IH [of "M(row_key c r \<mapsto> row_bytes r)"] by blast
    then show ?thesis by (intro bexI [of _ r']) simp_all
  next
    case False
    then have "k = row_key c r" using Cons.prems by auto
    then show ?thesis using put_rows_other [OF False] by (intro bexI [of _ r]) simp_all
  qed
qed simp

lemma list_all2_right_member: "list_all2 P xs ys \<Longrightarrow> x \<in> set xs \<Longrightarrow> \<exists>y \<in> set ys. P x y"
  by (induction rule: list_all2_induct) auto

lemma list_all2_left_member: "list_all2 P xs ys \<Longrightarrow> y \<in> set ys \<Longrightarrow> \<exists>x \<in> set xs. P x y"
  by (induction rule: list_all2_induct) auto

lemma stub_is_key:
  assumes "good_cache c" and "k \<in> set (table_stubs db c last_txn)"
  shows "is_key (tc_n_pk c) k"
proof -
  obtain raw where "k \<in> set (stub_key db c last_txn raw)" using assms(2) by (auto simp: table_stubs_def)
  then obtain rec fmt where "delete_key rec (slots_for c fmt) (tc_pk_indices c) = Val k"
    by (auto simp: stub_key_def split: if_splits run.splits option.splits)
  then show ?thesis using assms(1) by (auto simp: good_cache_def dest!: delete_key_key)
qed

lemma delete_rows_encoded:
  assumes "\<forall>k \<in> set ks. is_key (tc_n_pk c) k" and "tc_n_pk c < 2 ^ 15"
  shows "\<exists>ds. delete_rows c ks = concat (map encode_row ds) \<and> list_all row_ok ds \<and> row_bytes ` set ds = set ks"
  using assms(1)
proof (induction ks)
  case (Cons k ks)
  then obtain ds where ds: "delete_rows c ks = concat (map encode_row ds)" "list_all row_ok ds" "row_bytes ` set ds = set ks"
    by auto
  obtain r where r: "list_all field_ok r" "length r = tc_n_pk c" "k = row_bytes r"
    using Cons.prems by (auto simp: is_key_def row_bytes_def)
  have "row_ok r" "encode_row r = be_bytes 2 (tc_n_pk c) @ k"
    using r assms(2) by (simp_all add: row_ok_def encode_row_def row_bytes_def)
  then show ?case using ds r(3) by (intro exI [of _ "r # ds"]) simp
qed simp

lemma vanished_keys:
  assumes "valid_snapshot c (tc_prev_pks c)" and "valid_snapshot c new" and "0 < tc_pk_byte_len c" and "tc_pk_byte_len c \<le> 64"
    and "if \<not> is_first_cycle c \<and> new \<noteq> [] then express_deletes (tc_pk_byte_len c) (tc_prev_pks c) new = Val gone
         else gone = []"
  shows "distinct gone \<and> set gone = set (keys_of (tc_pk_byte_len c) (tc_prev_pks c)) -
    set (keys_of (tc_pk_byte_len c) (advance_snapshot (tc_prev_pks c) new))"
proof (cases "\<not> is_first_cycle c \<and> new \<noteq> []")
  case True
  then show ?thesis
    using assms express_deletes_keys [of "tc_pk_byte_len c" "tc_prev_pks c" new] by (auto simp: valid_snapshot_def)
next
  case False
  then consider "is_first_cycle c" | "new = []" by blast
  then show ?thesis using assms(5) by cases (auto simp: is_first_cycle_def)
qed

lemma sent_in_table:
  assumes "sends_live_rows db c last_txn gens" and "p \<in> set (new_rows db last_txn gens (tc_data_pages c))" and "row_for c p r"
  shows "(row_key c r, Val (row_bytes r)) \<in> set (table_rows db c)"
proof -
  obtain fmt rec where p: "p = (fmt, rec)" by (cases p)
  obtain n raw where n: "n \<in> set (tc_data_pages c)" "gens n \<noteq> page_gen db n" "raw \<in> set (page_slots db n)"
    and row: "(fmt, rec) \<in> set (row_of last_txn raw)"
    using assms(2) p by (auto simp: new_rows_def page_rows_slots split: if_splits)
  then have "live_row c raw \<noteq> []" using assms(1) by (fastforce simp: sends_live_rows_def)
  from sent_row_live [OF row this] obtain txn k where live: "live_row c raw = [(txn, k, upsert_fields rec (slots_for c fmt))]"
    "encode_pk_pgcopy rec c fmt = Val k" by blast
  then have "live_row c raw = [(txn, row_key c r, Val (row_bytes r))]"
    using assms(3) p by (simp add: row_for_def)
  then have "(txn, row_key c r, Val (row_bytes r)) \<in> set (page_live db c n)"
    using n(3) unfolding page_live_def by force
  then show ?thesis using n(1) unfolding table_rows_def by force
qed

lemma live_row_key:
  assumes "n \<in> set (tc_data_pages c)" and "gens n \<noteq> page_gen db n" and "(txn, k, r) \<in> set (page_live db c n)"
    and "last_txn < txn" and "list_all2 (row_for c) (new_rows db last_txn gens (tc_data_pages c)) rs"
  shows "k \<in> row_key c ` set rs"
proof -
  obtain raw where raw: "raw \<in> set (page_slots db n)" "(txn, k, r) \<in> set (live_row c raw)"
    using assms(3) by (auto simp: page_live_def)
  from live_row_sent [OF raw(2) assms(4)] obtain rec where rec: "row_of last_txn raw = [(unat (raw ! 12), rec)]"
    "encode_pk_pgcopy rec c (unat (raw ! 12)) = Val k" by blast
  then have "(unat (raw ! 12), rec) \<in> set (page_rows db last_txn n)"
    using raw(1) unfolding page_rows_slots by force
  then have "(unat (raw ! 12), rec) \<in> set (new_rows db last_txn gens (tc_data_pages c))"
    using assms(1,2) unfolding new_rows_def by force
  then obtain r0 where "r0 \<in> set rs" "row_for c (unat (raw ! 12), rec) r0"
    using list_all2_right_member [OF assms(5)] by blast
  then show ?thesis using rec(2) by (auto simp: row_for_def)
qed

lemma replica_follows:
  assumes "good_cache c" and "valid_snapshot c (tc_prev_pks c)" and "0 < tc_pk_byte_len c" and "tc_pk_byte_len c \<le> 64"
    and "scan_changes_into db c last_txn gens = Val so" and "snapshot_fits db c gens"
    and "distinct (map fst (table_rows db c))" and "dom M = set (keys_of (tc_pk_byte_len c) (tc_prev_pks c))"
    and "knows_old_rows db c last_txn gens M" and "sends_live_rows db c last_txn gens"
    and "stubs_superseded db c last_txn gens"
  shows "\<exists>M'. replay c (so_upsert_out so) (so_delete_buf so) M = Some M' \<and> mirrors db c M' \<and>
    dom M' = set (keys_of (tc_pk_byte_len c) (advance_snapshot (tc_prev_pks c) (so_new_pks so)))"
proof -
  let ?T = "table_rows db c" and ?rows = "new_rows db last_txn gens (tc_data_pages c)"
  let ?K = "set (keys_of (tc_pk_byte_len c) (tc_prev_pks c))" and ?stubs = "set (table_stubs db c last_txn)"
  have snap: "set (keys_of (tc_pk_byte_len c) (advance_snapshot (tc_prev_pks c) (so_new_pks so))) = fst ` set ?T"
    by (rule snapshot_is_table [OF assms(1,2,3,6,5)])
  obtain gone where del: "so_delete_buf so = pgcopy_header @ delete_rows c (table_stubs db c last_txn @ gone) @ pgcopy_trailer"
    and g: "if \<not> is_first_cycle c \<and> so_new_pks so \<noteq> []
         then express_deletes (tc_pk_byte_len c) (tc_prev_pks c) (so_new_pks so) = Val gone else gone = []"
    using scan_deletes [OF assms(5,3)] by blast
  have gone: "set gone = ?K - fst ` set ?T"
    using vanished_keys [OF assms(2) scan_snapshot_valid [OF assms(1,5)] assms(3,4) g] snap by simp
  have "\<forall>k \<in> set (table_stubs db c last_txn @ gone). is_key (tc_n_pk c) k"
    using gone assms(2) stub_is_key [OF assms(1)] by (auto simp: valid_snapshot_def)
  moreover have "tc_n_pk c < 2 ^ 15" using assms(1) by (simp add: good_cache_def)
  ultimately obtain ds where ds: "delete_rows c (table_stubs db c last_txn @ gone) = concat (map encode_row ds)"
    "list_all row_ok ds" "row_bytes ` set ds = set (table_stubs db c last_txn @ gone)"
    using delete_rows_encoded by blast
  obtain bs where bs: "list_all2 (\<lambda>(fmt, rec) b. upsert_fields rec (slots_for c fmt) = Val b) ?rows bs"
    "so_upsert_out so = pgcopy_header @ concat (map (\<lambda>b. be_bytes 2 (tc_n_fields c) @ b) bs) @ pgcopy_trailer"
    using scan_sends [OF assms(5)] by blast
  obtain rs where rs: "list_all2 (row_for c) ?rows rs" "bs = map row_bytes rs"
    using rows_for_exist [OF assms(1) bs(1)] by blast
  have ok: "\<forall>r \<in> set rs. \<exists>p \<in> set ?rows. row_for c p r"
    using list_all2_left_member [OF rs(1)] by blast
  then have "\<forall>r \<in> set rs. row_ok r \<and> length r = tc_n_fields c" by (auto simp: row_for_def)
  then have "parse_pgcopy (so_upsert_out so) = Some rs"
    using parse_pgcopy_encode [of rs] encode_rows_bytes [of rs "tc_n_fields c"] bs(2) rs(2) by (simp add: list_all_iff)
  then have run: "replay c (so_upsert_out so) (so_delete_buf so) M = Some (put_rows c rs (cut_rows ds M))"
    using parse_pgcopy_encode [OF ds(2)] unfolding del ds(1) by (simp add: replay_def)
  let ?M' = "put_rows c rs (cut_rows ds M)"
  have sent: "\<exists>b. (k, Val b) \<in> set ?T \<and> ?M' k = Some b" if k: "k \<in> row_key c ` set rs" for k
  proof -
    obtain r where r: "r \<in> set rs" "row_key c r = k" "?M' k = Some (row_bytes r)" using put_rows_some [OF k] by blast
    then show ?thesis using ok sent_in_table [OF assms(10)] by blast
  qed
  have kept: "?M' k = (if k \<in> ?stubs \<union> set gone then None else M k)" if "k \<notin> row_key c ` set rs" for k
    using put_rows_other [OF that, of "cut_rows ds M"] ds(3) by (simp add: cut_rows_def)
  have held: "map_option Val (?M' k) = Some r" if kr: "(k, r) \<in> set ?T" for k r
  proof (cases "k \<in> row_key c ` set rs")
    case True
    then show ?thesis using sent [OF True] kr eq_key_imp_eq_value [OF assms(7)] by fastforce
  next
    case False
    obtain n txn where n: "n \<in> set (tc_data_pages c)" "(txn, k, r) \<in> set (page_live db c n)"
      using kr by (auto simp: table_rows_def)
    then have old: "\<not> (last_txn < txn \<and> gens n \<noteq> page_gen db n)"
      using live_row_key [OF n(1) _ n(2) _ rs(1)] False by blast
    then have "k \<notin> ?stubs" using assms(11) n by (fastforce simp: stubs_superseded_def)
    moreover have "k \<notin> set gone" using gone kr by force
    moreover have "map_option Val (M k) = Some r" using assms(9) n old by (fastforce simp: knows_old_rows_def)
    ultimately show ?thesis using kept [OF False] by simp
  qed
  have "dom ?M' = fst ` set ?T"
  proof (intro equalityI subsetI)
    fix k assume "k \<in> fst ` set ?T"
    then show "k \<in> dom ?M'" using held by fastforce
  next
    fix k assume k: "k \<in> dom ?M'"
    show "k \<in> fst ` set ?T"
    proof (cases "k \<in> row_key c ` set rs")
      case False
      then have "k \<notin> set gone" "k \<in> dom M" using k kept [OF False] by (auto split: if_splits)
      then show ?thesis using gone assms(8) by blast
    qed (use sent in force)
  qed
  then show ?thesis using run held snap by (auto simp: mirrors_def)
qed

section \<open>What the deletion stubs delete\<close>

text \<open>
  The versions of a record, stated by the layout of the file and independently of the functions
  that follow a chain: \<open>slot_record\<close> says which bytes a slot of a data page holds,
  \<open>version_image\<close> that a stored version can be read on its own, with its format and its
  payload, and \<open>older_version\<close> that at most \<open>n\<close> steps along the back pointers, over
  versions that cannot be read, lead to such a version.
\<close>

definition slot_record :: "ods \<Rightarrow> nat \<Rightarrow> nat \<Rightarrow> bytes \<Rightarrow> bool" where
  "slot_record db pg line raw \<longleftrightarrow> (\<exists>dp off. file_page db pg dp \<and> 0 < length dp \<and> dp ! 0 = 5 \<and>
     line < le_at 2 dp 22 \<and> 28 + 4 * line \<le> length dp \<and>
     off = le_at 2 dp (24 + 4 * line) \<and> length raw = le_at 2 dp (26 + 4 * line) \<and> off \<noteq> 0 \<and> raw \<noteq> [] \<and>
     (\<exists>pre post. dp = pre @ raw @ post \<and> length pre = off))"

definition version_image :: "bytes \<Rightarrow> nat \<Rightarrow> bytes \<Rightarrow> bool" where
  "version_image raw fmt rec \<longleftrightarrow> 13 \<le> length raw \<and> \<not> has_flag (flags_of raw) RHD_FRAGMENT \<and>
     \<not> has_flag (flags_of raw) RHD_INCOMPLETE \<and> \<not> has_flag (flags_of raw) RHD_BLOB \<and>
     payload (data_start (flags_of raw)) raw = Some rec \<and> fmt = unat (raw ! 12)"

inductive older_version :: "ods \<Rightarrow> nat \<Rightarrow> nat \<Rightarrow> nat \<Rightarrow> nat \<Rightarrow> bytes \<Rightarrow> bool" for db where
  older_here: "slot_record db pg line raw \<Longrightarrow> version_image raw fmt rec \<Longrightarrow>
    older_version db (Suc n) pg line fmt rec"
| older_further: "slot_record db pg line raw \<Longrightarrow> \<forall>fmt rec. \<not> version_image raw fmt rec \<Longrightarrow> 13 \<le> length raw \<Longrightarrow>
    has_flag (flags_of raw) RHD_CHAIN \<or> has_flag (flags_of raw) RHD_DELETED \<Longrightarrow>
    older_version db n (le_at 4 raw 4) (le_at 2 raw 8) fmt rec \<Longrightarrow> older_version db (Suc n) pg line fmt rec"

text \<open>
  A deletion stub above the watermark, and the key it deletes: the encoded key fields, in the order
  of the key, of the first version its back pointer leads to.
\<close>

definition stub_deletes :: "ods \<Rightarrow> table_cache \<Rightarrow> nat \<Rightarrow> bytes \<Rightarrow> bytes \<Rightarrow> bool" where
  "stub_deletes db c last_txn raw k \<longleftrightarrow> tc_pk_tracked c \<and> (\<exists>fmt rec. version_image raw fmt rec) \<and>
     has_flag (flags_of raw) RHD_DELETED \<and> (\<exists>txn. record_transaction raw = Val (Some txn) \<and> last_txn < txn) \<and>
     le_at 4 raw 4 \<noteq> 0 \<and>
     (\<exists>fmt rec fields. older_version db 8 (le_at 4 raw 4) (le_at 2 raw 8) fmt rec \<and> k = concat fields \<and>
        list_all2 (\<lambda>ix b. \<exists>i < length (slots_for c fmt). ix = Some i \<and> slot_field rec (slots_for c fmt ! i) = Val b)
          (tc_pk_indices c) fields)"

text \<open>The slots of the data pages of a table, in the order of the scan.\<close>

definition table_slots :: "ods \<Rightarrow> table_cache \<Rightarrow> bytes list" where
  "table_slots db c = concat (map (page_slots db) (tc_data_pages c))"

lemma read_slot_raw_record: "read_slot_raw db pg line = Val (Some raw) \<longleftrightarrow> slot_record db pg line raw"
proof
  assume "read_slot_raw db pg line = Val (Some raw)"
  then obtain dp where dp: "page db pg = Val dp" "byte_at dp 0 = Val 5"
    and l: "\<exists>cnt. u16_at dp 22 = Val cnt \<and> line < cnt" and s: "slot_raw db dp line = Val (Some raw)"
    by (auto simp: read_slot_raw_def rbind_Val_iff PAG_DATA_def split: if_splits)
  have pl: "length dp = page_size db" using dp(1) by (auto simp: page_file_page file_page_def)
  obtain off len where sl: "slot_bounds dp line = Val (off, len)" "off \<noteq> 0" "len \<noteq> 0" "off + len \<le> length dp"
    "raw = take len (drop off dp)"
    using s by (auto simp: slot_raw_def rbind_Val_iff slice_def pl split: if_splits)
  have b: "28 + 4 * line \<le> length dp" "off = le_at 2 dp (24 + 4 * line)" "len = le_at 2 dp (26 + 4 * line)"
    using sl(1) by (auto simp: slot_bounds_def rbind_Val_iff u16_at_def slice_def mult.commute split: if_splits)
  have fp: "file_page db pg dp" using dp(1) page_file_page by blast
  have ln: "line < le_at 2 dp 22" using l b(1) by auto
  have whole: "dp = take off dp @ raw @ drop (len + off) dp"
    unfolding sl(5) by (metis append_take_drop_id drop_drop)
  have lens: "length (take off dp) = off" "length raw = le_at 2 dp (26 + 4 * line)" "raw \<noteq> []" using sl b(3) by auto
  have ty: "0 < length dp" "dp ! 0 = 5" using dp(2) by (auto simp: byte_at_def split: if_splits)
  show "slot_record db pg line raw"
    unfolding slot_record_def
    by (intro exI [of _ dp] exI [of _ off] conjI exI [of _ "take off dp"] exI [of _ "drop (len + off) dp"])
      (fact fp ty ln b sl lens whole)+
next
  assume "slot_record db pg line raw"
  then obtain dp pre post where dp: "file_page db pg dp" "0 < length dp" "dp ! 0 = 5" "line < le_at 2 dp 22"
    "28 + 4 * line \<le> length dp" "length pre = le_at 2 dp (24 + 4 * line)" "length raw = le_at 2 dp (26 + 4 * line)"
    "length pre \<noteq> 0" "raw \<noteq> []" and split: "dp = pre @ raw @ post"
    unfolding slot_record_def by metis
  have pl: "length dp = page_size db" using dp(1) by (auto simp: file_page_def)
  have "slot_bounds dp line = Val (length pre, length raw)"
    using dp(5) by (simp add: slot_bounds_def dp(6,7) mult.commute)
  moreover have "slice dp (length pre) (length pre + length raw) = Val raw"
    by (simp add: split slice_Val)
  moreover have "length pre + length raw \<le> page_size db" using split pl by (metis add_le_cancel_left le_add1 length_append)
  ultimately have "slot_raw db dp line = Val (Some raw)" using dp(8,9) by (simp add: slot_raw_def)
  moreover have "u16_at dp 22 = Val (le_at 2 dp 22)" using dp(5) by simp
  moreover have "page db pg = Val dp" using dp(1) page_file_page by blast
  moreover have "byte_at dp 0 = Val 5" using dp(2,3) by (simp add: byte_at_def)
  ultimately show "read_slot_raw db pg line = Val (Some raw)"
    using dp(4) by (simp add: read_slot_raw_def PAG_DATA_def del: u16_at_Val)
qed

lemma version_image_unpack:
  "version_image raw fmt rec \<longleftrightarrow> fmt = unat (raw ! 12) \<and> (\<exists>d. unpack_record_cdc raw buf = Val (Some d, rec))"
  unfolding unpack_record_cdc_Some version_image_def by blast

lemma chain_follow_sound:
  "chain_follow n db pg line buf = Val (Some fmt, rec) \<Longrightarrow> older_version db n pg line fmt rec"
proof (induction n db pg line buf rule: chain_follow.induct)
  case (2 n db pg line buf)
  from "2.prems" obtain raw where raw: "read_slot_raw db pg line = Val (Some raw)"
    by (auto simp: rbind_Val_iff split: option.splits)
  then have slot: "slot_record db pg line raw" by (simp add: read_slot_raw_record)
  obtain u b where u: "unpack_record_cdc raw buf = Val (u, b)"
    using unpack_record_cdc_returns [of raw buf] by (auto simp: returns_iff)
  show ?case
  proof (cases u)
    case (Some d)
    with "2.prems" raw u have "fmt = unat (raw ! 12)" "rec = b" by (auto simp: rbind_Val_iff byte_at_def split: if_splits)
    with u Some have "version_image raw fmt rec" by (simp add: version_image_unpack [of _ _ _ buf])
    with slot show ?thesis by (rule older_here)
  next
    case None
    have none: "\<forall>fmt rec. \<not> version_image raw fmt rec" using u None by (simp add: version_image_unpack [of _ _ _ buf])
    from "2.prems" raw u None have step: "\<not> length raw < 13" "has_flag (flags_of raw) (or RHD_CHAIN RHD_DELETED)"
      "chain_follow n db (le_at 4 raw 4) (le_at 2 raw 8) b = Val (Some fmt, rec)"
      by (auto simp: rbind_Val_iff split: if_splits)
    have "older_version db n (le_at 4 raw 4) (le_at 2 raw 8) fmt rec"
      using step by (intro "2.IH" [OF raw refl u refl None step(1)]) (auto simp: )
    with slot none step show ?thesis by (intro older_further) (auto simp: has_flag_or)
  qed
qed simp

lemma chain_follow_complete:
  "older_version db n pg line fmt rec \<Longrightarrow> chain_follow n db pg line buf = Val (Some fmt, rec)"
proof (induction arbitrary: buf rule: older_version.induct)
  case (older_here pg line raw fmt rec n)
  then have raw: "read_slot_raw db pg line = Val (Some raw)" by (simp add: read_slot_raw_record)
  obtain d where u: "unpack_record_cdc raw buf = Val (Some d, rec)" and f: "fmt = unat (raw ! 12)"
    using older_here(2) version_image_unpack [of raw fmt rec buf] by blast
  have "byte_at raw 12 = Val (raw ! 12)" using older_here(2) by (simp add: version_image_def byte_at_def)
  with raw u f show ?case by simp
next
  case (older_further pg line raw n fmt rec)
  then have raw: "read_slot_raw db pg line = Val (Some raw)" by (simp add: read_slot_raw_record)
  obtain u b where u: "unpack_record_cdc raw buf = Val (u, b)"
    using unpack_record_cdc_returns [of raw buf] by (auto simp: returns_iff)
  have "u = None"
    using older_further(2) u version_image_unpack [of raw "unat (raw ! 12)" b buf] by (cases u) auto
  then show ?case using raw u older_further(3,4,6) by (simp add: has_flag_or)
qed

lemma delete_key_fields:
  "delete_key rec slots ixs = Val k \<longleftrightarrow> (\<exists>fields. k = concat fields \<and>
     list_all2 (\<lambda>ix b. \<exists>i < length slots. ix = Some i \<and> slot_field rec (slots ! i) = Val b) ixs fields)"
proof (induction ixs arbitrary: k)
  case Nil
  then show ?case by auto
next
  case (Cons ix ixs)
  show ?case
  proof (cases ix)
    case None
    then show ?thesis by (auto simp: list_all2_Cons1)
  next
    case (Some i)
    have "delete_key rec slots (Some i # ixs) = Val k \<longleftrightarrow>
        (\<exists>b bs. i < length slots \<and> slot_field rec (slots ! i) = Val b \<and> delete_key rec slots ixs = Val bs \<and> k = b @ bs)"
      by (auto simp: rbind_Val_iff byte_at_def)
    also have "\<dots> \<longleftrightarrow> (\<exists>fields. k = concat fields \<and>
       list_all2 (\<lambda>ix b. \<exists>i < length slots. ix = Some i \<and> slot_field rec (slots ! i) = Val b) (Some i # ixs) fields)"
      (is "?l \<longleftrightarrow> ?r")
    proof
      assume ?l
      then obtain b fs where "i < length slots" "slot_field rec (slots ! i) = Val b" "k = b @ concat fs"
        "list_all2 (\<lambda>ix b. \<exists>i < length slots. ix = Some i \<and> slot_field rec (slots ! i) = Val b) ixs fs"
        unfolding Cons.IH by blast
      then show ?r by (intro exI [of _ "b # fs"]) simp
    next
      assume ?r
      then show ?l unfolding Cons.IH list_all2_Cons1 by fastforce
    qed
    finally show ?thesis unfolding Some .
  qed
qed

lemma stub_key_deletes:
  "case stub_key db c last_txn raw of
     [] \<Rightarrow> \<not> (\<exists>k. stub_deletes db c last_txn raw k)
   | ks \<Rightarrow> \<exists>k. ks = [k] \<and> stub_deletes db c last_txn raw k"
proof (cases "tc_pk_tracked c \<and> (\<exists>fmt rec. version_image raw fmt rec) \<and>
     has_flag (flags_of raw) RHD_DELETED \<and> (\<exists>txn. record_transaction raw = Val (Some txn) \<and> last_txn < txn) \<and>
     le_at 4 raw 4 \<noteq> 0")
  case False
  then have "\<not> (\<exists>k. stub_deletes db c last_txn raw k)" unfolding stub_deletes_def by blast
  moreover have "stub_key db c last_txn raw = []"
  proof (rule ccontr)
    assume "stub_key db c last_txn raw \<noteq> []"
    then have "13 \<le> length raw" "has_flag (flags_of raw) RHD_DELETED" "tc_pk_tracked c"
      "payload (data_start (flags_of raw)) raw \<noteq> None" "le_at 4 raw 4 \<noteq> 0"
      and t: "\<exists>txn. record_transaction raw = Val (Some txn) \<and> last_txn < txn"
      by (auto simp: stub_key_def split: if_splits run.splits option.splits)
    moreover have "\<not> has_flag (flags_of raw) RHD_FRAGMENT" "\<not> has_flag (flags_of raw) RHD_INCOMPLETE"
      "\<not> has_flag (flags_of raw) RHD_BLOB"
      using t record_transaction_val [of raw] by (auto split: if_splits)
    ultimately show False using False by (auto simp: version_image_def)
  qed
  ultimately show ?thesis by simp
next
  case True
  then obtain txn where t: "record_transaction raw = Val (Some txn)" "last_txn < txn" by blast
  have len: "13 \<le> length raw" and p: "payload (data_start (flags_of raw)) raw \<noteq> None"
    using True by (auto simp: version_image_def)
  have head: "stub_key db c last_txn raw = (case chain_follow 8 db (le_at 4 raw 4) (le_at 2 raw 8) [] of
      Val (Some fmt, rec) \<Rightarrow>
        (case delete_key rec (slots_for c fmt) (tc_pk_indices c) of Val k \<Rightarrow> [k] | _ \<Rightarrow> [])
    | _ \<Rightarrow> [])"
    using True t len p by (auto simp: stub_key_def MAX_CHAIN_DEPTH_def)
  have del: "stub_deletes db c last_txn raw k \<longleftrightarrow> (\<exists>fmt rec.
      chain_follow 8 db (le_at 4 raw 4) (le_at 2 raw 8) [] = Val (Some fmt, rec) \<and>
      delete_key rec (slots_for c fmt) (tc_pk_indices c) = Val k)" for k
    unfolding stub_deletes_def delete_key_fields using True chain_follow_sound chain_follow_complete by blast
  show ?thesis
  proof (cases "\<exists>k. stub_deletes db c last_txn raw k")
    case True
    then obtain k where k: "stub_deletes db c last_txn raw k" by blast
    then have "stub_key db c last_txn raw = [k]" unfolding head del by auto
    with k show ?thesis by simp
  next
    case no: False
    then have "stub_key db c last_txn raw = []"
      unfolding head del by (auto split: run.splits option.splits)
    with no show ?thesis by simp
  qed
qed

lemma table_stubs_slots:
  "table_stubs db c last_txn = concat (map (stub_key db c last_txn) (table_slots db c))"
proof -
  have "concat (map (\<lambda>n. concat (map f (g n))) ns) = concat (map f (concat (map g ns)))"
    for f :: "bytes \<Rightarrow> bytes list" and g :: "nat \<Rightarrow> bytes list" and ns by (induction ns) simp_all
  then show ?thesis unfolding table_stubs_def table_slots_def .
qed

lemma stub_keys_spec:
  "list_all2 (\<lambda>raw ks. if \<exists>k. stub_deletes db c last_txn raw k
      then \<exists>k. ks = [k] \<and> stub_deletes db c last_txn raw k else ks = [])
    (table_slots db c) (map (stub_key db c last_txn) (table_slots db c))"
  unfolding list.rel_map(2)
proof (rule list.rel_refl)
  show "if \<exists>k. stub_deletes db c last_txn raw k
      then \<exists>k. stub_key db c last_txn raw = [k] \<and> stub_deletes db c last_txn raw k
      else stub_key db c last_txn raw = []" for raw
    using stub_key_deletes [of db c last_txn raw] by (auto split: list.splits)
qed

section \<open>The sample table\<close>

lemma cdc_slots_page: "page_slots (cdc_db f) 0 = [cdc_raw f]"
  by (simp add: page_slots_def cdc_db_page)

lemma cdc_rows: "live_row (cdc_cache prev) (cdc_raw 0) = [(7, len_field [1], Val (len_field [1]))]"
proof -
  have "\<not> has_flag (flags_of (cdc_raw 0)) pk_skip"
    by (simp add: cdc_raw_flags pk_skip_def has_flag_def rhd_defs)
  moreover have "encode_pk_pgcopy [0, 1] (cdc_cache prev) fmt = Val (len_field [1])" for fmt
    by (simp add: encode_pk_pgcopy_def cdc_slots cdc_field) (simp add: cdc_cache_def cdc_field)
  moreover have "length (len_field [1]) = tc_pk_byte_len (cdc_cache prev)" by (simp add: len_field_def cdc_cache_def)
  ultimately show ?thesis using cdc_raw_live [of 0] by (simp add: live_row_def cdc_slots cdc_field)
qed

lemma cdc_table: "tc_data_pages (cdc_cache prev) = [0]" "page_live (cdc_db 0) (cdc_cache prev) 0 = [(7, len_field [1], Val (len_field [1]))]"
  "table_rows (cdc_db 0) (cdc_cache prev) = [(len_field [1], Val (len_field [1]))]"
proof -
  show p: "tc_data_pages (cdc_cache prev) = [0]" by (simp add: cdc_cache_def)
  show "page_live (cdc_db 0) (cdc_cache prev) 0 = [(7, len_field [1], Val (len_field [1]))]"
    by (simp add: page_live_def cdc_slots_page cdc_rows)
  then show "table_rows (cdc_db 0) (cdc_cache prev) = [(len_field [1], Val (len_field [1]))]"
    by (simp add: table_rows_def p)
qed

lemma cdc_no_stub: "\<not> has_flag (flags_of (cdc_raw f)) RHD_DELETED \<Longrightarrow> table_stubs (cdc_db f) (cdc_cache prev) m = []"
  by (simp add: table_stubs_def cdc_table(1) cdc_slots_page stub_key_def)

lemma cdc_live_flag: "\<not> has_flag (flags_of (cdc_raw 0)) RHD_DELETED" "\<not> has_flag (flags_of (cdc_raw 8)) RHD_DELETED"
  by (simp_all add: cdc_raw_flags has_flag_def rhd_defs)

lemma cdc_gen: "page_gen (cdc_db f) 0 = Some 3" "is_data_page (cdc_db f) 0"
  by (simp_all add: page_gen_def is_data_page_def cdc_db_page)

lemma cdc_replica:
  "snapshot_fits (cdc_db 0) (cdc_cache []) Map.empty" "distinct (map fst (table_rows (cdc_db 0) (cdc_cache [])))"
  "knows_old_rows (cdc_db 0) (cdc_cache []) 0 Map.empty Map.empty" "sends_live_rows (cdc_db 0) (cdc_cache []) 0 Map.empty"
  "stubs_superseded (cdc_db 0) (cdc_cache []) 0 Map.empty"
proof -
  have p: "tc_prev_pks (cdc_cache []) = []" by (simp add: cdc_cache_def)
  show "snapshot_fits (cdc_db 0) (cdc_cache []) Map.empty"
    by (simp add: snapshot_fits_def p cdc_table(1) rebuilt_def cdc_gen)
  show "distinct (map fst (table_rows (cdc_db 0) (cdc_cache [])))" by (simp add: cdc_table)
  show "knows_old_rows (cdc_db 0) (cdc_cache []) 0 Map.empty Map.empty" by (simp add: knows_old_rows_def cdc_table cdc_gen)
  show "sends_live_rows (cdc_db 0) (cdc_cache []) 0 Map.empty"
    by (simp add: sends_live_rows_def cdc_table cdc_slots_page cdc_rows)
  show "stubs_superseded (cdc_db 0) (cdc_cache []) 0 Map.empty"
    by (simp add: stubs_superseded_def cdc_no_stub cdc_live_flag)
qed

section \<open>Properties\<close>

text \<open>
  C6. Let the columns of the cache be sound, its snapshot valid and its keys of a fixed width between
  1 and 64 bytes. The delete stream of a pass that succeeds then holds exactly, on changed pages or
  not and in the order of the scan, the key of every deletion stub above the watermark from which
  the back pointers lead within eight steps to a readable version, and after them each key of the
  snapshot that the next snapshot lacks, once.
\<close>

theorem scan_deletes_exact:
  assumes "good_cache c" and "valid_snapshot c (tc_prev_pks c)" and "0 < tc_pk_byte_len c" and "tc_pk_byte_len c \<le> 64"
    and "scan_changes_into db c last_txn gens = Val so"
  shows "\<exists>stubs gone. so_delete_buf so = pgcopy_header @
      concat (map (\<lambda>k. be_bytes 2 (tc_n_pk c) @ k) (concat stubs @ gone)) @ pgcopy_trailer \<and>
    list_all2 (\<lambda>raw ks. if \<exists>k. stub_deletes db c last_txn raw k
        then \<exists>k. ks = [k] \<and> stub_deletes db c last_txn raw k else ks = []) (table_slots db c) stubs \<and>
    distinct gone \<and> set gone = set (keys_of (tc_pk_byte_len c) (tc_prev_pks c)) -
      set (keys_of (tc_pk_byte_len c) (advance_snapshot (tc_prev_pks c) (so_new_pks so)))"
proof -
  obtain gone where del: "so_delete_buf so = pgcopy_header @ delete_rows c (table_stubs db c last_txn @ gone) @ pgcopy_trailer"
    and g: "if \<not> is_first_cycle c \<and> so_new_pks so \<noteq> []
         then express_deletes (tc_pk_byte_len c) (tc_prev_pks c) (so_new_pks so) = Val gone else gone = []"
    using scan_deletes [OF assms(5,3)] by blast
  show ?thesis
    using del vanished_keys [OF assms(2) scan_snapshot_valid [OF assms(1,5)] assms(3,4) g] stub_keys_spec [of db c last_txn]
    unfolding delete_rows_def table_stubs_slots by blast
qed

theorem scan_deletes_exact_witness:
  "\<exists>so stubs gone. scan_changes_into (cdc_db 8) (cdc_cache [(0, len_field [1])]) 3 Map.empty = Val so \<and>
    so_delete_buf so = pgcopy_header @
      concat (map (\<lambda>k. be_bytes 2 (tc_n_pk (cdc_cache [(0, len_field [1])])) @ k) (concat stubs @ gone)) @ pgcopy_trailer \<and>
    length stubs = length (table_slots (cdc_db 8) (cdc_cache [(0, len_field [1])])) \<and> distinct gone \<and>
    set gone = set (keys_of 5 [(0, len_field [1])]) - set (keys_of 5 (advance_snapshot [(0, len_field [1])] (so_new_pks so)))"
proof -
  let ?c = "cdc_cache [(0, len_field [1])]"
  obtain so where so: "scan_changes_into (cdc_db 8) ?c 3 Map.empty = Val so" using cdc_split_scan by auto
  have c: "tc_prev_pks ?c = [(0, len_field [1])]" "tc_pk_byte_len ?c = 5" "tc_n_pk ?c = 1" by (simp_all add: cdc_cache_def)
  have u: "uniform 5 [len_field [1]]" by (simp add: len_field_def)
  have "is_key 1 (len_field [1])" using is_key_Cons [of "Some [1]" 0 "[]"] is_key_Nil by (simp add: field_ok_def)
  then have "valid_snapshot ?c (tc_prev_pks ?c)"
    using chunks_concat [OF u] unfolding c valid_snapshot_def by (simp add: c len_field_def)
  from scan_deletes_exact [OF cdc_good this _ _ so] obtain stubs gone where *:
    "so_delete_buf so = pgcopy_header @
      concat (map (\<lambda>k. be_bytes 2 (tc_n_pk ?c) @ k) (concat stubs @ gone)) @ pgcopy_trailer"
    "list_all2 (\<lambda>raw ks. if \<exists>k. stub_deletes (cdc_db 8) ?c 3 raw k
        then \<exists>k. ks = [k] \<and> stub_deletes (cdc_db 8) ?c 3 raw k else ks = []) (table_slots (cdc_db 8) ?c) stubs"
    "distinct gone" "set gone = set (keys_of 5 [(0, len_field [1])]) -
      set (keys_of 5 (advance_snapshot [(0, len_field [1])] (so_new_pks so)))"
    unfolding c by auto
  have "length stubs = length (table_slots (cdc_db 8) ?c)" using list_all2_lengthD [OF *(2)] by simp
  with so *(1,3,4) show ?thesis by blast
qed

text \<open>
  C4. A pass carries a replica to the table. Let the replica hold exactly the keys of the snapshot,
  and let it know every live row at or below the watermark and every live row on an unchanged page;
  let the snapshot fit the file, the keys of the table be unique, no back version or incomplete key be
  among the rows that are sent, and no stub delete a key that lives on in a row that is not sent.
  Then replaying the two streams of the pass, deletions first, gives a replica that holds exactly
  the live rows of the file, and its keys are those of the next snapshot.
\<close>

theorem replica_follows_table:
  assumes "good_cache c" and "valid_snapshot c (tc_prev_pks c)" and "0 < tc_pk_byte_len c" and "tc_pk_byte_len c \<le> 64"
    and "scan_changes_into db c last_txn gens = Val so" and "snapshot_fits db c gens"
    and "distinct (map fst (table_rows db c))" and "dom M = set (keys_of (tc_pk_byte_len c) (tc_prev_pks c))"
    and "knows_old_rows db c last_txn gens M" and "sends_live_rows db c last_txn gens"
    and "stubs_superseded db c last_txn gens"
  shows "\<exists>M'. replay c (so_upsert_out so) (so_delete_buf so) M = Some M' \<and> mirrors db c M' \<and>
    dom M' = set (keys_of (tc_pk_byte_len c) (advance_snapshot (tc_prev_pks c) (so_new_pks so)))"
  by (rule replica_follows [OF assms])

theorem replica_follows_table_witness:
  "\<exists>so M'. scan_changes_into (cdc_db 0) (cdc_cache []) 0 Map.empty = Val so \<and>
    replay (cdc_cache []) (so_upsert_out so) (so_delete_buf so) Map.empty = Some M' \<and>
    M' (len_field [1]) = Some (len_field [1]) \<and> dom M' = {len_field [1]}"
proof -
  obtain so where so: "scan_changes_into (cdc_db 0) (cdc_cache []) 0 Map.empty = Val so" using cdc_scan by blast
  have c: "tc_prev_pks (cdc_cache []) = []" "tc_pk_byte_len (cdc_cache []) = 5" by (simp_all add: cdc_cache_def)
  have "\<exists>M'. replay (cdc_cache []) (so_upsert_out so) (so_delete_buf so) Map.empty = Some M' \<and> mirrors (cdc_db 0) (cdc_cache []) M'"
    using replica_follows_table [OF cdc_good _ _ _ so cdc_replica(1,2) _ cdc_replica(3-5)] by (auto simp: c)
  then show ?thesis using so by (auto simp: mirrors_def cdc_table)
qed

end
