(* ===== verification/Replica_Run.thy ===== *)
theory Replica_Run
  imports Replica Cdc_Sync
begin

text \<open>
  A replica over a whole run of the change capture: a sink whose state is the replica, and the
  successful synchronisations of a table with it, one after the other, while the file evolves.
\<close>

section \<open>The replica as a sink\<close>

definition replica_sink :: "table_cache \<Rightarrow> (bytes \<Rightarrow> bytes option) delta_sink" where
  "replica_sink c =
     \<lparr>ds_apply = (\<lambda>meta upserts deletes n_upserts n_deletes debug M.
        case replay c upserts deletes M of Some M' \<Rightarrow> (Val (), M') | None \<Rightarrow> (Err (SinkError []), M)),
      ds_reconnect = pval ()\<rparr>"

section \<open>What does not depend on the pages\<close>

definition same_rows :: "table_cache \<Rightarrow> table_cache \<Rightarrow> bool" where
  "same_rows c c' \<longleftrightarrow> tc_slots c' = tc_slots c \<and> tc_fmt_slots c' = tc_fmt_slots c \<and> tc_n_fields c' = tc_n_fields c \<and>
     tc_n_pk c' = tc_n_pk c \<and> tc_pk_indices c' = tc_pk_indices c \<and> tc_pk_tracked c' = tc_pk_tracked c \<and>
     tc_pk_byte_len c' = tc_pk_byte_len c"

lemma same_rows_facts:
  assumes "same_rows c c'"
  shows "slots_for c' = slots_for c" "live_row c' = live_row c" "page_live db c' n = page_live db c n"
    "page_keys db c' n = page_keys db c n" "good_cache c' = good_cache c" "valid_snapshot c' = valid_snapshot c"
    "row_key c' = row_key c" "replay c' = replay c"
proof -
  show s: "slots_for c' = slots_for c" using assms by (intro slots_for_cong) (simp_all add: same_rows_def)
  have enc: "encode_pk_pgcopy rec c' fmt = encode_pk_pgcopy rec c fmt" for rec fmt
    using assms s by (simp add: encode_pk_pgcopy_def same_rows_def)
  have len: "tc_pk_byte_len c' = tc_pk_byte_len c" using assms by (simp add: same_rows_def)
  show live: "live_row c' = live_row c" by (rule ext) (simp only: live_row_def enc s len)
  then have keys: "live_keys c' = live_keys c" by (intro ext) (simp add: live_keys_def)
  show "page_live db c' n = page_live db c n" "page_keys db c' n = page_keys db c n"
    by (simp_all add: page_live_def page_keys_def keys live)
  show "good_cache c' = good_cache c" using assms s by (simp add: good_cache_def same_rows_def)
  show "valid_snapshot c' = valid_snapshot c" using assms by (intro ext valid_snapshot_cong) (simp_all add: same_rows_def)
  show key: "row_key c' = row_key c" using assms by (intro ext) (simp add: row_key_def same_rows_def)
  then have "put_rows c' rows M = put_rows c rows M" for rows M by (simp add: put_rows_def)
  then show "replay c' = replay c" by (intro ext) (simp add: replay_def split: option.splits)
qed

lemma same_rows_table: "same_rows c c' \<Longrightarrow> tc_data_pages c' = tc_data_pages c \<Longrightarrow> table_rows db c' = table_rows db c"
  by (simp add: table_rows_def same_rows_facts)

lemma same_rows_trans: "same_rows a b \<Longrightarrow> same_rows b c \<Longrightarrow> same_rows a c"
  by (simp add: same_rows_def)

lemma refresh_same_rows: "refresh_pages db c = Val (Some (c1, refreshed)) \<Longrightarrow> same_rows c c1"
  using refresh_fields [of db c c1 refreshed] by (simp add: same_rows_def)

lemma settle_same_rows: "same_rows c (settle_cache refreshed scan c)"
  by (simp add: same_rows_def settle_cache_def Let_def)

section \<open>After a synchronisation\<close>

definition in_step :: "ods \<Rightarrow> table_cache \<Rightarrow> (nat \<Rightarrow> nat option) \<Rightarrow> (bytes \<Rightarrow> bytes option) \<Rightarrow> bool" where
  "in_step db c gens M \<longleftrightarrow> good_cache c \<and> valid_snapshot c (tc_prev_pks c) \<and> mirrors db c M \<and>
     dom M = set (keys_of (tc_pk_byte_len c) (tc_prev_pks c)) \<and>
     (\<forall>n. gens n \<noteq> None \<longrightarrow> n \<in> set (tc_data_pages c) \<and> is_data_page db n) \<and>
     (\<forall>n \<in> set (tc_data_pages c). is_data_page db n \<longrightarrow> gens n = page_gen db n \<and>
        (\<exists>f. (n, f) \<in> set (tc_prev_pks c) \<and> set (chunks (tc_pk_byte_len c) f) = set (page_keys db c n))) \<and>
     (\<forall>(n, f) \<in> set (tc_prev_pks c). n \<in> set (tc_data_pages c) \<and> is_data_page db n)"

text \<open>An empty delta changes nothing.\<close>

lemma replay_nothing:
  assumes "good_cache c" and "valid_snapshot c (tc_prev_pks c)" and "scan_changes_into db c last_txn gens = Val so"
    and "so_upserts so = 0" and "so_deletes so = 0" and "replay c (so_upsert_out so) (so_delete_buf so) M = Some M'"
  shows "M' = M"
proof -
  have "parse_pgcopy (so_upsert_out so) = Some []" "parse_pgcopy (so_delete_buf so) = Some []"
    using scan_streams [OF assms(1-3)] assms(4,5) by auto
  then show ?thesis using assms(6) by (auto simp: replay_def cut_rows_def)
qed

lemma hand_over_replica:
  assumes "good_cache c" and "valid_snapshot c (tc_prev_pks c)" and "scan_changes_into db c last_txn gens = Val so"
    and "replay c (so_upsert_out so) (so_delete_buf so) M = Some M'" and "same_rows c0 c"
  shows "hand_over lc (replica_sink c0) table debug c so M = (Val (), M')"
proof (cases "so_upserts so > 0 \<or> so_deletes so > 0")
  case True
  then show ?thesis using assms(4) same_rows_facts(8) [OF assms(5)] by (auto simp: hand_over_def replica_sink_def)
next
  case False
  then show ?thesis using replay_nothing [OF assms(1-3) _ _ assms(4)] by (simp add: hand_over_def pval_def)
qed

lemma in_step_after:
  assumes "good_cache c" and "valid_snapshot c (tc_prev_pks c)" and "0 < tc_pk_byte_len c"
    and "scan_changes_into db c last_txn gens = Val so" and "snapshot_fits db c gens"
    and "mirrors db c M'" and "dom M' = set (keys_of (tc_pk_byte_len c) (advance_snapshot (tc_prev_pks c) (so_new_pks so)))"
    and "\<forall>n. gens n \<noteq> None \<longrightarrow> n \<in> set (tc_data_pages c) \<and> is_data_page db n"
  shows "in_step db (settle_cache refreshed so c) (settle_gens refreshed (tc_data_pages c) so gens) M'"
proof -
  let ?c = "settle_cache refreshed so c" and ?g = "settle_gens refreshed (tc_data_pages c) so gens"
  let ?S = "tc_pk_byte_len c" and ?adv = "advance_snapshot (tc_prev_pks c) (so_new_pks so)"
  note same = settle_same_rows [of c refreshed so]
  note dom = scan_new_pks(1) [OF assms(4,3)] and new = scan_new_pks(2) [OF assms(4,3)]
  have valid: "valid_snapshot c (so_new_pks so)" by (rule scan_snapshot_valid [OF assms(1,4)])
  then have d: "distinct (map fst (so_new_pks so))" by (simp add: valid_snapshot_def)
  have old: "n \<in> set (tc_data_pages c) \<and> is_data_page db n" if "(n, f) \<in> set ?adv" for n f
  proof -
    from that have "(n, f) \<in> set (so_new_pks so) \<or> (n, f) \<in> set (tc_prev_pks c)" by (auto simp: set_advance [OF d])
    moreover have "n \<in> fst ` set (so_new_pks so)" if "(n, f) \<in> set (so_new_pks so)" using that by force
    ultimately show ?thesis using dom assms(5) by (auto simp: snapshot_fits_def rebuilt_def)
  qed
  then have "filter (\<lambda>(n, f). n \<in> set (tc_data_pages c)) ?adv = ?adv" by (intro filter_True) auto
  then have prev: "tc_prev_pks ?c = ?adv" using assms(3) by (simp add: settle_cache_def Let_def)
  have pages: "tc_data_pages ?c = tc_data_pages c" by (simp add: settle_cache_def Let_def)
  have S: "tc_pk_byte_len ?c = ?S" using same by (simp add: same_rows_def)
  have gens: "?g n = (if n \<in> set (tc_data_pages c) \<and> is_data_page db n then page_gen db n else None)" for n
    using assms(8) scan_new_gens [OF assms(4,3), of n]
    by (cases "gens n") (auto simp: settle_gens_def Let_def map_add_def restrict_map_def split: option.splits)
  have exact: "\<exists>f. (n, f) \<in> set ?adv \<and> set (chunks ?S f) = set (page_keys db c n)"
    if n: "n \<in> set (tc_data_pages c)" "is_data_page db n" for n
  proof (cases "rebuilt db c gens n")
    case True
    then have "n \<in> fst ` set (so_new_pks so)" using n dom by blast
    then obtain f where "(n, f) \<in> set (so_new_pks so)" by auto
    then show ?thesis using new unfolding set_advance [OF d] by blast
  next
    case False
    then obtain f where "(n, f) \<in> set (tc_prev_pks c)" "set (chunks ?S f) = set (page_keys db c n)"
      using assms(5) n by (auto simp: snapshot_fits_def)
    moreover have "n \<notin> fst ` set (so_new_pks so)" using dom False by blast
    ultimately show ?thesis unfolding set_advance [OF d] by auto
  qed
  have "mirrors db ?c M'" using assms(6) by (simp add: mirrors_def same_rows_table [OF same pages])
  moreover have "good_cache ?c" "valid_snapshot ?c (tc_prev_pks ?c)"
    using assms(1) valid_snapshot_advance [OF assms(2) valid] by (simp_all add: same_rows_facts [OF same] prev)
  ultimately show ?thesis
    using old exact assms(7) gens unfolding in_step_def prev pages S same_rows_facts(4) [OF same] by (auto split: if_splits)
qed

section \<open>One synchronisation\<close>

text \<open>What a pass needs besides the replica: unique keys, and only live rows sent or superseded.\<close>

definition clean_pass :: "ods \<Rightarrow> table_cache \<Rightarrow> nat \<Rightarrow> (nat \<Rightarrow> nat option) \<Rightarrow> bool" where
  "clean_pass db c last_txn gens \<longleftrightarrow> 0 < tc_pk_byte_len c \<and> tc_pk_byte_len c \<le> 64 \<and>
     distinct (map fst (table_rows db c)) \<and> sends_live_rows db c last_txn gens \<and> stubs_superseded db c last_txn gens"

lemma sync_replica:
  assumes "refresh_pages db c = Val (Some (c1, refreshed))" and "good_cache c" and "valid_snapshot c (tc_prev_pks c)"
    and "clean_pass db c1 last_txn gens"
    and "\<And>so. scan_changes_into db c1 last_txn gens = Val so \<Longrightarrow> snapshot_fits db c1 gens \<and> knows_old_rows db c1 last_txn gens M \<and>
      (\<forall>n. gens n \<noteq> None \<longrightarrow> n \<in> set (tc_data_pages c1) \<and> is_data_page db n)"
    and "dom M = set (keys_of (tc_pk_byte_len c) (tc_prev_pks c))"
    and "sync_table uc lc db (replica_sink c) table last_txn pk_fields gens (Some c) None debug M = (Val stats, gens', Some c', M')"
  shows "in_step db c' gens' M'"
proof -
  have sync: "sync_cached lc (replica_sink c) db table last_txn gens c debug M = (Val stats, gens', Some c', M')"
    using assms(7) by (simp add: sync_table_def)
  obtain scan where scan: "scan_changes_into db c1 last_txn gens = Val scan"
    and hand: "hand_over lc (replica_sink c) table debug c1 scan M = (Val (), M')"
    and after: "gens' = settle_gens refreshed (tc_data_pages c1) scan gens" "c' = settle_cache refreshed scan c1"
    using sync_cached_Val [OF sync] assms(1) by auto
  note same = refresh_same_rows [OF assms(1)]
  have prev: "tc_prev_pks c1 = tc_prev_pks c" "tc_pk_byte_len c1 = tc_pk_byte_len c"
    using refresh_fields [OF assms(1)] by simp_all
  have good: "good_cache c1" "valid_snapshot c1 (tc_prev_pks c1)"
    using assms(2,3) by (simp_all add: same_rows_facts [OF same] prev)
  have S: "0 < tc_pk_byte_len c1" "tc_pk_byte_len c1 \<le> 64" and clean: "distinct (map fst (table_rows db c1))"
    "sends_live_rows db c1 last_txn gens" "stubs_superseded db c1 last_txn gens"
    using assms(4) by (simp_all add: clean_pass_def)
  have hyps: "snapshot_fits db c1 gens" "knows_old_rows db c1 last_txn gens M"
    "\<forall>n. gens n \<noteq> None \<longrightarrow> n \<in> set (tc_data_pages c1) \<and> is_data_page db n"
    using assms(5) [OF scan] by blast+
  have dom: "dom M = set (keys_of (tc_pk_byte_len c1) (tc_prev_pks c1))" using assms(6) by (simp add: prev)
  obtain N where N: "replay c1 (so_upsert_out scan) (so_delete_buf scan) M = Some N" "mirrors db c1 N"
    "dom N = set (keys_of (tc_pk_byte_len c1) (advance_snapshot (tc_prev_pks c1) (so_new_pks scan)))"
    using replica_follows [OF good S scan hyps(1) clean(1) dom hyps(2) clean(2,3)] by blast
  have "M' = N" using hand_over_replica [OF good scan N(1) same] hand by simp
  then show ?thesis using in_step_after [OF good S(1) scan hyps(1) N(2,3) hyps(3)] after by simp
qed

section \<open>Runs\<close>

text \<open>
  How the file may change between two synchronisations: data pages of the table stay, a page keeps
  its content as long as it keeps its generation, and no live row at or below the watermark is
  new (a transaction that is still running when a later one is captured may break the last).
\<close>

definition evolves :: "ods \<Rightarrow> table_cache \<Rightarrow> ods \<Rightarrow> table_cache \<Rightarrow> nat \<Rightarrow> bool" where
  "evolves db c db' c' last_txn \<longleftrightarrow> set (tc_data_pages c) \<subseteq> set (tc_data_pages c') \<and>
     (\<forall>n \<in> set (tc_data_pages c). is_data_page db n \<longrightarrow> is_data_page db' n \<and>
        (page_gen db' n = page_gen db n \<longrightarrow> page_slots db' n = page_slots db n)) \<and>
     (\<forall>n \<in> set (tc_data_pages c'). \<forall>(txn, k, r) \<in> set (page_live db' c n).
        txn \<le> last_txn \<longrightarrow> (k, r) \<in> set (table_rows db c))"

lemma in_step_facts:
  assumes "in_step db c gens M"
  shows "gens n \<noteq> None \<Longrightarrow> n \<in> set (tc_data_pages c) \<and> is_data_page db n"
    and "n \<in> set (tc_data_pages c) \<Longrightarrow> is_data_page db n \<Longrightarrow> gens n = page_gen db n"
    and "n \<in> set (tc_data_pages c) \<Longrightarrow> is_data_page db n \<Longrightarrow>
      \<exists>f. (n, f) \<in> set (tc_prev_pks c) \<and> set (chunks (tc_pk_byte_len c) f) = set (page_keys db c n)"
    and "(n, f) \<in> set (tc_prev_pks c) \<Longrightarrow> n \<in> set (tc_data_pages c) \<and> is_data_page db n"
    and "mirrors db c M" and "good_cache c" and "valid_snapshot c (tc_prev_pks c)"
    and "dom M = set (keys_of (tc_pk_byte_len c) (tc_prev_pks c))"
  using assms unfolding in_step_def by blast+

lemma mirrors_row:
  assumes "mirrors db c M" and "(k, r) \<in> set (table_rows db c)"
  shows "map_option Val (M k) = Some r"
proof -
  have "\<forall>p \<in> set (table_rows db c). map_option Val (M (fst p)) = Some (snd p)"
    using assms(1) by (simp add: mirrors_def case_prod_beta)
  from bspec [OF this assms(2)] show ?thesis by simp
qed

lemma live_page: "(txn, k, r) \<in> set (page_live db c n) \<Longrightarrow> is_data_page db n"
proof (rule ccontr)
  assume "(txn, k, r) \<in> set (page_live db c n)" and "\<not> is_data_page db n"
  moreover from this(2) have "page_slots db n = []" by (cases "page db n") (simp_all add: page_slots_def is_data_page_def)
  ultimately show False by (simp add: page_live_def)
qed

lemma evolved_pass:
  assumes "in_step db c gens M" and "evolves db c db' c1 last_txn" and "same_rows c c1" and "tc_prev_pks c1 = tc_prev_pks c"
    and "0 < tc_pk_byte_len c1" and "scan_changes_into db' c1 last_txn gens = Val so"
  shows "snapshot_fits db' c1 gens \<and> knows_old_rows db' c1 last_txn gens M \<and>
    (\<forall>n. gens n \<noteq> None \<longrightarrow> n \<in> set (tc_data_pages c1) \<and> is_data_page db' n)"
proof -
  have known: "n \<in> set (tc_data_pages c)" "is_data_page db n" "page_gen db n = page_gen db' n" "page_slots db' n = page_slots db n"
    if "n \<in> set (tc_data_pages c1)" "is_data_page db' n" "gens n = page_gen db' n" for n
  proof -
    have "page_gen db' n \<noteq> None" by (rule scan_new_gens(2) [OF assms(6,5) that(1,2)])
    then show n: "n \<in> set (tc_data_pages c)" "is_data_page db n" using in_step_facts(1) [OF assms(1), of n] that(3) by auto
    then show "page_gen db n = page_gen db' n" using in_step_facts(2) [OF assms(1)] that(3) by simp
    then show "page_slots db' n = page_slots db n" using assms(2) n by (auto simp: evolves_def)
  qed
  have S: "tc_pk_byte_len c1 = tc_pk_byte_len c" using assms(3) by (simp add: same_rows_def)
  have "snapshot_fits db' c1 gens"
    unfolding snapshot_fits_def
  proof (intro conjI ballI impI)
    fix p assume "p \<in> set (tc_prev_pks c1)"
    then show "case p of (n, f) \<Rightarrow> n \<in> set (tc_data_pages c1) \<and> is_data_page db' n"
      using in_step_facts(4) [OF assms(1)] assms(2,4) by (auto simp: evolves_def)
  next
    fix n assume n: "n \<in> set (tc_data_pages c1)" and d: "is_data_page db' n \<and> \<not> rebuilt db' c1 gens n"
    then have "gens n = page_gen db' n" by (simp add: rebuilt_def)
    note k = known [OF n _ this]
    have "page_keys db' c1 n = page_keys db c n"
      using k(4) d by (simp add: same_rows_facts [OF assms(3)]) (simp add: page_keys_def)
    moreover have "\<exists>f. (n, f) \<in> set (tc_prev_pks c) \<and> set (chunks (tc_pk_byte_len c) f) = set (page_keys db c n)"
      by (rule in_step_facts(3) [OF assms(1) k(1,2)]) (use d in simp_all)
    ultimately show "\<exists>f. (n, f) \<in> set (tc_prev_pks c1) \<and> set (chunks (tc_pk_byte_len c1) f) = set (page_keys db' c1 n)"
      using assms(4) S by simp
  qed
  moreover have "knows_old_rows db' c1 last_txn gens M"
  proof -
    have "map_option Val (M k) = Some r"
      if n: "n \<in> set (tc_data_pages c1)" and e: "(txn, k, r) \<in> set (page_live db' c1 n)"
        and old: "txn \<le> last_txn \<or> gens n = page_gen db' n" for n txn k r
    proof -
      have e': "(txn, k, r) \<in> set (page_live db' c n)" using e by (simp add: same_rows_facts [OF assms(3)])
      have "(k, r) \<in> set (table_rows db c)"
      proof (cases "txn \<le> last_txn")
        case True
        then show ?thesis using assms(2) n e' by (fastforce simp: evolves_def)
      next
        case False
        then have "gens n = page_gen db' n" using old by simp
        note k = known [OF n live_page [OF e] this]
        have "(txn, k, r) \<in> set (page_live db c n)" using e' k(4) by (simp add: page_live_def)
        then show ?thesis using k(1) unfolding table_rows_def by force
      qed
      then show ?thesis by (rule mirrors_row [OF in_step_facts(5) [OF assms(1)]])
    qed
    then show ?thesis unfolding knows_old_rows_def by blast
  qed
  moreover have "\<forall>n. gens n \<noteq> None \<longrightarrow> n \<in> set (tc_data_pages c1) \<and> is_data_page db' n"
  proof (intro allI impI)
    fix n assume "gens n \<noteq> None"
    then have "n \<in> set (tc_data_pages c)" "is_data_page db n" using in_step_facts(1) [OF assms(1), of n] by simp_all
    then show "n \<in> set (tc_data_pages c1) \<and> is_data_page db' n" using assms(2) by (auto simp: evolves_def)
  qed
  ultimately show ?thesis by blast
qed

lemma first_pass:
  assumes "scan_changes_into db c last_txn Map.empty = Val so" and "0 < tc_pk_byte_len c" and "tc_prev_pks c = []"
    and "\<forall>n \<in> set (tc_data_pages c). \<forall>(txn, k, r) \<in> set (page_live db c n). last_txn < txn"
  shows "snapshot_fits db c Map.empty \<and> knows_old_rows db c last_txn Map.empty Map.empty"
proof
  note gen = scan_new_gens(2) [OF assms(1,2)]
  show "snapshot_fits db c Map.empty" using gen by (fastforce simp: snapshot_fits_def assms(3) rebuilt_def)
  have False if n: "n \<in> set (tc_data_pages c)" and e: "(txn, k, r) \<in> set (page_live db c n)"
    and old: "txn \<le> last_txn \<or> Map.empty n = page_gen db n" for n txn k r
  proof -
    have "last_txn < txn" using assms(4) n e by fastforce
    moreover have "page_gen db n \<noteq> None" by (rule gen [OF n live_page [OF e]])
    ultimately show False using old by auto
  qed
  then show "knows_old_rows db c last_txn Map.empty Map.empty" unfolding knows_old_rows_def by blast
qed

text \<open>
  The successful synchronisations of a table with its replica. The first starts with an empty
  replica and takes every row; the watermark of each is whatever the watcher gives, its own or the
  global one, as long as the file has evolved so. A synchronisation that fails is no step: it
  leaves generations, snapshot and replica as they are.
\<close>

inductive replicates ::
    "(nat \<Rightarrow> str) \<Rightarrow> (str \<Rightarrow> str) \<Rightarrow> str \<Rightarrow> str list \<Rightarrow> bool \<Rightarrow>
     ods \<Rightarrow> table_cache \<Rightarrow> (nat \<Rightarrow> nat option) \<Rightarrow> (bytes \<Rightarrow> bytes option) \<Rightarrow> bool"
  for uc lc table pk_fields debug
where
  first: "good_cache c \<Longrightarrow> tc_prev_pks c = [] \<Longrightarrow> refresh_pages db c = Val (Some (c1, refreshed)) \<Longrightarrow>
    clean_pass db c1 last_txn Map.empty \<Longrightarrow>
    \<forall>n \<in> set (tc_data_pages c1). \<forall>(txn, k, r) \<in> set (page_live db c n). last_txn < txn \<Longrightarrow>
    sync_table uc lc db (replica_sink c) table last_txn pk_fields Map.empty (Some c) None debug Map.empty =
      (Val stats, gens', Some c', M') \<Longrightarrow>
    replicates uc lc table pk_fields debug db c' gens' M'"
| again: "replicates uc lc table pk_fields debug db c gens M \<Longrightarrow>
    refresh_pages db' c = Val (Some (c1, refreshed)) \<Longrightarrow> evolves db c db' c1 last_txn \<Longrightarrow>
    clean_pass db' c1 last_txn gens \<Longrightarrow>
    sync_table uc lc db' (replica_sink c) table last_txn pk_fields gens (Some c) None debug M =
      (Val stats, gens', Some c', M') \<Longrightarrow>
    replicates uc lc table pk_fields debug db' c' gens' M'"

lemma replicates_in_step: "replicates uc lc table pk_fields debug db c gens M \<Longrightarrow> in_step db c gens M"
proof (induction rule: replicates.induct)
  case (first c db c1 refreshed last_txn stats gens' c' M')
  have S: "0 < tc_pk_byte_len c1" using first(4) by (simp add: clean_pass_def)
  have prev: "tc_prev_pks c1 = []" using refresh_fields [OF first(3)] first(2) by simp
  show ?case
  proof (rule sync_replica [OF first(3,1) _ first(4) _ _ first(6)])
    fix so assume scan: "scan_changes_into db c1 last_txn Map.empty = Val so"
    show "snapshot_fits db c1 Map.empty \<and> knows_old_rows db c1 last_txn Map.empty Map.empty \<and>
      (\<forall>n. Map.empty n \<noteq> None \<longrightarrow> n \<in> set (tc_data_pages c1) \<and> is_data_page db n)"
      using first_pass [OF scan S prev] first(5) by (simp add: same_rows_facts [OF refresh_same_rows [OF first(3)]])
  qed (simp_all add: first(2))
next
  case (again db c gens M db' c1 refreshed last_txn stats gens' c' M')
  have S: "0 < tc_pk_byte_len c1" using again(4) by (simp add: clean_pass_def)
  have prev: "tc_prev_pks c1 = tc_prev_pks c" using refresh_fields [OF again(2)] by simp
  show ?case
    by (rule sync_replica [OF again(2) in_step_facts(6,7) [OF again.IH] again(4) _ in_step_facts(8) [OF again.IH] again(5)])
      (rule evolved_pass [OF again.IH again(3) refresh_same_rows [OF again(2)] prev S])
qed

section \<open>Properties\<close>

text \<open>
  C2. The change capture keeps a replica. However often a table is synchronised, and however its
  file evolves in between, as long as pages keep their content while they keep their generation,
  data pages stay, no row turns up at or below the watermark, and every pass is clean (unique
  keys of at most 64 bytes, no back version and no unresolved deletion among what is sent): after
  every success the replica holds exactly the live rows of the file, and the key snapshot exactly
  their keys.
\<close>

theorem replica_is_the_table:
  assumes "replicates uc lc table pk_fields debug db c gens M"
  shows "mirrors db c M \<and> set (keys_of (tc_pk_byte_len c) (tc_prev_pks c)) = fst ` set (table_rows db c)"
  using in_step_facts(5,8) [OF replicates_in_step [OF assms]] by (simp add: mirrors_def)

theorem replica_is_the_table_witness:
  "\<exists>c gens M. replicates (\<lambda>c. []) (\<lambda>s. s) [116] [] False (cdc_db 0) c gens M \<and> mirrors (cdc_db 0) c M \<and>
    M (len_field [1]) = Some (len_field [1])"
proof -
  let ?c = "cdc_cache []"
  obtain so where so: "scan_changes_into (cdc_db 0) ?c 0 Map.empty = Val so" using cdc_scan by blast
  have c: "tc_prev_pks ?c = []" "tc_pk_byte_len ?c = 5" by (simp_all add: cdc_cache_def)
  have clean: "clean_pass (cdc_db 0) ?c 0 Map.empty" using cdc_replica by (simp add: clean_pass_def c)
  have "\<exists>M. replay ?c (so_upsert_out so) (so_delete_buf so) Map.empty = Some M \<and> mirrors (cdc_db 0) ?c M"
    using replica_follows [OF cdc_good _ _ _ so cdc_replica(1,2) _ cdc_replica(3-5)] by (auto simp: c)
  then obtain M where M: "replay ?c (so_upsert_out so) (so_delete_buf so) Map.empty = Some M" "mirrors (cdc_db 0) ?c M" by blast
  let ?c' = "settle_cache False so ?c" and ?g = "settle_gens False (tc_data_pages ?c) so Map.empty"
  have "hand_over (\<lambda>s. s) (replica_sink ?c) [116] False ?c so Map.empty = (Val (), M)"
    by (rule hand_over_replica [OF cdc_good _ so M(1)]) (simp_all add: c same_rows_def)
  then have sync: "sync_table (\<lambda>c. []) (\<lambda>s. s) (cdc_db 0) (replica_sink ?c) [116] 0 [] Map.empty (Some ?c) None False Map.empty =
      (Val (stats_of so), ?g, Some ?c', M)"
    using so by (simp add: sync_table_def sync_cached_def cdc_refresh)
  have run: "replicates (\<lambda>c. []) (\<lambda>s. s) [116] [] False (cdc_db 0) ?c' ?g M"
    by (rule first [OF cdc_good c(1) cdc_refresh clean _ sync]) (simp add: cdc_table)
  have "M (len_field [1]) = Some (len_field [1])" using mirrors_row [OF M(2), of "len_field [1]"] by (auto simp: cdc_table)
  then show ?thesis using replica_is_the_table [OF run] run by blast
qed

end
