(* ===== verification/Pg_Replica.thy ===== *)
theory Pg_Replica
  imports Replica_Run
begin

text \<open>
  The replica in PostgreSQL. What is documented of the statements of a merge (\<open>src/src/merge.rs\<close>)
  is stated as their effect on a session and its table; on a server that keeps to it, a merge that
  succeeds replays its delta on the committed rows, and so do runs of the change capture with the
  sinks of \<open>src/src/sink.rs\<close>.
\<close>

section \<open>A session of PostgreSQL\<close>

text \<open>
  The committed rows of the target table, by the bytes of their keys; the transaction of the
  session with the rows that it sees, or failed; its two temporary tables; its last \<open>COPY\<close>.
\<close>

datatype pg_tx = Idle | Open_Tx "bytes \<Rightarrow> bytes option" | Failed_Tx

record pg_session =
  pg_rows :: "bytes \<Rightarrow> bytes option"
  pg_tx :: pg_tx
  pg_delta :: "row list"
  pg_dels :: "row list"
  pg_copy :: str

definition create_delta_sql :: "merge_meta \<Rightarrow> str" where
  "create_delta_sql meta = lit ''CREATE TEMP TABLE '' @ quoted (delta_tmp meta) @ lit '' (LIKE '' @ quoted (mm_pg_table meta) @ lit '')''"

definition create_del_sql :: "merge_meta \<Rightarrow> str" where
  "create_del_sql meta = lit ''CREATE TEMP TABLE '' @ quoted (del_tmp meta) @ lit '' AS SELECT '' @ mm_pk_csv meta @
     lit '' FROM '' @ quoted (mm_pg_table meta) @ lit '' WHERE false''"

definition drop_tmp_sql :: "str \<Rightarrow> str" where
  "drop_tmp_sql tmp = lit ''DROP TABLE IF EXISTS '' @ quoted tmp"

definition count_sql :: "merge_meta \<Rightarrow> str" where
  "count_sql meta = lit ''SELECT COUNT(*) FROM '' @ quoted (del_tmp meta)"

definition updates :: "merge_meta \<Rightarrow> bool" where
  "updates meta \<longleftrightarrow> (\<exists>cn \<in> set (split_comma [] (mm_cols_csv meta)). cn \<notin> set (mm_pk_col_names meta))"

definition keep_rows :: "table_cache \<Rightarrow> row list \<Rightarrow> (bytes \<Rightarrow> bytes option) \<Rightarrow> bytes \<Rightarrow> bytes option" where
  "keep_rows c rows M = fold (\<lambda>r M. if M (row_key c r) = None then M(row_key c r \<mapsto> row_bytes r) else M) rows M"

definition insert_rows :: "table_cache \<Rightarrow> merge_meta \<Rightarrow> row list \<Rightarrow> (bytes \<Rightarrow> bytes option) \<Rightarrow> bytes \<Rightarrow> bytes option" where
  "insert_rows c meta = (if updates meta then put_rows c else keep_rows c)"

text \<open>What a call does to the rows that the open transaction sees.\<close>

definition tx_effect :: "table_cache \<Rightarrow> merge_meta \<Rightarrow> call \<Rightarrow> pg_session \<Rightarrow> (bytes \<Rightarrow> bytes option) \<Rightarrow> pg_session" where
  "tx_effect c meta call p M =
     (case call of
        Execute sql \<Rightarrow>
          if sql = lit ''COMMIT'' then p\<lparr>pg_rows := M, pg_tx := Idle\<rparr>
          else if sql = lit ''ROLLBACK'' then p\<lparr>pg_tx := Idle\<rparr>
          else if sql = create_delta_sql meta then p\<lparr>pg_delta := []\<rparr>
          else if sql = create_del_sql meta then p\<lparr>pg_dels := []\<rparr>
          else if sql = delete_sql meta then p\<lparr>pg_tx := Open_Tx (cut_rows (pg_dels p) M)\<rparr>
          else if sql = build_upsert_sql meta (delta_tmp meta)
          then p\<lparr>pg_tx := Open_Tx (insert_rows c meta (pg_delta p) M)\<rparr>
          else p
      | Copy_In sql \<Rightarrow> p\<lparr>pg_copy := sql\<rparr>
      | Copy_Done b \<Rightarrow>
          (case parse_pgcopy b of
             None \<Rightarrow> p
           | Some rows \<Rightarrow>
               if pg_copy p = copy_delta_sql meta then p\<lparr>pg_delta := pg_delta p @ rows\<rparr>
               else if pg_copy p = copy_del_sql meta then p\<lparr>pg_dels := pg_dels p @ rows\<rparr>
               else p)
      | Connect db \<Rightarrow> p\<lparr>pg_tx := Idle\<rparr>
      | _ \<Rightarrow> p)"

text \<open>Outside of a transaction a statement commits at once.\<close>

definition pg_effect :: "table_cache \<Rightarrow> merge_meta \<Rightarrow> call \<Rightarrow> pg_session \<Rightarrow> pg_session" where
  "pg_effect c meta call p =
     (case pg_tx p of
        Open_Tx M \<Rightarrow> tx_effect c meta call p M
      | Idle \<Rightarrow>
          if call = Execute (lit ''BEGIN'') then p\<lparr>pg_tx := Open_Tx (pg_rows p)\<rparr>
          else let q = tx_effect c meta call p (pg_rows p)
               in q\<lparr>pg_rows := (case pg_tx q of Open_Tx M \<Rightarrow> M | _ \<Rightarrow> pg_rows q), pg_tx := Idle\<rparr>
      | Failed_Tx \<Rightarrow> p\<lparr>pg_tx := Idle\<rparr>)"

text \<open>A refused statement fails the transaction; one that is refused at its end is over.\<close>

definition pg_refuse :: "call \<Rightarrow> pg_session \<Rightarrow> pg_session" where
  "pg_refuse call p = p\<lparr>pg_tx := (if pg_tx p = Idle \<or> call = Execute (lit ''COMMIT'') \<or> call = Execute (lit ''ROLLBACK'')
     then Idle else Failed_Tx)\<rparr>"

text \<open>
  A failed transaction takes nothing but its end (or a new connection), and \<open>COMMIT\<close> then succeeds
  as a rollback. A \<open>COPY\<close> takes well-formed streams only.
\<close>

definition pg_accepts :: "call \<Rightarrow> pg_session \<Rightarrow> bool" where
  "pg_accepts call p \<longleftrightarrow>
     (pg_tx p = Failed_Tx \<longrightarrow> call = Execute (lit ''COMMIT'') \<or> call = Execute (lit ''ROLLBACK'') \<or> (\<exists>db. call = Connect db)) \<and>
     (case call of Copy_Done b \<Rightarrow> parse_pgcopy b \<noteq> None | _ \<Rightarrow> True)"

text \<open>The calls of a merge and of opening a connection.\<close>

definition merge_call :: "merge_meta \<Rightarrow> call \<Rightarrow> bool" where
  "merge_call meta call \<longleftrightarrow>
     (case call of
        Connect db \<Rightarrow> True
      | Execute sql \<Rightarrow> sql \<in> {lit ''BEGIN'', lit ''COMMIT'', lit ''ROLLBACK'', drop_tmp_sql (delta_tmp meta), drop_tmp_sql (del_tmp meta),
          create_delta_sql meta, create_del_sql meta, delete_sql meta, build_upsert_sql meta (delta_tmp meta)} \<or>
          (\<exists>db. sql = lit ''CREATE DATABASE '' @ quoted db)
      | Batch sql \<Rightarrow> sql = session_sql
      | Query_One sql \<Rightarrow> sql = count_sql meta
      | Copy_In sql \<Rightarrow> sql \<in> {copy_delta_sql meta, copy_del_sql meta}
      | _ \<Rightarrow> True)"

text \<open>
  What is documented of each answer. A statement that is refused has had no effect, but of a \<open>COMMIT\<close>
  that reports an error this is not known: the connection may have been lost after the server has
  committed.
\<close>

definition refused_to :: "call \<Rightarrow> pg_session \<Rightarrow> pg_session \<Rightarrow> bool" where
  "refused_to call p q \<longleftrightarrow> q = pg_refuse call p \<or>
     (\<exists>M. call = Execute (lit ''COMMIT'') \<and> pg_tx p = Open_Tx M \<and> q = p\<lparr>pg_rows := M, pg_tx := Idle\<rparr>)"

definition answers_sql :: "'s server \<Rightarrow> ('s \<Rightarrow> pg_session) \<Rightarrow> table_cache \<Rightarrow> merge_meta \<Rightarrow> bool" where
  "answers_sql srv view c meta \<longleftrightarrow>
     (\<forall>s call. merge_call meta call \<longrightarrow>
        (case srv s call of
           (Rows n, s') \<Rightarrow> pg_accepts call (view s) \<and> view s' = pg_effect c meta call (view s)
         | (Refused code, s') \<Rightarrow> refused_to call (view s) (view s')))"

text \<open>No acknowledgement of a commit is lost: a \<open>COMMIT\<close> that reports an error has been rolled back.\<close>

definition commits_answered :: "'s server \<Rightarrow> ('s \<Rightarrow> pg_session) \<Rightarrow> bool" where
  "commits_answered srv view \<longleftrightarrow>
     (\<forall>s code s'. srv s (Execute (lit ''COMMIT'')) = (Refused code, s') \<longrightarrow>
        view s' = pg_refuse (Execute (lit ''COMMIT'')) (view s))"

text \<open>Both together, which is what the proofs below use.\<close>

definition answers_fully :: "'s server \<Rightarrow> ('s \<Rightarrow> pg_session) \<Rightarrow> table_cache \<Rightarrow> merge_meta \<Rightarrow> bool" where
  "answers_fully srv view c meta \<longleftrightarrow>
     (\<forall>s call. merge_call meta call \<longrightarrow>
        (case srv s call of
           (Rows n, s') \<Rightarrow> pg_accepts call (view s) \<and> view s' = pg_effect c meta call (view s)
         | (Refused code, s') \<Rightarrow> view s' = pg_refuse call (view s)))"

lemma answers_fully_iff:
  "answers_sql srv view c meta \<Longrightarrow> commits_answered srv view \<Longrightarrow> answers_fully srv view c meta"
  unfolding answers_sql_def answers_fully_def
proof (intro allI impI)
  fix s call
  assume docs: "\<forall>s call. merge_call meta call \<longrightarrow> (case srv s call of
           (Rows n, s') \<Rightarrow> pg_accepts call (view s) \<and> view s' = pg_effect c meta call (view s)
         | (Refused code, s') \<Rightarrow> refused_to call (view s) (view s'))"
    and commits: "commits_answered srv view" and call: "merge_call meta call"
  from docs [THEN spec, THEN spec, THEN mp, OF call] have a: "case srv s call of
           (Rows n, s') \<Rightarrow> pg_accepts call (view s) \<and> view s' = pg_effect c meta call (view s)
         | (Refused code, s') \<Rightarrow> refused_to call (view s) (view s')" .
  show "case srv s call of
           (Rows n, s') \<Rightarrow> pg_accepts call (view s) \<and> view s' = pg_effect c meta call (view s)
         | (Refused code, s') \<Rightarrow> view s' = pg_refuse call (view s)"
  proof (cases "fst (srv s call)")
    case (Refused code)
    then show ?thesis using a commits
      by (cases "call = Execute (lit ''COMMIT'')") (auto simp: commits_answered_def refused_to_def split: prod.splits)
  qed (use a in \<open>auto split: prod.splits\<close>)
qed

text \<open>In a transaction that has not failed, dropping a temporary table is never refused.\<close>

definition drops_tmps :: "'s server \<Rightarrow> ('s \<Rightarrow> pg_session) \<Rightarrow> merge_meta \<Rightarrow> bool" where
  "drops_tmps srv view meta \<longleftrightarrow>
     (\<forall>s tmp M. tmp \<in> {delta_tmp meta, del_tmp meta} \<and> pg_tx (view s) = Open_Tx M \<longrightarrow>
        (\<exists>n s'. srv s (Execute (drop_tmp_sql tmp)) = (Rows n, s')))"

section \<open>A merge on such a server\<close>

lemma sql_distinct:
  "delete_sql meta \<noteq> lit ''COMMIT''" "delete_sql meta \<noteq> lit ''ROLLBACK''" "delete_sql meta \<noteq> create_delta_sql meta"
  "delete_sql meta \<noteq> create_del_sql meta" "build_upsert_sql meta src \<noteq> lit ''COMMIT''" "build_upsert_sql meta src \<noteq> lit ''ROLLBACK''"
  "build_upsert_sql meta src \<noteq> create_delta_sql meta" "build_upsert_sql meta src \<noteq> create_del_sql meta"
  "build_upsert_sql meta src \<noteq> delete_sql meta" "create_delta_sql meta \<noteq> lit ''COMMIT''" "create_delta_sql meta \<noteq> lit ''ROLLBACK''"
  "create_del_sql meta \<noteq> lit ''COMMIT''" "create_del_sql meta \<noteq> lit ''ROLLBACK''" "create_del_sql meta \<noteq> create_delta_sql meta"
  "drop_tmp_sql tmp \<noteq> lit ''COMMIT''" "drop_tmp_sql tmp \<noteq> lit ''ROLLBACK''" "drop_tmp_sql tmp \<noteq> create_delta_sql meta"
  "drop_tmp_sql tmp \<noteq> create_del_sql meta" "drop_tmp_sql tmp \<noteq> delete_sql meta" "drop_tmp_sql tmp \<noteq> build_upsert_sql meta src"
  "copy_del_sql meta \<noteq> copy_delta_sql meta" "lit ''BEGIN'' \<noteq> lit ''COMMIT''" "lit ''BEGIN'' \<noteq> lit ''ROLLBACK''"
  "lit ''ROLLBACK'' \<noteq> lit ''COMMIT''" "drop_tmp_sql (delta_tmp meta) \<noteq> drop_tmp_sql (del_tmp meta)"
  by (simp_all add: delete_sql_def create_delta_sql_def create_del_sql_def build_upsert_sql_def drop_tmp_sql_def copy_del_sql_def
      copy_delta_sql_def delta_tmp_def del_tmp_def quoted_def Let_def lit_simps)

lemmas sql_simps = sql_distinct sql_distinct [symmetric]

lemma begin_distinct:
  "lit ''BEGIN'' \<noteq> drop_tmp_sql tmp" "lit ''BEGIN'' \<noteq> delete_sql meta" "lit ''BEGIN'' \<noteq> build_upsert_sql meta src"
  "lit ''BEGIN'' \<noteq> create_delta_sql meta" "lit ''BEGIN'' \<noteq> create_del_sql meta"
  by (simp_all add: delete_sql_def create_delta_sql_def create_del_sql_def build_upsert_sql_def drop_tmp_sql_def Let_def lit_simps)

lemma tx_effect_simps:
  "tx_effect c meta (Execute (lit ''COMMIT'')) p M = p\<lparr>pg_rows := M, pg_tx := Idle\<rparr>"
  "tx_effect c meta (Execute (lit ''ROLLBACK'')) p M = p\<lparr>pg_tx := Idle\<rparr>"
  "tx_effect c meta (Execute (create_delta_sql meta)) p M = p\<lparr>pg_delta := []\<rparr>"
  "tx_effect c meta (Execute (create_del_sql meta)) p M = p\<lparr>pg_dels := []\<rparr>"
  "tx_effect c meta (Execute (delete_sql meta)) p M = p\<lparr>pg_tx := Open_Tx (cut_rows (pg_dels p) M)\<rparr>"
  "tx_effect c meta (Execute (build_upsert_sql meta (delta_tmp meta))) p M =
     p\<lparr>pg_tx := Open_Tx (insert_rows c meta (pg_delta p) M)\<rparr>"
  "tx_effect c meta (Execute (drop_tmp_sql tmp)) p M = p"
  "tx_effect c meta (Copy_In sql) p M = p\<lparr>pg_copy := sql\<rparr>"
  "tx_effect c meta (Query_One sql) p M = p"
  by (simp_all add: tx_effect_def sql_simps)

definition own_rows :: "pg_session \<Rightarrow> bool" where
  "own_rows p \<longleftrightarrow> (\<forall>M. pg_tx p \<noteq> Open_Tx M)"

lemma exec_takes:
  assumes "answers_fully srv view c meta" and "merge_call meta call" and "exec srv call s = (r, s')"
  shows "(\<exists>n. r = Val n \<and> pg_accepts call (view s) \<and> view s' = pg_effect c meta call (view s)) \<or>
    (\<exists>e. r = Err e \<and> view s' = pg_refuse call (view s))"
proof -
  have "case srv s call of
      (Rows n, s') \<Rightarrow> pg_accepts call (view s) \<and> view s' = pg_effect c meta call (view s)
    | (Refused code, s') \<Rightarrow> view s' = pg_refuse call (view s)"
    using assms(1,2) by (simp add: answers_fully_def)
  then show ?thesis using assms(3) by (auto simp: exec_def split: prod.splits reply.splits)
qed

lemma exec_taken:
  assumes "answers_fully srv view c meta" and "merge_call meta call" and "exec srv call s = (Val n, s')"
  shows "pg_accepts call (view s)" "view s' = pg_effect c meta call (view s)"
  using exec_takes [OF assms] by auto

lemma drop_taken:
  assumes "answers_fully srv view c meta" and "drops_tmps srv view meta" and "pg_tx (view s) = Open_Tx M"
    and "tmp \<in> {delta_tmp meta, del_tmp meta}"
  shows "\<exists>s'. try_exec srv (Execute (drop_tmp_sql tmp)) s = (Val (), s') \<and> view s' = view s"
proof -
  obtain n s' where s': "srv s (Execute (drop_tmp_sql tmp)) = (Rows n, s')" using assms(2-4) unfolding drops_tmps_def by blast
  have "merge_call meta (Execute (drop_tmp_sql tmp))" using assms(4) by (auto simp: merge_call_def)
  then have "view s' = pg_effect c meta (Execute (drop_tmp_sql tmp)) (view s)"
    by (rule exec_taken(2) [OF assms(1)]) (simp add: exec_def s')
  then show ?thesis using s' assms(3) by (simp add: try_exec_def pg_effect_def tx_effect_simps)
qed

lemma drop_tmps_taken:
  assumes "answers_fully srv view c meta" and "drops_tmps srv view meta" and "pg_tx (view s) = Open_Tx M"
  shows "\<exists>s'. drop_tmps srv meta s = (Val (), s') \<and> view s' = view s"
proof -
  obtain t where t: "try_exec srv (Execute (drop_tmp_sql (delta_tmp meta))) s = (Val (), t)" "view t = view s"
    using drop_taken [OF assms] by blast
  obtain u where u: "try_exec srv (Execute (drop_tmp_sql (del_tmp meta))) t = (Val (), u)" "view u = view t"
    using drop_taken [OF assms(1,2), of t M] assms(3) t(2) by auto
  show ?thesis using t u by (auto simp: drop_tmps_def pbind_def drop_tmp_sql_def)
qed

lemma merge_calls:
  "merge_call meta (Execute (lit ''BEGIN''))" "merge_call meta (Execute (lit ''COMMIT''))" "merge_call meta (Execute (lit ''ROLLBACK''))"
  "merge_call meta (Execute (create_delta_sql meta))" "merge_call meta (Execute (create_del_sql meta))"
  "merge_call meta (Execute (delete_sql meta))" "merge_call meta (Execute (build_upsert_sql meta (delta_tmp meta)))"
  "merge_call meta (Execute (drop_tmp_sql (delta_tmp meta)))" "merge_call meta (Execute (drop_tmp_sql (del_tmp meta)))"
  "merge_call meta (Execute (lit ''CREATE DATABASE '' @ quoted db))"
  "merge_call meta (Copy_In (copy_delta_sql meta))" "merge_call meta (Copy_In (copy_del_sql meta))"
  "merge_call meta (Copy_Done b)" "merge_call meta Copy_Drop" "merge_call meta (Query_One (count_sql meta))"
  "merge_call meta (Connect db)" "merge_call meta (Batch session_sql)"
  by (auto simp: merge_call_def)

text \<open>The body of the transaction, statement by statement.\<close>

lemma create_tmps_taken:
  assumes "answers_fully srv view c meta" and "pg_tx (view s) = Open_Tx M" and "create_tmps srv meta s = (Val n, s')"
  shows "view s' = (view s)\<lparr>pg_delta := [], pg_dels := []\<rparr>"
proof -
  obtain k t where t: "exec srv (Execute (create_delta_sql meta)) s = (Val k, t)"
    "exec srv (Execute (create_del_sql meta)) t = (Val n, s')"
    using assms(3) by (auto simp: create_tmps_def create_delta_sql_def create_del_sql_def elim!: pbind_ValE)
  have "view t = (view s)\<lparr>pg_delta := []\<rparr>"
    using exec_taken(2) [OF assms(1) _ t(1)] assms(2) by (simp add: merge_calls pg_effect_def tx_effect_simps)
  then show ?thesis
    using exec_taken(2) [OF assms(1) _ t(2)] assms(2) by (simp add: merge_calls pg_effect_def tx_effect_simps)
qed

lemma copy_taken:
  assumes "answers_fully srv view c meta" and "pg_tx (view s) = Open_Tx M" and "sql \<in> {copy_delta_sql meta, copy_del_sql meta}"
    and "exec srv (Copy_In sql) s = (Val k, t)" and "exec srv (Copy_Done b) t = (Val n, s')"
  shows "\<exists>rows. parse_pgcopy b = Some rows \<and>
    view s' = (if sql = copy_delta_sql meta then (view s)\<lparr>pg_copy := sql, pg_delta := pg_delta (view s) @ rows\<rparr>
      else (view s)\<lparr>pg_copy := sql, pg_dels := pg_dels (view s) @ rows\<rparr>)"
proof -
  have "merge_call meta (Copy_In sql)" using assms(3) by (auto simp: merge_call_def)
  from exec_taken(2) [OF assms(1) this assms(4)] have t: "view t = (view s)\<lparr>pg_copy := sql\<rparr>"
    using assms(2) by (simp add: pg_effect_def tx_effect_simps)
  note d = exec_taken [OF assms(1) merge_calls(13) assms(5)]
  obtain rows where "parse_pgcopy b = Some rows" using d(1) by (auto simp: pg_accepts_def)
  then show ?thesis using d(2) t assms(2,3) by (auto simp: pg_effect_def tx_effect_def sql_simps)
qed

lemma deletes_taken:
  assumes "answers_fully srv view c meta" and "pg_tx (view s) = Open_Tx M" and "pg_dels (view s) = []"
    and "apply_deletes srv meta b debug s = (Val (), s')"
  shows "\<exists>rows q sql. parse_pgcopy b = Some rows \<and>
    view s' = (view s)\<lparr>pg_copy := sql, pg_dels := q, pg_tx := Open_Tx (cut_rows rows M)\<rparr>"
proof -
  obtain k n l m t u v where steps: "exec srv (Copy_In (copy_del_sql meta)) s = (Val k, t)" "exec srv (Copy_Done b) t = (Val n, u)"
    "(if debug then exec srv (Query_One (count_sql meta)) else pval 0) u = (Val l, v)"
    "exec srv (Execute (delete_sql meta)) v = (Val m, s')"
    using assms(4) unfolding apply_deletes_def count_sql_def [symmetric] by (auto simp: pval_def elim!: pbind_ValE)
  obtain rows where rows: "parse_pgcopy b = Some rows" "view u = (view s)\<lparr>pg_copy := copy_del_sql meta, pg_dels := rows\<rparr>"
    using copy_taken [OF assms(1,2) _ steps(1,2)] assms(3) by (auto simp: sql_simps)
  have "view v = view u"
  proof (cases debug)
    case True
    then show ?thesis
      using steps(3) exec_taken(2) [OF assms(1) merge_calls(15), of u l v] assms(2) rows(2)
      by (simp add: pg_effect_def tx_effect_simps)
  qed (use steps(3) in \<open>simp add: pval_def\<close>)
  then have "view s' = (view s)\<lparr>pg_copy := copy_del_sql meta, pg_dels := rows, pg_tx := Open_Tx (cut_rows rows M)\<rparr>"
    using exec_taken(2) [OF assms(1) merge_calls(6) steps(4)] assms(2) rows(2) by (simp add: pg_effect_def tx_effect_simps)
  then show ?thesis using rows(1) by blast
qed

text \<open>
  A merge that succeeds has replayed its delta on the committed rows, and one that fails has left
  them as they were; either way no transaction stays open.
\<close>

lemma apply_delta_replays:
  assumes "answers_fully srv view c meta" and "drops_tmps srv view meta" and "own_rows (view s)"
    and "apply_delta srv meta u d n_upserts n_deletes debug s = (Val (), s')"
  shows "\<exists>us. parse_pgcopy u = Some us \<and> (n_deletes > 0 \<longrightarrow> (\<exists>ds. parse_pgcopy d = Some ds)) \<and> own_rows (view s') \<and>
    pg_rows (view s') = (let M = (if n_deletes > 0 then cut_rows (the (parse_pgcopy d)) (pg_rows (view s)) else pg_rows (view s))
      in if n_upserts > 0 then insert_rows c meta us M else M)"
proof -
  let ?rows = "pg_rows (view s)" and ?M = "\<lambda>rows. if n_deletes > 0 then cut_rows (the (parse_pgcopy d)) rows else rows"
  let ?body = "pbind (drop_tmps srv meta) (\<lambda>_.
        pbind (create_tmps srv meta) (\<lambda>_.
        pbind (exec srv (Copy_In (copy_delta_sql meta))) (\<lambda>_.
        pbind (exec srv (Copy_Done u)) (\<lambda>_.
        pbind (if n_deletes > 0 then apply_deletes srv meta d debug else pval ()) (\<lambda>_.
        pbind (apply_upserts srv meta n_upserts) (\<lambda>_.
        drop_tmps srv meta))))))"
  obtain k t t' l where outer: "exec srv (Execute (lit ''BEGIN'')) s = (Val k, t)" "?body t = (Val (), t')"
    "exec srv (Execute (lit ''COMMIT'')) t' = (Val l, s')"
    using assms(4) by (auto simp: apply_delta_def transact_def pval_def elim!: pbind_ValE split: prod.splits run.splits)
  have b: "view t = (view s)\<lparr>pg_tx := Open_Tx ?rows\<rparr>"
    using exec_taken [OF assms(1) merge_calls(1) outer(1)] assms(3)
    by (cases "pg_tx (view s)") (auto simp: pg_effect_def pg_accepts_def own_rows_def sql_simps)
  obtain t1 t2 t3 t4 t5 t6 n1 n2 n3 where steps: "drop_tmps srv meta t = (Val (), t1)" "create_tmps srv meta t1 = (Val n1, t2)"
    "exec srv (Copy_In (copy_delta_sql meta)) t2 = (Val n2, t3)" "exec srv (Copy_Done u) t3 = (Val n3, t4)"
    "(if n_deletes > 0 then apply_deletes srv meta d debug else pval ()) t4 = (Val (), t5)"
    "apply_upserts srv meta n_upserts t5 = (Val (), t6)" "drop_tmps srv meta t6 = (Val (), t')"
    using outer(2) by (elim pbind_ValE) simp
  have v1: "view t1 = view t" using drop_tmps_taken [OF assms(1,2), of t] b steps(1) by auto
  have v2: "view t2 = (view t1)\<lparr>pg_delta := [], pg_dels := []\<rparr>"
    by (rule create_tmps_taken [OF assms(1) _ steps(2)]) (simp add: v1 b)
  obtain us where us: "parse_pgcopy u = Some us" "view t4 = (view t2)\<lparr>pg_copy := copy_delta_sql meta, pg_delta := us\<rparr>"
    using copy_taken [OF assms(1) _ _ steps(3,4)] by (auto simp: v1 v2 b)
  have v5: "(n_deletes > 0 \<longrightarrow> (\<exists>ds. parse_pgcopy d = Some ds)) \<and> pg_tx (view t5) = Open_Tx (?M ?rows) \<and>
      pg_delta (view t5) = us \<and> pg_rows (view t5) = ?rows"
  proof (cases "n_deletes > 0")
    case True
    then have "apply_deletes srv meta d debug t4 = (Val (), t5)" using steps(5) by simp
    from deletes_taken [OF assms(1) _ _ this, of ?rows] True show ?thesis by (auto simp: us v1 v2 b)
  next
    case False
    then have "t5 = t4" using steps(5) by (simp add: pval_def)
    then show ?thesis using False by (simp add: us v1 v2 b)
  qed
  have v6: "pg_tx (view t6) = Open_Tx (if n_upserts > 0 then insert_rows c meta us (?M ?rows) else ?M ?rows) \<and> pg_rows (view t6) = ?rows"
  proof (cases "n_upserts > 0")
    case True
    then obtain m where "exec srv (Execute (build_upsert_sql meta (delta_tmp meta))) t5 = (Val m, t6)"
      using steps(6) by (auto simp: apply_upserts_def pval_def elim!: pbind_ValE)
    from exec_taken(2) [OF assms(1) merge_calls(7) this] True v5
    show ?thesis by (simp add: pg_effect_def tx_effect_simps)
  next
    case False
    then have "t6 = t5" using steps(6) by (simp add: apply_upserts_def pval_def)
    then show ?thesis using False v5 by simp
  qed
  have v7: "view t' = view t6" using drop_tmps_taken [OF assms(1,2), of t6] v6 steps(7) by auto
  have "view s' = (view t')\<lparr>pg_rows := if n_upserts > 0 then insert_rows c meta us (?M ?rows) else ?M ?rows, pg_tx := Idle\<rparr>"
    using exec_taken(2) [OF assms(1) merge_calls(2) outer(3)] v7 v6 by (simp add: pg_effect_def tx_effect_simps)
  then show ?thesis using us(1) v5 by (simp add: own_rows_def Let_def)
qed

text \<open>Inside of a transaction, the committed rows stay.\<close>

definition keeps_rows :: "('s \<Rightarrow> pg_session) \<Rightarrow> ('s, 'a) pgm \<Rightarrow> bool" where
  "keeps_rows view m \<longleftrightarrow> (\<forall>s. pg_tx (view s) \<noteq> Idle \<longrightarrow>
     pg_rows (view (snd (m s))) = pg_rows (view s) \<and> pg_tx (view (snd (m s))) \<noteq> Idle)"

lemma keeps_pval: "keeps_rows view (pval x)"
  by (simp add: keeps_rows_def pval_def)

lemma keeps_pbind:
  assumes "keeps_rows view m" and "\<And>x. keeps_rows view (f x)"
  shows "keeps_rows view (pbind m f)"
  unfolding keeps_rows_def
proof (intro allI impI)
  fix s assume s: "pg_tx (view s) \<noteq> Idle"
  obtain r t where m: "m s = (r, t)" by (cases "m s")
  have t: "pg_rows (view t) = pg_rows (view s)" "pg_tx (view t) \<noteq> Idle"
    using assms(1) s m unfolding keeps_rows_def by force+
  show "pg_rows (view (snd (pbind m f s))) = pg_rows (view s) \<and> pg_tx (view (snd (pbind m f s))) \<noteq> Idle"
  proof (cases r)
    case (Val x)
    then show ?thesis using assms(2) [of x] t m by (simp add: keeps_rows_def pbind_def)
  qed (use t m in \<open>simp_all add: pbind_def\<close>)
qed

lemma keeps_if: "keeps_rows view m \<Longrightarrow> keeps_rows view n \<Longrightarrow> keeps_rows view (if b then m else n)"
  by simp

definition body_call :: "call \<Rightarrow> bool" where
  "body_call call \<longleftrightarrow> call \<noteq> Execute (lit ''COMMIT'') \<and> call \<noteq> Execute (lit ''ROLLBACK'') \<and> (\<forall>db. call \<noteq> Connect db)"

lemma tx_effect_body:
  assumes "body_call call" and "pg_tx p = Open_Tx M"
  shows "pg_rows (tx_effect c meta call p M) = pg_rows p" "pg_tx (tx_effect c meta call p M) \<noteq> Idle"
  using assms by (cases call; auto simp: tx_effect_def body_call_def split: option.splits)+

lemma body_keeps:
  assumes "answers_fully srv view c meta" and "merge_call meta call" and "body_call call"
  shows "keeps_rows view (exec srv call)" and "keeps_rows view (try_exec srv call)"
proof -
  have step: "pg_rows (view (snd (exec srv call s))) = pg_rows (view s) \<and> pg_tx (view (snd (exec srv call s))) \<noteq> Idle"
    if s: "pg_tx (view s) \<noteq> Idle" for s
  proof -
    obtain r s' where e: "exec srv call s = (r, s')" by (cases "exec srv call s")
    show ?thesis
      using exec_takes [OF assms(1,2) e]
    proof (elim disjE exE conjE)
      fix n assume n: "r = Val n" and acc: "pg_accepts call (view s)" and v: "view s' = pg_effect c meta call (view s)"
      have "pg_tx (view s) \<noteq> Failed_Tx" using acc assms(3) by (auto simp: pg_accepts_def body_call_def)
      then obtain M where M: "pg_tx (view s) = Open_Tx M" using s by (cases "pg_tx (view s)") auto
      show ?thesis using tx_effect_body [OF assms(3) M] M v e by (simp add: pg_effect_def)
    next
      fix x assume "r = Err x" and "view s' = pg_refuse call (view s)"
      then show ?thesis using s e assms(3) by (simp add: pg_refuse_def body_call_def)
    qed
  qed
  then show "keeps_rows view (exec srv call)" unfolding keeps_rows_def by blast
  have "snd (try_exec srv call s) = snd (exec srv call s)" for s
    by (simp add: exec_def try_exec_def split: prod.split reply.split)
  then show "keeps_rows view (try_exec srv call)" using step unfolding keeps_rows_def by simp
qed

lemma body_calls:
  "body_call (Execute (create_delta_sql meta))" "body_call (Execute (create_del_sql meta))"
  "body_call (Execute (delete_sql meta))" "body_call (Execute (build_upsert_sql meta src))"
  "body_call (Execute (drop_tmp_sql tmp))" "body_call (Copy_In sql)" "body_call (Copy_Done b)" "body_call (Query_One sql)"
  by (simp_all add: body_call_def sql_simps)

lemma merge_body_keeps:
  assumes "answers_fully srv view c meta"
  shows "keeps_rows view (pbind (drop_tmps srv meta) (\<lambda>_.
        pbind (create_tmps srv meta) (\<lambda>_.
        pbind (exec srv (Copy_In (copy_delta_sql meta))) (\<lambda>_.
        pbind (exec srv (Copy_Done u)) (\<lambda>_.
        pbind (if n_deletes > 0 then apply_deletes srv meta d debug else pval ()) (\<lambda>_.
        pbind (apply_upserts srv meta n_upserts) (\<lambda>_.
        drop_tmps srv meta)))))))"
  unfolding drop_tmps_def create_tmps_def apply_deletes_def apply_upserts_def drop_tmp_sql_def [symmetric]
    create_delta_sql_def [symmetric] create_del_sql_def [symmetric] count_sql_def [symmetric]
  by (intro keeps_pbind keeps_if keeps_pval body_keeps [OF assms] merge_calls body_calls)

lemma apply_delta_refused:
  assumes "answers_fully srv view c meta" and "own_rows (view s)"
    and "apply_delta srv meta u d n_upserts n_deletes debug s = (r, s')" and "r \<noteq> Val ()"
  shows "pg_rows (view s') = pg_rows (view s) \<and> own_rows (view s')"
proof -
  let ?body = "pbind (drop_tmps srv meta) (\<lambda>_.
        pbind (create_tmps srv meta) (\<lambda>_.
        pbind (exec srv (Copy_In (copy_delta_sql meta))) (\<lambda>_.
        pbind (exec srv (Copy_Done u)) (\<lambda>_.
        pbind (if n_deletes > 0 then apply_deletes srv meta d debug else pval ()) (\<lambda>_.
        pbind (apply_upserts srv meta n_upserts) (\<lambda>_.
        drop_tmps srv meta))))))"
  have run: "transact (exec srv) ?body s = (r, s')" using assms(3) by (simp add: apply_delta_def)
  obtain q t where b: "exec srv (Execute (lit ''BEGIN'')) s = (q, t)" by (cases "exec srv (Execute (lit ''BEGIN'')) s")
  obtain q' t' where m: "?body t = (q', t')" by (cases "?body t")
  have over: "pg_rows (view v) = pg_rows (view t') \<and> own_rows (view v)"
    if "pg_tx (view t') \<noteq> Idle" and "exec srv call t' = (x, v)"
      and "call = Execute (lit ''ROLLBACK'') \<or> call = Execute (lit ''COMMIT'') \<and> \<not> returns x" for call x v
  proof -
    have "merge_call meta call" using that(3) merge_calls by blast
    from exec_takes [OF assms(1) this that(2)] that show ?thesis
      by (cases "pg_tx (view t')") (auto simp: own_rows_def pg_refuse_def pg_effect_def tx_effect_simps)
  qed
  from exec_takes [OF assms(1) merge_calls(1) b] show ?thesis
  proof (elim disjE exE conjE)
    fix e assume "q = Err e" and "view t = pg_refuse (Execute (lit ''BEGIN'')) (view s)"
    then show ?thesis
      using run b assms(2) by (auto simp: transact_def pbind_def pg_refuse_def own_rows_def)
  next
    fix n assume q: "q = Val n" and acc: "pg_accepts (Execute (lit ''BEGIN'')) (view s)"
      and v: "view t = pg_effect c meta (Execute (lit ''BEGIN'')) (view s)"
    have "pg_tx (view s) = Idle"
      using acc assms(2) by (cases "pg_tx (view s)") (auto simp: pg_accepts_def own_rows_def sql_simps)
    then have "pg_rows (view t) = pg_rows (view s)" "pg_tx (view t) \<noteq> Idle" using v by (simp_all add: pg_effect_def)
    then have t': "pg_rows (view t') = pg_rows (view s)" "pg_tx (view t') \<noteq> Idle"
      using merge_body_keeps [OF assms(1), of u n_deletes d debug n_upserts] m unfolding keeps_rows_def by force+
    have "safe r" using apply_delta_safe assms(3) by (metis fst_conv)
    show ?thesis
    proof (cases q')
      case (Val x)
      obtain y v where c: "exec srv (Execute (lit ''COMMIT'')) t' = (y, v)" by (cases "exec srv (Execute (lit ''COMMIT'')) t'")
      have "v = s' \<and> \<not> returns y" using run b q m Val c assms(4) \<open>safe r\<close>
        by (cases y) (auto simp: transact_def pbind_def pval_def)
      then show ?thesis using over [OF t'(2) c] t'(1) by simp
    next
      case (Err e)
      obtain y v where c: "exec srv (Execute (lit ''ROLLBACK'')) t' = (y, v)" by (cases "exec srv (Execute (lit ''ROLLBACK'')) t'")
      have "v = s'" using run b q m Err c by (auto simp: transact_def pbind_def pval_def)
      then show ?thesis using over [OF t'(2) c] t'(1) by simp
    qed (use run b q m \<open>safe r\<close> in \<open>auto simp: transact_def pbind_def pval_def\<close>)
  qed
qed

section \<open>Targets of the change capture\<close>

text \<open>
  What a sink must promise for the rows behind it to become a replica: \<open>content\<close> is those rows,
  \<open>ready\<close> what is true of the sink between two deltas, \<open>carries\<close> which streams it can take.
\<close>

locale replica_target =
  fixes sink :: "'s delta_sink" and content :: "'s \<Rightarrow> bytes \<Rightarrow> bytes option" and ready :: "'s \<Rightarrow> bool"
    and carries :: "bytes \<Rightarrow> bytes \<Rightarrow> bool" and c0 :: table_cache and meta :: merge_meta
  assumes takes: "ready s \<Longrightarrow> carries u d \<Longrightarrow> parse_pgcopy u = Some us \<Longrightarrow> parse_pgcopy d = Some ds \<Longrightarrow>
      \<forall>r \<in> set us. length r = tc_n_fields c0 \<Longrightarrow>
      ds_apply sink meta u d (length us) (length ds) debug s = (r, s') \<Longrightarrow>
      ready s' \<and> content s' = (if r = Val () then put_rows c0 us (cut_rows ds (content s)) else content s)"
    and reconnects: "ready s \<Longrightarrow> ds_reconnect sink s = (q, s') \<Longrightarrow> ready s' \<and> content s' = content s"

lemma put_rows_Nil: "put_rows c [] M = M"
  by (simp add: put_rows_def)

lemma cut_rows_Nil: "cut_rows [] M = M"
  by (simp add: cut_rows_def)

interpretation replica: replica_target "replica_sink c0" id "\<lambda>M. True" "\<lambda>u d. True" c0 meta for c0 meta
  by unfold_locales (auto simp: replica_sink_def replay_def pval_def)

lemma connect_to_keeps:
  assumes "answers_fully srv view c meta" and "own_rows (view s)" and "connect_to srv dbname s = (r, s')"
  shows "own_rows (view s') \<and> pg_rows (view s') = pg_rows (view s)"
proof -
  have step: "own_rows (view t) \<and> pg_rows (view t) = pg_rows (view s)"
    if "own_rows (view s)" and "exec srv call s = (x, t)" and "call = Connect dbname \<or> call = Batch session_sql" for call s x t
  proof -
    have "merge_call meta call" using that(3) merge_calls by blast
    from exec_takes [OF assms(1) this that(2)] that(1,3) show ?thesis
      by (cases "pg_tx (view s)") (auto simp: own_rows_def pg_refuse_def pg_effect_def tx_effect_def pg_accepts_def Let_def)
  qed
  obtain x t where c: "exec srv (Connect dbname) s = (x, t)" by (cases "exec srv (Connect dbname) s")
  note t = step [OF assms(2) c]
  obtain y v where b: "exec srv (Batch session_sql) t = (y, v)" by (cases "exec srv (Batch session_sql) t")
  have "own_rows (view t)" using t by simp
  from step [OF this b] show ?thesis
    using assms(3) t c b by (auto simp: connect_to_def pbind_def pval_def split: run.splits)
qed

text \<open>
  Where every column is in the key, the insertion keeps the rows it finds, which is the same: they
  are the rows that it would put there.
\<close>

definition small_field :: "bytes option \<Rightarrow> bool" where
  "small_field f \<longleftrightarrow> (case f of None \<Rightarrow> True | Some p \<Rightarrow> length p < 2 ^ 32 - 1)"

lemma parse_encode_small: "small_field f \<Longrightarrow> parse_field (encode_field f @ rest) = Some (f, rest)"
proof (cases f)
  case None
  then show ?thesis by (simp add: parse_field_def null_field_bytes be_nat_def)
next
  case (Some p)
  assume "small_field f"
  with Some have "be_nat (be_bytes 4 (length p)) = length p" "length p \<noteq> 2 ^ 32 - 1"
    by (auto simp: small_field_def intro!: be_nat_be_bytes_id)
  with Some show ?thesis by (simp add: parse_field_def len_field_def)
qed

lemma encode_small_eq:
  assumes "encode_field f @ a = encode_field g @ b" and "small_field f" and "small_field g"
  shows "f = g \<and> a = b"
proof -
  have "parse_field (encode_field g @ b) = Some (f, a)"
    using parse_encode_small [OF assms(2), of a] unfolding assms(1) .
  then show ?thesis unfolding parse_encode_small [OF assms(3)] by simp
qed

lemma parse_field_small:
  assumes "parse_field bs = Some (f, rest)"
  shows "small_field f"
proof (cases f)
  case (Some p)
  have len: "4 \<le> length bs" using assms by (auto simp: parse_field_def split: if_splits)
  then have n: "be_nat (take 4 bs) < 2 ^ 32" using be_nat_bound [of "take 4 bs"] by simp
  have "be_nat (take 4 bs) \<noteq> 2 ^ 32 - 1 \<and> length p = be_nat (take 4 bs)"
    using assms Some by (auto simp: parse_field_def Let_def split: if_splits)
  then show ?thesis using n Some unfolding small_field_def by simp
qed (simp add: small_field_def)

lemma parse_fields_small: "parse_fields n bs = Some (r, rest) \<Longrightarrow> list_all small_field r"
  by (induction n bs arbitrary: r rest rule: parse_fields.induct)
    (auto split: option.splits dest: parse_field_small)

lemma parse_rows_small: "parse_rows bs = Some rows \<Longrightarrow> \<forall>r \<in> set rows. list_all small_field r"
proof (induction bs arbitrary: rows rule: parse_rows.induct)
  case (1 bs)
  have step: "parse_rows bs = (if length bs < 2 then None
      else if be_nat (take 2 bs) = 65535 then (if length bs = 2 then Some [] else None)
      else case parse_fields (be_nat (take 2 bs)) (drop 2 bs) of
          None \<Rightarrow> None
        | Some (r, rest) \<Rightarrow> map_option (Cons r) (parse_rows rest))"
    by (rule parse_rows.simps)
  show ?case
    using 1 step by (auto split: if_splits option.splits dest: parse_fields_small)
qed

definition key_only :: "table_cache \<Rightarrow> bool" where
  "key_only c \<longleftrightarrow> (\<forall>i. Some i \<in> set (tc_pk_indices c) \<longleftrightarrow> i < tc_n_fields c)"

definition keyed_rows :: "table_cache \<Rightarrow> (bytes \<Rightarrow> bytes option) \<Rightarrow> bool" where
  "keyed_rows c M \<longleftrightarrow> (\<forall>k b. M k = Some b \<longrightarrow>
     (\<exists>r. length r = tc_n_fields c \<and> list_all small_field r \<and> k = row_key c r \<and> b = row_bytes r))"

lemma concat_key_eq:
  assumes "concat (map (\<lambda>i. case i of Some i \<Rightarrow> encode_field (r ! i) | None \<Rightarrow> []) ixs) =
      concat (map (\<lambda>i. case i of Some i \<Rightarrow> encode_field (r' ! i) | None \<Rightarrow> []) ixs)"
    and "\<And>i. Some i \<in> set ixs \<Longrightarrow> small_field (r ! i) \<and> small_field (r' ! i)" and "Some i \<in> set ixs"
  shows "r ! i = r' ! i"
  using assms
proof (induction ixs)
  case (Cons ix ixs)
  show ?case
  proof (cases ix)
    case None
    then show ?thesis using Cons by simp
  next
    case (Some j)
    have "r ! j = r' ! j \<and> concat (map (\<lambda>i. case i of Some i \<Rightarrow> encode_field (r ! i) | None \<Rightarrow> []) ixs) =
        concat (map (\<lambda>i. case i of Some i \<Rightarrow> encode_field (r' ! i) | None \<Rightarrow> []) ixs)"
      using Cons.prems(1,2) Some by (intro encode_small_eq) auto
    then show ?thesis using Cons Some by auto
  qed
qed simp

lemma row_key_determines:
  assumes "key_only c" and "row_key c r = row_key c r'" and "length r = tc_n_fields c" and "length r' = tc_n_fields c"
    and "list_all small_field r" and "list_all small_field r'"
  shows "r = r'"
proof (rule nth_equalityI)
  fix i assume "i < length r"
  then have "Some i \<in> set (tc_pk_indices c)" using assms(1,3) by (simp add: key_only_def)
  moreover have "small_field (r ! i) \<and> small_field (r' ! i)" if "Some i \<in> set (tc_pk_indices c)" for i
    using that assms(1,3-6) by (simp add: list_all_length key_only_def)
  ultimately show "r ! i = r' ! i" using concat_key_eq [of r "tc_pk_indices c" r' i] assms(2) by (simp add: row_key_def)
qed (simp add: assms)

lemma keep_is_put:
  assumes "key_only c"
  shows "keyed_rows c M \<Longrightarrow> \<forall>r \<in> set rows. length r = tc_n_fields c \<and> list_all small_field r \<Longrightarrow>
    keep_rows c rows M = put_rows c rows M \<and> keyed_rows c (put_rows c rows M)"
proof (induction rows arbitrary: M)
  case Nil
  then show ?case by (simp add: keep_rows_def put_rows_def)
next
  case (Cons r rows)
  have r: "length r = tc_n_fields c" "list_all small_field r" using Cons.prems(2) by simp_all
  let ?M = "M(row_key c r \<mapsto> row_bytes r)"
  have keyed: "keyed_rows c ?M" using Cons.prems(1) r by (auto simp: keyed_rows_def)
  have same: "(if M (row_key c r) = None then ?M else M) = ?M"
  proof (cases "M (row_key c r)")
    case (Some b)
    then obtain q where q: "length q = tc_n_fields c" "list_all small_field q" "row_key c r = row_key c q" "b = row_bytes q"
      using Cons.prems(1) unfolding keyed_rows_def by blast
    have "r = q" by (rule row_key_determines [OF assms(1) q(3) r(1) q(1) r(2) q(2)])
    then have "?M = M" using Some q(4) by (intro ext) simp
    then show ?thesis using Some by simp
  qed simp
  have "\<forall>r \<in> set rows. length r = tc_n_fields c \<and> list_all small_field r" using Cons.prems(2) by simp
  from Cons.IH [OF keyed this] show ?case
    by (simp only: keep_rows_def put_rows_def fold.simps o_apply same)
qed

lemma cut_keyed: "keyed_rows c M \<Longrightarrow> keyed_rows c (cut_rows ds M)"
  by (auto simp: keyed_rows_def cut_rows_def)

definition pg_ready :: "table_cache \<Rightarrow> merge_meta \<Rightarrow> pg_session \<Rightarrow> bool" where
  "pg_ready c meta p \<longleftrightarrow> own_rows p \<and> (updates meta \<or> keyed_rows c (pg_rows p))"

lemma merge_replays:
  assumes "answers_fully srv view c0 meta" and "drops_tmps srv view meta" and "updates meta \<or> key_only c0"
    and "pg_ready c0 meta (view s)" and "parse_pgcopy u = Some us" and "parse_pgcopy d = Some ds"
    and "\<forall>r \<in> set us. length r = tc_n_fields c0" and "apply_delta srv meta u d (length us) (length ds) debug s = (r, s')"
  shows "pg_ready c0 meta (view s') \<and>
    pg_rows (view s') = (if r = Val () then put_rows c0 us (cut_rows ds (pg_rows (view s))) else pg_rows (view s))"
proof -
  have own: "own_rows (view s)" using assms(4) by (simp add: pg_ready_def)
  show ?thesis
  proof (cases "r = Val ()")
    case True
    let ?cut = "cut_rows ds (pg_rows (view s))"
    have small: "\<forall>r \<in> set us. length r = tc_n_fields c0 \<and> list_all small_field r"
      using assms(5,7) parse_rows_small by (auto simp: parse_pgcopy_def split: if_splits)
    have ins: "insert_rows c0 meta us ?cut = put_rows c0 us ?cut \<and> (updates meta \<or> keyed_rows c0 (put_rows c0 us ?cut))"
      using keep_is_put [OF _ cut_keyed small] assms(3,4) by (auto simp: insert_rows_def pg_ready_def)
    have nil: "insert_rows c0 meta [] M = M" for M by (simp add: insert_rows_def put_rows_def keep_rows_def)
    from apply_delta_replays [OF assms(1,2) own assms(8) [unfolded True]]
    have "own_rows (view s') \<and> pg_rows (view s') = insert_rows c0 meta us ?cut"
      using assms(5,6) by (cases us; cases ds) (auto simp: nil cut_rows_Nil)
    then show ?thesis using ins True by (simp add: pg_ready_def)
  next
    case False
    then show ?thesis using apply_delta_refused [OF assms(1) own assms(8)] assms(4) by (simp add: pg_ready_def)
  qed
qed

lemma pg_ready_kept: "pg_ready c meta p \<Longrightarrow> own_rows q \<and> pg_rows q = pg_rows p \<Longrightarrow> pg_ready c meta q \<and> pg_rows q = pg_rows p"
  by (simp add: pg_ready_def)

lemma local_target:
  assumes "answers_fully srv view c0 meta" and "drops_tmps srv view meta" and "updates meta \<or> key_only c0"
  shows "replica_target (local_sink srv dbname) (\<lambda>s. pg_rows (view s)) (\<lambda>s. pg_ready c0 meta (view s)) (\<lambda>u d. True) c0 meta"
proof
  fix s u d us ds debug r s'
  assume "pg_ready c0 meta (view s)" "parse_pgcopy u = Some us" "parse_pgcopy d = Some ds"
    "\<forall>r \<in> set us. length r = tc_n_fields c0"
    "ds_apply (local_sink srv dbname) meta u d (length us) (length ds) debug s = (r, s')"
  then show "pg_ready c0 meta (view s') \<and>
      pg_rows (view s') = (if r = Val () then put_rows c0 us (cut_rows ds (pg_rows (view s))) else pg_rows (view s))"
    by (intro merge_replays [OF assms]) (simp_all add: local_sink_def)
next
  fix s q s'
  assume ready: "pg_ready c0 meta (view s)" and run: "ds_reconnect (local_sink srv dbname) s = (q, s')"
  have "own_rows (view s') \<and> pg_rows (view s') = pg_rows (view s)"
    using connect_to_keeps [OF assms(1), of s dbname q s'] ready run by (simp add: local_sink_def pg_ready_def)
  then show "pg_ready c0 meta (view s') \<and> pg_rows (view s') = pg_rows (view s)" by (rule pg_ready_kept [OF ready])
qed

section \<open>The gateway as a target\<close>

lemma plain_exec_keeps:
  assumes "answers_fully srv view c meta" and "merge_call meta call" and "own_rows (view s)" and "exec srv call s = (r, s')"
    and "(\<exists>db. call = Connect db) \<or> call = Batch session_sql \<or> (\<exists>db. call = Execute (lit ''CREATE DATABASE '' @ db))"
  shows "own_rows (view s') \<and> pg_rows (view s') = pg_rows (view s)"
proof -
  have create: "lit ''CREATE DATABASE '' @ db \<noteq> lit ''BEGIN''" "lit ''CREATE DATABASE '' @ db \<noteq> lit ''COMMIT''"
    "lit ''CREATE DATABASE '' @ db \<noteq> lit ''ROLLBACK''" "lit ''CREATE DATABASE '' @ db \<noteq> create_delta_sql meta"
    "lit ''CREATE DATABASE '' @ db \<noteq> create_del_sql meta" "lit ''CREATE DATABASE '' @ db \<noteq> delete_sql meta"
    "lit ''CREATE DATABASE '' @ db \<noteq> build_upsert_sql meta src" for db src
    by (simp_all add: create_delta_sql_def create_del_sql_def delete_sql_def build_upsert_sql_def Let_def lit_simps)
  from exec_takes [OF assms(1,2,4)] assms(3,5) show ?thesis
    by (cases "pg_tx (view s)")
      (auto simp: own_rows_def pg_refuse_def pg_effect_def tx_effect_def pg_accepts_def Let_def create)
qed

lemma connect_db_keeps:
  assumes "answers_fully srv view c meta" and "own_rows (view s)" and "connect_db srv dbname s = (r, s')"
  shows "own_rows (view s') \<and> pg_rows (view s') = pg_rows (view s)" and "safe r"
proof -
  let ?create = "Execute (lit ''CREATE DATABASE '' @ quoted dbname)"
  obtain r1 s1 where e1: "exec srv (Connect (lit ''postgres'')) s = (r1, s1)" by (cases "exec srv (Connect (lit ''postgres'')) s")
  obtain r2 s2 where e2: "exec srv ?create s1 = (r2, s2)" by (cases "exec srv ?create s1")
  obtain r3 s3 where e3: "exec srv (Connect dbname) s2 = (r3, s3)" by (cases "exec srv (Connect dbname) s2")
  obtain r4 s4 where e4: "exec srv (Batch session_sql) s3 = (r4, s4)" by (cases "exec srv (Batch session_sql) s3")
  have k1: "own_rows (view s1) \<and> pg_rows (view s1) = pg_rows (view s)"
    by (rule plain_exec_keeps [OF assms(1) merge_calls(16) assms(2) e1]) simp
  have k2: "own_rows (view s2) \<and> pg_rows (view s2) = pg_rows (view s1)"
    by (rule plain_exec_keeps [OF assms(1) merge_calls(10) conjunct1 [OF k1] e2]) blast
  have k3: "own_rows (view s3) \<and> pg_rows (view s3) = pg_rows (view s2)"
    by (rule plain_exec_keeps [OF assms(1) merge_calls(16) conjunct1 [OF k2] e3]) simp
  have k4: "own_rows (view s4) \<and> pg_rows (view s4) = pg_rows (view s3)"
    by (rule plain_exec_keeps [OF assms(1) merge_calls(17) conjunct1 [OF k3] e4]) simp
  have srv2: "snd (srv s1 ?create) = s2" using exec_prefix(1) [OF e2] by simp
  have r: "(\<exists>n. q = Val n) \<or> (\<exists>e. q = Err e)" if "exec srv call u = (q, v)" for call u q v
    by (rule exec_prefix(2) [OF that])
  have "s' \<in> {s1, s2, s3, s4} \<and> safe r"
    using assms(3) e1 e3 e4 srv2 r [OF e1] r [OF e3] r [OF e4]
    by (auto simp: connect_db_def pbind_def pval_def Let_def split: prod.splits reply.splits if_splits)
  then show "own_rows (view s') \<and> pg_rows (view s') = pg_rows (view s)" "safe r" using k1 k2 k3 k4 by auto
qed

lemma remote_connect_fails:
  assumes "enc_delta \<lparr>dh_table = mm_pg_table meta, dh_cols_csv = mm_cols_csv meta, dh_pk_csv = mm_pk_csv meta,
      dh_pk_col_names = mm_pk_col_names meta, dh_n_upserts = n_upserts, dh_n_deletes = n_deletes\<rparr> = Some j"
    and "gw_dec_delta gw j = Some h" and "length j < 2 ^ 32"
    and "tenant = Val cn" and "gw_tenants gw cn = Some dbname" and "connect_db (gw_srv gw) dbname s = (Err e, s1)"
    and "gw_enc_resp gw (resp_err (gw_show gw e)) = Some k" and "dec_resp k = Some (resp_err (gw_show gw e))" and "length k < 2 ^ 32"
  shows "remote_apply_delta enc_delta dec_resp (Val ()) (gateway_exchange gw tenant) meta u d n_upserts n_deletes s =
    (Err (SinkError (gw_show gw e)), s1)"
proof -
  obtain out where out: "write_response (gw_enc_resp gw) (resp_err (gw_show gw e)) = Val out"
    "read_reply dec_resp out = Err (SinkError (gw_show gw e))"
    using read_reply_written [of "gw_enc_resp gw" "resp_err (gw_show gw e)" k dec_resp] assms(7-9) by (auto simp: resp_err_def)
  have "handle_delta gw j dbname (s, b) = (Err e, (s1, b))" for b
    using assms(2,6) by (simp add: handle_delta_def pbind_def of_run_def srv_part_def)
  then have "gateway_exchange gw tenant (write_request_header Delta j @ write_u32_prefixed u @ write_u32_prefixed d) s = (out, s1)"
    using out(1) assms(3-5) by (simp add: gateway_exchange_def handle_conn_def read_written_request)
  then show ?thesis using assms(1) out(2) by (simp add: remote_apply_delta_def pbind_def of_run_def)
qed

text \<open>Errors and counts below \<open>2 ^ 32\<close> come back as they were sent.\<close>

definition answers_read_back :: "'s gateway \<Rightarrow> (bytes \<Rightarrow> resp option) \<Rightarrow> bool" where
  "answers_read_back gw dec_resp \<longleftrightarrow>
     (\<forall>e. \<exists>k. gw_enc_resp gw (resp_err (gw_show gw e)) = Some k \<and> dec_resp k = Some (resp_err (gw_show gw e)) \<and> length k < 2 ^ 32) \<and>
     (\<forall>a b. a < 2 ^ 32 \<and> b < 2 ^ 32 \<longrightarrow>
        (\<exists>k. gw_enc_resp gw \<lparr>r_error = None, r_rows = 0, r_upserts = a, r_deletes = b\<rparr> = Some k \<and>
           dec_resp k = Some \<lparr>r_error = None, r_rows = 0, r_upserts = a, r_deletes = b\<rparr> \<and> length k < 2 ^ 32))"

lemma parse_rows_length: "parse_rows bs = Some rows \<Longrightarrow> length rows \<le> length bs"
proof (induction bs arbitrary: rows rule: parse_rows.induct)
  case (1 bs)
  have step: "parse_rows bs = (if length bs < 2 then None
      else if be_nat (take 2 bs) = 65535 then (if length bs = 2 then Some [] else None)
      else case parse_fields (be_nat (take 2 bs)) (drop 2 bs) of
          None \<Rightarrow> None
        | Some (r, rest) \<Rightarrow> map_option (Cons r) (parse_rows rest))"
    by (rule parse_rows.simps)
  show ?case
    using 1 step by (fastforce split: if_splits option.splits dest: parse_fields_shorter)
qed

lemma parse_pgcopy_length: "parse_pgcopy bs = Some rows \<Longrightarrow> length rows \<le> length bs"
  using parse_rows_length [of "drop 19 bs" rows] by (simp add: parse_pgcopy_def split: if_splits)

lemma remote_target:
  assumes "answers_fully (gw_srv gw) view c0 meta" and "drops_tmps (gw_srv gw) view meta" and "updates meta \<or> key_only c0"
    and "\<And>h k. enc_delta h = Some k \<Longrightarrow> gw_dec_delta gw k = Some h \<and> length k < 2 ^ 32"
    and "answers_read_back gw dec_resp"
    and "to_lowercase (gw_lc gw) (mm_pg_table meta) = mm_pg_table meta"
    and "tenant = Val cn" and "gw_tenants gw cn = Some dbname"
  shows "replica_target (remote_sink enc_delta dec_resp dial (gateway_exchange gw tenant)) (\<lambda>s. pg_rows (view s))
    (\<lambda>s. pg_ready c0 meta (view s)) (\<lambda>u d. length u < 2 ^ 32 \<and> length d < 2 ^ 32) c0 meta"
proof
  fix s u d us ds debug r s'
  assume ready: "pg_ready c0 meta (view s)" and size: "length u < 2 ^ 32 \<and> length d < 2 ^ 32"
    and parsed: "parse_pgcopy u = Some us" "parse_pgcopy d = Some ds" and len: "\<forall>r \<in> set us. length r = tc_n_fields c0"
    and "ds_apply (remote_sink enc_delta dec_resp dial (gateway_exchange gw tenant)) meta u d (length us) (length ds) debug s = (r, s')"
  then have run: "remote_apply_delta enc_delta dec_resp (dial s) (gateway_exchange gw tenant) meta u d (length us) (length ds) s = (r, s')"
    by (simp add: remote_sink_def)
  let ?h = "\<lparr>dh_table = mm_pg_table meta, dh_cols_csv = mm_cols_csv meta, dh_pk_csv = mm_pk_csv meta,
      dh_pk_col_names = mm_pk_col_names meta, dh_n_upserts = length us, dh_n_deletes = length ds\<rparr>"
  show "pg_ready c0 meta (view s') \<and>
      pg_rows (view s') = (if r = Val () then put_rows c0 us (cut_rows ds (pg_rows (view s))) else pg_rows (view s))"
  proof (cases "dial s = Val () \<and> enc_delta ?h \<noteq> None")
    case False
    then have "s' = s \<and> r \<noteq> Val ()"
      using run by (cases "dial s") (auto simp: remote_apply_delta_def pbind_def of_run_def)
    then show ?thesis using ready by simp
  next
    case True
    then obtain j where j: "dial s = Val ()" "enc_delta ?h = Some j" by blast
    have e: "gw_dec_delta gw j = Some ?h" "length j < 2 ^ 32" using assms(4) [OF j(2)] by simp_all
    obtain q s1 where conn: "connect_db (gw_srv gw) dbname s = (q, s1)" by (cases "connect_db (gw_srv gw) dbname s")
    have own: "own_rows (view s)" using ready by (simp add: pg_ready_def)
    note kept = pg_ready_kept [OF ready connect_db_keeps(1) [OF assms(1) own conn]]
    from connect_db_keeps(2) [OF assms(1) own conn] consider "q = Val ()" | x where "q = Err x" by (cases q) auto
    then show ?thesis
    proof cases
      case 1
      obtain x s2 where merge: "apply_delta (gw_srv gw) meta u d (length us) (length ds) False s1 = (x, s2)"
        by (cases "apply_delta (gw_srv gw) meta u d (length us) (length ds) False s1")
      let ?answer = "case x of Err e \<Rightarrow> resp_err (gw_show gw e)
        | _ \<Rightarrow> \<lparr>r_error = None, r_rows = 0, r_upserts = length us, r_deletes = length ds\<rparr>"
      have "length us < 2 ^ 32" "length ds < 2 ^ 32" using parsed size parse_pgcopy_length by fastforce+
      then have "\<exists>k. gw_enc_resp gw ?answer = Some k \<and> dec_resp k = Some ?answer \<and> length k < 2 ^ 32"
        using assms(5) unfolding answers_read_back_def by (cases x) simp_all
      then obtain k where k: "gw_enc_resp gw ?answer = Some k" "dec_resp k = Some ?answer" "length k < 2 ^ 32" by blast
      have "(r, s') = ((case x of Err e \<Rightarrow> Err (SinkError (gw_show gw e)) | _ \<Rightarrow> Val ()), s2)"
        using run remote_apply_is_local [where enc_delta = enc_delta and dec_resp = dec_resp and gw = gw and meta = meta and u = u and d = d and s = s and tenant = tenant and 
          r = x and answer = ?answer and ?s1.0 = s1, OF j(2) e conjunct1 [OF size] conjunct2 [OF size] assms(6-8) conn [unfolded 1] merge refl k] j(1)
        by simp
      moreover have "safe x" using apply_delta_safe merge by (metis fst_conv)
      ultimately have "s' = s2 \<and> (r = Val () \<longleftrightarrow> x = Val ())" by (cases x) auto
      then show ?thesis
        using merge_replays [OF assms(1-3) conjunct1 [OF kept] parsed len merge] kept by simp
    next
      case 2
      obtain k where k: "gw_enc_resp gw (resp_err (gw_show gw x)) = Some k" "dec_resp k = Some (resp_err (gw_show gw x))"
        "length k < 2 ^ 32"
        using assms(5) unfolding answers_read_back_def by blast
      from remote_connect_fails [where enc_delta = enc_delta and dec_resp = dec_resp and gw = gw and meta = meta and
          s = s and e = x, OF j(2) e assms(7,8) conn [unfolded 2] k] run j(1) kept show ?thesis by auto
    qed
  qed
next
  fix s q s'
  assume "pg_ready c0 meta (view s)" "ds_reconnect (remote_sink enc_delta dec_resp dial (gateway_exchange gw tenant)) s = (q, s')"
  then show "pg_ready c0 meta (view s') \<and> pg_rows (view s') = pg_rows (view s)" by (simp add: remote_sink_def pval_def)
qed

section \<open>Runs with a target\<close>

text \<open>
  The turns of one table with a sink: a synchronisation may succeed or fail, and the sink may be
  connected again at any time. The first argument is the file and the cache at the last success;
  the cache of the next turn differs from it when a failed turn has read the pages again.
\<close>

inductive captures ::
    "(nat \<Rightarrow> str) \<Rightarrow> (str \<Rightarrow> str) \<Rightarrow> str \<Rightarrow> str list \<Rightarrow> bool \<Rightarrow> 's delta_sink \<Rightarrow> (bytes \<Rightarrow> bytes \<Rightarrow> bool) \<Rightarrow> table_cache \<Rightarrow> 's \<Rightarrow>
     (ods \<times> table_cache) option \<Rightarrow> (nat \<Rightarrow> nat option) \<Rightarrow> table_cache \<Rightarrow> 's \<Rightarrow> bool"
  for uc lc table pk_fields debug sink carries c0 s0
where
  begin_run: "captures uc lc table pk_fields debug sink carries c0 s0 None Map.empty c0 s0"
| took: "captures uc lc table pk_fields debug sink carries c0 s0 prior gens c s \<Longrightarrow>
    refresh_pages db c = Val (Some (c1, refreshed)) \<Longrightarrow> clean_pass db c1 last_txn gens \<Longrightarrow>
    case prior of
      None \<Rightarrow> \<forall>n \<in> set (tc_data_pages c1). \<forall>(txn, k, r) \<in> set (page_live db c1 n). last_txn < txn
    | Some (db0, cl) \<Rightarrow> evolves db0 cl db c1 last_txn \<Longrightarrow>
    \<forall>so. scan_changes_into db c1 last_txn gens = Val so \<longrightarrow> carries (so_upsert_out so) (so_delete_buf so) \<Longrightarrow>
    sync_table uc lc db sink table last_txn pk_fields gens (Some c) None debug s = (Val stats, gens', Some c', s') \<Longrightarrow>
    captures uc lc table pk_fields debug sink carries c0 s0 (Some (db, c')) gens' c' s'"
| failed: "captures uc lc table pk_fields debug sink carries c0 s0 prior gens c s \<Longrightarrow>
    \<forall>c1 refreshed so. refresh_pages db c = Val (Some (c1, refreshed)) \<longrightarrow> scan_changes_into db c1 last_txn gens = Val so \<longrightarrow> carries (so_upsert_out so) (so_delete_buf so) \<Longrightarrow>
    sync_table uc lc db sink table last_txn pk_fields gens (Some c) None debug s = (Err e, gens', Some c', s') \<Longrightarrow>
    captures uc lc table pk_fields debug sink carries c0 s0 prior gens' c' s'"
| connected: "captures uc lc table pk_fields debug sink carries c0 s0 prior gens c s \<Longrightarrow>
    ds_reconnect sink s = (q, s') \<Longrightarrow>
    captures uc lc table pk_fields debug sink carries c0 s0 prior gens c s'"

text \<open>Caches of one table.\<close>

definition same_table :: "table_cache \<Rightarrow> table_cache \<Rightarrow> bool" where
  "same_table c c' \<longleftrightarrow> same_rows c c' \<and> tc_col_names c' = tc_col_names c \<and> tc_pk_col_names c' = tc_pk_col_names c"

lemma same_table_refresh:
  assumes "refresh_pages db c = Val (Some (c1, refreshed))" and "same_table c0 c"
  shows "same_table c0 c1"
  using assms(2) refresh_fields [OF assms(1)] by (simp add: same_table_def same_rows_def)

lemma same_table_settle: "same_table c0 c \<Longrightarrow> same_table c0 (settle_cache refreshed so c)"
  by (simp add: same_table_def same_rows_def settle_cache_def Let_def)

lemma same_table_meta: "same_table c0 c \<Longrightarrow> table_meta lc table c = table_meta lc table c0"
  by (simp add: same_table_def table_meta_def)

context replica_target
begin

lemma hand_over_target:
  assumes "ready s" and "meta = table_meta lc table c0" and "same_table c0 c" and "good_cache c" and "valid_snapshot c (tc_prev_pks c)"
    and "scan_changes_into db c last_txn gens = Val so" and "carries (so_upsert_out so) (so_delete_buf so)"
    and "hand_over lc sink table debug c so s = (r, s')"
  shows "ready s'" and "r \<noteq> Val () \<Longrightarrow> content s' = content s"
    and "r = Val () \<Longrightarrow> replay c (so_upsert_out so) (so_delete_buf so) (content s) = Some (content s')"
proof -
  obtain us ds where parsed: "parse_pgcopy (so_upsert_out so) = Some us" "length us = so_upserts so"
    "parse_pgcopy (so_delete_buf so) = Some ds" "length ds = so_deletes so" "\<forall>r \<in> set us. length r = tc_n_fields c0"
    using scan_streams [OF assms(4-6)] assms(3) by (auto simp: same_table_def same_rows_def)
  have key: "put_rows c us M = put_rows c0 us M" for M
    using same_rows_facts(7) [of c0 c] assms(3) by (simp add: put_rows_def same_table_def)
  have "ready s' \<and> (r \<noteq> Val () \<longrightarrow> content s' = content s) \<and>
      (r = Val () \<longrightarrow> replay c (so_upsert_out so) (so_delete_buf so) (content s) = Some (content s'))"
  proof (cases "so_upserts so > 0 \<or> so_deletes so > 0")
    case True
    then have "ds_apply sink meta (so_upsert_out so) (so_delete_buf so) (length us) (length ds) debug s = (r, s')"
      using assms(8) parsed same_table_meta [OF assms(3)] by (simp add: hand_over_def assms(2))
    from takes [OF assms(1,7) parsed(1,3,5) this] show ?thesis using parsed key by (auto simp: replay_def)
  next
    case False
    then show ?thesis using assms(1,8) parsed by (simp add: hand_over_def pval_def replay_def put_rows_Nil cut_rows_Nil)
  qed
  then show "ready s'" "r \<noteq> Val () \<Longrightarrow> content s' = content s"
    "r = Val () \<Longrightarrow> replay c (so_upsert_out so) (so_delete_buf so) (content s) = Some (content s')" by blast+
qed

text \<open>What holds after each turn.\<close>

definition tracks :: "(ods \<times> table_cache) option \<Rightarrow> (nat \<Rightarrow> nat option) \<Rightarrow> table_cache \<Rightarrow> 's \<Rightarrow> bool" where
  "tracks prior gens c s \<longleftrightarrow> ready s \<and> same_table c0 c \<and> good_cache c \<and> valid_snapshot c (tc_prev_pks c) \<and>
     dom (content s) = set (keys_of (tc_pk_byte_len c) (tc_prev_pks c)) \<and>
     (case prior of
        None \<Rightarrow> gens = Map.empty \<and> tc_prev_pks c = [] \<and> content s = Map.empty
      | Some (db, cl) \<Rightarrow> in_step db cl gens (content s) \<and> same_rows cl c \<and> tc_prev_pks c = tc_prev_pks cl)"

lemma tracks_facts:
  assumes "tracks prior gens c s"
  shows "ready s" "same_table c0 c" "good_cache c" "valid_snapshot c (tc_prev_pks c)"
    "dom (content s) = set (keys_of (tc_pk_byte_len c) (tc_prev_pks c))"
  using assms unfolding tracks_def by blast+

lemma tracks_took:
  assumes "tracks prior gens c s" and "meta = table_meta lc table c0"
    and "refresh_pages db c = Val (Some (c1, refreshed))" and "clean_pass db c1 last_txn gens"
    and "case prior of
      None \<Rightarrow> \<forall>n \<in> set (tc_data_pages c1). \<forall>(txn, k, r) \<in> set (page_live db c1 n). last_txn < txn
    | Some (db0, cl) \<Rightarrow> evolves db0 cl db c1 last_txn"
    and "\<forall>so. scan_changes_into db c1 last_txn gens = Val so \<longrightarrow> carries (so_upsert_out so) (so_delete_buf so)"
    and "sync_table uc lc db sink table last_txn pk_fields gens (Some c) None debug s = (Val stats, gens', Some c', s')"
  shows "tracks (Some (db, c')) gens' c' s'"
proof -
  note t = tracks_facts [OF assms(1)]
  have "sync_cached lc sink db table last_txn gens c debug s = (Val stats, gens', Some c', s')"
    using assms(7) by (simp add: sync_table_def)
  then obtain so where so: "scan_changes_into db c1 last_txn gens = Val so" "hand_over lc sink table debug c1 so s = (Val (), s')"
    and after: "stats = stats_of so" "gens' = settle_gens refreshed (tc_data_pages c1) so gens" "c' = settle_cache refreshed so c1"
    using sync_cached_Val [of lc sink db table last_txn gens c debug s stats gens' "Some c'" s'] assms(3) by auto
  note same = refresh_same_rows [OF assms(3)]
  have prev: "tc_prev_pks c1 = tc_prev_pks c" using refresh_fields [OF assms(3)] by simp
  have table: "same_table c0 c1" by (rule same_table_refresh [OF assms(3) t(2)])
  have good: "good_cache c1" "valid_snapshot c1 (tc_prev_pks c1)" using t(3,4) by (simp_all add: same_rows_facts [OF same] prev)
  note over = hand_over_target [OF t(1) assms(2) table good so(1) assms(6) [rule_format, OF so(1)] so(2)]
  have handed: "hand_over lc (replica_sink c) table debug c1 so (content s) = (Val (), content s')"
    by (rule hand_over_replica [OF good so(1) over(3) same]) simp
  then have sync: "sync_table uc lc db (replica_sink c) table last_txn pk_fields gens (Some c) None debug (content s) =
      (Val stats, gens', Some c', content s')"
    using assms(3) so(1) after by (simp add: sync_table_def sync_cached_def)
  have S: "0 < tc_pk_byte_len c1" using assms(4) by (simp add: clean_pass_def)
  have "in_step db c' gens' (content s')"
  proof (rule sync_replica [OF assms(3) t(3,4) assms(4) _ t(5) sync])
    fix so' assume scan: "scan_changes_into db c1 last_txn gens = Val so'"
    show "snapshot_fits db c1 gens \<and> knows_old_rows db c1 last_txn gens (content s) \<and>
      (\<forall>n. gens n \<noteq> None \<longrightarrow> n \<in> set (tc_data_pages c1) \<and> is_data_page db n)"
    proof (cases prior)
      case None
      then have start: "gens = Map.empty" "tc_prev_pks c = []" "content s = Map.empty"
        using assms(1) by (simp_all add: tracks_def)
      show ?thesis using first_pass [of db c1 last_txn so'] scan S prev assms(5) None start by simp
    next
      case (Some p)
      obtain db0 cl where p: "p = (db0, cl)" by (cases p)
      have "in_step db0 cl gens (content s)" "same_rows cl c" "tc_prev_pks c = tc_prev_pks cl"
        using assms(1) Some p by (simp_all add: tracks_def)
      then show ?thesis
        using evolved_pass [OF _ _ same_rows_trans [OF _ same] _ S scan] assms(5) Some p prev by simp
    qed
  qed
  then show ?thesis
    using over(1) same_table_settle [OF table] in_step_facts(6-8)
    by (auto simp: tracks_def after(3) same_rows_def)
qed

lemma tracks_failed:
  assumes "tracks prior gens c s" and "meta = table_meta lc table c0"
    and "\<forall>c1 refreshed so. refresh_pages db c = Val (Some (c1, refreshed)) \<longrightarrow>
      scan_changes_into db c1 last_txn gens = Val so \<longrightarrow> carries (so_upsert_out so) (so_delete_buf so)"
    and "sync_table uc lc db sink table last_txn pk_fields gens (Some c) None debug s = (Err e, gens', Some c', s')"
  shows "tracks prior gens' c' s'"
proof -
  note t = tracks_facts [OF assms(1)]
  have sync: "sync_cached lc sink db table last_txn gens c debug s = (Err e, gens', Some c', s')"
    using assms(4) by (simp add: sync_table_def)
  show ?thesis
  proof (cases "\<exists>c1 refreshed. refresh_pages db c = Val (Some (c1, refreshed))")
    case False
    then show ?thesis using sync assms(1) by (auto simp: sync_cached_def split: run.splits option.splits)
  next
    case True
    then obtain c1 refreshed where r: "refresh_pages db c = Val (Some (c1, refreshed))" by blast
    note same = refresh_same_rows [OF r]
    have prev: "tc_prev_pks c1 = tc_prev_pks c" "tc_pk_byte_len c1 = tc_pk_byte_len c" using refresh_fields [OF r] by simp_all
    have table: "same_table c0 c1" by (rule same_table_refresh [OF r t(2)])
    have good: "good_cache c1" "valid_snapshot c1 (tc_prev_pks c1)" using t(3,4) by (simp_all add: same_rows_facts [OF same] prev)
    have kept: "tracks prior gens c1 v" if "ready v" "content v = content s" for v
      using assms(1) that table good prev same_rows_trans [OF _ same] by (auto simp: tracks_def split: option.splits)
    show ?thesis
    proof (cases "scan_changes_into db c1 last_txn gens")
      case (Val so)
      obtain q v where h: "hand_over lc sink table debug c1 so s = (q, v)" by (cases "hand_over lc sink table debug c1 so s")
      note over = hand_over_target [OF t(1) assms(2) table good Val assms(3) [rule_format, OF r Val] h]
      have "q = Err e \<and> gens' = gens \<and> c' = c1 \<and> s' = v"
        using sync r Val h by (cases q) (auto simp: sync_cached_def)
      then show ?thesis using kept over(1,2) by simp
    qed (use sync r kept [OF t(1) refl] in \<open>auto simp: sync_cached_def\<close>)
  qed
qed

lemma captures_tracks:
  assumes "captures uc lc table pk_fields debug sink carries c0 s0 prior gens c s" and "meta = table_meta lc table c0"
    and "good_cache c0" and "tc_prev_pks c0 = []" and "ready s0" and "content s0 = Map.empty"
  shows "tracks prior gens c s"
  using assms(1)
proof (induction rule: captures.induct)
  case begin_run
  then show ?case using assms by (simp add: tracks_def same_table_def same_rows_def valid_snapshot_def keys_of_def)
next
  case (took prior gens c s db c1 refreshed last_txn stats gens' c' s')
  then show ?case using tracks_took [OF took.IH assms(2)] by blast
next
  case (failed prior gens c s db last_txn e gens' c' s')
  then show ?case using tracks_failed [OF failed.IH assms(2)] by blast
next
  case (connected prior gens c s q s')
  have r: "ready s'" and same: "content s' = content s"
    using reconnects [OF tracks_facts(1) [OF connected.IH] connected.hyps(2)] by simp_all
  show ?case using connected.IH unfolding tracks_def same by (simp add: r)
qed

end

section \<open>A sample server\<close>

text \<open>A server that does exactly what is documented, and refuses what \<open>refuses\<close> says.\<close>

definition toy_pg :: "(pg_session \<Rightarrow> call \<Rightarrow> bool) \<Rightarrow> table_cache \<Rightarrow> merge_meta \<Rightarrow> pg_session server" where
  "toy_pg refuses c meta p call =
     (if pg_accepts call p \<and> \<not> refuses p call then (Rows 1, pg_effect c meta call p) else (Refused [], pg_refuse call p))"

lemma toy_pg_answers: "answers_sql (toy_pg refuses c meta) id c meta" "commits_answered (toy_pg refuses c meta) id"
  by (simp_all add: answers_sql_def commits_answered_def refused_to_def toy_pg_def)

lemma toy_pg_drops: "drops_tmps (toy_pg (\<lambda>p call. False) c meta) id meta"
  by (simp add: drops_tmps_def toy_pg_def pg_accepts_def)

lemma toy_pg_exec:
  assumes "pg_tx p \<noteq> Failed_Tx" and "\<not> refuses p call" and "case call of Copy_Done b \<Rightarrow> parse_pgcopy b \<noteq> None | _ \<Rightarrow> True"
  shows "exec (toy_pg refuses c meta) call p = (Val 1, pg_effect c meta call p)"
    "try_exec (toy_pg refuses c meta) call p = (Val (), pg_effect c meta call p)"
  using assms by (auto simp: exec_def try_exec_def toy_pg_def pg_accepts_def)

definition toy_pg_init :: "(bytes \<Rightarrow> bytes option) \<Rightarrow> pg_session" where
  "toy_pg_init M = \<lparr>pg_rows = M, pg_tx = Idle, pg_delta = [], pg_dels = [], pg_copy = []\<rparr>"

text \<open>One that commits and does not say so.\<close>

definition lossy_pg :: "table_cache \<Rightarrow> merge_meta \<Rightarrow> pg_session server" where
  "lossy_pg c meta p call =
     (case toy_pg (\<lambda>p call. False) c meta p call of
        (r, p') \<Rightarrow> (if call = Execute (lit ''COMMIT'') \<and> (\<exists>M. pg_tx p = Open_Tx M) then Refused [] else r, p'))"

lemma lossy_pg_answers: "answers_sql (lossy_pg c meta) id c meta" "drops_tmps (lossy_pg c meta) id meta"
proof -
  show "answers_sql (lossy_pg c meta) id c meta"
    by (auto simp: answers_sql_def lossy_pg_def refused_to_def toy_pg_def pg_accepts_def pg_effect_def tx_effect_simps sql_simps
        split: pg_tx.splits)
  show "drops_tmps (lossy_pg c meta) id meta"
    by (auto simp: drops_tmps_def lossy_pg_def toy_pg_def pg_accepts_def sql_simps)
qed

section \<open>Properties\<close>

text \<open>
  C1. The change capture keeps the table in PostgreSQL. The runs are those of \<open>captures\<close> for one table
  with the direct sink: turns that succeed, fail or reconnect in any order, where the content of the
  file at a success follows from that at the success before as \<open>evolves\<close> says (what has changed is on
  a page with another generation and above the watermark), and where a success is a clean pass (no
  back version and no incomplete key among what is sent, unique keys of at most 64 bytes). The server
  answers as documented (\<open>answers_sql\<close>); in a sound transaction it drops a temporary table whenever
  asked to (\<open>drops_tmps\<close>); and no acknowledgement of a \<open>COMMIT\<close> is lost (\<open>commits_answered\<close>). When
  the run begins, the table is empty and so is the key snapshot; some column is outside of the key, or
  the key is all columns. Then the committed rows are exactly the live rows of the file at the last success.
\<close>

theorem capture_keeps_pg_table:
  assumes "answers_sql srv view c0 (table_meta lc table c0)" and "drops_tmps srv view (table_meta lc table c0)"
    and "updates (table_meta lc table c0) \<or> key_only c0" and "good_cache c0" and "tc_prev_pks c0 = []"
    and "own_rows (view s0)" and "pg_rows (view s0) = Map.empty"
    and "captures uc lc table pk_fields debug (local_sink srv dbname) (\<lambda>u d. True) c0 s0 (Some (db, cl)) gens c s"
    and "commits_answered srv view"
  shows "mirrors db cl (pg_rows (view s))"
proof -
  note target = local_target [OF answers_fully_iff [OF assms(1,9)] assms(2,3), of dbname]
  have "replica_target.tracks (\<lambda>s. pg_rows (view s)) 
      (\<lambda>s. pg_ready c0 (table_meta lc table c0) (view s)) c0 (Some (db, cl)) gens c s"
    by (rule replica_target.captures_tracks [OF target assms(8) refl assms(4,5)]) (simp_all add: assms(6,7) pg_ready_def keyed_rows_def)
  then have "in_step db cl gens (pg_rows (view s))" by (simp add: replica_target.tracks_def [OF target])
  then show ?thesis by (rule in_step_facts(5))
qed

text \<open>
  C3. The same over the gateway, with the remote sink and the gateway's handler at the other end of
  each connection, under the hypotheses of C1 on the server, the table and the run, and these: the
  codec reads back every header and answer that it writes, in less than 4 GiB; the client's
  certificate names a tenant that has a database; folding a folded table name changes nothing; and
  the streams of every delta stay below 4 GiB. A connection may fail to open at any time; one that
  opens takes the whole request and brings back the whole answer.
\<close>

theorem remote_capture_keeps_pg_table:
  assumes "answers_sql (gw_srv gw) view c0 (table_meta lc table c0)" and "drops_tmps (gw_srv gw) view (table_meta lc table c0)"
    and "updates (table_meta lc table c0) \<or> key_only c0" and "good_cache c0" and "tc_prev_pks c0 = []"
    and "own_rows (view s0)" and "pg_rows (view s0) = Map.empty"
    and "\<And>h k. enc_delta h = Some k \<Longrightarrow> gw_dec_delta gw k = Some h \<and> length k < 2 ^ 32"
    and "answers_read_back gw dec_resp"
    and "to_lowercase (gw_lc gw) (to_lowercase lc table) = to_lowercase lc table"
    and "tenant = Val cn" and "gw_tenants gw cn = Some dbname"
    and "captures uc lc table pk_fields debug (remote_sink enc_delta dec_resp dial (gateway_exchange gw tenant))
      (\<lambda>u d. length u < 2 ^ 32 \<and> length d < 2 ^ 32) c0 s0 (Some (db, cl)) gens c s"
    and "commits_answered (gw_srv gw) view"
  shows "mirrors db cl (pg_rows (view s))"
proof -
  have "to_lowercase (gw_lc gw) (mm_pg_table (table_meta lc table c0)) = mm_pg_table (table_meta lc table c0)"
    using assms(10) by (simp add: table_meta_def)
  note target = remote_target [of gw view c0 _ enc_delta dec_resp tenant cn dbname,
      OF answers_fully_iff [OF assms(1,14)] assms(2,3,8,9) this assms(11,12), of dial]
  have "replica_target.tracks (\<lambda>s. pg_rows (view s)) (\<lambda>s. pg_ready c0 (table_meta lc table c0) (view s)) c0
      (Some (db, cl)) gens c s"
    by (rule replica_target.captures_tracks [OF target assms(13) refl assms(4,5)]) (simp_all add: assms(6,7) pg_ready_def keyed_rows_def)
  then have "in_step db cl gens (pg_rows (view s))" by (simp add: replica_target.tracks_def [OF target])
  then show ?thesis by (rule in_step_facts(5))
qed

text \<open>
  C32. A merge may report success and change nothing. The results of the two statements that drop
  the temporary tables are ignored; when the last ones are refused, the transaction has failed,
  \<open>COMMIT\<close> ends it as a rollback without an error, and the delta is lost: the server does what is
  documented, whatever rows the delta has and the table holds.
\<close>

theorem ignored_drop_loses_delta:
  assumes "parse_pgcopy u = Some us" and "us \<noteq> []"
  shows "\<exists>srv (view :: pg_session \<Rightarrow> pg_session) s s'. answers_sql srv view c meta \<and> own_rows (view s) \<and> pg_rows (view s) = M \<and>
    apply_delta srv meta u d (length us) 0 False s = (Val (), s') \<and> pg_rows (view s') = M"
proof -
  let ?refuses = "\<lambda>p call. call = Execute (drop_tmp_sql (delta_tmp meta)) \<and> pg_delta p \<noteq> []"
  let ?srv = "toy_pg ?refuses c meta" and ?s = "toy_pg_init M"
  have s: "own_rows ?s" "pg_rows ?s = M" by (simp_all add: toy_pg_init_def own_rows_def)
  have "fst (apply_delta ?srv meta u d (length us) 0 False ?s) = Val () \<and>
      pg_rows (snd (apply_delta ?srv meta u d (length us) 0 False ?s)) = M"
    unfolding apply_delta_def transact_def drop_tmps_def create_tmps_def apply_upserts_def
      drop_tmp_sql_def [symmetric] create_delta_sql_def [symmetric] create_del_sql_def [symmetric]
    using assms
    by (simp add: toy_pg_init_def pbind_def exec_def try_exec_def toy_pg_def pg_accepts_def pg_refuse_def pg_effect_def
        tx_effect_simps sql_simps pval_def Let_def)
      (simp add: tx_effect_def sql_simps pg_accepts_def)
  then show ?thesis
    using toy_pg_answers(1) [of ?refuses c meta] s
    by (intro exI [of _ ?srv] exI [of _ id] exI [of _ ?s] exI [of _ "snd (apply_delta ?srv meta u d (length us) 0 False ?s)"])
      (simp add: prod_eq_iff)
qed

lemma toy_pg_merge:
  assumes "parse_pgcopy u = Some us" and "n > 0"
  shows "\<exists>s'. apply_delta (toy_pg (\<lambda>p call. False) c meta) meta u d n 0 debug (toy_pg_init M) = (Val (), s')"
proof -
  let ?srv = "toy_pg (\<lambda>p call. False) c meta"
  have "fst (apply_delta ?srv meta u d n 0 debug (toy_pg_init M)) = Val ()"
    unfolding apply_delta_def transact_def drop_tmps_def create_tmps_def apply_upserts_def
      drop_tmp_sql_def [symmetric] create_delta_sql_def [symmetric] create_del_sql_def [symmetric]
    using assms
    by (simp add: toy_pg_init_def pbind_def exec_def try_exec_def toy_pg_def pg_accepts_def pg_effect_def
        tx_effect_simps sql_simps pval_def Let_def)
      (simp add: tx_effect_def sql_simps)
  then show ?thesis by (metis prod.collapse)
qed

abbreviation cdc_meta :: merge_meta where
  "cdc_meta \<equiv> table_meta (\<lambda>s. s) [116] (cdc_cache [])"

abbreviation cdc_pg :: "pg_session server" where
  "cdc_pg \<equiv> toy_pg (\<lambda>p call. False) (cdc_cache []) cdc_meta"

lemma cdc_key_only: "key_only (cdc_cache [])"
  by (auto simp: key_only_def cdc_cache_def)

text \<open>One turn with a sink that takes the delta.\<close>

lemma cdc_capture:
  assumes "\<And>so. scan_changes_into (cdc_db 0) (cdc_cache []) 0 Map.empty = Val so \<Longrightarrow>
      carries (so_upsert_out so) (so_delete_buf so) \<and>
      (\<exists>s'. ds_apply sink cdc_meta (so_upsert_out so) (so_delete_buf so) 1 0 False s0 = (Val (), s'))"
  shows "\<exists>cl gens s. captures (\<lambda>c. []) (\<lambda>s. s) [116] [] False sink carries (cdc_cache []) s0 (Some (cdc_db 0, cl)) gens cl s \<and>
    table_rows (cdc_db 0) cl = [(len_field [1], Val (len_field [1]))]"
proof -
  let ?c = "cdc_cache []"
  obtain so where so: "scan_changes_into (cdc_db 0) ?c 0 Map.empty = Val so" "so_upserts so = 1" "so_deletes so = 0"
    using cdc_scan by blast
  obtain s' where s': "ds_apply sink cdc_meta (so_upsert_out so) (so_delete_buf so) 1 0 False s0 = (Val (), s')"
    using assms [OF so(1)] by blast
  let ?c' = "settle_cache False so ?c" and ?g = "settle_gens False (tc_data_pages ?c) so Map.empty"
  have c: "tc_prev_pks ?c = []" "tc_pk_byte_len ?c = 5" by (simp_all add: cdc_cache_def)
  have clean: "clean_pass (cdc_db 0) ?c 0 Map.empty" using cdc_replica by (simp add: clean_pass_def c)
  have "hand_over (\<lambda>s. s) sink [116] False ?c so s0 = (Val (), s')" using s' by (simp add: hand_over_def so(2,3))
  then have sync: "sync_table (\<lambda>c. []) (\<lambda>s. s) (cdc_db 0) sink [116] 0 [] Map.empty (Some ?c) None False s0 =
      (Val (stats_of so), ?g, Some ?c', s')"
    using so(1) by (simp add: sync_table_def sync_cached_def cdc_refresh)
  have "captures (\<lambda>c. []) (\<lambda>s. s) [116] [] False sink carries ?c s0 (Some (cdc_db 0, ?c')) ?g ?c' s'"
    by (rule took [OF begin_run cdc_refresh clean _ _ sync]) (use assms in \<open>simp_all add: cdc_table\<close>)
  moreover have "table_rows (cdc_db 0) ?c' = table_rows (cdc_db 0) ?c"
    by (rule same_rows_table [OF settle_same_rows]) (simp add: settle_cache_def Let_def)
  ultimately show ?thesis using cdc_table(3) [of "[]"] by metis
qed

lemma cdc_streams:
  assumes "scan_changes_into (cdc_db 0) (cdc_cache []) 0 Map.empty = Val so"
  shows "\<exists>us. parse_pgcopy (so_upsert_out so) = Some us"
  using scan_streams [OF cdc_good _ assms] by (auto simp: cdc_cache_def)

theorem capture_keeps_pg_table_witness:
  "\<exists>cl gens s. captures (\<lambda>c. []) (\<lambda>s. s) [116] [] False (local_sink cdc_pg [98]) (\<lambda>u d. True) (cdc_cache []) (toy_pg_init Map.empty)
      (Some (cdc_db 0, cl)) gens cl s \<and>
    mirrors (cdc_db 0) cl (pg_rows s) \<and> table_rows (cdc_db 0) cl = [(len_field [1], Val (len_field [1]))]"
proof -
  have taken: "\<exists>s'. ds_apply (local_sink cdc_pg [98]) cdc_meta (so_upsert_out so) (so_delete_buf so) 1 0 False (toy_pg_init Map.empty) =
      (Val (), s')" if "scan_changes_into (cdc_db 0) (cdc_cache []) 0 Map.empty = Val so" for so
    using cdc_streams [OF that] toy_pg_merge by (fastforce simp: local_sink_def)
  obtain cl gens s where run: "captures (\<lambda>c. []) (\<lambda>s. s) [116] [] False (local_sink cdc_pg [98]) (\<lambda>u d. True) (cdc_cache [])
      (toy_pg_init Map.empty) (Some (cdc_db 0, cl)) gens cl s" "table_rows (cdc_db 0) cl = [(len_field [1], Val (len_field [1]))]"
    using cdc_capture [of "\<lambda>u d. True" "local_sink cdc_pg [98]" "toy_pg_init Map.empty"] taken by blast
  have "mirrors (cdc_db 0) cl (pg_rows (id s))"
    by (rule capture_keeps_pg_table [OF toy_pg_answers(1) toy_pg_drops disjI2 [OF cdc_key_only] cdc_good _ _ _ run(1)])
      (simp_all add: toy_pg_init_def own_rows_def cdc_cache_def toy_pg_answers)
  then show ?thesis using run by auto
qed

text \<open>A gateway in front of the sample server, for one delta and one tenant.\<close>

definition cdc_header :: delta_header where
  "cdc_header = \<lparr>dh_table = mm_pg_table cdc_meta, dh_cols_csv = mm_cols_csv cdc_meta, dh_pk_csv = mm_pk_csv cdc_meta,
     dh_pk_col_names = mm_pk_col_names cdc_meta, dh_n_upserts = 1, dh_n_deletes = 0\<rparr>"

definition cdc_gateway :: "pg_session gateway" where
  "cdc_gateway = \<lparr>gw_srv = cdc_pg, gw_lc = (\<lambda>s. s), gw_show = (\<lambda>e. []), gw_grant = (\<lambda>n. n), gw_buf = 8,
     gw_tenants = [[97] \<mapsto> [98]], gw_dec_full = (\<lambda>j. None), gw_dec_delta = (\<lambda>j. Some cdc_header),
     gw_enc_resp = (\<lambda>r. if r = resp_err [] then Some [0]
       else if r_error r = None then Some (be_bytes 4 (r_upserts r) @ be_bytes 4 (r_deletes r)) else None)\<rparr>"

definition cdc_dec_resp :: "bytes \<Rightarrow> resp option" where
  "cdc_dec_resp k = (if k = [0] then Some (resp_err [])
     else Some \<lparr>r_error = None, r_rows = 0, r_upserts = be_nat (take 4 k), r_deletes = be_nat (drop 4 k)\<rparr>)"

lemma cdc_answers: "answers_read_back cdc_gateway cdc_dec_resp"
proof -
  have "be_bytes 4 a @ be_bytes 4 b \<noteq> [0]" for a b :: nat
  proof
    assume "be_bytes 4 a @ be_bytes 4 b = [0]"
    then have "length (be_bytes 4 a @ be_bytes 4 b) = length [0 :: byte]" by (rule arg_cong)
    then show False by simp
  qed
  then show ?thesis
    by (auto simp: answers_read_back_def cdc_gateway_def cdc_dec_resp_def resp_err_def be_nat_be_bytes_id)
qed

lemma cdc_remote_takes:
  assumes "scan_changes_into (cdc_db 0) (cdc_cache []) 0 Map.empty = Val so" and "length (so_upsert_out so) = 28"
    and "length (so_delete_buf so) = 21"
  shows "\<exists>s'. remote_apply_delta (\<lambda>h. if h = cdc_header then Some [5] else None) cdc_dec_resp (Val ())
      (gateway_exchange cdc_gateway (Val [97])) cdc_meta (so_upsert_out so) (so_delete_buf so) 1 0 (toy_pg_init Map.empty) = (Val (), s')"
proof -
  let ?s = "toy_pg_init Map.empty" and ?ok = "\<lparr>r_error = None, r_rows = 0, r_upserts = 1, r_deletes = 0\<rparr>"
  have conn: "connect_db (gw_srv cdc_gateway) [98] ?s = (Val (), ?s)"
    by (simp add: connect_db_def cdc_gateway_def pbind_def exec_def toy_pg_def pg_accepts_def toy_pg_init_def pg_effect_def
        tx_effect_def pval_def Let_def)
      (simp add: lit_simps delete_sql_def create_delta_sql_def create_del_sql_def build_upsert_sql_def Let_def)
  obtain us where "parse_pgcopy (so_upsert_out so) = Some us" using cdc_streams [OF assms(1)] by blast
  then obtain s' where merge: "apply_delta (gw_srv cdc_gateway) cdc_meta (so_upsert_out so) (so_delete_buf so) 1 0 False ?s = (Val (), s')"
    using toy_pg_merge [of "so_upsert_out so" us 1] by (fastforce simp: cdc_gateway_def)
  obtain k where k: "gw_enc_resp cdc_gateway ?ok = Some k" "cdc_dec_resp k = Some ?ok" "length k < 2 ^ 32"
    using cdc_answers unfolding answers_read_back_def by (metis one_less_numeral_iff one_less_power semiring_norm(76) zero_less_numeral zero_less_power)
  have "remote_apply_delta (\<lambda>h. if h = cdc_header then Some [5] else None) cdc_dec_resp (Val ())
      (gateway_exchange cdc_gateway (Val [97])) cdc_meta (so_upsert_out so) (so_delete_buf so) 1 0 ?s =
    ((case Val () of Err e \<Rightarrow> Err (SinkError (gw_show cdc_gateway e)) | _ \<Rightarrow> Val ()), s')"
    by (rule remote_apply_is_local [where j = "[5]" and k = k and answer = ?ok and cn = "[97]" and dbname = "[98]" and ?s1.0 = ?s])
      (use conn merge k assms(2,3) in \<open>simp_all add: cdc_header_def cdc_gateway_def table_meta_def to_lowercase_def ascii_lower_def\<close>)
  then show ?thesis by simp
qed

theorem remote_capture_keeps_pg_table_witness:
  "\<exists>cl gens s. captures (\<lambda>c. []) (\<lambda>s. s) [116] [] False
      (remote_sink (\<lambda>h. if h = cdc_header then Some [5] else None) cdc_dec_resp (\<lambda>s. Val ()) (gateway_exchange cdc_gateway (Val [97])))
      (\<lambda>u d. length u < 2 ^ 32 \<and> length d < 2 ^ 32) (cdc_cache []) (toy_pg_init Map.empty) (Some (cdc_db 0, cl)) gens cl s \<and>
    mirrors (cdc_db 0) cl (pg_rows s) \<and> table_rows (cdc_db 0) cl = [(len_field [1], Val (len_field [1]))]"
proof -
  let ?enc = "\<lambda>h. if h = cdc_header then Some [5] else None"
  let ?sink = "remote_sink ?enc cdc_dec_resp (\<lambda>s. Val ()) (gateway_exchange cdc_gateway (Val [97]))"
  have taken: "(length (so_upsert_out so) < 2 ^ 32 \<and> length (so_delete_buf so) < 2 ^ 32) \<and>
      (\<exists>s'. ds_apply ?sink cdc_meta (so_upsert_out so) (so_delete_buf so) 1 0 False (toy_pg_init Map.empty) = (Val (), s'))"
    if so: "scan_changes_into (cdc_db 0) (cdc_cache []) 0 Map.empty = Val so" for so
  proof -
    have len: "length (so_upsert_out so) = 28" "length (so_delete_buf so) = 21" using cdc_scan so by auto
    from cdc_remote_takes [OF so len] len show ?thesis by (simp add: remote_sink_def)
  qed
  from cdc_capture [of "\<lambda>u d. length u < 2 ^ 32 \<and> length d < 2 ^ 32" ?sink "toy_pg_init Map.empty", OF taken]
  obtain cl gens s where run: "captures (\<lambda>c. []) (\<lambda>s. s) [116] [] False ?sink (\<lambda>u d. length u < 2 ^ 32 \<and> length d < 2 ^ 32)
      (cdc_cache []) (toy_pg_init Map.empty) (Some (cdc_db 0, cl)) gens cl s"
    "table_rows (cdc_db 0) cl = [(len_field [1], Val (len_field [1]))]"
    by blast
  have srv: "gw_srv cdc_gateway = cdc_pg" by (simp add: cdc_gateway_def)
  have "mirrors (cdc_db 0) cl (pg_rows (id s))"
  proof (rule remote_capture_keeps_pg_table [where gw = cdc_gateway and view = id, OF _ _ disjI2 [OF cdc_key_only] cdc_good _ _ _ _ cdc_answers _ refl _ run(1)])
    show "answers_sql (gw_srv cdc_gateway) id (cdc_cache []) cdc_meta" unfolding srv by (rule toy_pg_answers(1))
    show "commits_answered (gw_srv cdc_gateway) id" unfolding srv by (rule toy_pg_answers(2))
    show "drops_tmps (gw_srv cdc_gateway) id cdc_meta" unfolding srv by (rule toy_pg_drops)
  qed (auto simp: toy_pg_init_def own_rows_def cdc_cache_def cdc_gateway_def to_lowercase_def ascii_lower_def split: if_splits)
  then show ?thesis using run by auto
qed

text \<open>
  C34. A merge may report an error and have been applied: when the connection is lost after the server
  has committed and before its answer arrives, the caller takes the delta for refused, although all of
  it is in the table. The server does what is documented and drops the temporary tables when asked
  to, whatever rows the delta has and the table holds.
\<close>

theorem lost_acknowledgement_applies_delta:
  assumes "parse_pgcopy u = Some us" and "us \<noteq> []"
  shows "\<exists>srv (view :: pg_session \<Rightarrow> pg_session) s e s'. answers_sql srv view c meta \<and> drops_tmps srv view meta \<and>
    own_rows (view s) \<and> pg_rows (view s) = M \<and>
    apply_delta srv meta u d (length us) 0 False s = (Err e, s') \<and> pg_rows (view s') = insert_rows c meta us M"
proof -
  let ?srv = "lossy_pg c meta" and ?s = "toy_pg_init M"
  have s: "own_rows ?s" "pg_rows ?s = M" by (simp_all add: toy_pg_init_def own_rows_def)
  have "fst (apply_delta ?srv meta u d (length us) 0 False ?s) = Err (PgError []) \<and>
      pg_rows (snd (apply_delta ?srv meta u d (length us) 0 False ?s)) = insert_rows c meta us M"
    unfolding apply_delta_def transact_def drop_tmps_def create_tmps_def apply_upserts_def
      drop_tmp_sql_def [symmetric] create_delta_sql_def [symmetric] create_del_sql_def [symmetric]
    using assms
    by (simp add: toy_pg_init_def pbind_def exec_def try_exec_def lossy_pg_def toy_pg_def pg_accepts_def pg_effect_def
        tx_effect_simps sql_simps pval_def Let_def)
      (simp add: tx_effect_def sql_simps begin_distinct begin_distinct [symmetric] pg_accepts_def pg_effect_def)
  then show ?thesis
    using lossy_pg_answers [of c meta] s
    by (intro exI [of _ ?srv] exI [of _ id] exI [of _ ?s] exI [of _ "PgError []"]
        exI [of _ "snd (apply_delta ?srv meta u d (length us) 0 False ?s)"]) (simp add: prod_eq_iff)
qed

theorem lost_acknowledgement_applies_delta_witness:
  "\<exists>srv (view :: pg_session \<Rightarrow> pg_session) s e s'. answers_sql srv view (cdc_cache []) toy_meta \<and>
    drops_tmps srv view toy_meta \<and> own_rows (view s) \<and> pg_rows (view s) = Map.empty \<and>
    apply_delta srv toy_meta (pgcopy_header @ encode_row [Some [1]] @ pgcopy_trailer) [] 1 0 False s = (Err e, s') \<and>
    pg_rows (view s') = insert_rows (cdc_cache []) toy_meta [[Some [1]]] Map.empty"
proof -
  have "parse_pgcopy (pgcopy_header @ encode_row [Some [1]] @ pgcopy_trailer) = Some [[Some [1]]]"
    using parse_pgcopy_encode [of "[[Some [1]]]"] by (simp add: row_ok_def field_ok_def)
  from lost_acknowledgement_applies_delta [OF this, of "cdc_cache []" toy_meta Map.empty "[]"] show ?thesis by simp
qed

theorem ignored_drop_loses_delta_witness:
  "\<exists>srv (view :: pg_session \<Rightarrow> pg_session) s s'. answers_sql srv view (cdc_cache []) toy_meta \<and> own_rows (view s) \<and>
    pg_rows (view s) = Map.empty \<and>
    apply_delta srv toy_meta (pgcopy_header @ encode_row [Some [1]] @ pgcopy_trailer) [] 1 0 False s = (Val (), s') \<and>
    pg_rows (view s') = Map.empty"
proof -
  have "parse_pgcopy (pgcopy_header @ encode_row [Some [1]] @ pgcopy_trailer) = Some [[Some [1]]]"
    using parse_pgcopy_encode [of "[[Some [1]]]"] by (simp add: row_ok_def field_ok_def)
  from ignored_drop_loses_delta [OF this, of "cdc_cache []" toy_meta Map.empty "[]"] show ?thesis by simp
qed

end
