(* ===== verification/Unit_Tests.thy ===== *)
theory Unit_Tests
  imports Merge Copy_Stream
begin

text \<open>
  The unit tests of \<open>src/src/sqz.rs\<close>, \<open>src/src/extract.rs\<close>, \<open>src/src/merge.rs\<close> and
  \<open>src/src/ods.rs\<close> as definitions: each is the conjunction of the assertions that a test function
  makes on the values it builds, so that a test that passes on the code is a fact about the model. Those of
  the change scan are in \<open>Scan_Tests\<close>.
\<close>

section \<open>Memory images\<close>

text \<open>
  \<open>buf[i..j].copy_from_slice(b)\<close>, for the ranges inside the buffer that the tests write, and what is
  read back from a buffer that was written so.
\<close>

definition put_bytes :: "nat \<Rightarrow> bytes \<Rightarrow> bytes \<Rightarrow> bytes" where
  "put_bytes i b buf = take i buf @ b @ drop (i + length b) buf"

definition put_length :: "nat \<Rightarrow> nat \<Rightarrow> nat \<Rightarrow> nat" where
  "put_length i m n = min i n + m + (n - (i + m))"

lemma put_length_inside [simp]: "i + m \<le> n \<Longrightarrow> put_length i m n = n"
  by (simp add: put_length_def)

lemma length_put_bytes [simp]: "length (put_bytes i b buf) = put_length i (length b) (length buf)"
  by (simp add: put_bytes_def put_length_def)

lemma slice_put_inside [simp]:
  "i \<le> j \<Longrightarrow> k \<le> i + length b \<Longrightarrow> j \<le> k \<Longrightarrow> i + length b \<le> length buf \<Longrightarrow>
   slice (put_bytes i b buf) j k = slice b (j - i) (k - i)"
  by (simp add: slice_def put_bytes_def) linarith

lemma slice_put_before: "k \<le> i \<Longrightarrow> i + length b \<le> length buf \<Longrightarrow> slice (put_bytes i b buf) j k = slice buf j k"
  by (simp add: slice_def put_bytes_def drop_take)

lemma slice_put_after:
  "i + length b \<le> j \<Longrightarrow> i + length b \<le> length buf \<Longrightarrow> slice (put_bytes i b buf) j k = slice buf j k"
  by (simp add: slice_def put_bytes_def)

lemma slice_put_around:
  assumes "j \<le> i" and "i + length b \<le> k" and "k \<le> length buf"
  shows "slice (put_bytes i b buf) j k = rbind (slice buf j k) (\<lambda>s. Val (put_bytes (i - j) b s))"
proof -
  have "take (k - j) (drop j (put_bytes i b buf)) =
      take (i - j) (drop j buf) @ b @ take (k - j - (i - j) - length b) (drop (i + length b) buf)"
    using assms by (simp add: put_bytes_def drop_take)
  also have "take (k - j - (i - j) - length b) (drop (i + length b) buf) =
      drop (i - j + length b) (take (k - j) (drop j buf))"
    using assms by (simp add: drop_take)
  finally show ?thesis using assms by (simp add: slice_def put_bytes_def put_length_def)
qed

lemma nth_put_bytes:
  "i + length b \<le> length buf \<Longrightarrow>
   put_bytes i b buf ! j = (if i \<le> j \<and> j < i + length b then b ! (j - i) else buf ! j)"
  by (auto simp: put_bytes_def nth_append)

lemma slice_replicate: "j \<le> k \<Longrightarrow> k \<le> n \<Longrightarrow> slice (replicate n x) j k = Val (replicate (k - j) x)"
  by (simp add: slice_def min_def)

lemma slice_all: "n = length b \<Longrightarrow> slice b 0 n = Val b"
  by (simp add: slice_def)

lemma put_bytes_known:
  "put_bytes i b (x # xs) = take i (x # xs) @ b @ drop (i + length b) (x # xs)"
  "put_bytes i b (xs @ ys) = take i (xs @ ys) @ b @ drop (i + length b) (xs @ ys)"
  "i \<le> n \<Longrightarrow> put_bytes i b (replicate n x) = replicate i x @ b @ replicate (n - (i + length b)) x"
  by (simp_all add: put_bytes_def min_def)

lemmas image_simps = slice_all slice_put_before slice_put_after slice_put_around slice_replicate nth_put_bytes

section \<open>Decompression\<close>

definition empty_input :: bool where
  "empty_input \<longleftrightarrow> decompress [] = Val (Some [])"

definition nop_ctrl_zero :: bool where
  "nop_ctrl_zero \<longleftrightarrow> decompress [0] = Val (Some []) \<and> decompress [0, 0, 0] = Val (Some [])"

definition copy_run :: bool where
  "copy_run \<longleftrightarrow> decompress [3, 0x07, 0x14, 0x30] = Val (Some [0x07, 0x14, 0x30])"

definition repeat_run :: bool where
  "repeat_run \<longleftrightarrow> decompress [0xFB, 0x2A] = Val (Some (replicate 5 0x2A))"

definition repeat_i8_min :: bool where
  "repeat_i8_min \<longleftrightarrow>
     (case decompress [0x80, 0xFF] of
        Val (Some out) \<Rightarrow> length out = 128 \<and> list_all (\<lambda>b. b = 0xFF) out
      | _ \<Rightarrow> False)"

definition extended_u16_count :: bool where
  "extended_u16_count \<longleftrightarrow>
     (case decompress ([0xFF] @ le_bytes 2 500 @ [0xAB]) of
        Val (Some out) \<Rightarrow> length out = 500 \<and> list_all (\<lambda>b. b = 0xAB) out
      | _ \<Rightarrow> False)"

definition mixed_runs :: bool where
  "mixed_runs \<longleftrightarrow>
     (case decompress [0x03, 0x07, 0x14, 0x30, 0x87, 0x2A, 0x00, 0x01, 0x41] of
        Val (Some out) \<Rightarrow> length out = 3 + 121 + 1 \<and> slice out 0 3 = Val [0x07, 0x14, 0x30] \<and>
          (case slice out 3 (3 + 121) of Val run \<Rightarrow> list_all (\<lambda>b. b = 0x2A) run | _ \<Rightarrow> False) \<and>
          byte_at out (3 + 121) = Val 0x41
      | _ \<Rightarrow> False)"

definition truncated_copy_returns_none :: bool where
  "truncated_copy_returns_none \<longleftrightarrow> decompress [10, 0x01, 0x02, 0x03] = Val None"

definition truncated_repeat_returns_none :: bool where
  "truncated_repeat_returns_none \<longleftrightarrow> decompress [0xFB] = Val None"

definition truncated_u16_count_returns_none :: bool where
  "truncated_u16_count_returns_none \<longleftrightarrow> decompress [0xFF, 0x01] = Val None"

lemma sqz_tests:
  "empty_input" "nop_ctrl_zero" "copy_run" "repeat_run" "repeat_i8_min"
  "extended_u16_count" "mixed_runs" "truncated_copy_returns_none" "truncated_repeat_returns_none"
  "truncated_u16_count_returns_none"
  by (simp_all add: empty_input_def nop_ctrl_zero_def copy_run_def repeat_run_def repeat_i8_min_def
      extended_u16_count_def mixed_runs_def truncated_copy_returns_none_def
      truncated_repeat_returns_none_def truncated_u16_count_returns_none_def
      decompress_meaning sqz_meaning_def parse_run_def expand_def MAX_RECORD_SIZE_def le_bytes_2 le_nat_def slice_def byte_at_def
      list_all_length nth_append)

section \<open>Encoding of fields\<close>

definition desc_int64 :: "nat \<Rightarrow> desc" where
  "desc_int64 ofs = \<lparr>dtype = DTYPE_INT64, scale = 0, dlength = 8, sub_type = 0, dflags = 0, offset = ofs\<rparr>"

definition desc_long :: "nat \<Rightarrow> desc" where
  "desc_long ofs = \<lparr>dtype = DTYPE_LONG, scale = 0, dlength = 4, sub_type = 0, dflags = 0, offset = ofs\<rparr>"

definition desc_text :: "nat \<Rightarrow> nat \<Rightarrow> desc" where
  "desc_text ofs len = \<lparr>dtype = DTYPE_TEXT, scale = 0, dlength = len, sub_type = 0, dflags = 0, offset = ofs\<rparr>"

definition desc_varying :: "nat \<Rightarrow> nat \<Rightarrow> desc" where
  "desc_varying ofs len = \<lparr>dtype = DTYPE_VARYING, scale = 0, dlength = len, sub_type = 0, dflags = 0, offset = ofs\<rparr>"

definition int64_pk_beyond_buf_emits_null :: bool where
  "int64_pk_beyond_buf_emits_null \<longleftrightarrow>
     write_field_binary (replicate 5 0) (desc_int64 4) = Val (be_bytes 4 (wrap 32 (- 1)))"

definition long_pk_beyond_buf_emits_null :: bool where
  "long_pk_beyond_buf_emits_null \<longleftrightarrow>
     write_field_binary (replicate 3 0) (desc_long 2) = Val (be_bytes 4 (wrap 32 (- 1)))"

definition int64_pk_within_buf_emits_value :: bool where
  "int64_pk_within_buf_emits_value \<longleftrightarrow>
     (case write_field_binary (put_bytes 4 (le_bytes 8 (wrap 64 42)) (replicate 12 0)) (desc_int64 4) of
        Val out \<Rightarrow> slice out 0 4 = Val (be_bytes 4 8) \<and>
          (case slice out 4 12 of Val got \<Rightarrow> signed_of 64 (be_nat got) = 42 | _ \<Rightarrow> False)
      | _ \<Rightarrow> False)"

definition text_field_truncated_at_buf_end :: bool where
  "text_field_truncated_at_buf_end \<longleftrightarrow>
     (case write_field_binary (replicate 10 65) (desc_text 0 20) of
        Val out \<Rightarrow> out \<noteq> be_bytes 4 (wrap 32 (- 1)) | _ \<Rightarrow> False)"

definition int64_at_offset_zero_within_buf :: bool where
  "int64_at_offset_zero_within_buf \<longleftrightarrow>
     (case write_field_binary (put_bytes 0 (le_bytes 8 (wrap 64 (- 1))) (replicate 8 0)) (desc_int64 0) of
        Val out \<Rightarrow> (case slice out 4 12 of Val got \<Rightarrow> signed_of 64 (be_nat got) = - 1 | _ \<Rightarrow> False)
      | _ \<Rightarrow> False)"

definition written_len :: "bytes \<Rightarrow> int run" where
  "written_len out = rbind (slice out 0 4) (\<lambda>b. Val (signed_of 32 (be_nat b)))"

definition wrong_format_offset_overflows_varchar_but_record_format_is_correct :: bool where
  "wrong_format_offset_overflows_varchar_but_record_format_is_correct \<longleftrightarrow>
     (let rec = put_bytes 10 [72, 69, 76, 76, 79] (put_bytes 8 (le_bytes 2 5) (replicate 64 0));
          rec = put_bytes 22 (replicate 42 88) (put_bytes 21 [0x41] (put_bytes 20 [0x20] rec)); declared = 7
      in (case write_field_binary rec (desc_varying 8 declared) of
            Val out \<Rightarrow> written_len out = Val 5 \<and> slice out 4 9 = Val [72, 69, 76, 76, 79] | _ \<Rightarrow> False) \<and>
         (case write_field_binary rec (desc_varying 20 declared) of
            Val bad \<Rightarrow> (case written_len bad of Val n \<Rightarrow> n > int declared - 2 | _ \<Rightarrow> False) | _ \<Rightarrow> False))"

definition slots_for_format_marks_columns_added_after_record_as_null :: bool where
  "slots_for_format_marks_columns_added_after_record_as_null \<longleftrightarrow>
     (let field_order = [(0, lit ''a''), (1, lit ''b''), (2, lit ''c''), (5, lit ''added_later'')];
          slots = slots_for_format field_order [desc_long 4, desc_long 8, desc_long 12]
      in length slots = 4 \<and> cs_present (slots ! 0) \<and> cs_present (slots ! 1) \<and> cs_present (slots ! 2) \<and>
         \<not> cs_present (slots ! 3) \<and> cs_null_byte (slots ! 2) = 0 \<and> cs_null_mask (slots ! 2) = push_bit 2 1)"

lemma win_plain: "list_all plain bs \<Longrightarrow> win1252_to_utf8 bs = Val bs"
  by (simp add: win1252_to_utf8_def)

lemma list_all_replicate: "P x \<Longrightarrow> list_all P (replicate n x)"
  by (induction n) auto

lemma trim_full: "bs \<noteq> [] \<Longrightarrow> visible (List.last bs) \<Longrightarrow> trim_text bs = bs"
  by (cases bs rule: rev_cases) (auto simp: trim_text_def)

lemmas field_simps_of_test = write_field_binary_def dtype_defs int_field_def null_field_def len_field_def text_field_def
  win_plain plain_def visible_def trim_full list_all_replicate slice_def u16_at_def put_bytes_known le_bytes_2 be_bytes_4
  le_nat_le_bytes_id be_nat_be_bytes_id wrap_def signed_of_def

lemma extract_tests:
  "int64_pk_beyond_buf_emits_null" "long_pk_beyond_buf_emits_null" "int64_pk_within_buf_emits_value"
  "text_field_truncated_at_buf_end" "int64_at_offset_zero_within_buf"
  "wrong_format_offset_overflows_varchar_but_record_format_is_correct"
  "slots_for_format_marks_columns_added_after_record_as_null"
proof -
  show "int64_pk_beyond_buf_emits_null" "long_pk_beyond_buf_emits_null"
    by (simp_all add: int64_pk_beyond_buf_emits_null_def long_pk_beyond_buf_emits_null_def
        desc_int64_def desc_long_def field_simps_of_test)
  show "int64_pk_within_buf_emits_value" "int64_at_offset_zero_within_buf"
    by (simp_all add: int64_pk_within_buf_emits_value_def int64_at_offset_zero_within_buf_def
        desc_int64_def field_simps_of_test)
  show "text_field_truncated_at_buf_end"
    by (simp add: text_field_truncated_at_buf_end_def desc_text_def field_simps_of_test)
  show "wrong_format_offset_overflows_varchar_but_record_format_is_correct"
    by (simp add: wrong_format_offset_overflows_varchar_but_record_format_is_correct_def desc_varying_def
        written_len_def Let_def field_simps_of_test be_nat_def)
  show "slots_for_format_marks_columns_added_after_record_as_null"
    by (simp add: slots_for_format_marks_columns_added_after_record_as_null_def slots_for_format_def desc_long_def
        dtype_defs Let_def nth_Cons')
qed

section \<open>The statements and frames of the delta merge\<close>

text \<open>\<open>str::contains\<close>\<close>

fun starts_str :: "str \<Rightarrow> str \<Rightarrow> bool" where
  "starts_str [] s = True"
| "starts_str (c # p) [] = False"
| "starts_str (c # p) (d # s) = (if c = d then starts_str p s else False)"

fun has_str :: "str \<Rightarrow> str \<Rightarrow> bool" where
  "has_str [] sub = (sub = [])"
| "has_str (c # s) sub = (if starts_str sub (c # s) then True else has_str s sub)"

definition test_meta :: "str list \<Rightarrow> str list \<Rightarrow> merge_meta" where
  "test_meta cols pks =
     \<lparr>mm_pg_table = lit ''vendas'', mm_cols_csv = join (lit '', '') (map quoted cols),
      mm_pk_csv = join (lit '', '') (map quoted pks), mm_pk_col_names = map quoted pks\<rparr>"

definition upsert_sql_updates_only_non_pk_columns :: bool where
  "upsert_sql_updates_only_non_pk_columns \<longleftrightarrow>
     (let m = test_meta [lit ''nrovenda'', lit ''cliente'', lit ''total''] [lit ''nrovenda''];
          sql = build_upsert_sql m (lit ''_stg'')
      in has_str sql (lit ''ON CONFLICT ('' @ quoted (lit ''nrovenda'') @ lit '') DO UPDATE SET'') \<and>
         has_str sql (quoted (lit ''cliente'') @ lit '' = EXCLUDED.'' @ quoted (lit ''cliente'')) \<and>
         has_str sql (quoted (lit ''total'') @ lit '' = EXCLUDED.'' @ quoted (lit ''total'')) \<and>
         \<not> has_str sql (quoted (lit ''nrovenda'') @ lit '' = EXCLUDED'') \<and>
         has_str sql (lit ''FROM '' @ quoted (lit ''_stg'')))"

definition upsert_sql_degrades_to_do_nothing_when_all_columns_are_pk :: bool where
  "upsert_sql_degrades_to_do_nothing_when_all_columns_are_pk \<longleftrightarrow>
     (let m = test_meta [lit ''nrovenda'', lit ''nroitem''] [lit ''nrovenda'', lit ''nroitem''];
          sql = build_upsert_sql m (lit ''_stg'')
      in has_str sql (lit ''ON CONFLICT ('' @ quoted (lit ''nrovenda'') @ lit '', '' @ quoted (lit ''nroitem'') @
           lit '') DO NOTHING'') \<and>
         \<not> has_str sql (lit ''DO UPDATE''))"

definition copy_u32_prefixed_splits_sequential_bodies_in_order :: bool where
  "copy_u32_prefixed_splits_sequential_bodies_in_order \<longleftrightarrow>
     (let upsert = map of_nat (lit ''PGCOPY-upsert-bytes''); delete = map of_nat (lit ''del'');
          wire = be_bytes 4 (length upsert) @ upsert @ be_bytes 4 (length delete) @ delete
      in case copy_u32_prefixed wire of (nu, got_u, r) \<Rightarrow>
         case copy_u32_prefixed r of (nd, got_d, _) \<Rightarrow>
           nu = Val (length upsert) \<and> nd = Val (length delete) \<and> got_u = upsert \<and> got_d = delete)"

definition copy_u32_prefixed_drains_empty_delete_frame :: bool where
  "copy_u32_prefixed_drains_empty_delete_frame \<longleftrightarrow>
     (case copy_u32_prefixed (be_bytes 4 0 @ map of_nat (lit ''NEXT'')) of
        (n, _, rest) \<Rightarrow> n = Val 0 \<and> rest = map of_nat (lit ''NEXT''))"

definition copy_u32_prefixed_errors_on_truncated_body :: bool where
  "copy_u32_prefixed_errors_on_truncated_body \<longleftrightarrow>
     fst (copy_u32_prefixed (be_bytes 4 10 @ map of_nat (lit ''only4''))) = Err UnexpectedEof"

lemma upsert_sql_updates_non_pk: upsert_sql_updates_only_non_pk_columns
proof -
  let ?sql = "build_upsert_sql (test_meta [lit ''nrovenda'', lit ''cliente'', lit ''total''] [lit ''nrovenda'']) (lit ''_stg'')"
  have sql: "?sql = lit ''INSERT INTO '' @ quoted (lit ''vendas'') @ lit '' ('' @ quoted (lit ''nrovenda'') @ lit '', '' @
      quoted (lit ''cliente'') @ lit '', '' @ quoted (lit ''total'') @ lit '') SELECT '' @ quoted (lit ''nrovenda'') @
      lit '', '' @ quoted (lit ''cliente'') @ lit '', '' @ quoted (lit ''total'') @ lit '' FROM '' @ quoted (lit ''_stg'') @
      lit '' ON CONFLICT ('' @ quoted (lit ''nrovenda'') @ lit '') DO UPDATE SET '' @ quoted (lit ''cliente'') @
      lit '' = EXCLUDED.'' @ quoted (lit ''cliente'') @ lit '', '' @ quoted (lit ''total'') @ lit '' = EXCLUDED.'' @
      quoted (lit ''total'')"
    by code_simp
  show ?thesis
    unfolding upsert_sql_updates_only_non_pk_columns_def Let_def sql by (intro conjI) (simp_all add: lit_def quoted_def)
qed

lemma merge_tests:
  "upsert_sql_updates_only_non_pk_columns" "upsert_sql_degrades_to_do_nothing_when_all_columns_are_pk"
  "copy_u32_prefixed_splits_sequential_bodies_in_order" "copy_u32_prefixed_drains_empty_delete_frame"
  "copy_u32_prefixed_errors_on_truncated_body"
proof -
  show "upsert_sql_updates_only_non_pk_columns" by (rule upsert_sql_updates_non_pk)
  show "upsert_sql_degrades_to_do_nothing_when_all_columns_are_pk" by code_simp
  show "copy_u32_prefixed_splits_sequential_bodies_in_order" by code_simp
  show "copy_u32_prefixed_drains_empty_delete_frame" by code_simp
  show "copy_u32_prefixed_errors_on_truncated_body" by code_simp
qed

section \<open>Record headers, delete stubs and fragments\<close>

text \<open>The helpers of the tests: an \<open>assert!\<close> that fails and an \<open>unwrap\<close> of nothing panic.\<close>

definition passes :: "bool run \<Rightarrow> bool" where
  "passes m \<longleftrightarrow> m = Val True"

definition make_stub :: "nat \<Rightarrow> nat \<Rightarrow> nat \<Rightarrow> nat \<Rightarrow> bytes \<Rightarrow> bytes" where
  "make_stub txn b_page b_line flags body =
     (let long = has_flag flags RHD_LONG_TRANUM; hdr = (if long then 16 else 13);
          raw = replicate (hdr + length body) 0;
          raw = put_bytes 0 (le_bytes 4 (txn mod 2 ^ 32)) raw;
          raw = put_bytes 4 (le_bytes 4 b_page) raw;
          raw = put_bytes 8 (le_bytes 2 b_line) raw;
          raw = put_bytes 10 (le_bytes 2 flags) raw;
          raw = (if long then put_bytes 14 (le_bytes 2 (drop_bit 32 txn mod 2 ^ 16)) raw else raw)
      in put_bytes hdr body raw)"

definition literal_run :: "bytes \<Rightarrow> bytes run" where
  "literal_run data = (if length data \<le> 127 then Val (of_nat (length data) # data) else Panic)"

definition stub_transaction_short_header :: bool where
  "stub_transaction_short_header \<longleftrightarrow> passes (
     rbind (literal_run [1, 2, 3]) (\<lambda>payload.
     rbind (record_transaction (make_stub 12345 0 0 0 payload)) (\<lambda>t. Val (t = Some 12345))))"

definition stub_transaction_long_header :: bool where
  "stub_transaction_long_header \<longleftrightarrow> passes (
     let txn = 18065; flags = or RHD_DELETED RHD_LONG_TRANUM
     in rbind (record_transaction (make_stub txn 3340534 3 flags (replicate 6 0))) (\<lambda>t. Val (t = Some txn)))"

definition stub_transaction_fragment_returns_none :: bool where
  "stub_transaction_fragment_returns_none \<longleftrightarrow> passes (
     rbind (record_transaction (make_stub 999 0 0 RHD_FRAGMENT (replicate 4 0))) (\<lambda>t. Val (t = None)))"

definition live_record_returns_some_false :: bool where
  "live_record_returns_some_false \<longleftrightarrow> passes (
     rbind (literal_run [0xAA, 0xBB, 0xCC]) (\<lambda>payload.
     rbind (unpack_record_cdc (make_stub 1000 0 0 0 payload) []) (\<lambda>(r, buf).
       Val (r = Some False \<and> buf = [0xAA, 0xBB, 0xCC]))))"

definition delete_stub_returns_some_true :: bool where
  "delete_stub_returns_some_true \<longleftrightarrow> passes (
     rbind (literal_run (replicate 5 0)) (\<lambda>payload.
     let stub = make_stub 18065 3340534 3 (or RHD_DELETED RHD_LONG_TRANUM) payload
     in rbind (unpack_record_cdc stub []) (\<lambda>(r, buf). Val (length stub = 22 \<and> r = Some True))))"

definition delete_stub_buf_too_small_for_int64_pk :: bool where
  "delete_stub_buf_too_small_for_int64_pk \<longleftrightarrow> passes (
     rbind (literal_run (replicate 5 0)) (\<lambda>payload.
     let stub = make_stub 18065 3340534 3 (or RHD_DELETED RHD_LONG_TRANUM) payload; pk_offset = 4; pk_length = 8
     in rbind (unpack_record_cdc stub []) (\<lambda>(r, buf). case r of
          None \<Rightarrow> Panic
        | Some _ \<Rightarrow> Val (pk_offset + pk_length > length buf))))"

definition delete_stub_chain_pointers_correct :: bool where
  "delete_stub_chain_pointers_correct \<longleftrightarrow> passes (
     let b_page = 3340534; b_line = 3;
         stub = make_stub 18065 b_page b_line (or RHD_DELETED RHD_LONG_TRANUM) (replicate 6 0)
     in rbind (u32_at stub 4) (\<lambda>got_b_page.
        rbind (u16_at stub 8) (\<lambda>got_b_line. Val (got_b_page = b_page \<and> got_b_line = b_line))))"

definition chain_follow_logic_on_back_version :: bool where
  "chain_follow_logic_on_back_version \<longleftrightarrow> passes (
     let full_pk_value = 42; full_record = put_bytes 4 (le_bytes 8 (wrap 64 full_pk_value)) (replicate 12 0)
     in rbind (literal_run full_record) (\<lambda>payload.
        rbind (unpack_record_cdc (make_stub 18065 0 0 RHD_CHAIN payload) []) (\<lambda>(result, buf).
        rbind (slice buf 4 12) (\<lambda>b.
          Val (result = Some False \<and> length buf \<ge> 12 \<and> signed_of 64 (le_nat b) = full_pk_value)))))"

definition fragmented_db :: "bytes run" where
  "fragmented_db =
     (let PS = 1024; p1 = PS; head_off = 64; tail_off = 256; h = p1 + head_off; t = p1 + tail_off;
          buf = replicate (PS * 2) 0;
          buf = put_bytes 16 (le_bytes 2 PS) buf;
          buf = put_bytes 18 (le_bytes 2 (or 13 0x8000)) buf;
          buf = put_bytes p1 [PAG_DATA] buf;
          buf = put_bytes (p1 + 22) (le_bytes 2 2) buf
      in rbind (literal_run [72, 69, 76, 76, 79]) (\<lambda>head_payload.
         rbind (literal_run [87, 79, 82, 76, 68]) (\<lambda>tail_payload.
         let head_len = 22 + length head_payload; tail_len = 13 + length tail_payload;
             buf = put_bytes (h + 10) (le_bytes 2 RHD_INCOMPLETE) buf;
             buf = put_bytes (h + 16) (le_bytes 4 1) buf;
             buf = put_bytes (h + 20) (le_bytes 2 1) buf;
             buf = put_bytes (h + 22) head_payload buf;
             buf = put_bytes (t + 10) (le_bytes 2 RHD_FRAGMENT) buf;
             buf = put_bytes (t + 13) tail_payload buf;
             buf = put_bytes (p1 + 24) (le_bytes 2 head_off) buf;
             buf = put_bytes (p1 + 26) (le_bytes 2 head_len) buf;
             buf = put_bytes (p1 + 28) (le_bytes 2 tail_off) buf
         in Val (put_bytes (p1 + 30) (le_bytes 2 tail_len) buf))))"

definition reassembles_multi_fragment_record :: bool where
  "reassembles_multi_fragment_record \<longleftrightarrow> passes (
     rbind fragmented_db (\<lambda>file.
     rbind (ods_open file) (\<lambda>db.
     rbind (read_slot_raw db 1 0) (\<lambda>r. case r of
       None \<Rightarrow> Panic
     | Some head \<Rightarrow>
         rbind (u16_at head 10) (\<lambda>flags.
         rbind (reassemble_fragments db head) (\<lambda>full.
         rbind (unpack_record_meta db head) (\<lambda>via_meta.
           let hello_world = [72, 69, 76, 76, 79, 87, 79, 82, 76, 68]
           in Val (has_flag flags RHD_INCOMPLETE \<and> full = Some hello_world \<and> via_meta = Some hello_world))))))))"

definition tail_fragment_alone_is_skipped_by_meta_scan :: bool where
  "tail_fragment_alone_is_skipped_by_meta_scan \<longleftrightarrow> passes (
     rbind fragmented_db (\<lambda>file.
     rbind (ods_open file) (\<lambda>db.
     rbind (read_slot_raw db 1 1) (\<lambda>r. case r of
       None \<Rightarrow> Panic
     | Some tail \<Rightarrow> rbind (unpack_record_meta db tail) (\<lambda>u. Val (u = None))))))"

lemma literal_run_Val: "length data \<le> 127 \<Longrightarrow> literal_run data = Val (of_nat (length data) # data)"
  by (simp add: literal_run_def)

lemma sqz_meaning_literal_run: "unat n = length d \<Longrightarrow> length d \<le> 127 \<Longrightarrow> sqz_meaning (n # d) 0 = Some d"
  by (simp add: parse_runs_Cons_meaning parse_run_def MAX_RECORD_SIZE_def)

lemma unpack_cdc_literal:
  assumes "rhd_flags raw = Val fl" and "\<not> has_flag fl (or RHD_FRAGMENT (or RHD_INCOMPLETE RHD_BLOB))"
    and "\<not> has_flag fl RHD_NOT_PACKED" and "13 \<le> length raw" and "data_start fl < length raw"
    and "slice raw (data_start fl) (length raw) = Val cmp" and "sqz_meaning cmp 0 = Some rec"
  shows "unpack_record_cdc raw buf = Val (Some (has_flag fl RHD_DELETED), rec)"
  using assms decompress_into_meaning [of cmp buf] by (auto simp: unpack_record_cdc_def unpack_buf_def)

lemma length_make_stub [simp]:
  "length (make_stub txn b_page b_line flags body) = (if has_flag flags RHD_LONG_TRANUM then 16 else 13) + length body"
  by (simp add: make_stub_def Let_def)

lemma stub_fields:
  assumes "b_page < 2 ^ 32" and "b_line < 2 ^ 16" and "flags < 2 ^ 16"
  shows "rhd_flags (make_stub txn b_page b_line flags body) = Val flags"
    and "u32_at (make_stub txn b_page b_line flags body) 0 = Val (txn mod 2 ^ 32)"
    and "u32_at (make_stub txn b_page b_line flags body) 4 = Val b_page"
    and "u16_at (make_stub txn b_page b_line flags body) 8 = Val b_line"
    and "has_flag flags RHD_LONG_TRANUM \<Longrightarrow> u16_at (make_stub txn b_page b_line flags body) 14 = Val (drop_bit 32 txn mod 2 ^ 16)"
    and "slice (make_stub txn b_page b_line flags body) (data_start flags) (data_start flags + length body) = Val body"
  using assms
  by (simp_all add: make_stub_def Let_def rhd_flags_def u16_at_def u32_at_def image_simps le_nat_le_bytes data_start_def)

lemma unpack_stub:
  assumes "flags < 2 ^ 16" and "b_page < 2 ^ 32" and "b_line < 2 ^ 16"
    and "\<not> has_flag flags (or RHD_FRAGMENT (or RHD_INCOMPLETE RHD_BLOB))" and "\<not> has_flag flags RHD_NOT_PACKED"
    and "body \<noteq> []" and "sqz_meaning body 0 = Some rec"
  shows "unpack_record_cdc (make_stub txn b_page b_line flags body) buf = Val (Some (has_flag flags RHD_DELETED), rec)"
proof -
  have l: "length (make_stub txn b_page b_line flags body) = data_start flags + length body"
    by (simp add: data_start_def)
  show ?thesis
    by (rule unpack_cdc_literal [OF stub_fields(1) [OF assms(2,3,1)] assms(4,5) _ _ _ assms(7)])
      (use assms(6) stub_fields(6) [OF assms(2,3,1)] in \<open>simp_all add: l data_start_def\<close>)
qed

lemma stub_tests:
  "stub_transaction_short_header" "stub_transaction_long_header" "stub_transaction_fragment_returns_none"
  "live_record_returns_some_false" "delete_stub_returns_some_true" "delete_stub_buf_too_small_for_int64_pk"
  "delete_stub_chain_pointers_correct" "chain_follow_logic_on_back_version"
proof -
  note flags = has_flag_def rhd_defs
  show "stub_transaction_short_header" "stub_transaction_long_header" "stub_transaction_fragment_returns_none"
    by (simp_all add: stub_transaction_short_header_def stub_transaction_long_header_def
        stub_transaction_fragment_returns_none_def passes_def Let_def literal_run_Val record_transaction_def stub_fields flags
        del: u16_at_Val u32_at_Val rhd_flags_Val)
  show "live_record_returns_some_false" "delete_stub_returns_some_true" "delete_stub_buf_too_small_for_int64_pk"
    "chain_follow_logic_on_back_version"
    by (simp_all add: live_record_returns_some_false_def delete_stub_returns_some_true_def
        delete_stub_buf_too_small_for_int64_pk_def chain_follow_logic_on_back_version_def passes_def Let_def
        literal_run_Val unpack_stub [OF _ _ _ _ _ _ sqz_meaning_literal_run] image_simps le_nat_le_bytes_id
        wrap_def signed_of_def flags)
  show "delete_stub_chain_pointers_correct"
    by (simp add: delete_stub_chain_pointers_correct_def passes_def Let_def stub_fields flags
        del: u16_at_Val u32_at_Val)
qed

definition fragmented_image :: bytes where
  "fragmented_image =
     put_bytes 1054 (le_bytes 2 19) (put_bytes 1052 (le_bytes 2 256) (put_bytes 1050 (le_bytes 2 28)
     (put_bytes 1048 (le_bytes 2 64) (put_bytes 1293 [5, 87, 79, 82, 76, 68] (put_bytes 1290 (le_bytes 2 4)
     (put_bytes 1110 [5, 72, 69, 76, 76, 79] (put_bytes 1108 (le_bytes 2 1) (put_bytes 1104 (le_bytes 4 1)
     (put_bytes 1098 (le_bytes 2 8) (put_bytes 1046 (le_bytes 2 2) (put_bytes 1024 [5]
     (put_bytes 18 (le_bytes 2 32781) (put_bytes 16 (le_bytes 2 1024) (replicate 2048 0))))))))))))))"

lemma fragmented_db_image: "fragmented_db = Val fragmented_image"
  by (simp add: fragmented_db_def fragmented_image_def Let_def literal_run_Val rhd_defs PAG_DATA_def del: One_nat_def)

definition fragmented_page :: bytes where
  "fragmented_page =
     put_bytes 30 (le_bytes 2 19) (put_bytes 28 (le_bytes 2 256) (put_bytes 26 (le_bytes 2 28)
     (put_bytes 24 (le_bytes 2 64) (put_bytes 269 [5, 87, 79, 82, 76, 68] (put_bytes 266 (le_bytes 2 4)
     (put_bytes 86 [5, 72, 69, 76, 76, 79] (put_bytes 84 (le_bytes 2 1) (put_bytes 80 (le_bytes 4 1)
     (put_bytes 74 (le_bytes 2 8) (put_bytes 22 (le_bytes 2 2) (put_bytes 0 [5] (replicate 1024 0))))))))))))"

definition fragment_head :: bytes where
  "fragment_head = put_bytes 22 [5, 72, 69, 76, 76, 79] (put_bytes 20 (le_bytes 2 1) (put_bytes 16 (le_bytes 4 1)
     (put_bytes 10 (le_bytes 2 8) (replicate 28 0))))"

definition fragment_tail :: bytes where
  "fragment_tail = put_bytes 13 [5, 87, 79, 82, 76, 68] (put_bytes 10 (le_bytes 2 4) (replicate 19 0))"

definition fragmented_reader :: ods where
  "fragmented_reader = \<lparr>mmap = fragmented_image, page_size = 1024, ods_ver = 13\<rparr>"

lemmas image_read_simps = image_simps u16_at_def u32_at_def le_nat_le_bytes_id

lemma fragmented_db_reads:
  shows "ods_open fragmented_image = Val fragmented_reader"
    and "read_slot_raw fragmented_reader 1 0 = Val (Some fragment_head)"
    and "read_slot_raw fragmented_reader 1 1 = Val (Some fragment_tail)"
proof -
  have "length fragmented_image = 2048" "u16_at fragmented_image 16 = Val 1024" "u16_at fragmented_image 18 = Val 32781"
    by (simp_all add: fragmented_image_def image_read_simps del: u16_at_Val)
  then show "ods_open fragmented_image = Val fragmented_reader"
    by (simp add: ods_open_def fragmented_reader_def del: u16_at_Val)
  have p: "page fragmented_reader 1 = Val fragmented_page"
    by (simp add: page_def fragmented_reader_def fragmented_image_def fragmented_page_def image_simps del: One_nat_def)
  have ps: "page_size fragmented_reader = 1024" by (simp add: fragmented_reader_def)
  have "length fragmented_page = 1024" "fragmented_page ! 0 = PAG_DATA" "u16_at fragmented_page 22 = Val 2"
      "u16_at fragmented_page 24 = Val 64" "u16_at fragmented_page 26 = Val 28"
      "u16_at fragmented_page 28 = Val 256" "u16_at fragmented_page 30 = Val 19"
      "slice fragmented_page 64 92 = Val fragment_head" "slice fragmented_page 256 275 = Val fragment_tail"
    by (simp_all add: fragmented_page_def fragment_head_def fragment_tail_def PAG_DATA_def image_read_simps del: u16_at_Val)
  then show "read_slot_raw fragmented_reader 1 0 = Val (Some fragment_head)"
    "read_slot_raw fragmented_reader 1 1 = Val (Some fragment_tail)"
    by (simp_all add: read_slot_raw_def p [simplified] slot_raw_def slot_bounds_def ps del: u16_at_Val)
qed

lemma fragment_tests: "reassembles_multi_fragment_record" "tail_fragment_alone_is_skipped_by_meta_scan"
proof -
  have h: "length fragment_head = 28" "rhd_flags fragment_head = Val 8" "u32_at fragment_head 16 = Val 1"
    "u16_at fragment_head 20 = Val 1" "slice fragment_head 22 28 = Val [5, 72, 69, 76, 76, 79]" "u16_at fragment_head 10 = Val 8"
    by (simp_all add: fragment_head_def rhd_flags_def image_read_simps del: u16_at_Val u32_at_Val)
  have t: "length fragment_tail = 19" "rhd_flags fragment_tail = Val 4" "slice fragment_tail 13 19 = Val [5, 87, 79, 82, 76, 68]"
    by (simp_all add: fragment_tail_def rhd_flags_def image_read_simps del: u16_at_Val u32_at_Val)
  have d: "decompress [5, 72, 69, 76, 76, 79] = Val (Some [72, 69, 76, 76, 79])"
    "decompress [5, 87, 79, 82, 76, 68] = Val (Some [87, 79, 82, 76, 68])"
    by (simp_all add: decompress_meaning sqz_meaning_literal_run)
  note flags = has_flag_def rhd_defs
  have r: "reassemble_fragments fragmented_reader fragment_head = Val (Some [72, 69, 76, 76, 79, 87, 79, 82, 76, 68])"
  proof -
    have "frag_loop (Suc (Suc k)) fragmented_reader fragment_head [] =
        Val (Some [72, 69, 76, 76, 79, 87, 79, 82, 76, 68])" for k
      by (simp add: h t d frag_piece_def frag_header_size_def RHDF_SIZE_def flags fragmented_db_reads [simplified]
          del: u16_at_Val u32_at_Val rhd_flags_Val)
    from this [of 4094] show ?thesis by (simp add: reassemble_fragments_def)
  qed
  have m: "unpack_record_meta fragmented_reader fragment_head = reassemble_fragments fragmented_reader fragment_head"
    "unpack_record_meta fragmented_reader fragment_tail = Val None"
    by (simp_all add: unpack_record_meta_def h t flags del: rhd_flags_Val)
  show "reassembles_multi_fragment_record" "tail_fragment_alone_is_skipped_by_meta_scan"
    by (simp_all add: reassembles_multi_fragment_record_def tail_fragment_alone_is_skipped_by_meta_scan_def passes_def
        fragmented_db_image fragmented_db_reads [simplified] h(6) m r flags del: u16_at_Val)
qed

end
