(* ===== verification/Scan_Tests.thy ===== *)
theory Scan_Tests
  imports Unit_Tests Cdc_Scan
begin

text \<open>
  The unit tests of the change scan, \<open>scan_tests\<close> of \<open>src/src/cdc.rs\<close>, with the functions that
  build their database files: a file is a header page and data pages of 4096 bytes, a data page has its
  records at its end and their places in its slot vector. A file system is not needed, the reader opens the
  bytes. The lemmas say what a scan makes of such a file, for any records that fit the page.
\<close>

section \<open>Database files\<close>

definition PAGE_SIZE :: nat where "PAGE_SIZE = 4096"

definition ODS13_ENC :: nat where "ODS13_ENC = 0x800D"

definition write_fdb :: "bytes list \<Rightarrow> bytes" where
  "write_fdb extra_pages =
     (let hdr = put_bytes 18 (le_bytes 2 ODS13_ENC) (put_bytes 16 (le_bytes 2 PAGE_SIZE) (replicate PAGE_SIZE 0))
      in hdr @ concat (map (\<lambda>pg. put_bytes 0 (take (min (length pg) PAGE_SIZE) pg) (replicate PAGE_SIZE 0)) extra_pages))"

text \<open>The loop of \<open>data_page\<close>: the records before \<open>i\<close> are in place, the last of them at \<open>fin\<close>.\<close>

fun place_records :: "nat \<Rightarrow> nat \<Rightarrow> bytes list \<Rightarrow> bytes \<Rightarrow> bytes" where
  "place_records i fin [] pg = pg"
| "place_records i fin (r # rs) pg =
     (let fin = fin - length r;
          pg = put_bytes (24 + i * 4) (le_bytes 2 fin) pg;
          pg = put_bytes (26 + i * 4) (le_bytes 2 (length r)) pg
      in place_records (i + 1) fin rs (put_bytes fin r pg))"

definition data_page :: "nat \<Rightarrow> bytes list \<Rightarrow> bytes" where
  "data_page pag_gen records =
     (let pg = put_bytes 0 [PAG_DATA] (replicate PAGE_SIZE 0);
          pg = put_bytes 4 (le_bytes 4 pag_gen) pg;
          pg = put_bytes 22 (le_bytes 2 (length records)) pg
      in place_records 0 PAGE_SIZE records pg)"

section \<open>Reading the files back\<close>

definition fits :: "bytes list \<Rightarrow> bool" where
  "fits recs \<longleftrightarrow> 24 + 4 * length recs + sum_list (map length recs) \<le> PAGE_SIZE \<and> [] \<notin> set recs"

lemma place_records_keeps:
  assumes "length pg = PAGE_SIZE" and "fin \<le> PAGE_SIZE"
    and "24 + 4 * (i + length recs) + sum_list (map length recs) \<le> fin"
  shows "length (place_records i fin recs pg) = PAGE_SIZE \<and>
    (\<forall>j k. k \<le> 24 + 4 * i \<longrightarrow> slice (place_records i fin recs pg) j k = slice pg j k) \<and>
    (\<forall>j k. fin \<le> j \<longrightarrow> slice (place_records i fin recs pg) j k = slice pg j k)"
  using assms
proof (induction recs arbitrary: i fin pg)
  case (Cons r rs)
  let ?fin = "fin - length r"
  let ?pg = "put_bytes ?fin r (put_bytes (26 + i * 4) (le_bytes 2 (length r)) (put_bytes (24 + i * 4) (le_bytes 2 ?fin) pg))"
  have "length ?pg = PAGE_SIZE" using Cons.prems by simp
  moreover have "24 + 4 * (i + 1 + length rs) + sum_list (map length rs) \<le> ?fin" using Cons.prems(3) by simp
  ultimately have IH: "length (place_records (i + 1) ?fin rs ?pg) = PAGE_SIZE \<and>
      (\<forall>j k. k \<le> 24 + 4 * (i + 1) \<longrightarrow> slice (place_records (i + 1) ?fin rs ?pg) j k = slice ?pg j k) \<and>
      (\<forall>j k. ?fin \<le> j \<longrightarrow> slice (place_records (i + 1) ?fin rs ?pg) j k = slice ?pg j k)"
    using Cons.prems(2) by (intro Cons.IH) simp_all
  have "slice ?pg j k = slice pg j k" if "k \<le> 24 + 4 * i \<or> fin \<le> j" for j k
    using that Cons.prems by (auto simp: slice_put_before slice_put_after)
  with IH Cons.prems show ?case by (simp add: Let_def)
qed simp

definition slot_off :: "nat \<Rightarrow> bytes list \<Rightarrow> nat \<Rightarrow> nat" where
  "slot_off fin recs s = fin - sum_list (map length (take (Suc s) recs))"

lemma place_records_read:
  assumes "length pg = PAGE_SIZE" and "fin \<le> PAGE_SIZE"
    and "24 + 4 * (i + length recs) + sum_list (map length recs) \<le> fin" and "s < length recs"
  shows "slice (place_records i fin recs pg) (24 + 4 * (i + s)) (26 + 4 * (i + s)) = Val (le_bytes 2 (slot_off fin recs s)) \<and>
    slice (place_records i fin recs pg) (26 + 4 * (i + s)) (28 + 4 * (i + s)) = Val (le_bytes 2 (length (recs ! s))) \<and>
    slice (place_records i fin recs pg) (slot_off fin recs s) (slot_off fin recs s + length (recs ! s)) = Val (recs ! s)"
  using assms
proof (induction recs arbitrary: i fin pg s)
  case (Cons r rs)
  let ?fin = "fin - length r"
  let ?pg = "put_bytes ?fin r (put_bytes (26 + i * 4) (le_bytes 2 (length r)) (put_bytes (24 + i * 4) (le_bytes 2 ?fin) pg))"
  have l: "length ?pg = PAGE_SIZE" using Cons.prems by simp
  have f: "24 + 4 * (i + 1 + length rs) + sum_list (map length rs) \<le> ?fin" "?fin \<le> PAGE_SIZE" using Cons.prems by simp_all
  show ?case
  proof (cases s)
    case 0
    then show ?thesis
      using place_records_keeps [OF l f(2,1)] Cons.prems by (simp add: Let_def slot_off_def slice_put_before slice_all)
  next
    case (Suc t)
    then show ?thesis using Cons.IH [OF l f(2,1), of t] Cons.prems by (simp add: Let_def slot_off_def)
  qed
qed simp

lemma data_page_reads:
  assumes "fits recs" and "gen < 2 ^ 32"
  shows "length (data_page gen recs) = PAGE_SIZE" and "byte_at (data_page gen recs) 0 = Val PAG_DATA"
    and "u32_at (data_page gen recs) 4 = Val gen" and "u16_at (data_page gen recs) 22 = Val (length recs)"
    and "page_size db = PAGE_SIZE \<Longrightarrow> s < length recs \<Longrightarrow> slot_raw db (data_page gen recs) s = Val (Some (recs ! s))"
proof -
  define pg where "pg = put_bytes 22 (le_bytes 2 (length recs)) (put_bytes 4 (le_bytes 4 gen)
      (put_bytes 0 [PAG_DATA] (replicate PAGE_SIZE 0)))"
  have pg: "length pg = PAGE_SIZE" "slice pg 0 1 = Val [PAG_DATA]" "slice pg 4 8 = Val (le_bytes 4 gen)"
      "slice pg 22 24 = Val (le_bytes 2 (length recs))"
    by (simp_all add: pg_def PAGE_SIZE_def image_simps)
  have dp: "data_page gen recs = place_records 0 PAGE_SIZE recs pg"
    by (simp add: data_page_def pg_def Let_def)
  have room: "24 + 4 * (0 + length recs) + sum_list (map length recs) \<le> PAGE_SIZE" using assms(1) by (simp add: fits_def)
  note keeps = place_records_keeps [OF pg(1) order.refl room, folded dp]
  show l: "length (data_page gen recs) = PAGE_SIZE" using keeps by simp
  have "slice (data_page gen recs) 0 1 = Val [PAG_DATA]" using keeps pg(2) by simp
  then show "byte_at (data_page gen recs) 0 = Val PAG_DATA"
    using l by (cases "data_page gen recs") (auto simp: slice_def PAGE_SIZE_def split: if_splits)
  show "u32_at (data_page gen recs) 4 = Val gen"
    using keeps pg(3) assms(2) by (simp add: u32_at_def le_nat_le_bytes_id del: u32_at_Val)
  show "u16_at (data_page gen recs) 22 = Val (length recs)"
    using keeps pg(4) room by (simp add: u16_at_def le_nat_le_bytes_id PAGE_SIZE_def del: u16_at_Val)
  assume db: "page_size db = PAGE_SIZE" and s: "s < length recs"
  note read = place_records_read [OF pg(1) order.refl room s, folded dp, simplified]
  let ?off = "slot_off PAGE_SIZE recs s" and ?len = "length (recs ! s)"
  have "sum_list (map length (take (Suc s) recs)) \<le> sum_list (map length recs)"
    by (metis append_take_drop_id le_add1 map_append sum_list_append)
  moreover have "?len \<le> sum_list (map length (take (Suc s) recs))" using s by (simp add: take_Suc_conv_app_nth)
  ultimately have b: "?off + ?len \<le> PAGE_SIZE" "0 < ?off" using room by (auto simp: slot_off_def)
  have "recs ! s \<noteq> []" using assms(1) nth_mem [OF s] by (auto simp: fits_def)
  with b read db show "slot_raw db (data_page gen recs) s = Val (Some (recs ! s))"
    by (simp add: slot_raw_def slot_bounds_def u16_at_def le_nat_le_bytes_id PAGE_SIZE_def mult.commute del: u16_at_Val)
qed

text \<open>The files of the tests, by the generation and the records of each of their pages.\<close>

definition fdb_pages :: "(nat \<times> bytes list) list \<Rightarrow> bytes list" where
  "fdb_pages ps = map (\<lambda>(gen, recs). data_page gen recs) ps"

definition fdb :: "(nat \<times> bytes list) list \<Rightarrow> ods" where
  "fdb ps = \<lparr>mmap = write_fdb (fdb_pages ps), page_size = PAGE_SIZE, ods_ver = 13\<rparr>"

definition page_fits :: "nat \<times> bytes list \<Rightarrow> bool" where
  "page_fits p \<longleftrightarrow> fst p < 2 ^ 32 \<and> fits (snd p)"

lemma put_whole: "length pg = PAGE_SIZE \<Longrightarrow> put_bytes 0 (take (min (length pg) PAGE_SIZE) pg) (replicate PAGE_SIZE 0) = pg"
  by (simp add: put_bytes_def)

lemma fdb_open:
  "\<forall>p \<in> set ps. page_fits p \<Longrightarrow> ods_open (write_fdb (fdb_pages ps)) = Val (fdb ps)"
proof -
  define hdr where "hdr = put_bytes 18 (le_bytes 2 ODS13_ENC) (put_bytes 16 (le_bytes 2 PAGE_SIZE) (replicate PAGE_SIZE (0 :: byte)))"
  have h: "length hdr = PAGE_SIZE" "slice hdr 16 18 = Val (le_bytes 2 PAGE_SIZE)" "slice hdr 18 20 = Val (le_bytes 2 ODS13_ENC)"
    by (simp_all add: hdr_def PAGE_SIZE_def image_simps)
  obtain rest where w: "write_fdb (fdb_pages ps) = hdr @ rest" by (simp add: write_fdb_def hdr_def Let_def)
  have "slice (hdr @ rest) 16 18 = slice hdr 16 18" "slice (hdr @ rest) 18 20 = slice hdr 18 20"
    using h(1) by (simp_all add: slice_def PAGE_SIZE_def)
  then show ?thesis
    using h by (simp add: ods_open_def w fdb_def u16_at_def le_nat_le_bytes_id PAGE_SIZE_def ODS13_ENC_def del: u16_at_Val)
qed

lemma fdb_page:
  assumes "\<forall>p \<in> set ps. page_fits p" and "n < length ps"
  shows "page (fdb ps) (Suc n) = Val (data_page (fst (ps ! n)) (snd (ps ! n)))"
proof -
  have len: "\<forall>pg \<in> set (fdb_pages ps). length pg = PAGE_SIZE"
    using assms(1) by (auto simp: fdb_pages_def page_fits_def data_page_reads(1))
  then have "map (\<lambda>pg. put_bytes 0 (take (min (length pg) PAGE_SIZE) pg) (replicate PAGE_SIZE 0)) (fdb_pages ps) = fdb_pages ps"
    by (intro map_idI put_whole) simp
  then obtain hdr where w: "write_fdb (fdb_pages ps) = hdr @ concat (fdb_pages ps)" "length hdr = PAGE_SIZE"
    by (simp add: write_fdb_def Let_def PAGE_SIZE_def)
  have "slice (hdr @ concat (fdb_pages ps)) (Suc n * PAGE_SIZE) (Suc n * PAGE_SIZE + PAGE_SIZE) =
      slice (concat (fdb_pages ps)) (n * PAGE_SIZE) (n * PAGE_SIZE + PAGE_SIZE)"
    using w(2) by (simp add: slice_def)
  also have "\<dots> = Val (fdb_pages ps ! n)"
    using slice_concat [of PAGE_SIZE "fdb_pages ps" n] len assms(2) by (simp add: fdb_pages_def uniform_def list_all_iff add.commute)
  finally have "slice (write_fdb (fdb_pages ps)) (Suc n * PAGE_SIZE) (Suc n * PAGE_SIZE + PAGE_SIZE) = Val (fdb_pages ps ! n)"
    by (simp only: w(1))
  then show ?thesis
    using assms(2) by (simp add: page_def fdb_def) (simp add: fdb_pages_def case_prod_unfold)
qed

lemma fdb_slot:
  assumes "\<forall>p \<in> set ps. page_fits p" and "0 < m" and "m \<le> length ps"
  shows "read_slot_raw (fdb ps) m s =
    Val (if s < length (snd (ps ! (m - 1))) then Some (snd (ps ! (m - 1)) ! s) else None)"
proof -
  obtain n where n: "m = Suc n" "n < length ps" using assms(2,3) by (cases m) auto
  have "fits (snd (ps ! n))" "fst (ps ! n) < 2 ^ 32" using assms(1) nth_mem [OF n(2)] by (simp_all add: page_fits_def)
  note dp = data_page_reads [OF this]
  have "page_size (fdb ps) = PAGE_SIZE" by (simp add: fdb_def)
  with dp show ?thesis by (simp add: n(1) read_slot_raw_def fdb_page [OF assms(1) n(2)] del: u16_at_Val u32_at_Val byte_at_Val)
qed

lemma rfold_map: "rfold f (map g xs) = rfold (\<lambda>x. f (g x)) xs"
proof
  show "rfold f (map g xs) s = rfold (\<lambda>x. f (g x)) xs s" for s
    by (induction xs arbitrary: s) (auto intro: rbind_cong)
qed

lemma rfold_nth: "rfold (\<lambda>s. f (xs ! s)) [0..<length xs] = rfold f xs"
  using rfold_map [of f "nth xs" "[0..<length xs]"] by (simp add: map_nth)

text \<open>A scan of a page is a scan of its records, in their order.\<close>

lemma scan_fdb_page:
  assumes "\<forall>p \<in> set ps. page_fits p" and "0 < m" and "m \<le> length ps"
  shows "scan_cdc_page (fdb ps) c last_txn gens first m st = (case ps ! (m - 1) of (gen, recs) \<Rightarrow>
    let page_changed = (gens m \<noteq> Some gen); rebuild_pks = (tc_pk_byte_len c > 0 \<and> (page_changed \<or> first)) in
     rbind (rfold (scan_record (fdb ps) c last_txn page_changed rebuild_pks) recs ((ps_rec st)\<lparr>rs_page_pks := []\<rparr>)) (\<lambda>rs.
     rbind (if rebuild_pks
            then rbind (flat_pk_sort_dedup (rs_page_pks rs) (tc_pk_byte_len c)) (\<lambda>flat. Val (put_page m flat (ps_new_pks st)))
            else Val (ps_new_pks st)) (\<lambda>new_pks.
       Val \<lparr>ps_rec = rs, ps_new_gens = (if page_changed then (ps_new_gens st)(m := Some gen) else ps_new_gens st),
            ps_new_pks = new_pks, ps_total = ps_total st + 1,
            ps_skipped = (if page_changed then ps_skipped st else ps_skipped st + 1)\<rparr>)))"
proof -
  obtain n where n: "m = Suc n" "n < length ps" using assms(2,3) by (cases m) auto
  obtain gen recs where p: "ps ! n = (gen, recs)" by (cases "ps ! n")
  have "fits recs" "gen < 2 ^ 32" using bspec [OF assms(1) nth_mem [OF n(2)]] by (simp_all add: page_fits_def p)
  note dp = data_page_reads [OF this]
  have ps: "page_size (fdb ps) = PAGE_SIZE" by (simp add: fdb_def)
  have slots: "rfold (\<lambda>s t. rbind (slot_raw (fdb ps) (data_page gen recs) s) (\<lambda>r. case r of
         None \<Rightarrow> Val t | Some raw \<Rightarrow> scan_record (fdb ps) c last_txn ch rb raw t)) [0..<length recs] t =
      rfold (scan_record (fdb ps) c last_txn ch rb) recs t" for ch rb t
  proof -
    have "rfold (\<lambda>s t. rbind (slot_raw (fdb ps) (data_page gen recs) s) (\<lambda>r. case r of
           None \<Rightarrow> Val t | Some raw \<Rightarrow> scan_record (fdb ps) c last_txn ch rb raw t)) [0..<length recs] t =
        rfold (\<lambda>s. scan_record (fdb ps) c last_txn ch rb (recs ! s)) [0..<length recs] t"
      by (rule rfold_cong) (simp_all add: dp(5) [OF ps])
    then show ?thesis by (simp only: rfold_nth)
  qed
  have page: "page (fdb ps) m = Val (data_page gen recs)" using fdb_page [OF assms(1) n(2)] p n(1) by simp
  show ?thesis
    unfolding scan_cdc_page_def page rbind.simps dp(2-4) Let_def slots by (simp add: n(1) p)
qed

section \<open>The records and the cache of the tests\<close>

text \<open>\<open>sqz\<close> asserts that it is given at most 127 bytes; here it is given eight at most.\<close>

definition sqz :: "bytes \<Rightarrow> bytes" where
  "sqz data = of_nat (length data) # data"

definition payload_i32 :: "int \<Rightarrow> bytes" where
  "payload_i32 v = sqz (replicate 4 0 @ le_bytes 4 (wrap 32 v))"

definition live_record :: "nat \<Rightarrow> int \<Rightarrow> bytes" where
  "live_record txn pk = put_bytes 0 (le_bytes 4 txn) (replicate 13 0) @ payload_i32 pk"

definition delete_stub_with_back :: "nat \<Rightarrow> nat \<Rightarrow> nat \<Rightarrow> bytes" where
  "delete_stub_with_back txn b_page b_line =
     put_bytes 10 (le_bytes 2 1) (put_bytes 8 (le_bytes 2 b_line) (put_bytes 4 (le_bytes 4 b_page)
       (put_bytes 0 (le_bytes 4 txn) (replicate 13 0)))) @ sqz (replicate 4 0)"

definition delete_stub_old_txn :: "nat \<Rightarrow> bytes" where
  "delete_stub_old_txn txn =
     put_bytes 10 (le_bytes 2 1) (put_bytes 0 (le_bytes 4 txn) (replicate 13 0)) @ sqz (replicate 4 0)"

definition id_slot :: slot_info where
  "id_slot = \<lparr>slot_desc = desc_long 4, null_byte = 0, null_mask = 1\<rparr>"

definition make_cache :: "nat list \<Rightarrow> table_cache" where
  "make_cache data_pages =
     \<lparr>tc_relation_id = 0, tc_slots = [id_slot], tc_fmt_slots = [], tc_col_names = [quoted (lit ''id'')],
      tc_pk_col_names = [quoted (lit ''id'')], tc_n_fields = 1, tc_n_pk = 1, tc_pk_indices = [Some 0],
      tc_first_pp = None, tc_pp_gen = 0, tc_data_pages = data_pages, tc_prev_pks = [], tc_pk_tracked = True,
      tc_pk_byte_len = 8\<rparr>"

lemma stub_prefix:
  assumes "txn < 2 ^ 32" and "\<not> has_flag flags RHD_LONG_TRANUM"
  shows "make_stub txn b_page b_line flags body =
    put_bytes 10 (le_bytes 2 flags) (put_bytes 8 (le_bytes 2 b_line) (put_bytes 4 (le_bytes 4 b_page)
       (put_bytes 0 (le_bytes 4 txn) (replicate 13 0)))) @ body"
proof -
  have "replicate (13 + length body) (0 :: byte) = replicate 13 0 @ replicate (length body) 0" by (simp add: replicate_add)
  with assms show ?thesis
    by (simp add: make_stub_def Let_def put_bytes_known)
qed

definition row_i32 :: "int \<Rightarrow> bytes" where
  "row_i32 v = replicate 4 0 @ le_bytes 4 (wrap 32 v)"

definition key_i32 :: "int \<Rightarrow> bytes" where
  "key_i32 v = len_field (be_bytes 4 (wrap 32 v))"

lemma length_key_i32 [simp]: "length (key_i32 v) = 8"
  by (simp add: key_i32_def len_field_def)

lemma stub_reads:
  assumes "txn < 2 ^ 32" and "b_page < 2 ^ 32" and "b_line < 2 ^ 16" and "flags < 2 ^ 16"
  shows "byte_at (make_stub txn b_page b_line flags body) 12 = Val 0"
    and "\<not> has_flag flags (or RHD_FRAGMENT (or RHD_INCOMPLETE RHD_BLOB)) \<Longrightarrow>
      record_transaction (make_stub txn b_page b_line flags body) = Val (Some txn)"
proof -
  note fields = stub_fields [OF assms(2-4)]
  show "byte_at (make_stub txn b_page b_line flags body) 12 = Val 0"
    by (simp add: make_stub_def Let_def nth_put_bytes)
  assume "\<not> has_flag flags (or RHD_FRAGMENT (or RHD_INCOMPLETE RHD_BLOB))"
  then show "record_transaction (make_stub txn b_page b_line flags body) = Val (Some txn)"
    using assms(1) fields(5) by (simp add: record_transaction_def fields drop_bit_eq_div del: u16_at_Val u32_at_Val rhd_flags_Val)
qed

lemma replicate_known: "replicate 2 x = [x, x]" "replicate 4 x = [x, x, x, x]" "replicate 6 x = [x, x, x, x, x, x]" "replicate 9 x = [x, x, x, x, x, x, x, x, x]"
  by (simp_all add: eval_nat_numeral)

lemma live_record_stub: "txn < 2 ^ 32 \<Longrightarrow> live_record txn v = make_stub txn 0 0 0 (payload_i32 v)"
  by (simp add: stub_prefix live_record_def has_flag_def put_bytes_known le_bytes_2)
    (simp add: le_bytes_4 replicate_known)

lemma delete_stub_stub: "txn < 2 ^ 32 \<Longrightarrow> delete_stub_with_back txn p l = make_stub txn p l 1 (sqz (replicate 4 0))"
  by (simp add: stub_prefix delete_stub_with_back_def has_flag_def RHD_LONG_TRANUM_def)

lemma delete_old_stub: "delete_stub_old_txn txn = delete_stub_with_back txn 0 0"
  by (simp add: delete_stub_with_back_def delete_stub_old_txn_def put_bytes_known le_bytes_2)
    (simp add: le_bytes_4 replicate_known)

lemma sqz_meaning_sqz: "length d \<le> 127 \<Longrightarrow> sqz_meaning (sqz d) 0 = Some d"
  by (simp add: sqz_def sqz_meaning_literal_run)

lemma live_reads:
  assumes "txn < 2 ^ 32"
  shows "length (live_record txn v) = 22" and "rhd_flags (live_record txn v) = Val 0"
    and "record_transaction (live_record txn v) = Val (Some txn)" and "byte_at (live_record txn v) 12 = Val 0"
    and "unpack_record_cdc (live_record txn v) buf = Val (Some False, row_i32 v)"
proof -
  note l = live_record_stub [OF assms]
  have f: "\<not> has_flag 0 m" for m by (simp add: has_flag_def)
  show "length (live_record txn v) = 22" by (simp add: live_record_def payload_i32_def sqz_def)
  show "rhd_flags (live_record txn v) = Val 0" unfolding l by (rule stub_fields) simp_all
  show "record_transaction (live_record txn v) = Val (Some txn)" unfolding l by (rule stub_reads) (simp_all add: assms [simplified] f)
  show "byte_at (live_record txn v) 12 = Val 0" unfolding l by (rule stub_reads) (simp_all add: assms [simplified])
  have "sqz_meaning (payload_i32 v) 0 = Some (row_i32 v)" by (simp add: payload_i32_def row_i32_def sqz_meaning_sqz)
  then show "unpack_record_cdc (live_record txn v) buf = Val (Some False, row_i32 v)"
    unfolding l by (subst unpack_stub [where rec = "row_i32 v"]) (simp_all add: f payload_i32_def sqz_def)
qed

lemma delete_reads:
  assumes "txn < 2 ^ 32" and "p < 2 ^ 32" and "l < 2 ^ 16"
  shows "length (delete_stub_with_back txn p l) = 18" and "rhd_flags (delete_stub_with_back txn p l) = Val 1"
    and "record_transaction (delete_stub_with_back txn p l) = Val (Some txn)"
    and "byte_at (delete_stub_with_back txn p l) 12 = Val 0"
    and "unpack_record_cdc (delete_stub_with_back txn p l) buf = Val (Some True, replicate 4 0)"
    and "u32_at (delete_stub_with_back txn p l) 4 = Val p" and "u16_at (delete_stub_with_back txn p l) 8 = Val l"
proof -
  note d = delete_stub_stub [OF assms(1)]
  have f: "\<not> has_flag 1 (or RHD_FRAGMENT (or RHD_INCOMPLETE RHD_BLOB))" "\<not> has_flag 1 RHD_NOT_PACKED" "has_flag 1 RHD_DELETED"
    "\<not> has_flag 1 RHD_LONG_TRANUM"
    by (simp_all add: has_flag_def rhd_defs)
  show "length (delete_stub_with_back txn p l) = 18" by (simp add: delete_stub_with_back_def sqz_def)
  show "rhd_flags (delete_stub_with_back txn p l) = Val 1" unfolding d by (rule stub_fields) (use assms in simp_all)
  show "record_transaction (delete_stub_with_back txn p l) = Val (Some txn)"
    unfolding d by (rule stub_reads) (use assms f in simp_all)
  show "byte_at (delete_stub_with_back txn p l) 12 = Val 0" unfolding d by (rule stub_reads) (use assms in simp_all)
  show "u32_at (delete_stub_with_back txn p l) 4 = Val p" unfolding d by (rule stub_fields) (use assms in simp_all)
  show "u16_at (delete_stub_with_back txn p l) 8 = Val l" unfolding d by (rule stub_fields) (use assms in simp_all)
  show "unpack_record_cdc (delete_stub_with_back txn p l) buf = Val (Some True, replicate 4 0)"
    unfolding d using f assms
    by (subst unpack_stub [where rec = "replicate 4 0"]) (simp_all add: sqz_meaning_sqz, simp add: sqz_def)
qed

lemma row_field:
  "slot_field (row_i32 v) id_slot = Val (key_i32 v)" "write_field_binary (row_i32 v) (slot_desc id_slot) = Val (key_i32 v)"
  "null_bits (row_i32 v) 0 = 0"
proof -
  have "slice (row_i32 v) 4 8 = Val (le_bytes 4 (wrap 32 v))" by (simp add: row_i32_def slice_def)
  moreover have "row_i32 v ! 0 = 0" "length (row_i32 v) = 8" by (simp_all add: row_i32_def nth_append)
  moreover have "le_nat (le_bytes 4 (wrap 32 v)) = wrap 32 v" "wrap 32 (signed_of 32 (wrap 32 v)) = wrap 32 v" using wrap_bound [of 32 v] by (simp_all add: le_nat_le_bytes_id wrap_signed)
  ultimately show "slot_field (row_i32 v) id_slot = Val (key_i32 v)"
    "write_field_binary (row_i32 v) (slot_desc id_slot) = Val (key_i32 v)" "null_bits (row_i32 v) 0 = 0"
    by (simp_all add: slot_field_def id_slot_def null_bits_def has_flag_def write_field_binary_def desc_long_def dtype_defs
        int_field_def key_i32_def)
qed

lemma cache_simps [simp]:
  "slots_for (make_cache pages\<lparr>tc_prev_pks := prev\<rparr>) fmt = [id_slot]" "slots_for (make_cache pages) fmt = [id_slot]"
  by (simp_all add: slots_for_def make_cache_def)

lemma cache_key:
  "tc_pk_indices c = [Some 0] \<Longrightarrow> slots_for c fmt = [id_slot] \<Longrightarrow> encode_pk_pgcopy (row_i32 v) c fmt = Val (key_i32 v)"
  "delete_key (row_i32 v) [id_slot] [Some 0] = Val (key_i32 v)"
  "upsert_fields (row_i32 v) [id_slot] = Val (key_i32 v)"
  by (simp_all add: encode_pk_pgcopy_def row_field)

text \<open>What the scan of one live record and of one delete stub does to its state.\<close>

definition test_cache :: "table_cache \<Rightarrow> bool" where
  "test_cache c \<longleftrightarrow> tc_pk_indices c = [Some 0] \<and> slots_for c 0 = [id_slot] \<and> tc_pk_byte_len c = 8 \<and> tc_n_fields c = 1 \<and>
     tc_n_pk c = 1 \<and> tc_pk_tracked c"

lemma test_cache: "test_cache (make_cache pages\<lparr>tc_prev_pks := prev\<rparr>)" "test_cache (make_cache pages)"
  by (simp_all add: test_cache_def) (simp_all add: make_cache_def)

definition live_turn :: "nat \<Rightarrow> bool \<Rightarrow> bool \<Rightarrow> nat \<Rightarrow> int \<Rightarrow> rec_state \<Rightarrow> rec_state" where
  "live_turn last_txn ch rb txn v st =
     (if \<not> ch \<and> \<not> rb then st
      else let st = st\<lparr>rs_checked := rs_checked st + 1\<rparr> in
        if \<not> rb \<and> \<not> txn > last_txn then st
        else let st = st\<lparr>rs_buf := row_i32 v\<rparr>; st = (if rb then st\<lparr>rs_page_pks := rs_page_pks st @ key_i32 v\<rparr> else st) in
          if \<not> txn > last_txn then st
          else let st = st\<lparr>rs_max_txn := max txn (rs_max_txn st)\<rparr> in
            if ch then st\<lparr>rs_upsert_out := rs_upsert_out st @ be_bytes 2 1 @ key_i32 v, rs_upserts := rs_upserts st + 1\<rparr> else st)"

lemma scan_live:
  assumes "test_cache c" and "txn < 2 ^ 32"
  shows "scan_record db c last_txn ch rb (live_record txn v) st = Val (live_turn last_txn ch rb txn v st)"
proof -
  have f: "\<not> has_flag 0 m" for m by (simp add: has_flag_def)
  have c: "tc_pk_indices c = [Some 0]" "slots_for c 0 = [id_slot]" "tc_pk_byte_len c = 8" "tc_n_fields c = 1"
    using assms(1) by (simp_all add: test_cache_def)
  show ?thesis
    using live_reads [OF assms(2), of v]
    by (simp add: scan_record_def f live_turn_def Let_def snapshot_key_def cache_key row_field c scan_upsert_def
        del: rhd_flags_Val byte_at_Val)
qed

definition delete_turn :: "nat \<Rightarrow> nat \<Rightarrow> int option \<Rightarrow> bytes \<Rightarrow> rec_state \<Rightarrow> rec_state" where
  "delete_turn last_txn txn gone buf st =
     (let st = st\<lparr>rs_checked := rs_checked st + 1\<rparr> in
      if \<not> txn > last_txn then st
      else let st = st\<lparr>rs_buf := buf, rs_max_txn := max txn (rs_max_txn st)\<rparr> in
        case gone of
          None \<Rightarrow> st
        | Some v \<Rightarrow> st\<lparr>rs_delete_buf := rs_delete_buf st @ be_bytes 2 1 @ key_i32 v, rs_deletes := rs_deletes st + 1\<rparr>)"

lemma scan_deleted:
  assumes "test_cache c" and "13 \<le> length raw" and "rhd_flags raw = Val fl" and "has_flag fl RHD_DELETED"
    and "record_transaction raw = Val (Some txn)" and "byte_at raw 12 = Val b"
    and "\<And>buf. unpack_record_cdc raw buf = Val (Some True, rec)" and "u32_at raw 4 = Val p" and "u16_at raw 8 = Val l"
    and "txn > last_txn \<Longrightarrow> 0 < p \<and> chain_follow MAX_CHAIN_DEPTH db p l rec = Val (map_option (\<lambda>v. 0) gone, buf)"
    and "\<And>v. gone = Some v \<Longrightarrow> buf = row_i32 v"
  shows "scan_record db c last_txn ch rb raw st = Val (delete_turn last_txn txn gone buf st)"
proof -
  have f: "has_flag fl pk_skip" "byte_at [id_slot] 0 = Val id_slot"
    using assms(4) by (simp_all add: pk_skip_def has_flag_or)
  have c: "tc_pk_indices c = [Some 0]" "slots_for c 0 = [id_slot]" "tc_pk_tracked c" "tc_n_pk c = 1"
    using assms(1) by (simp_all add: test_cache_def)
  show ?thesis
    using assms(2-11)
    by (cases gone) (auto simp: scan_record_def f delete_turn_def Let_def scan_delete_def cache_key row_field c
        simp del: rhd_flags_Val byte_at_Val u16_at_Val u32_at_Val)
qed

lemma scan_delete_record:
  assumes "test_cache c" and "txn < 2 ^ 32" and "p < 2 ^ 32" and "l < 2 ^ 16"
    and "txn > last_txn \<Longrightarrow>
      0 < p \<and> chain_follow MAX_CHAIN_DEPTH db p l (replicate 4 0) = Val (map_option (\<lambda>v. 0) gone, buf)"
    and "\<And>v. gone = Some v \<Longrightarrow> buf = row_i32 v"
  shows "scan_record db c last_txn ch rb (delete_stub_with_back txn p l) st = Val (delete_turn last_txn txn gone buf st)"
proof -
  note r = delete_reads [OF assms(2-4)]
  have "13 \<le> length (delete_stub_with_back txn p l)" "has_flag 1 RHD_DELETED" using r(1) by (simp_all add: has_flag_def rhd_defs)
  then show ?thesis by (rule scan_deleted [OF assms(1) _ r(2) _ r(3-7) assms(5,6)])
qed

lemma chain_follow_live:
  assumes "read_slot_raw db p l = Val (Some (live_record txn v))" and "txn < 2 ^ 32"
  shows "chain_follow MAX_CHAIN_DEPTH db p l buf = Val (Some 0, row_i32 v)"
proof -
  have "chain_follow (Suc k) db p l buf = Val (Some 0, row_i32 v)" for k
    using assms(1) live_reads [OF assms(2)] by (simp del: byte_at_Val)
  from this [of 7] show ?thesis by (simp add: MAX_CHAIN_DEPTH_def)
qed

text \<open>The snapshot of a page whose live records have the keys \<open>vs\<close>.\<close>

definition snap_i32 :: "int list \<Rightarrow> bytes" where
  "snap_i32 vs = concat (sorted_list_of_set (set (map key_i32 vs)))"

lemma sort_keys: "flat_pk_sort_dedup (concat (map key_i32 vs)) 8 = Val (snap_i32 vs)"
  unfolding snap_i32_def by (rule flat_pk_sort_dedup_concat) (auto simp: uniform_def)

lemmas sort_known_keys = sort_keys [of "[]", simplified] sort_keys [of "[v]" for v, simplified]
  sort_keys [of "[v, w]" for v w, simplified]

section \<open>The tests\<close>

definition scan_changes :: "ods \<Rightarrow> table_cache \<Rightarrow> nat \<Rightarrow> (nat \<Rightarrow> nat option) \<Rightarrow> scan_output run" where
  "scan_changes db c last_txn page_gens = scan_changes_into db c last_txn page_gens"

definition delete_on_unchanged_page_detected :: bool where
  "delete_on_unchanged_page_detected \<longleftrightarrow> passes (
     let pag_gen = 7; back = live_record 50 42; del = delete_stub_with_back 101 1 1; pg = data_page pag_gen [del, back]
     in rbind (ods_open (write_fdb [pg])) (\<lambda>db.
        rbind (scan_changes db (make_cache [1]) 100 [1 \<mapsto> pag_gen]) (\<lambda>out.
          Val (so_deletes out = 1 \<and> so_upserts out = 0))))"

definition upsert_ignored_on_unchanged_page :: bool where
  "upsert_ignored_on_unchanged_page \<longleftrightarrow> passes (
     let pag_gen = 5; pg = data_page pag_gen [live_record 101 99]
     in rbind (ods_open (write_fdb [pg])) (\<lambda>db.
        rbind (scan_changes db (make_cache [1]) 100 [1 \<mapsto> pag_gen]) (\<lambda>out.
          Val (so_upserts out = 0 \<and> so_deletes out = 0))))"

definition upsert_on_changed_page_detected :: bool where
  "upsert_on_changed_page_detected \<longleftrightarrow> passes (
     let pg = data_page 8 [live_record 101 99]
     in rbind (ods_open (write_fdb [pg])) (\<lambda>db.
        rbind (scan_changes db (make_cache [1]) 100 [1 \<mapsto> 7]) (\<lambda>out.
          Val (so_upserts out = 1 \<and> so_deletes out = 0))))"

definition delete_and_upsert_different_pages_same_txn :: bool where
  "delete_and_upsert_different_pages_same_txn \<longleftrightarrow> passes (
     let back = live_record 50 42; del = delete_stub_with_back 101 1 1;
         pg1 = data_page 7 [del, back]; pg2 = data_page 8 [live_record 101 99]
     in rbind (ods_open (write_fdb [pg1, pg2])) (\<lambda>db.
        rbind (scan_changes db (make_cache [1, 2]) 100 [1 \<mapsto> 7, 2 \<mapsto> 7]) (\<lambda>out.
          Val (so_deletes out = 1 \<and> so_upserts out = 1))))"

text \<open>\<open>page_gens.extend(new_gens)\<close> and the snapshot of the next cycle.\<close>

definition next_gens :: "(nat \<Rightarrow> nat option) \<Rightarrow> scan_output \<Rightarrow> (nat \<Rightarrow> nat option)" where
  "next_gens page_gens out = page_gens ++ so_new_gens out"

definition next_cache :: "table_cache \<Rightarrow> scan_output \<Rightarrow> table_cache" where
  "next_cache c out = c\<lparr>tc_prev_pks := so_new_pks out\<rparr>"

definition delete_long_tranum_chain_follow_unchanged_page :: bool where
  "delete_long_tranum_chain_follow_unchanged_page \<longleftrightarrow> passes (
     let pg2 = data_page 6 [live_record 50 42];
         stub = put_bytes 0 (le_bytes 4 101) (replicate 16 0);
         stub = put_bytes 4 (le_bytes 4 2) stub;
         stub = put_bytes 8 (le_bytes 2 0) stub;
         stub = put_bytes 10 (le_bytes 2 (or 1 1024)) stub;
         pg1 = data_page 7 [stub @ sqz (replicate 5 0)]
     in rbind (ods_open (write_fdb [pg1, pg2])) (\<lambda>db.
        rbind (scan_changes db (make_cache [1, 2]) 100 [1 \<mapsto> 7]) (\<lambda>out.
          Val (so_deletes out = 1 \<and> so_upserts out = 0))))"

definition old_txn_ignored :: bool where
  "old_txn_ignored \<longleftrightarrow> passes (
     rbind (ods_open (write_fdb [data_page 9 [delete_stub_old_txn 50]])) (\<lambda>db.
     rbind (scan_changes db (make_cache [1]) 100 Map.empty) (\<lambda>out.
       Val (so_deletes out = 0 \<and> so_upserts out = 0))))"

definition max_txn_advances :: bool where
  "max_txn_advances \<longleftrightarrow> passes (
     rbind (ods_open (write_fdb [data_page 10 [live_record 200 1, live_record 150 2]])) (\<lambda>db.
     rbind (scan_changes db (make_cache [1]) 100 Map.empty) (\<lambda>out.
       Val (so_max_txn out = 200 \<and> so_upserts out = 2))))"

definition express_delete_detected_via_pk_snapshot_diff :: bool where
  "express_delete_detected_via_pk_snapshot_diff \<longleftrightarrow> passes (
     rbind (ods_open (write_fdb [data_page 7 [live_record 50 10, live_record 50 20]])) (\<lambda>db.
     rbind (scan_changes db (make_cache [1]) 100 Map.empty) (\<lambda>out1.
     let page_gens = next_gens Map.empty out1; cache = next_cache (make_cache [1]) out1
     in rbind (ods_open (write_fdb [data_page 8 [live_record 50 10]])) (\<lambda>db2.
        rbind (scan_changes db2 cache 100 page_gens) (\<lambda>out2.
          Val (so_deletes out1 = 0 \<and> map_option (\<lambda>v. length v div 8) (map_of (tc_prev_pks cache) 1) = Some 2 \<and>
               so_express_deletes out2 = 1 \<and> so_deletes out2 = 1))))))"

definition express_delete_skipped_when_pk_still_present_elsewhere :: bool where
  "express_delete_skipped_when_pk_still_present_elsewhere \<longleftrightarrow> passes (
     let pg1 = data_page 7 [live_record 50 10, live_record 50 20]; pg2 = data_page 7 []
     in rbind (ods_open (write_fdb [pg1, pg2])) (\<lambda>db.
        rbind (scan_changes db (make_cache [1, 2]) 100 Map.empty) (\<lambda>out1.
        let page_gens = next_gens Map.empty out1; cache = next_cache (make_cache [1, 2]) out1;
            pg1b = data_page 8 [live_record 50 10]; pg2b = data_page 8 [live_record 50 20]
        in rbind (ods_open (write_fdb [pg1b, pg2b])) (\<lambda>db2.
           rbind (scan_changes db2 cache 100 page_gens) (\<lambda>out2. Val (so_express_deletes out2 = 0))))))"

definition new_gens_only_for_changed_pages :: bool where
  "new_gens_only_for_changed_pages \<longleftrightarrow> passes (
     let pg1 = data_page 7 [delete_stub_old_txn 50]; pg2 = data_page 9 [live_record 101 2]
     in rbind (ods_open (write_fdb [pg1, pg2])) (\<lambda>db.
        rbind (scan_changes db (make_cache [1, 2]) 100 [1 \<mapsto> 7, 2 \<mapsto> 7]) (\<lambda>out.
          Val (so_new_gens out 1 = None \<and> so_new_gens out 2 = Some 9))))"

definition fragment_record :: bytes where
  "fragment_record =
     put_bytes 10 (le_bytes 2 (or RHD_CHAIN RHD_FRAGMENT)) (put_bytes 8 (le_bytes 2 0) (put_bytes 4 (le_bytes 4 3)
       (put_bytes 0 (le_bytes 4 50) (replicate 13 0)))) @ sqz (replicate 4 0)"

definition multi_level_chain_follow_through_fragment :: bool where
  "multi_level_chain_follow_through_fragment \<longleftrightarrow> passes (
     let pg3 = data_page 5 [live_record 50 77]; pg2 = data_page 5 [fragment_record];
         pg1 = data_page 7 [delete_stub_with_back 101 2 0]
     in rbind (ods_open (write_fdb [pg1, pg2, pg3])) (\<lambda>db.
        rbind (scan_changes db (make_cache [1]) 100 [1 \<mapsto> 7]) (\<lambda>out.
          Val (so_deletes out = 1 \<and> so_upserts out = 0))))"

definition blob_record :: bytes where
  "blob_record = put_bytes 10 (le_bytes 2 RHD_BLOB) (put_bytes 0 (le_bytes 4 50) (replicate 13 0)) @ sqz (replicate 4 0)"

definition chain_follow_stops_on_non_chain_flags :: bool where
  "chain_follow_stops_on_non_chain_flags \<longleftrightarrow> passes (
     let pg2 = data_page 5 [blob_record]; pg1 = data_page 7 [delete_stub_with_back 101 2 0]
     in rbind (ods_open (write_fdb [pg1, pg2])) (\<lambda>db.
        rbind (scan_changes db (make_cache [1]) 100 [1 \<mapsto> 7]) (\<lambda>out. Val (so_deletes out = 0))))"

definition express_delete_multi_page_no_false_positive :: bool where
  "express_delete_multi_page_no_false_positive \<longleftrightarrow> passes (
     let pg1 = data_page 7 [live_record 50 10]; pg2 = data_page 7 [live_record 50 20]; pg3 = data_page 7 [live_record 50 30]
     in rbind (ods_open (write_fdb [pg1, pg2, pg3])) (\<lambda>db.
        rbind (scan_changes db (make_cache [1, 2, 3]) 100 Map.empty) (\<lambda>out1.
        let page_gens = next_gens Map.empty out1; cache = next_cache (make_cache [1, 2, 3]) out1;
            pg1b = data_page 8 [live_record 50 10]; pg2b = data_page 8 []; pg3b = data_page 8 [live_record 50 30]
        in rbind (ods_open (write_fdb [pg1b, pg2b, pg3b])) (\<lambda>db2.
           rbind (scan_changes db2 cache 100 page_gens) (\<lambda>out2.
             Val (so_express_deletes out2 = 1 \<and> so_deletes out2 = 1))))))"

definition hdr_gen_readable_from_fdb :: bool where
  "hdr_gen_readable_from_fdb \<longleftrightarrow> passes (
     rbind (ods_open (write_fdb [])) (\<lambda>db. rbind (page db 0) (\<lambda>hdr. rbind (u32_at hdr 4) (\<lambda>gen. Val True))))"

definition fdb_with_gen :: "nat \<Rightarrow> bytes" where
  "fdb_with_gen gen =
     put_bytes 4 (le_bytes 4 gen) (put_bytes 18 (le_bytes 2 ODS13_ENC) (put_bytes 16 (le_bytes 2 PAGE_SIZE) (replicate PAGE_SIZE 0)))"

definition hdr_gen_change_triggers_scan :: bool where
  "hdr_gen_change_triggers_scan \<longleftrightarrow> passes (
     rbind (ods_open (fdb_with_gen 5)) (\<lambda>db_a.
     rbind (ods_open (fdb_with_gen 6)) (\<lambda>db_b.
     rbind (page db_a 0) (\<lambda>pa. rbind (u32_at pa 4) (\<lambda>gen_a.
     rbind (page db_b 0) (\<lambda>pb. rbind (u32_at pb 4) (\<lambda>gen_b.
     let fresh = None; changed_a = (fresh \<noteq> Some gen_a); seen = Some gen_a; changed_b = (seen \<noteq> Some gen_b);
         seen = Some gen_b; changed_b2 = (seen \<noteq> Some gen_b)
     in Val (gen_a \<noteq> gen_b \<and> changed_a \<and> changed_b \<and> \<not> changed_b2))))))))"

definition missing_pk_index_not_tracked :: bool where
  "missing_pk_index_not_tracked \<longleftrightarrow> passes (
     let cache = \<lparr>tc_relation_id = 0, tc_slots = [id_slot], tc_fmt_slots = [], tc_col_names = [quoted (lit ''id'')],
           tc_pk_col_names = [quoted (lit ''nonexistent'')], tc_n_fields = 1, tc_n_pk = 1, tc_pk_indices = [None],
           tc_first_pp = None, tc_pp_gen = 0, tc_data_pages = [], tc_prev_pks = [], tc_pk_tracked = False,
           tc_pk_byte_len = 0\<rparr>
     in rbind (ods_open (write_fdb [data_page 9 [delete_stub_with_back 101 1 0]])) (\<lambda>db.
        rbind (scan_changes db (cache\<lparr>tc_data_pages := [1]\<rparr>) 100 Map.empty) (\<lambda>out.
          Val (\<not> tc_pk_tracked cache \<and> so_deletes out = 0))))"

definition stride_slot :: "nat \<Rightarrow> int \<Rightarrow> slot_info" where
  "stride_slot ty sc =
     \<lparr>slot_desc = \<lparr>dtype = ty, scale = sc, dlength = 0, sub_type = 0, dflags = 0, offset = 0\<rparr>, null_byte = 0, null_mask = 1\<rparr>"

definition pk_stride_computed_correctly :: bool where
  "pk_stride_computed_correctly \<longleftrightarrow>
     (let slots_i32 = [stride_slot DTYPE_LONG 0]; slots_i64 = [stride_slot DTYPE_INT64 0];
          slots_date = [stride_slot DTYPE_SQL_DATE 0]; slots_comp = [stride_slot DTYPE_LONG 0, stride_slot DTYPE_INT64 0];
          slots_varchar = [stride_slot DTYPE_VARYING 0]
      in pk_pgcopy_stride [Some 0] slots_i32 = Val 8 \<and> pk_pgcopy_stride [Some 0] slots_i64 = Val 12 \<and>
         pk_pgcopy_stride [Some 0] slots_date = Val 8 \<and> pk_pgcopy_stride [Some 0, Some 1] slots_comp = Val 20 \<and>
         pk_pgcopy_stride [Some 0] slots_varchar = Val 0 \<and> pk_pgcopy_stride [None] slots_i32 = Val 0)"

definition flat_pk_sort_dedup_works :: bool where
  "flat_pk_sort_dedup_works \<longleftrightarrow> passes (
     let stride = 4; flat = be_bytes 4 3 @ be_bytes 4 1 @ be_bytes 4 2 @ be_bytes 4 1
     in rbind (flat_pk_sort_dedup flat stride) (\<lambda>flat.
          Val (length flat div stride = 3 \<and> map be_nat (chunks stride flat) = [1, 2, 3])))"

definition flat_pk_contains_binary_search :: bool where
  "flat_pk_contains_binary_search \<longleftrightarrow>
     (let stride = 4; flat = concat (map (be_bytes 4) [10, 20, 30, 40, 50]); has = (\<lambda>v. flat_pk_contains flat stride (be_bytes 4 v))
      in has 20 = Val True \<and> has 10 = Val True \<and> has 50 = Val True \<and> has 15 = Val False \<and> has 0 = Val False \<and>
         has 99 = Val False \<and> flat_pk_contains [] stride (be_bytes 4 10) = Val False)"

definition snapshot_memory_is_flat_not_per_vec :: bool where
  "snapshot_memory_is_flat_not_per_vec \<longleftrightarrow> passes (
     let n_records = 100; stride = 8; records = map (live_record 50) [1..int n_records]
     in rbind (ods_open (write_fdb [data_page 5 records])) (\<lambda>db.
        rbind (scan_changes db (make_cache [1]) 100 Map.empty) (\<lambda>out.
          case map_of (so_new_pks out) 1 of
            None \<Rightarrow> Panic
          | Some snapshot \<Rightarrow> Val (length snapshot = n_records * stride))))"

definition null_mask_zero_byte_encodes_value_not_null :: bool where
  "null_mask_zero_byte_encodes_value_not_null \<longleftrightarrow> passes (
     let v = 42; rec_buf = put_bytes 4 (le_bytes 4 (wrap 32 v)) (replicate 8 0); nb = null_bits rec_buf (null_byte id_slot)
     in rbind (write_field_binary rec_buf (slot_desc id_slot)) (\<lambda>out.
        rbind (slice out 4 8) (\<lambda>b.
          Val (nb = 0 \<and> \<not> has_flag nb (null_mask id_slot) \<and> length out = 8 \<and> signed_of 32 (be_nat b) = v))))"

definition build_slots_marks_columns_added_after_format_as_null :: bool where
  "build_slots_marks_columns_added_after_format_as_null \<longleftrightarrow>
     (let slots = build_slots [(0, lit ''a''), (1, lit ''b''), (5, lit ''added_later'')] [desc_long 4, desc_long 8, desc_long 12]
      in length slots = 3 \<and> dtype (slot_desc (slots ! 0)) = DTYPE_LONG \<and> dtype (slot_desc (slots ! 2)) = 0)"

definition scan_upsert_decodes_with_record_format_not_latest :: bool where
  "scan_upsert_decodes_with_record_format_not_latest \<longleftrightarrow> passes (
     let good = id_slot; bogus = \<lparr>slot_desc = desc_long 99, null_byte = 0, null_mask = 1\<rparr>;
         cache = \<lparr>tc_relation_id = 0, tc_slots = [bogus], tc_fmt_slots = (replicate 256 None)[0 := Some [good]],
           tc_col_names = [quoted (lit ''id'')], tc_pk_col_names = [quoted (lit ''id'')], tc_n_fields = 1, tc_n_pk = 1,
           tc_pk_indices = [Some 0], tc_first_pp = None, tc_pp_gen = 0, tc_data_pages = [1], tc_prev_pks = [],
           tc_pk_tracked = True, tc_pk_byte_len = 8\<rparr>
     in rbind (ods_open (write_fdb [data_page 5 [live_record 200 42]])) (\<lambda>db.
        rbind (scan_changes_into db cache 100 Map.empty) (\<lambda>out.
          let upserts = so_upsert_out out; needle = be_bytes 4 (wrap 32 42)
          in Val (so_upserts out = 1 \<and> list_ex (\<lambda>i. slice upserts i (i + 4) = Val needle) [0..<length upserts - 3]))))"

lemma fdb_pages_Cons: "data_page gen recs # fdb_pages ps = fdb_pages ((gen, recs) # ps)" "[] = fdb_pages []"
  by (simp_all add: fdb_pages_def)

definition long_stub :: bytes where
  "long_stub = put_bytes 10 (le_bytes 2 1025) (put_bytes 8 (le_bytes 2 0) (put_bytes 4 (le_bytes 4 2)
     (put_bytes 0 (le_bytes 4 101) (replicate 16 0)))) @ sqz (replicate 5 0)"

lemma records_not_empty [simp]:
  "live_record txn v \<noteq> []" "[] \<noteq> live_record txn v" "delete_stub_with_back txn p l \<noteq> []" "[] \<noteq> delete_stub_with_back txn p l"
  "[] \<noteq> fragment_record" "[] \<noteq> blob_record" "[] \<noteq> long_stub"
  by (simp_all add: live_record_def payload_i32_def delete_stub_with_back_def fragment_record_def blob_record_def
      long_stub_def sqz_def)

lemma length_other_records [simp]: "length fragment_record = 18" "length blob_record = 18" "length long_stub = 22"
  by (simp_all add: fragment_record_def blob_record_def long_stub_def sqz_def)

lemmas page_fits_simps = page_fits_def fits_def PAGE_SIZE_def live_reads(1) delete_reads(1) delete_old_stub

lemma cache_fields:
  "tc_data_pages (make_cache pages) = pages" "tc_pk_byte_len (make_cache pages) = 8" "tc_prev_pks (make_cache pages) = []"
  "tc_data_pages (make_cache pages\<lparr>tc_prev_pks := prev\<rparr>) = pages" "tc_pk_byte_len (make_cache pages\<lparr>tc_prev_pks := prev\<rparr>) = 8"
  by (simp_all add: make_cache_def)

lemmas scan_simps = scan_changes_def scan_changes_into_def cache_fields test_cache is_first_cycle_def scan_init_def scan_live
  live_turn_def delete_turn_def sort_known_keys Let_def

lemma delete_tests: "delete_on_unchanged_page_detected" "delete_and_upsert_different_pages_same_txn"
proof -
  let ?recs = "[delete_stub_with_back 101 1 1, live_record 50 42]"
  have turn: "scan_record (fdb ((7, ?recs) # ps)) c 100 ch rb (delete_stub_with_back 101 1 1) st =
      Val (delete_turn 100 101 (Some 42) (row_i32 42) st)"
    if "test_cache c" "\<forall>p \<in> set ps. page_fits p" for c ch rb st ps
  proof -
    have "\<forall>p \<in> set ((7, ?recs) # ps). page_fits p" using that(2) by (simp add: page_fits_simps)
    from fdb_slot [OF this, of 1 1]
    have "chain_follow MAX_CHAIN_DEPTH (fdb ((7, ?recs) # ps)) 1 1 buf = Val (Some 0, row_i32 42)" for buf
      by (intro chain_follow_live [of _ _ _ 50]) simp_all
    with that show ?thesis by (intro scan_delete_record) simp_all
  qed
  show "delete_on_unchanged_page_detected"
  proof -
    let ?ps = "[(7, ?recs)]"
    have fit: "\<forall>p \<in> set ?ps. page_fits p" by (simp add: page_fits_simps)
    have f: "[data_page 7 ?recs] = fdb_pages ?ps" by (simp add: fdb_pages_def)
    show ?thesis
      unfolding delete_on_unchanged_page_detected_def Let_def f fdb_open [OF fit] rbind.simps
      by (simp add: passes_def scan_simps scan_fdb_page [OF fit, unfolded One_nat_def] turn [unfolded One_nat_def])
  qed
  show "delete_and_upsert_different_pages_same_txn"
  proof -
    let ?ps = "[(7, ?recs), (8, [live_record 101 99])]"
    have fit: "\<forall>p \<in> set ?ps. page_fits p" by (simp add: page_fits_simps)
    have f: "[data_page 7 ?recs, data_page 8 [live_record 101 99]] = fdb_pages ?ps" by (simp add: fdb_pages_def)
    have "\<forall>p \<in> set [(8, [live_record 101 99])]. page_fits p" by (simp add: page_fits_simps)
    note turn = turn [OF _ this]
    show ?thesis
      unfolding delete_and_upsert_different_pages_same_txn_def Let_def f fdb_open [OF fit] rbind.simps
      by (simp add: passes_def scan_simps scan_fdb_page [OF fit, unfolded One_nat_def] turn [unfolded One_nat_def])
  qed
qed

lemma upsert_tests: "upsert_ignored_on_unchanged_page" "upsert_on_changed_page_detected"
proof -
  have fit: "\<forall>p \<in> set [(gen, [live_record 101 99])]. page_fits p" if "gen < 2 ^ 32" for gen
    using that by (simp add: page_fits_simps)
  have f: "[data_page gen [live_record 101 99]] = fdb_pages [(gen, [live_record 101 99])]" for gen by (simp add: fdb_pages_def)
  show "upsert_ignored_on_unchanged_page" "upsert_on_changed_page_detected"
    unfolding upsert_ignored_on_unchanged_page_def upsert_on_changed_page_detected_def Let_def f
    by (simp_all add: fdb_open [OF fit] scan_fdb_page [OF fit] passes_def scan_simps)
qed

lemma txn_tests: "old_txn_ignored" "max_txn_advances"
proof -
  let ?ps = "[(9, [delete_stub_old_txn 50])]"
  have fit: "\<forall>p \<in> set ?ps. page_fits p" by (simp add: page_fits_simps)
  have f: "[data_page 9 [delete_stub_old_txn 50]] = fdb_pages ?ps" by (simp add: fdb_pages_def)
  have "scan_record (fdb ?ps) c 100 ch rb (delete_stub_old_txn 50) st = Val (delete_turn 100 50 None [] st)" if "test_cache c" for c ch rb st
    unfolding delete_old_stub using that by (intro scan_delete_record) simp_all
  then show "old_txn_ignored"
    unfolding old_txn_ignored_def f by (simp add: fdb_open [OF fit] scan_fdb_page [OF fit] passes_def scan_simps)
next
  let ?ps = "[(10, [live_record 200 1, live_record 150 2])]"
  have fit: "\<forall>p \<in> set ?ps. page_fits p" by (simp add: page_fits_simps)
  have f: "[data_page 10 [live_record 200 1, live_record 150 2]] = fdb_pages ?ps" by (simp add: fdb_pages_def)
  show "max_txn_advances"
    unfolding max_txn_advances_def f by (simp add: fdb_open [OF fit] scan_fdb_page [OF fit] passes_def scan_simps)
qed

lemma gens_test: "new_gens_only_for_changed_pages"
proof -
  let ?ps = "[(7, [delete_stub_old_txn 50]), (9, [live_record 101 2])]"
  have fit: "\<forall>p \<in> set ?ps. page_fits p" by (simp add: page_fits_simps)
  have f: "[data_page 7 [delete_stub_old_txn 50], data_page 9 [live_record 101 2]] = fdb_pages ?ps" by (simp add: fdb_pages_def)
  have "scan_record (fdb ?ps) c 100 ch rb (delete_stub_old_txn 50) st = Val (delete_turn 100 50 None [] st)" if "test_cache c" for c ch rb st
    unfolding delete_old_stub using that by (intro scan_delete_record) simp_all
  then show ?thesis
    unfolding new_gens_only_for_changed_pages_def Let_def f
    by (simp add: fdb_open [OF fit] scan_fdb_page [OF fit] passes_def scan_simps)
qed

lemma long_stub_make: "long_stub = make_stub 101 2 0 1025 (sqz (replicate 5 0))"
proof -
  have "replicate (16 + length (sqz (replicate 5 0))) (0 :: byte) = replicate 16 0 @ replicate (length (sqz (replicate 5 0))) 0"
    by (simp add: replicate_add)
  then show ?thesis
    by (simp add: long_stub_def make_stub_def Let_def has_flag_def RHD_LONG_TRANUM_def put_bytes_known le_bytes_2)
      (simp add: replicate_known)
qed

lemma long_stub_reads:
  "length long_stub = 22" "rhd_flags long_stub = Val 1025" "has_flag 1025 RHD_DELETED"
  "record_transaction long_stub = Val (Some 101)" "byte_at long_stub 12 = Val 0"
  "unpack_record_cdc long_stub buf = Val (Some True, replicate 5 0)"
  "u32_at long_stub 4 = Val 2" "u16_at long_stub 8 = Val 0"
proof -
  have f: "\<not> has_flag 1025 (or RHD_FRAGMENT (or RHD_INCOMPLETE RHD_BLOB))" "\<not> has_flag 1025 RHD_NOT_PACKED"
    by (simp_all add: has_flag_def rhd_defs)
  show d: "has_flag 1025 RHD_DELETED" by (simp add: has_flag_def rhd_defs)
  show "length long_stub = 22" by (simp add: long_stub_def sqz_def)
  show "rhd_flags long_stub = Val 1025" unfolding long_stub_make by (rule stub_fields) simp_all
  show "record_transaction long_stub = Val (Some 101)" unfolding long_stub_make by (rule stub_reads) (use f in simp_all)
  show "byte_at long_stub 12 = Val 0" unfolding long_stub_make by (rule stub_reads) simp_all
  show "u32_at long_stub 4 = Val 2" unfolding long_stub_make by (rule stub_fields) simp_all
  show "u16_at long_stub 8 = Val 0" unfolding long_stub_make by (rule stub_fields) simp_all
  show "unpack_record_cdc long_stub buf = Val (Some True, replicate 5 0)"
    unfolding long_stub_make using f d
    by (subst unpack_stub [where rec = "replicate 5 0"]) (simp_all add: sqz_meaning_sqz, simp add: sqz_def)
qed

lemma long_stub_test: "delete_long_tranum_chain_follow_unchanged_page"
proof -
  let ?ps = "[(7, [long_stub]), (6, [live_record 50 42])]"
  have fit: "\<forall>p \<in> set ?ps. page_fits p" by (simp add: page_fits_simps)
  have f: "[data_page 7 [long_stub], data_page 6 [live_record 50 42]] = fdb_pages ?ps" by (simp add: fdb_pages_def)
  have stub: "put_bytes 10 (le_bytes 2 (or 1 1024)) (put_bytes 8 (le_bytes 2 0) (put_bytes 4 (le_bytes 4 2)
     (put_bytes 0 (le_bytes 4 101) (replicate 16 0)))) @ sqz (replicate 5 0) = long_stub"
    by (simp add: long_stub_def)
  have "chain_follow MAX_CHAIN_DEPTH (fdb ?ps) 2 0 buf = Val (Some 0, row_i32 42)" for buf
    by (rule chain_follow_live [of _ _ _ 50]) (simp_all add: fdb_slot [OF fit])
  then have turn: "scan_record (fdb ?ps) c 100 ch rb long_stub st = Val (delete_turn 100 101 (Some 42) (row_i32 42) st)"
    if "test_cache c" for c ch rb st
    by (intro scan_deleted [OF that _ long_stub_reads(2-8)]) (simp_all add: long_stub_reads(1))
  show ?thesis
    unfolding delete_long_tranum_chain_follow_unchanged_page_def Let_def stub f
    by (simp add: fdb_open [OF fit] scan_fdb_page [OF fit] turn passes_def scan_simps)
qed

lemma linked_reads:
  "length fragment_record = 18" "rhd_flags fragment_record = Val 6" "u32_at fragment_record 4 = Val 3"
  "u16_at fragment_record 8 = Val 0" "length blob_record = 18" "rhd_flags blob_record = Val 16"
proof -
  have m: "fragment_record = make_stub 50 3 0 6 (sqz (replicate 4 0))"
    by (simp add: stub_prefix has_flag_def rhd_defs fragment_record_def)
  show "rhd_flags fragment_record = Val 6" unfolding m by (rule stub_fields) simp_all
  show "u32_at fragment_record 4 = Val 3" unfolding m by (rule stub_fields) simp_all
  show "u16_at fragment_record 8 = Val 0" unfolding m by (rule stub_fields) simp_all
  show "length fragment_record = 18" "length blob_record = 18" by (simp_all add: fragment_record_def blob_record_def sqz_def)
  show "rhd_flags blob_record = Val 16"
    by (simp add: rhd_flags_def blob_record_def RHD_BLOB_def sqz_def put_bytes_known u16_at_def slice_def le_bytes_2 del: u16_at_Val)
qed

lemma chain_tests: "multi_level_chain_follow_through_fragment" "chain_follow_stops_on_non_chain_flags"
proof -
  note flags = has_flag_def rhd_defs
  have skip: "unpack_record_cdc fragment_record buf = Val (None, buf)" "unpack_record_cdc blob_record buf = Val (None, buf)" for buf
    by (simp_all add: unpack_record_cdc_def linked_reads flags del: rhd_flags_Val)
  {
    let ?ps = "[(7, [delete_stub_with_back 101 2 0]), (5, [fragment_record]), (5, [live_record 50 77])]"
    have fit: "\<forall>p \<in> set ?ps. page_fits p" by (simp add: page_fits_simps)
    have f: "[data_page 7 [delete_stub_with_back 101 2 0], data_page 5 [fragment_record], data_page 5 [live_record 50 77]] = fdb_pages ?ps"
      by (simp add: fdb_pages_def)
    have "chain_follow (Suc (Suc k)) (fdb ?ps) 2 0 buf = Val (Some 0, row_i32 77)" for k buf
      using live_reads [of 50 77]
      by (simp add: fdb_slot [OF fit] skip linked_reads flags del: rhd_flags_Val u16_at_Val u32_at_Val byte_at_Val)
    from this [of 6] have "chain_follow MAX_CHAIN_DEPTH (fdb ?ps) 2 0 buf = Val (Some 0, row_i32 77)" for buf
      by (simp add: MAX_CHAIN_DEPTH_def)
    then have turn: "scan_record (fdb ?ps) c 100 ch rb (delete_stub_with_back 101 2 0) st =
        Val (delete_turn 100 101 (Some 77) (row_i32 77) st)" if "test_cache c" for c ch rb st
      using that by (intro scan_delete_record) simp_all
    show "multi_level_chain_follow_through_fragment"
      unfolding multi_level_chain_follow_through_fragment_def Let_def f
      by (simp add: fdb_open [OF fit] scan_fdb_page [OF fit] turn passes_def scan_simps)
  }
  let ?ps = "[(7, [delete_stub_with_back 101 2 0]), (5, [blob_record])]"
  have fit: "\<forall>p \<in> set ?ps. page_fits p" by (simp add: page_fits_simps)
  have f: "[data_page 7 [delete_stub_with_back 101 2 0], data_page 5 [blob_record]] = fdb_pages ?ps" by (simp add: fdb_pages_def)
  have "chain_follow (Suc k) (fdb ?ps) 2 0 buf = Val (None, buf)" for k buf
    by (simp add: fdb_slot [OF fit] skip linked_reads flags del: rhd_flags_Val u16_at_Val u32_at_Val byte_at_Val)
  from this [of 7] have "chain_follow MAX_CHAIN_DEPTH (fdb ?ps) 2 0 buf = Val (None, buf)" for buf
    by (simp add: MAX_CHAIN_DEPTH_def)
  then have turn: "scan_record (fdb ?ps) c 100 ch rb (delete_stub_with_back 101 2 0) st =
      Val (delete_turn 100 101 None (replicate 4 0) st)" if "test_cache c" for c ch rb st
    using that by (intro scan_delete_record) simp_all
  show "chain_follow_stops_on_non_chain_flags"
    unfolding chain_follow_stops_on_non_chain_flags_def Let_def f
    by (simp add: fdb_open [OF fit] scan_fdb_page [OF fit] turn passes_def scan_simps)
qed

lemma key_i32_eq: "key_i32 v = key_i32 w \<longleftrightarrow> wrap 32 v = wrap 32 w"
proof
  assume "key_i32 v = key_i32 w"
  then have "be_bytes 4 (wrap 32 v) = be_bytes 4 (wrap 32 w)" by (simp add: key_i32_def len_field_def)
  then have "be_nat (be_bytes 4 (wrap 32 v)) = be_nat (be_bytes 4 (wrap 32 w))" by simp
  then show "wrap 32 v = wrap 32 w" using wrap_bound [of 32 v] wrap_bound [of 32 w] by (simp add: be_nat_be_bytes_id)
qed (simp add: key_i32_def)

lemma chunks_snap: "set (chunks 8 (snap_i32 vs)) = key_i32 ` set vs" "length (snap_i32 vs) = 8 * card (key_i32 ` set vs)"
proof -
  have "uniform 8 (sorted_list_of_set (set (map key_i32 vs)))" by (auto simp: uniform_def)
  then show "set (chunks 8 (snap_i32 vs)) = key_i32 ` set vs" "length (snap_i32 vs) = 8 * card (key_i32 ` set vs)"
    by (simp_all add: snap_i32_def chunks_concat length_concat_uniform)
qed

definition snaps :: "(nat \<times> int list) list \<Rightarrow> (nat \<times> bytes) list" where
  "snaps ps = map (\<lambda>(n, vs). (n, snap_i32 vs)) ps"

lemma express_live:
  assumes "distinct (map fst new)"
  shows "\<exists>gone. express_deletes 8 (snaps prev) (snaps new) = Val gone \<and> distinct gone \<and>
    set gone = key_i32 ` set (concat (map snd prev)) -
      key_i32 ` set (concat (map snd (new @ filter (\<lambda>p. fst p \<notin> set (map fst new)) prev)))"
proof -
  have w: "snap_whole 8 (snaps ps)" for ps by (auto simp: snap_whole_def snaps_def list_all_iff chunks_snap(2))
  have d: "distinct (map fst (snaps new))" using assms by (simp add: snaps_def case_prod_unfold comp_def)
  have k: "set (keys_of 8 (snaps ps)) = key_i32 ` set (concat (map snd ps))" for ps
    by (simp add: set_keys_of snaps_def image_UN case_prod_unfold chunks_snap)
  have "{p \<in> set (snaps prev). fst p \<notin> fst ` set (snaps new)} = set (snaps (filter (\<lambda>p. fst p \<notin> set (map fst new)) prev))"
  proof -
    have "fst ` set (snaps new) = set (map fst new)" by (simp add: snaps_def image_image case_prod_unfold)
    moreover have "filter (\<lambda>p. fst p \<notin> N) (snaps prev) = snaps (filter (\<lambda>p. fst p \<notin> N) prev)" for N
      by (simp add: snaps_def filter_map comp_def case_prod_unfold)
    ultimately show ?thesis by (metis set_filter)
  qed
  then have "set (advance_snapshot (snaps prev) (snaps new)) = set (snaps (new @ filter (\<lambda>p. fst p \<notin> set (map fst new)) prev))"
    unfolding set_advance [OF d] by (simp add: snaps_def)
  then have a: "set (keys_of 8 (advance_snapshot (snaps prev) (snaps new))) =
      set (keys_of 8 (snaps (new @ filter (\<lambda>p. fst p \<notin> set (map fst new)) prev)))"
    unfolding set_keys_of by simp
  obtain gone where g: "express_deletes 8 (snaps prev) (snaps new) = Val gone" "distinct gone"
    "set gone = set (keys_of 8 (snaps prev)) - set (keys_of 8 (advance_snapshot (snaps prev) (snaps new)))"
    using express_deletes_keys [of 8 "snaps prev" "snaps new"] w d by auto
  then show ?thesis by (intro exI [of _ gone] conjI g(1,2)) (simp only: g(3) a k)
qed

lemma express_snaps:
  assumes "distinct (map fst new)"
  shows "\<exists>gone. express_deletes 8 (snaps prev) (snaps new) = Val gone \<and> length gone =
    card (key_i32 ` set (concat (map snd prev)) -
      key_i32 ` set (concat (map snd (new @ filter (\<lambda>p. fst p \<notin> set (map fst new)) prev))))"
  using express_live [OF assms, of prev] distinct_card by metis

lemma express_test_diff: "express_delete_detected_via_pk_snapshot_diff"
proof -
  let ?ps = "[(7, [live_record 50 10, live_record 50 20])]" and ?qs = "[(8, [live_record 50 10])]"
  have fit: "\<forall>p \<in> set ?ps. page_fits p" "\<forall>p \<in> set ?qs. page_fits p" by (simp_all add: page_fits_simps)
  have f: "[data_page 7 [live_record 50 10, live_record 50 20]] = fdb_pages ?ps"
    "[data_page 8 [live_record 50 10]] = fdb_pages ?qs" by (simp_all add: fdb_pages_def)
  obtain gone where g: "express_deletes 8 [(1, snap_i32 [10, 20])] [(1, snap_i32 [10])] = Val gone" "length gone = 1"
    using express_snaps [of "[(1, [10])]" "[(1, [10, 20])]"] by (auto simp: snaps_def key_i32_eq wrap_def)
  show ?thesis
    unfolding express_delete_detected_via_pk_snapshot_diff_def f
    using g 
    by (simp add: fdb_open fit scan_fdb_page passes_def scan_simps next_gens_def next_cache_def put_page_def chunks_snap key_i32_eq wrap_def)
qed

lemma express_test_moved: "express_delete_skipped_when_pk_still_present_elsewhere"
proof -
  let ?ps = "[(7, [live_record 50 10, live_record 50 20]), (7, [])]" and ?qs = "[(8, [live_record 50 10]), (8, [live_record 50 20])]"
  have fit: "\<forall>p \<in> set ?ps. page_fits p" "\<forall>p \<in> set ?qs. page_fits p" by (simp_all add: page_fits_simps)
  have f: "[data_page 7 [live_record 50 10, live_record 50 20], data_page 7 []] = fdb_pages ?ps"
    "[data_page 8 [live_record 50 10], data_page 8 [live_record 50 20]] = fdb_pages ?qs" by (simp_all add: fdb_pages_def)
  obtain gone where g: "express_deletes 8 [(2, snap_i32 []), (1, snap_i32 [10, 20])] [(2, snap_i32 [20]), (1, snap_i32 [10])] = Val gone"
    "length gone = 0"
    using express_snaps [of "[(2, [20]), (1, [10])]" "[(2, []), (1, [10, 20])]"] by (auto simp: snaps_def)
  show ?thesis
    unfolding express_delete_skipped_when_pk_still_present_elsewhere_def Let_def f
    using g
    by (simp add: fdb_open fit scan_fdb_page passes_def scan_simps next_gens_def next_cache_def put_page_def)
qed

lemma express_test_pages: "express_delete_multi_page_no_false_positive"
proof -
  let ?ps = "[(7, [live_record 50 10]), (7, [live_record 50 20]), (7, [live_record 50 30])]"
    and ?qs = "[(8, [live_record 50 10]), (8, []), (8, [live_record 50 30])]"
  have fit: "\<forall>p \<in> set ?ps. page_fits p" "\<forall>p \<in> set ?qs. page_fits p" by (simp_all add: page_fits_simps)
  have f: "[data_page 7 [live_record 50 10], data_page 7 [live_record 50 20], data_page 7 [live_record 50 30]] = fdb_pages ?ps"
    "[data_page 8 [live_record 50 10], data_page 8 [], data_page 8 [live_record 50 30]] = fdb_pages ?qs" by (simp_all add: fdb_pages_def)
  obtain gone where g: "express_deletes 8 [(3, snap_i32 [30]), (2, snap_i32 [20]), (1, snap_i32 [10])]
      [(3, snap_i32 [30]), (2, snap_i32 []), (1, snap_i32 [10])] = Val gone" "length gone = 1"
    using express_snaps [of "[(3, [30]), (2, []), (1, [10])]" "[(3, [30]), (2, [20]), (1, [10])]"]
    by (auto simp: snaps_def key_i32_eq wrap_def)
  show ?thesis
    unfolding express_delete_multi_page_no_false_positive_def Let_def f
    using g
    by (simp add: fdb_open fit scan_fdb_page passes_def scan_simps next_gens_def next_cache_def put_page_def)
qed

lemma hdr_tests: "hdr_gen_readable_from_fdb" "hdr_gen_change_triggers_scan"
proof -
  have o: "ods_open (fdb_with_gen g) = Val \<lparr>mmap = fdb_with_gen g, page_size = PAGE_SIZE, ods_ver = 13\<rparr>"
    "page \<lparr>mmap = fdb_with_gen g, page_size = PAGE_SIZE, ods_ver = 13\<rparr> 0 = Val (fdb_with_gen g)"
    "g < 2 ^ 32 \<Longrightarrow> u32_at (fdb_with_gen g) 4 = Val g" for g
    by (simp_all add: ods_open_def page_def fdb_with_gen_def PAGE_SIZE_def ODS13_ENC_def image_read_simps slice_all
        del: u16_at_Val u32_at_Val)
  show "hdr_gen_change_triggers_scan"
    by (simp add: hdr_gen_change_triggers_scan_def passes_def o del: u32_at_Val)
  have "page (fdb []) 0 = Val (write_fdb [])" "4096 \<le> length (write_fdb [])"
    by (simp_all add: page_def fdb_def fdb_pages_def write_fdb_def PAGE_SIZE_def slice_all)
  then show "hdr_gen_readable_from_fdb"
    using fdb_open [of "[]"] by (simp add: hdr_gen_readable_from_fdb_def passes_def fdb_pages_def)
qed

lemma untracked_test: "missing_pk_index_not_tracked"
proof -
  let ?ps = "[(9, [delete_stub_with_back 101 (Suc 0) 0])]"
  have fit: "\<forall>p \<in> set ?ps. page_fits p" using delete_reads(1) [of 101 1 0] by (simp add: page_fits_simps)
  have f: "[data_page 9 [delete_stub_with_back 101 1 0]] = fdb_pages ?ps" by (simp add: fdb_pages_def)
  show ?thesis
    unfolding missing_pk_index_not_tracked_def Let_def f
    using delete_reads [of 101 1 0]
    by (simp add: fdb_open [OF fit] scan_fdb_page [OF fit] passes_def scan_changes_def scan_changes_into_def
        is_first_cycle_def scan_init_def scan_record_def scan_delete_def has_flag_def rhd_defs Let_def
        del: rhd_flags_Val byte_at_Val u16_at_Val u32_at_Val)
qed

lemma slot_tests: "pk_stride_computed_correctly" "build_slots_marks_columns_added_after_format_as_null"
  "null_mask_zero_byte_encodes_value_not_null"
proof -
  show "pk_stride_computed_correctly" "build_slots_marks_columns_added_after_format_as_null"
    by (simp_all add: pk_stride_computed_correctly_def pk_pgcopy_stride_def stride_slot_def payload_width_def Let_def
        build_slots_marks_columns_added_after_format_as_null_def build_slots_def desc_long_def default_zero_def dtype_defs)
  have r: "put_bytes 4 (le_bytes 4 (wrap 32 v)) (replicate 8 0) = row_i32 v" for v
    by (simp add: put_bytes_known row_i32_def)
  have "slice (key_i32 v) 4 8 = Val (be_bytes 4 (wrap 32 v))" for v by (simp add: key_i32_def len_field_def slice_def)
  then show "null_mask_zero_byte_encodes_value_not_null"
    by (simp add: null_mask_zero_byte_encodes_value_not_null_def passes_def r row_field Let_def has_flag_def)
      (simp add: id_slot_def row_field be_nat_be_bytes_id wrap_def signed_of_def)
qed

lemma flat_tests: "flat_pk_sort_dedup_works" "flat_pk_contains_binary_search"
proof -
  have u: "uniform 4 (map (be_bytes 4) vs)" for vs by (auto simp: uniform_def)
  have "sorted_list_of_set {be_bytes 4 3, be_bytes 4 1, be_bytes 4 2, be_bytes 4 1} = map (be_bytes 4) [1, 2, 3]"
    by (simp add: be_bytes_4 insert_Diff_if)
  then have "flat_pk_sort_dedup (concat (map (be_bytes 4) [3, 1, 2, 1])) 4 = Val (concat (map (be_bytes 4) [1, 2, 3]))"
    using flat_pk_sort_dedup_concat [OF u, of "[3, 1, 2, 1]"] by simp
  then show "flat_pk_sort_dedup_works"
    using chunks_concat [OF u, of "[1, 2, 3]"] by (simp add: flat_pk_sort_dedup_works_def passes_def be_nat_be_bytes_id)
  have "sorted (map (be_bytes 4) [10, 20, 30, 40, 50])" by (simp add: be_bytes_4)
  then have has: "flat_pk_contains (concat (map (be_bytes 4) [10, 20, 30, 40, 50])) 4 t =
      Val (t \<in> set (map (be_bytes 4) [10, 20, 30, 40, 50]))" for t
    by (intro flat_pk_contains_concat u) simp_all
  have none: "flat_pk_contains [] 4 t = Val False" for t
    using flat_pk_contains_concat [of 4 "[]" t] by (simp add: uniform_def)
  show "flat_pk_contains_binary_search"
    unfolding flat_pk_contains_binary_search_def Let_def has none by (simp add: be_bytes_4)
qed

lemma scan_lives:
  assumes "test_cache c" and "txn < 2 ^ 32" and "txn \<le> last_txn"
  shows "\<exists>st'. rfold (scan_record db c last_txn ch True) (map (live_record txn) vs) st = Val st' \<and>
    rs_page_pks st' = rs_page_pks st @ concat (map key_i32 vs)"
proof (induction vs arbitrary: st)
  case (Cons v vs)
  have "rs_page_pks (live_turn last_txn ch True txn v st) = rs_page_pks st @ key_i32 v"
    using assms(3) by (simp add: live_turn_def Let_def)
  then show ?case
    using Cons.IH [of "live_turn last_txn ch True txn v st"] by (simp add: scan_live [OF assms(1,2)])
qed simp

lemma snapshot_test: "snapshot_memory_is_flat_not_per_vec"
proof -
  let ?recs = "map (live_record 50) [1..100]"
  let ?ps = "[(5, ?recs)]"
  have "sum_list (map length ?recs) = 2200"
    by (simp add: comp_def live_reads(1) sum_list_triv)
  then have fit: "\<forall>p \<in> set ?ps. page_fits p" by (auto simp: page_fits_def fits_def PAGE_SIZE_def)
  have f: "[data_page 5 ?recs] = fdb_pages ?ps" by (simp add: fdb_pages_def)
  obtain st where st: "rfold (scan_record (fdb ?ps) (make_cache [1]) 100 True True) ?recs
      ((ps_rec (scan_init 100))\<lparr>rs_page_pks := []\<rparr>) = Val st" "rs_page_pks st = concat (map key_i32 [1..100])"
    using scan_lives [OF test_cache(2), of 50 100] by force
  have "inj_on key_i32 (set [1..100])" by (rule inj_onI) (simp add: key_i32_eq wrap_def, linarith)
  then have n: "length (snap_i32 [1..100]) = 800" by (simp add: chunks_snap card_image)
  show ?thesis
    unfolding snapshot_memory_is_flat_not_per_vec_def Let_def f of_nat_numeral
    by (simp add: fdb_open [OF fit] scan_fdb_page [OF fit] passes_def scan_changes_def scan_changes_into_def cache_fields
        st [unfolded One_nat_def] sort_keys put_page_def is_first_cycle_def n)
qed

lemma format_test: "scan_upsert_decodes_with_record_format_not_latest"
proof -
  let ?ps = "[(5, [live_record 200 42])]"
  have fit: "\<forall>p \<in> set ?ps. page_fits p" by (simp add: page_fits_simps)
  have f: "[data_page 5 [live_record 200 42]] = fdb_pages ?ps" by (simp add: fdb_pages_def)
  define c where "c = \<lparr>tc_relation_id = 0, tc_slots = [\<lparr>slot_desc = desc_long 99, null_byte = 0, null_mask = 1\<rparr>],
           tc_fmt_slots = (replicate 256 None)[0 := Some [id_slot]],
           tc_col_names = [quoted (lit ''id'')], tc_pk_col_names = [quoted (lit ''id'')], tc_n_fields = 1, tc_n_pk = 1,
           tc_pk_indices = [Some 0], tc_first_pp = None, tc_pp_gen = 0, tc_data_pages = [1], tc_prev_pks = [],
           tc_pk_tracked = True, tc_pk_byte_len = 8\<rparr>"
  have c: "test_cache c" "tc_data_pages c = [1]" "tc_pk_byte_len c = 8" "tc_prev_pks c = []"
    by (simp_all add: test_cache_def slots_for_def c_def)
  obtain out where o: "scan_changes_into (fdb ?ps) c 100 Map.empty = Val out" "so_upserts out = 1"
      "so_upsert_out out = pgcopy_header @ be_bytes 2 1 @ key_i32 42 @ pgcopy_trailer"
    by (simp add: scan_changes_into_def c is_first_cycle_def scan_init_def scan_fdb_page [OF fit] scan_live live_turn_def
        sort_known_keys Let_def)
  have h: "length pgcopy_header = 19" "length pgcopy_trailer = 2" by (simp_all add: pgcopy_header_def pgcopy_trailer_bytes)
  have "slice (pgcopy_header @ be_bytes 2 1 @ key_i32 42 @ pgcopy_trailer) 25 29 = Val (be_bytes 4 (wrap 32 42))"
    using h by (simp add: slice_def key_i32_def len_field_def)
  then have "list_ex (\<lambda>i. slice (so_upsert_out out) i (i + 4) = Val (be_bytes 4 (wrap 32 42))) [0..<length (so_upsert_out out) - 3]"
    unfolding list_ex_iff o(3) using h by (intro bexI [of _ 25]) simp_all
  then show ?thesis
    unfolding scan_upsert_decodes_with_record_format_not_latest_def Let_def f fdb_open [OF fit] rbind.simps c_def [symmetric]
    using o by (simp add: passes_def)
qed

section \<open>Files of live records\<close>

text \<open>
  The files of the tests in general: pages of live records, each page by its generation and its rows, each row
  by its transaction and its key. \<open>numbered\<close> gives the pages their numbers, which begin at 1;
  \<open>changed_pages\<close> are those whose generation is not the one kept, \<open>seen_pages\<close> those that are
  scanned for their keys, \<open>sent_rows\<close> the rows above the watermark on changed pages.
\<close>

type_synonym live_rows = "(nat \<times> int) list"

definition live_file :: "(nat \<times> live_rows) list \<Rightarrow> (nat \<times> bytes list) list" where
  "live_file ps = map (\<lambda>(gen, rows). (gen, map (\<lambda>(txn, v). live_record txn v) rows)) ps"

definition rows_fit :: "(nat \<times> live_rows) list \<Rightarrow> bool" where
  "rows_fit ps \<longleftrightarrow> (\<forall>(gen, rows) \<in> set ps. gen < 2 ^ 32 \<and> length rows \<le> 156 \<and> (\<forall>(txn, v) \<in> set rows. txn < 2 ^ 32))"

definition numbered :: "(nat \<times> live_rows) list \<Rightarrow> (nat \<times> nat \<times> live_rows) list" where
  "numbered ps = zip [1..<Suc (length ps)] ps"

definition changed_pages :: "(nat \<Rightarrow> nat option) \<Rightarrow> (nat \<times> nat \<times> live_rows) list \<Rightarrow> (nat \<times> nat \<times> live_rows) list" where
  "changed_pages gens ns = filter (\<lambda>(m, gen, rows). gens m \<noteq> Some gen) ns"

definition seen_pages :: "(nat \<Rightarrow> nat option) \<Rightarrow> bool \<Rightarrow> (nat \<times> nat \<times> live_rows) list \<Rightarrow> (nat \<times> nat \<times> live_rows) list" where
  "seen_pages gens first ns = filter (\<lambda>(m, gen, rows). gens m \<noteq> Some gen \<or> first) ns"

definition sent_rows :: "(nat \<Rightarrow> nat option) \<Rightarrow> nat \<Rightarrow> (nat \<times> nat \<times> live_rows) list \<Rightarrow> live_rows" where
  "sent_rows gens last_txn ns = filter (\<lambda>(txn, v). last_txn < txn) (concat (map (\<lambda>(m, gen, rows). rows) (changed_pages gens ns)))"

definition row_keys :: "(nat \<times> nat \<times> live_rows) list \<Rightarrow> (nat \<times> int list) list" where
  "row_keys ns = map (\<lambda>(m, gen, rows). (m, map snd rows)) ns"

definition row_stream :: "live_rows \<Rightarrow> bytes" where
  "row_stream rows = concat (map (\<lambda>(txn, v). be_bytes 2 1 @ key_i32 v) rows)"

definition txns :: "(nat \<times> nat \<times> live_rows) list \<Rightarrow> nat set" where
  "txns ns = (\<Union>(m, gen, rows) \<in> set ns. fst ` set rows)"

lemma live_file_fits: "rows_fit ps \<Longrightarrow> \<forall>p \<in> set (live_file ps). page_fits p"
proof
  fix p assume ps: "rows_fit ps" and "p \<in> set (live_file ps)"
  then obtain gen rows where p: "p = (gen, map (\<lambda>(txn, v). live_record txn v) rows)" "gen < 2 ^ 32" "length rows \<le> 156"
    "\<forall>(txn, v) \<in> set rows. txn < 2 ^ 32"
    by (auto simp: live_file_def rows_fit_def)
  have "map length (map (\<lambda>(txn, v). live_record txn v) rows) = map (\<lambda>x. 22) rows"
    using p(4) by (auto simp: live_reads(1))
  then have "sum_list (map length (map (\<lambda>(txn, v). live_record txn v) rows)) = 22 * length rows"
    by (simp only: sum_list_triv of_nat_id mult.commute)
  then show "page_fits p" using p by (auto simp: page_fits_def fits_def PAGE_SIZE_def)
qed

lemma live_rows_scan:
  assumes "test_cache c" and "\<forall>(txn, v) \<in> set rows. txn < 2 ^ 32" and "ch \<Longrightarrow> rb" and "last_txn \<le> rs_max_txn st"
  shows "\<exists>st'. rfold (scan_record db c last_txn ch rb) (map (\<lambda>(txn, v). live_record txn v) rows) st = Val st' \<and>
    rs_upsert_out st' = rs_upsert_out st @ (if ch then row_stream (filter (\<lambda>(txn, v). last_txn < txn) rows) else []) \<and>
    rs_upserts st' = rs_upserts st + (if ch then length (filter (\<lambda>(txn, v). last_txn < txn) rows) else 0) \<and>
    rs_delete_buf st' = rs_delete_buf st \<and> rs_deletes st' = rs_deletes st \<and>
    rs_max_txn st' = Max (insert (rs_max_txn st) (if rb then fst ` set rows else {})) \<and>
    rs_page_pks st' = rs_page_pks st @ (if rb then concat (map key_i32 (map snd rows)) else [])"
  using assms(2,4)
proof (induction rows arbitrary: st)
  case Nil
  then show ?case by (simp add: row_stream_def)
next
  case (Cons r rows)
  obtain txn v where r: "r = (txn, v)" by (cases r)
  let ?st = "live_turn last_txn ch rb txn v st"
  have t: "txn < 2 ^ 32" using Cons.prems(1) r by simp
  have f: "rs_upsert_out ?st = rs_upsert_out st @ (if ch \<and> last_txn < txn then be_bytes 2 1 @ key_i32 v else [])"
    "rs_upserts ?st = rs_upserts st + (if ch \<and> last_txn < txn then 1 else 0)"
    "rs_delete_buf ?st = rs_delete_buf st" "rs_deletes ?st = rs_deletes st"
    "rs_max_txn ?st = (if rb then max txn (rs_max_txn st) else rs_max_txn st)"
    "rs_page_pks ?st = rs_page_pks st @ (if rb then key_i32 v else [])"
    using assms(3) Cons.prems(2) by (auto simp: live_turn_def Let_def)
  have "\<exists>st'. rfold (scan_record db c last_txn ch rb) (map (\<lambda>(txn, v). live_record txn v) rows) ?st = Val st' \<and>
    rs_upsert_out st' = rs_upsert_out ?st @ (if ch then row_stream (filter (\<lambda>(txn, v). last_txn < txn) rows) else []) \<and>
    rs_upserts st' = rs_upserts ?st + (if ch then length (filter (\<lambda>(txn, v). last_txn < txn) rows) else 0) \<and>
    rs_delete_buf st' = rs_delete_buf ?st \<and> rs_deletes st' = rs_deletes ?st \<and>
    rs_max_txn st' = Max (insert (rs_max_txn ?st) (if rb then fst ` set rows else {})) \<and>
    rs_page_pks st' = rs_page_pks ?st @ (if rb then concat (map key_i32 (map snd rows)) else [])"
    using Cons.prems f(5) by (intro Cons.IH) auto
  then obtain st' where st': "rfold (scan_record db c last_txn ch rb) (map (\<lambda>(txn, v). live_record txn v) rows) ?st = Val st'"
    "rs_upsert_out st' = rs_upsert_out ?st @ (if ch then row_stream (filter (\<lambda>(txn, v). last_txn < txn) rows) else [])"
    "rs_upserts st' = rs_upserts ?st + (if ch then length (filter (\<lambda>(txn, v). last_txn < txn) rows) else 0)"
    "rs_delete_buf st' = rs_delete_buf ?st" "rs_deletes st' = rs_deletes ?st"
    "rs_max_txn st' = Max (insert (rs_max_txn ?st) (if rb then fst ` set rows else {}))"
    "rs_page_pks st' = rs_page_pks ?st @ (if rb then concat (map key_i32 (map snd rows)) else [])"
    by blast
  have m: "Max (insert (max txn a) A) = Max (insert a (insert txn A))" if "finite A" for a :: nat and A
    using that by (cases "A = {}") (simp_all add: max.commute max.left_commute)
  have "rfold (scan_record db c last_txn ch rb) (map (\<lambda>(txn, v). live_record txn v) (r # rows)) st = Val st'"
    using st'(1) by (simp add: r scan_live [OF assms(1) t])
  moreover have "rs_upsert_out st' = rs_upsert_out st @ (if ch then row_stream (filter (\<lambda>(txn, v). last_txn < txn) (r # rows)) else [])"
    unfolding st'(2) f(1) by (simp add: r row_stream_def)
  moreover have "rs_upserts st' = rs_upserts st + (if ch then length (filter (\<lambda>(txn, v). last_txn < txn) (r # rows)) else 0)"
    unfolding st'(3) f(2) by (simp add: r)
  moreover have "rs_max_txn st' = Max (insert (rs_max_txn st) (if rb then fst ` set (r # rows) else {}))"
    unfolding st'(6) f(5) using m [of "fst ` set rows" "rs_max_txn st"] by (simp add: r)
  moreover have "rs_page_pks st' = rs_page_pks st @ (if rb then concat (map key_i32 (map snd (r # rows))) else [])"
    unfolding st'(7) f(6) by (simp add: r)
  moreover have "rs_delete_buf st' = rs_delete_buf st" "rs_deletes st' = rs_deletes st" using st'(4,5) f(3,4) by simp_all
  ultimately show ?case by blast
qed

definition scanned :: "(nat \<Rightarrow> nat option) \<Rightarrow> bool \<Rightarrow> nat \<Rightarrow> (nat \<times> nat \<times> live_rows) list \<Rightarrow> page_state \<Rightarrow> bool" where
  "scanned gens first last_txn ns st \<longleftrightarrow>
     rs_upsert_out (ps_rec st) = pgcopy_header @ row_stream (sent_rows gens last_txn ns) \<and>
     rs_upserts (ps_rec st) = length (sent_rows gens last_txn ns) \<and>
     rs_delete_buf (ps_rec st) = pgcopy_header \<and> rs_deletes (ps_rec st) = 0 \<and>
     rs_max_txn (ps_rec st) = Max (insert last_txn (txns (seen_pages gens first ns))) \<and>
     ps_new_gens st = map_of (rev (map (\<lambda>(m, gen, rows). (m, gen)) (changed_pages gens ns))) \<and>
     ps_new_pks st = snaps (rev (row_keys (seen_pages gens first ns)))"

lemma finite_txns [simp]: "finite (txns ns)"
  by (auto simp: txns_def)

lemma numbered_take: "n < length ps \<Longrightarrow> take (Suc n) (numbered ps) = take n (numbered ps) @ [(Suc n, ps ! n)]"
  by (simp add: numbered_def take_Suc_conv_app_nth del: upt_Suc)

lemma numbered_fst: "fst ` set (take n (numbered ps)) \<subseteq> {1..n}"
proof -
  have "map fst (take n (numbered ps)) = take n [1..<Suc (length ps)]"
    by (simp add: numbered_def take_map [symmetric] del: upt_Suc)
  then have "fst ` set (take n (numbered ps)) = set (take n [1..<Suc (length ps)])" by (metis set_map)
  also have "\<dots> \<subseteq> {1..n}" by (auto simp: in_set_conv_nth simp del: upt_Suc)
  finally show ?thesis .
qed

lemma scanned_snoc:
  "changed_pages gens (ns @ [(m, gen, rows)]) = changed_pages gens ns @ (if gens m \<noteq> Some gen then [(m, gen, rows)] else [])"
  "seen_pages gens first (ns @ [(m, gen, rows)]) = seen_pages gens first ns @
     (if gens m \<noteq> Some gen \<or> first then [(m, gen, rows)] else [])"
  "sent_rows gens last_txn (ns @ [(m, gen, rows)]) = sent_rows gens last_txn ns @
     (if gens m \<noteq> Some gen then filter (\<lambda>(txn, v). last_txn < txn) rows else [])"
  "txns (ns @ ks) = txns ns \<union> txns ks" "txns [(m, gen, rows)] = fst ` set rows" "txns [] = {}"
  "row_stream (rows @ rows') = row_stream rows @ row_stream rows'" "row_stream [] = []"
  by (simp_all add: changed_pages_def seen_pages_def sent_rows_def txns_def row_stream_def)

lemma scanned_page:
  assumes "rows_fit ps" and "n < length ps" and "scanned gens first last_txn (take n (numbered ps)) st"
    and "test_cache c"
  shows "\<exists>st'. scan_cdc_page (fdb (live_file ps)) c last_txn gens first (Suc n) st = Val st' \<and>
    scanned gens first last_txn (take (Suc n) (numbered ps)) st'"
proof -
  let ?ns = "take n (numbered ps)" and ?m = "Suc n"
  obtain gen rows where p: "ps ! n = (gen, rows)" by (cases "ps ! n")
  have rows: "\<forall>(txn, v) \<in> set rows. txn < 2 ^ 32"
    using assms(1) nth_mem [OF assms(2)] p by (auto simp: rows_fit_def)
  have page: "live_file ps ! n = (gen, map (\<lambda>(txn, v). live_record txn v) rows)"
    using assms(2) p by (simp add: live_file_def)
  have size: "tc_pk_byte_len c = 8" using assms(4) by (simp add: test_cache_def)
  note st = assms(3) [unfolded scanned_def]
  let ?ch = "gens ?m \<noteq> Some gen" and ?rb = "gens ?m \<noteq> Some gen \<or> first"
  let ?rec = "(ps_rec st)\<lparr>rs_page_pks := []\<rparr>"
  have "last_txn \<le> rs_max_txn ?rec" using st by simp
  from live_rows_scan [OF assms(4) rows, of ?ch ?rb, OF _ this]
  obtain rs where rs: "rfold (scan_record (fdb (live_file ps)) c last_txn ?ch ?rb) (map (\<lambda>(txn, v). live_record txn v) rows) ?rec = Val rs"
    "rs_upsert_out rs = rs_upsert_out ?rec @ (if ?ch then row_stream (filter (\<lambda>(txn, v). last_txn < txn) rows) else [])"
    "rs_upserts rs = rs_upserts ?rec + (if ?ch then length (filter (\<lambda>(txn, v). last_txn < txn) rows) else 0)"
    "rs_delete_buf rs = rs_delete_buf ?rec" "rs_deletes rs = rs_deletes ?rec"
    "rs_max_txn rs = Max (insert (rs_max_txn ?rec) (if ?rb then fst ` set rows else {}))"
    "rs_page_pks rs = rs_page_pks ?rec @ (if ?rb then concat (map key_i32 (map snd rows)) else [])"
    by blast
  let ?st = "\<lparr>ps_rec = rs, ps_new_gens = (if ?ch then (ps_new_gens st)(?m := Some gen) else ps_new_gens st),
      ps_new_pks = (if ?rb then put_page ?m (snap_i32 (map snd rows)) (ps_new_pks st) else ps_new_pks st),
      ps_total = ps_total st + 1, ps_skipped = (if ?ch then ps_skipped st else ps_skipped st + 1)\<rparr>"
  have run: "scan_cdc_page (fdb (live_file ps)) c last_txn gens first ?m st = Val ?st"
    using scan_fdb_page [OF live_file_fits [OF assms(1)], of ?m c last_txn gens first st] assms(2) page size rs(1,7) sort_keys [of "map snd rows"]
    by (cases ?rb) (simp_all add: live_file_def)
  have old: "?m \<notin> fst ` set (ps_new_pks st)"
  proof -
    have "fst ` set (ps_new_pks st) \<subseteq> fst ` set ?ns"
      using st by (auto simp: snaps_def row_keys_def seen_pages_def image_iff split: prod.splits) force+
    then have "fst ` set (ps_new_pks st) \<subseteq> {1..n}" using numbered_fst by (rule order_trans)
    moreover have "?m \<notin> {1..n}" by simp
    ultimately show ?thesis by blast
  qed
  then have put: "put_page ?m f (ps_new_pks st) = (?m, f) # ps_new_pks st" for f
    by (auto simp: put_page_def image_iff intro!: filter_True)
  have "Max (insert (Max (insert last_txn A)) B) = Max (insert last_txn (A \<union> B))" if "finite A" "finite B" for A B
  proof (cases "B = {}")
    case False
    then show ?thesis
      using that Max_Un [of "insert last_txn A" B] Max_insert [of B "Max (insert last_txn A)"] by simp
  qed simp
  then have mx: "rs_max_txn rs = Max (insert last_txn (txns (seen_pages gens first ?ns) \<union> (if ?rb then fst ` set rows else {})))"
    using rs(6) st by simp
  have "scanned gens first last_txn (?ns @ [(?m, gen, rows)]) ?st"
    unfolding scanned_def scanned_snoc using rs mx st put
    by (auto simp: scanned_snoc snaps_def row_keys_def)
  then show ?thesis using run numbered_take [OF assms(2)] p by auto
qed

lemma scan_live_file:
  assumes "rows_fit ps" and "test_cache c" and "n \<le> length ps"
  shows "\<exists>st. rfold (scan_cdc_page (fdb (live_file ps)) c last_txn gens first) [1..<Suc n] (scan_init last_txn) = Val st \<and>
    scanned gens first last_txn (take n (numbered ps)) st"
  using assms(3)
proof (induction n)
  case 0
  show ?case by (simp add: scanned_def scan_init_def sent_rows_def changed_pages_def seen_pages_def row_stream_def txns_def snaps_def row_keys_def)
next
  case (Suc n)
  then obtain st where st: "rfold (scan_cdc_page (fdb (live_file ps)) c last_txn gens first) [1..<Suc n] (scan_init last_txn) = Val st"
    "scanned gens first last_txn (take n (numbered ps)) st" by auto
  obtain st' where "scan_cdc_page (fdb (live_file ps)) c last_txn gens first (Suc n) st = Val st'"
    "scanned gens first last_txn (take (Suc n) (numbered ps)) st'"
    using scanned_page [OF assms(1) _ st(2) assms(2)] Suc.prems by auto
  moreover have "[1..<Suc (Suc n)] = [1..<Suc n] @ [Suc n]" by simp
  ultimately show ?case using st(1) by (simp only: rfold_append) (simp del: upt_Suc)
qed


lemma numbered_distinct: "distinct (map fst (numbered ps))"
  by (simp add: numbered_def del: upt_Suc)

text \<open>
  C40. A database file made of pages of live records, the files of the unit tests for any number
  of pages and rows that fit them, any generations, transactions and keys, is read back by the scan: the file
  opens, and with any watermark, any generations kept from before and any key snapshot of an
  earlier file, the pass succeeds. The upsert stream holds exactly the rows above the watermark
  of the pages whose generation has changed, in the order of the file; the new watermark is the highest transaction seen; the
  new generations are those of the changed pages; the new snapshots hold the keys of every page that
  was scanned for its keys; and the deletes are, each once, the keys of the old snapshot that are neither on a
  scanned page nor in the old snapshot of a page that was not scanned.
\<close>

theorem scan_reads_live_files:
  assumes "rows_fit ps"
  shows "\<exists>db so gone. ods_open (write_fdb (fdb_pages (live_file ps))) = Val db \<and>
    scan_changes_into db ((make_cache [1..<Suc (length ps)])\<lparr>tc_prev_pks := snaps old\<rparr>) last_txn gens = Val so \<and>
    (let ns = numbered ps; sent = sent_rows gens last_txn ns; seen = seen_pages gens (old = []) ns in
     so_upsert_out so = pgcopy_header @ row_stream sent @ pgcopy_trailer \<and> so_upserts so = length sent \<and>
     so_max_txn so = Max (insert last_txn (txns seen)) \<and>
     so_new_gens so = map_of (rev (map (\<lambda>(m, gen, rows). (m, gen)) (changed_pages gens ns))) \<and>
     so_new_pks so = snaps (rev (row_keys seen)) \<and>
     so_delete_buf so = pgcopy_header @ concat (map (\<lambda>k. be_bytes 2 1 @ k) gone) @ pgcopy_trailer \<and>
     so_deletes so = length gone \<and> distinct gone \<and>
     set gone = key_i32 ` set (concat (map snd old)) -
       key_i32 ` set (concat (map snd (row_keys seen @ filter (\<lambda>p. fst p \<notin> set (map fst (row_keys seen))) old))))"
proof -
  let ?db = "fdb (live_file ps)" and ?ns = "numbered ps"
  let ?c = "(make_cache [1..<Suc (length ps)])\<lparr>tc_prev_pks := snaps old\<rparr>" and ?seen = "seen_pages gens (old = []) ?ns"
  have open_db: "ods_open (write_fdb (fdb_pages (live_file ps))) = Val ?db" by (rule fdb_open [OF live_file_fits [OF assms]])
  have first: "is_first_cycle ?c = (old = [])" unfolding is_first_cycle_def cache_fields by (simp add: snaps_def)
  have "take (length ps) ?ns = ?ns" by (simp add: numbered_def del: upt_Suc)
  then obtain st where st: "rfold (scan_cdc_page ?db ?c last_txn gens (is_first_cycle ?c)) (tc_data_pages ?c) (scan_init last_txn) = Val st"
    "scanned gens (old = []) last_txn ?ns st"
    using scan_live_file [OF assms test_cache(1), of "length ps"] unfolding cache_fields first by (metis order_refl)
  have new: "distinct (map fst (rev (row_keys ?seen)))"
  proof -
    have "map fst (row_keys ?seen) = map fst ?seen" by (simp add: row_keys_def case_prod_unfold comp_def)
    moreover have "distinct (map fst ?seen)"
      unfolding seen_pages_def using numbered_distinct by (rule distinct_map_filter)
    ultimately show ?thesis by (simp add: rev_map [symmetric])
  qed
  have keys: "set (concat (map snd (rev (row_keys ?seen) @ filter (\<lambda>p. fst p \<notin> set (map fst (rev (row_keys ?seen)))) old))) =
      set (concat (map snd (row_keys ?seen @ filter (\<lambda>p. fst p \<notin> set (map fst (row_keys ?seen))) old)))"
    by (simp add: rev_map)
  obtain gone where gone: "(if tc_pk_byte_len ?c > 0 \<and> \<not> is_first_cycle ?c \<and> ps_new_pks st \<noteq> []
            then express_deletes (tc_pk_byte_len ?c) (tc_prev_pks ?c) (ps_new_pks st) else Val []) = Val gone" "distinct gone"
    "set gone = key_i32 ` set (concat (map snd old)) -
       key_i32 ` set (concat (map snd (row_keys ?seen @ filter (\<lambda>p. fst p \<notin> set (map fst (row_keys ?seen))) old)))"
  proof (cases "old = [] \<or> ps_new_pks st = []")
    case True
    then have "old = [] \<or> row_keys ?seen = []" using st(2) by (auto simp: scanned_def snaps_def)
    then show ?thesis using that [of "[]"] True first by auto
  next
    case False
    then show ?thesis
      using express_live [OF new, of old] st(2) that first unfolding keys
      by (auto simp: cache_fields scanned_def)
  qed
  note after = st(2) [unfolded scanned_def]
  have one: "tc_n_pk ?c = 1" by (simp add: make_cache_def)
  let ?so = "\<lparr>so_upsert_out = rs_upsert_out (ps_rec st) @ pgcopy_trailer,
      so_delete_buf = rs_delete_buf (ps_rec st) @ concat (map (\<lambda>k. be_bytes 2 (tc_n_pk ?c) @ k) gone) @ pgcopy_trailer,
      so_upserts = rs_upserts (ps_rec st), so_deletes = rs_deletes (ps_rec st) + length gone,
      so_max_txn = rs_max_txn (ps_rec st), so_new_gens = ps_new_gens st, so_new_pks = ps_new_pks st,
      so_pages_total = ps_total st, so_pages_skipped = ps_skipped st, so_records_checked = rs_checked (ps_rec st),
      so_express_deletes = length gone\<rparr>"
  have run: "scan_changes_into ?db ?c last_txn gens = Val ?so"
    by (simp only: scan_changes_into_def st(1) rbind.simps gone(1) Let_def)
  have "so_upsert_out ?so = pgcopy_header @ row_stream (sent_rows gens last_txn ?ns) @ pgcopy_trailer"
    "so_upserts ?so = length (sent_rows gens last_txn ?ns)" "so_max_txn ?so = Max (insert last_txn (txns ?seen))"
    "so_new_gens ?so = map_of (rev (map (\<lambda>(m, gen, rows). (m, gen)) (changed_pages gens ?ns)))"
    "so_new_pks ?so = snaps (rev (row_keys ?seen))" "so_deletes ?so = length gone"
    "so_delete_buf ?so = pgcopy_header @ concat (map (\<lambda>k. be_bytes 2 1 @ k) gone) @ pgcopy_trailer"
    using after one by simp_all
  with open_db run gone(2,3) show ?thesis unfolding Let_def by blast
qed

definition one_page :: "(nat \<times> live_rows) list" where
  "one_page = [(7, [(101, 42), (50, 10)])]"

theorem scan_reads_live_files_witness:
  "\<exists>db so. rows_fit one_page \<and>
    ods_open (write_fdb (fdb_pages (live_file one_page))) = Val db \<and>
    scan_changes_into db ((make_cache [1..<Suc (length one_page)])\<lparr>tc_prev_pks := snaps [(1, [10, 20])]\<rparr>)
      100 [1 \<mapsto> 6] = Val so \<and>
    so_upsert_out so = pgcopy_header @ be_bytes 2 1 @ key_i32 42 @ pgcopy_trailer \<and> so_max_txn so = 101 \<and> so_deletes so = 1"
proof -
  let ?ps = one_page and ?old = "[(1 :: nat, [10, 20 :: int])]"
  have fit: "rows_fit ?ps" by (simp add: rows_fit_def one_page_def)
  have ns: "numbered ?ps = [(1, 7, [(101, 42), (50, 10)])]" by (simp add: numbered_def one_page_def)
  have seen: "seen_pages [1 \<mapsto> 6] (?old = []) (numbered ?ps) = [(1, 7, [(101, 42), (50, 10)])]"
    "sent_rows [1 \<mapsto> 6] 100 (numbered ?ps) = [(101, 42)]"
    unfolding ns by (simp_all add: seen_pages_def sent_rows_def changed_pages_def)
  obtain db so gone where *: "ods_open (write_fdb (fdb_pages (live_file ?ps))) = Val db"
    "scan_changes_into db ((make_cache [1..<Suc (length ?ps)])\<lparr>tc_prev_pks := snaps ?old\<rparr>) 100 [1 \<mapsto> 6] = Val so"
    "so_upsert_out so = pgcopy_header @ row_stream [(101, 42)] @ pgcopy_trailer"
    "so_max_txn so = Max (insert 100 (txns [(1, 7, [(101, 42), (50, 10)])]))" "so_deletes so = length gone" "distinct gone"
    "set gone = key_i32 ` set (concat (map snd ?old)) - key_i32 ` set (concat (map snd
       (row_keys [(1, 7, [(101, 42), (50, 10)])] @ filter (\<lambda>p. fst p \<notin> set (map fst (row_keys [(1, 7, [(101, 42), (50, 10)])]))) ?old)))"
    using scan_reads_live_files [OF fit, of ?old 100 "[1 \<mapsto> 6]"] unfolding Let_def seen
    by (elim exE conjE) (erule that, assumption+)
  have "set gone = {key_i32 20}" using *(7) by (auto simp: row_keys_def key_i32_eq wrap_def)
  then have "length gone = 1" using distinct_card [OF *(6)] by simp
  then have "so_deletes so = 1" using *(5) by simp
  moreover have "so_upsert_out so = pgcopy_header @ be_bytes 2 1 @ key_i32 42 @ pgcopy_trailer"
    using *(3) by (simp add: row_stream_def)
  moreover have "so_max_txn so = 101" using *(4) by (simp add: txns_def)
  ultimately show ?thesis using fit *(1,2) by blast
qed

end
